(* ===== verification/Lwip_Prelude.thy ===== *)
theory Lwip_Prelude
  imports Main "HOL-Library.Word"
begin

text \<open>
  Shared vocabulary of the development: the C integer types of
  \<^verbatim>\<open>arch/cc.h\<close>, pointers, the byte memory, the error codes of
  \<^verbatim>\<open>lwip/err.h\<close>, unsigned arithmetic with its wrap-around written out, and the generic
  lemmas and lemma collections the component theories use.

  Conventions used throughout.
  \<^item> A pointer is a natural number and \<open>NULL\<close> is 0.
  \<^item> A C function that can loop forever or dereference a dead object returns an
    \<open>option\<close>: \<open>None\<close> stands for "does not return normally"; a total-correctness
    statement therefore says that the result is \<open>Some\<close>.
  \<^item> \<open>LWIP_ASSERT\<close> only prints on this port (\<^verbatim>\<open>arch/cc.h\<close>:
    \<^verbatim>\<open>LWIP_PLATFORM_ASSERT(x) printf(x)\<close>), so it is no branch of the model; \<open>LWIP_ERROR\<close>
    runs its handler and is one.
\<close>

unbundle bit_operations_syntax

subsection \<open>Types\<close>

type_synonym u8 = "8 word"
type_synonym u16 = "16 word"
type_synonym u32 = "32 word"
type_synonym u64 = "64 word"
type_synonym ptr = nat

abbreviation (input) NULL :: ptr where "NULL \<equiv> 0"

datatype err_t =
    ERR_OK | ERR_MEM | ERR_BUF | ERR_TIMEOUT | ERR_RTE | ERR_INPROGRESS | ERR_VAL
  | ERR_WOULDBLOCK | ERR_USE | ERR_ISCONN | ERR_ABRT | ERR_RST | ERR_CLSD | ERR_CONN
  | ERR_ARG | ERR_IF

subsection \<open>Lemma collections\<close>

named_theorems model_defs \<open>definitions of the C operations, for evaluation and unfolding\<close>
named_theorems inv_intros \<open>preservation lemmas of the component invariants\<close>

subsection \<open>Unsigned arithmetic with its wrap-around\<close>

text \<open>Assignment to a \<open>u16_t\<close> keeps the low 16 bits.\<close>

definition to_u16 :: "nat \<Rightarrow> nat" where
  "to_u16 n = n mod 65536"

definition to_u8 :: "nat \<Rightarrow> nat" where
  "to_u8 n = n mod 256"

text \<open>Unsigned subtraction at width \<open>w\<close>.\<close>

definition usub :: "nat \<Rightarrow> nat \<Rightarrow> nat \<Rightarrow> nat" where
  "usub w a b = nat ((int a - int b) mod 2 ^ w)"

lemma usub_le: "b \<le> a \<Longrightarrow> a < 2 ^ w \<Longrightarrow> usub w a b = a - b"
  unfolding usub_def by (simp add: of_nat_diff [symmetric] nat_mod_distrib del: of_nat_diff)

lemma usub_self [simp]: "usub w a a = 0"
  by (simp add: usub_def)

lemma to_u16_id [simp]: "n < 65536 \<Longrightarrow> to_u16 n = n"
  by (simp add: to_u16_def)

lemma to_u16_less [simp]: "to_u16 n < 65536"
  by (simp add: to_u16_def)

lemma to_u16_le: "to_u16 n \<le> n"
  by (simp add: to_u16_def)

lemma to_u8_id [simp]: "n < 256 \<Longrightarrow> to_u8 n = n"
  by (simp add: to_u8_def)

lemma to_u8_less [simp]: "to_u8 n < 256"
  by (simp add: to_u8_def)

subsection \<open>Words\<close>

lemma unat_u8_less [simp]: "unat (x :: u8) < 256"
  using unsigned_less [of x] by simp

lemma unat_u16_less [simp]: "unat (x :: u16) < 65536"
  using unsigned_less [of x] by simp

lemma unat_u32_less [simp]: "unat (x :: u32) < 4294967296"
  using unsigned_less [of x] by simp

lemma unat_of_nat_u8: "n < 256 \<Longrightarrow> unat (word_of_nat n :: u8) = n"
  by (simp add: unsigned_of_nat take_bit_nat_eq_self)

lemma unat_of_nat_u16: "n < 65536 \<Longrightarrow> unat (word_of_nat n :: u16) = n"
  by (simp add: unsigned_of_nat take_bit_nat_eq_self)

lemma unat_of_nat_u32: "n < 4294967296 \<Longrightarrow> unat (word_of_nat n :: u32) = n"
  by (simp add: unsigned_of_nat take_bit_nat_eq_self)

lemma masks: "(0xff::'a::len word) = mask 8" "(0xffff::'a::len word) = mask 16"
  by (simp_all add: mask_eq_exp_minus_1)

lemma unat_and_mask: "unat (w AND mask n) = unat w mod 2 ^ n" for w :: "'a::len word"
proof -
  have "unat (w AND mask n) = take_bit n (unat w)" unfolding take_bit_eq_mask [symmetric] by (rule unsigned_take_bit_eq)
  then show ?thesis by (simp add: take_bit_eq_mod)
qed

lemma unat_drop: "unat (drop_bit n w) = unat w div 2 ^ n" for w :: "'a::len word"
proof -
  have "unat (drop_bit n w) = drop_bit n (unat w)" by (rule unat_drop_bit_eq)
  then show ?thesis by (simp add: drop_bit_eq_div)
qed

lemma unat_push: "unat w * 2 ^ n < 2 ^ LENGTH('a) \<Longrightarrow> unat (push_bit n w) = unat w * 2 ^ n" for w :: "'a::len word"
proof -
  assume a: "unat w * 2 ^ n < 2 ^ LENGTH('a)"
  have "unat (push_bit n w) = take_bit LENGTH('a) (push_bit n (unat w))" by (rule unsigned_push_bit_eq)
  then show ?thesis using a by (simp add: push_bit_eq_mult take_bit_eq_mod)
qed

lemma or_as_add: "(\<And>k. bit a k \<Longrightarrow> bit b k \<Longrightarrow> False) \<Longrightarrow> a OR b = a + b" for a b :: "'a::len word"
  by (rule disjunctive_add [symmetric]) blast

lemma unat_low_byte: "unat (ucast (w :: u32) :: u8) = unat w mod 256" "unat (ucast (v :: u16) :: u8) = unat v mod 256"
  by (simp_all add: unsigned_ucast_eq take_bit_eq_mod)

lemma word_ofI: "unat x = n \<Longrightarrow> x = word_of_nat n" for x :: "'a::len word"
  by auto

lemma unat_not: "unat (NOT x) = 65535 - unat x" for x :: u16
proof -
  have "NOT x = - 1 - x" by (simp add: not_eq_complement)
  then show ?thesis by (simp add: unat_sub unsigned_minus_1_eq_mask mask_eq_exp_minus_1)
qed

end
