(* ===== verification/Pqueue.thy ===== *)
theory Pqueue
  imports Lwip_Prelude
begin

text \<open>
  The packet queue of the Ethernet port, \<^verbatim>\<open>contrib/ports/riscv/netif/pqueue.c\<close>: a ring
  buffer of \<open>PQ_QUEUE_SIZE\<close> entries, each a pbuf pointer and the DMA descriptor bit it came
  from.  Taking an entry out is split over two calls: \<open>pq_dequeue\<close> returns the oldest pointer
  and leaves the queue as it is, \<open>pq_qindex\<close> returns the descriptor bit and removes the entry.
  The theory shows that the ring buffer implements a bounded first-in first-out list.
\<close>

definition PQ_QUEUE_SIZE :: nat where
  "PQ_QUEUE_SIZE = 8"

definition NUM_QUEUES :: nat where
  "NUM_QUEUES = 2"

record pq_queue_t =
  pq_data :: "ptr list"
  pq_index :: "int list"
  pq_head :: nat
  pq_tail :: nat
  pq_len :: nat

text \<open>The static array of queues and the static counter of \<open>pq_create_queue\<close>.\<close>

record pq_static =
  pq_queue :: "pq_queue_t list"
  pq_i :: nat

definition pq_create_queue :: "pq_static \<Rightarrow> pq_static \<times> nat option" where
  "pq_create_queue s =
     (if pq_i s \<ge> NUM_QUEUES then (s, None)
      else let q = pq_i s;
               s1 = s\<lparr>pq_i := q + 1\<rparr>;
               s2 = s1\<lparr>pq_queue := (pq_queue s1)[q := (pq_queue s1 ! q)\<lparr>pq_head := 0, pq_tail := 0, pq_len := 0\<rparr>]\<rparr>
           in (s2, Some q))"

definition pq_enqueue :: "pq_queue_t \<Rightarrow> ptr \<Rightarrow> int \<Rightarrow> pq_queue_t \<times> int" where
  "pq_enqueue q p idx =
     (if pq_len q = PQ_QUEUE_SIZE then (q, -1)
      else (q\<lparr>pq_data := (pq_data q)[pq_head q := p],
              pq_index := (pq_index q)[pq_head q := idx],
              pq_head := (pq_head q + 1) mod PQ_QUEUE_SIZE,
              pq_len := pq_len q + 1\<rparr>, 0))"

definition pq_dequeue :: "pq_queue_t \<Rightarrow> ptr" where
  "pq_dequeue q = (if pq_len q = 0 then NULL else pq_data q ! pq_tail q)"

definition pq_qindex :: "pq_queue_t \<Rightarrow> pq_queue_t \<times> int" where
  "pq_qindex q =
     (if pq_len q = 0 then (q, 0)
      else (q\<lparr>pq_tail := (pq_tail q + 1) mod PQ_QUEUE_SIZE, pq_len := pq_len q - 1\<rparr>,
            pq_index q ! pq_tail q))"

definition pq_qlength :: "pq_queue_t \<Rightarrow> nat" where
  "pq_qlength q = pq_len q"

lemmas pq_defs [model_defs] =
  pq_create_queue_def pq_enqueue_def pq_dequeue_def pq_qindex_def pq_qlength_def
  PQ_QUEUE_SIZE_def NUM_QUEUES_def

subsection \<open>Invariant and abstraction\<close>

definition pq_inv :: "pq_queue_t \<Rightarrow> bool" where
  "pq_inv q \<longleftrightarrow>
     length (pq_data q) = PQ_QUEUE_SIZE \<and> length (pq_index q) = PQ_QUEUE_SIZE \<and>
     pq_len q \<le> PQ_QUEUE_SIZE \<and> pq_tail q < PQ_QUEUE_SIZE \<and>
     pq_head q = (pq_tail q + pq_len q) mod PQ_QUEUE_SIZE"

definition pq_slot :: "pq_queue_t \<Rightarrow> nat \<Rightarrow> nat" where
  "pq_slot q k = (pq_tail q + k) mod PQ_QUEUE_SIZE"

text \<open>The queue's contents, oldest entry first.\<close>

definition pq_list :: "pq_queue_t \<Rightarrow> (ptr \<times> int) list" where
  "pq_list q = map (\<lambda>k. (pq_data q ! pq_slot q k, pq_index q ! pq_slot q k)) [0..<pq_len q]"

lemma pq_slot_inj:
  assumes "pq_inv q" and "k < pq_len q"
  shows "pq_slot q k \<noteq> pq_head q \<or> pq_len q = PQ_QUEUE_SIZE"
  using assms by (auto simp: pq_inv_def pq_slot_def PQ_QUEUE_SIZE_def mod_if split: if_splits)

lemma pq_list_enqueue:
  assumes "pq_inv q" and "pq_len q < PQ_QUEUE_SIZE"
  shows "pq_list (fst (pq_enqueue q p i)) = pq_list q @ [(p, i)]"
proof -
  have old: "(pq_data q)[pq_head q := p] ! pq_slot q k = pq_data q ! pq_slot q k \<and>
             (pq_index q)[pq_head q := i] ! pq_slot q k = pq_index q ! pq_slot q k"
    if "k < pq_len q" for k
    using pq_slot_inj [OF assms(1) that] assms(2) by simp
  have new: "pq_slot q (pq_len q) = pq_head q" "pq_head q < PQ_QUEUE_SIZE"
    using assms by (auto simp: pq_inv_def pq_slot_def PQ_QUEUE_SIZE_def)
  show ?thesis
    using assms old new
    by (auto simp: pq_list_def pq_enqueue_def pq_slot_def pq_inv_def intro!: map_cong)
qed

lemma pq_list_qindex:
  assumes "pq_inv q" and "pq_len q > 0"
  shows "pq_list (fst (pq_qindex q)) = tl (pq_list q)"
  using assms
  by (auto simp: pq_list_def pq_qindex_def pq_slot_def PQ_QUEUE_SIZE_def mod_simps
      list_eq_iff_nth_eq nth_tl)

lemma pq_list_Nil [simp]: "pq_list q = [] \<longleftrightarrow> pq_len q = 0"
  by (simp add: pq_list_def)

lemma length_pq_list [simp]: "length (pq_list q) = pq_len q"
  by (simp add: pq_list_def)

lemma pq_front:
  assumes "pq_inv q" and "pq_len q > 0"
  shows "hd (pq_list q) = (pq_dequeue q, snd (pq_qindex q))"
  using assms by (simp add: pq_list_def pq_dequeue_def pq_qindex_def pq_slot_def pq_inv_def hd_map)

lemma pq_inv_enqueue [inv_intros]: "pq_inv q \<Longrightarrow> pq_inv (fst (pq_enqueue q p i))"
  by (auto simp: pq_inv_def pq_enqueue_def PQ_QUEUE_SIZE_def mod_simps)

lemma pq_inv_qindex [inv_intros]: "pq_inv q \<Longrightarrow> pq_inv (fst (pq_qindex q))"
  by (cases "pq_len q") (auto simp: pq_inv_def pq_qindex_def PQ_QUEUE_SIZE_def mod_simps)

subsection \<open>The interface: a bounded first-in first-out queue\<close>

text \<open>
  What a client of a packet queue relies on.  The abstraction is the list of entries; an
  insertion into a full queue is refused and changes nothing.
\<close>

locale bounded_fifo =
  fixes invar :: "'q \<Rightarrow> bool"
    and entries :: "'q \<Rightarrow> 'a list"
    and capacity :: nat
    and put :: "'q \<Rightarrow> 'a \<Rightarrow> 'q \<times> bool"
    and front :: "'q \<Rightarrow> 'a"
    and pop :: "'q \<Rightarrow> 'q"
  assumes put_room: "invar q \<Longrightarrow> length (entries q) < capacity \<Longrightarrow>
      entries (fst (put q x)) = entries q @ [x] \<and> snd (put q x)"
    and put_full: "invar q \<Longrightarrow> length (entries q) \<ge> capacity \<Longrightarrow>
      fst (put q x) = q \<and> \<not> snd (put q x)"
    and front_entries: "invar q \<Longrightarrow> entries q \<noteq> [] \<Longrightarrow> front q = hd (entries q)"
    and pop_entries: "invar q \<Longrightarrow> entries (pop q) = tl (entries q)"
    and bounded: "invar q \<Longrightarrow> length (entries q) \<le> capacity"
    and invar_put: "invar q \<Longrightarrow> invar (fst (put q x))"
    and invar_pop: "invar q \<Longrightarrow> invar (pop q)"
begin

fun put_all :: "'q \<Rightarrow> 'a list \<Rightarrow> 'q" where
  "put_all q [] = q"
| "put_all q (x # xs) = put_all (fst (put q x)) xs"

fun drain :: "nat \<Rightarrow> 'q \<Rightarrow> 'a list" where
  "drain 0 q = []"
| "drain (Suc n) q = front q # drain n (pop q)"

lemma put_all_entries:
  "invar q \<Longrightarrow> invar (put_all q xs) \<and>
     entries (put_all q xs) = take capacity (entries q @ xs)"
proof (induction xs arbitrary: q)
  case Nil
  then show ?case using bounded [of q] by simp
next
  case (Cons x xs)
  show ?case
  proof (cases "length (entries q) < capacity")
    case True
    then show ?thesis
      using Cons.IH [of "fst (put q x)"] Cons.prems put_room [of q x] invar_put [of q x]
      by simp
  next
    case False
    then show ?thesis
      using Cons.IH [of q] Cons.prems put_full [of q x] bounded [of q] by simp
  qed
qed

lemma drain_entries:
  "invar q \<Longrightarrow> n \<le> length (entries q) \<Longrightarrow> drain n q = take n (entries q)"
proof (induction n arbitrary: q)
  case 0
  then show ?case by simp
next
  case (Suc n)
  then have "entries q \<noteq> []" by auto
  then obtain y ys where e: "entries q = y # ys" by (cases "entries q") auto
  show ?case
    using Suc.IH [of "pop q"] Suc.prems invar_pop [of q] pop_entries [of q] front_entries [of q] e
    by simp
qed

lemma fifo_order:
  assumes "invar q" and "length (entries q) + length xs \<le> capacity"
  shows "drain (length (entries q) + length xs) (put_all q xs) = entries q @ xs"
  using assms put_all_entries [of q xs] drain_entries [of "put_all q xs"] by simp

end

definition pq_put :: "pq_queue_t \<Rightarrow> ptr \<times> int \<Rightarrow> pq_queue_t \<times> bool" where
  "pq_put q e = (let (q', r) = pq_enqueue q (fst e) (snd e) in (q', r = 0))"

definition pq_front_entry :: "pq_queue_t \<Rightarrow> ptr \<times> int" where
  "pq_front_entry q = (pq_dequeue q, snd (pq_qindex q))"

definition pq_pop :: "pq_queue_t \<Rightarrow> pq_queue_t" where
  "pq_pop q = fst (pq_qindex q)"

interpretation pq: bounded_fifo pq_inv pq_list PQ_QUEUE_SIZE pq_put pq_front_entry pq_pop
proof
  fix q :: pq_queue_t and x :: "ptr \<times> int"
  assume inv: "pq_inv q"
  show "pq_list (fst (pq_put q x)) = pq_list q @ [x] \<and> snd (pq_put q x)"
    if "length (pq_list q) < PQ_QUEUE_SIZE"
    using inv that pq_list_enqueue [of q "fst x" "snd x"]
    by (auto simp: pq_put_def pq_enqueue_def)
  show "fst (pq_put q x) = q \<and> \<not> snd (pq_put q x)" if "PQ_QUEUE_SIZE \<le> length (pq_list q)"
    using inv that by (auto simp: pq_put_def pq_enqueue_def pq_inv_def)
  show "pq_front_entry q = hd (pq_list q)" if "pq_list q \<noteq> []"
    using inv that pq_front [of q] by (simp add: pq_front_entry_def)
  show "pq_list (pq_pop q) = tl (pq_list q)"
    using inv pq_list_qindex [of q] by (cases "pq_len q = 0") (auto simp: pq_pop_def pq_qindex_def pq_list_def)
  show "length (pq_list q) \<le> PQ_QUEUE_SIZE"
    using inv by (simp add: pq_inv_def)
  show "pq_inv (fst (pq_put q x))"
    using inv pq_inv_enqueue [of q "fst x" "snd x"] by (auto simp: pq_put_def split: prod.splits)
  show "pq_inv (pq_pop q)"
    using inv pq_inv_qindex [of q] by (simp add: pq_pop_def)
qed

subsection \<open>Interleaved producers and consumers\<close>

text \<open>
  The interrupt handler puts entries in with \<open>pq_enqueue\<close>; the main loop takes one out with
  \<open>pq_dequeue\<close> followed by \<open>pq_qindex\<close>.  A run is any interleaving of the two.
\<close>

datatype pq_op = Enq ptr int | Take

datatype pq_res = Enqueued int | Taken ptr int

fun pq_run :: "pq_queue_t \<Rightarrow> pq_op list \<Rightarrow> pq_res list" where
  "pq_run q [] = []"
| "pq_run q (Enq p i # ops) = (let (q', r) = pq_enqueue q p i in Enqueued r # pq_run q' ops)"
| "pq_run q (Take # ops) =
     (let p = pq_dequeue q; (q', i) = pq_qindex q in Taken p i # pq_run q' ops)"

text \<open>The abstract run, on a list of at most \<open>PQ_QUEUE_SIZE\<close> entries.\<close>

fun fifo_run :: "(ptr \<times> int) list \<Rightarrow> pq_op list \<Rightarrow> pq_res list" where
  "fifo_run es [] = []"
| "fifo_run es (Enq p i # ops) =
     (if length es < PQ_QUEUE_SIZE then Enqueued 0 # fifo_run (es @ [(p, i)]) ops
      else Enqueued (-1) # fifo_run es ops)"
| "fifo_run [] (Take # ops) = Taken NULL 0 # fifo_run [] ops"
| "fifo_run ((p, i) # es) (Take # ops) = Taken p i # fifo_run es ops"

lemma pq_run_fifo: "pq_inv q \<Longrightarrow> pq_run q ops = fifo_run (pq_list q) ops"
proof (induction q ops rule: pq_run.induct)
  case (1 q)
  show ?case by simp
next
  case (2 q p i ops)
  obtain q' r where e: "pq_enqueue q p i = (q', r)" by fastforce
  have inv: "pq_inv q'" using pq_inv_enqueue [OF 2(2), of p i] e by simp
  have "pq_list q' = pq_list q @ [(p, i)] \<and> r = 0" if "length (pq_list q) < PQ_QUEUE_SIZE"
    using pq.put_room [OF 2(2), of "(p, i)"] that e by (auto simp: pq_put_def pq_enqueue_def split: if_splits)
  moreover have "q' = q \<and> r = -1" if "\<not> length (pq_list q) < PQ_QUEUE_SIZE"
    using that 2(2) e by (auto simp: pq_enqueue_def pq_inv_def split: if_splits)
  ultimately show ?case using 2(1) [OF e [symmetric] refl inv] e by auto
next
  case (3 q ops)
  obtain q' i where e: "pq_qindex q = (q', i)" by fastforce
  have inv: "pq_inv q'" using pq_inv_qindex [OF 3(2)] e by simp
  have IH: "pq_run q' ops = fifo_run (pq_list q') ops" using 3(1) [OF refl e [symmetric] refl inv] .
  show ?case
  proof (cases "pq_list q")
    case Nil
    then have "q' = q" "i = 0" "pq_dequeue q = NULL"
      using e by (auto simp: pq_qindex_def pq_dequeue_def)
    then show ?thesis using Nil IH e by (simp del: pq_list_Nil)
  next
    case (Cons x xs)
    then have "pq_list q' = xs" using pq.pop_entries [OF 3(2)] e by (simp add: pq_pop_def)
    moreover have "x = (pq_dequeue q, i)" using pq.front_entries [OF 3(2)] Cons e by (simp add: pq_front_entry_def)
    ultimately show ?thesis using Cons IH e by simp
  qed
qed

subsection \<open>Properties of the packet queue\<close>

text \<open>
  C5: the ring buffer implements a bounded first-in first-out list: any interleaving of insertions
  and removals returns exactly what the abstract list of at most \<open>PQ_QUEUE_SIZE\<close> entries returns,
  refusals of a full queue and NULL from an empty one included.
\<close>

theorem pq_refines_fifo:
  assumes "pq_inv q"
  shows "pq_run q ops = fifo_run (pq_list q) ops"
  by (rule pq_run_fifo [OF assms])

theorem pq_refines_fifo_witness:
  "pq_run \<lparr>pq_data = replicate 8 0, pq_index = replicate 8 0, pq_head = 7, pq_tail = 7, pq_len = 0\<rparr>
     [Enq 100 1, Enq 200 2, Take, Take, Take] =
   [Enqueued 0, Enqueued 0, Taken 100 1, Taken 200 2, Taken NULL 0]"
  by (subst pq_refines_fifo) (simp_all add: pq_inv_def pq_list_def PQ_QUEUE_SIZE_def)

text \<open>
  \<open>pq_create_queue\<close> hands out each of the \<open>NUM_QUEUES\<close> static queues once, well formed and
  empty, and refuses afterwards without changing anything.
\<close>

lemma pq_create_queue_correct:
  assumes "length (pq_queue s) = NUM_QUEUES"
    and "\<forall>q \<in> set (pq_queue s). length (pq_data q) = PQ_QUEUE_SIZE \<and> length (pq_index q) = PQ_QUEUE_SIZE"
  shows "case pq_create_queue s of
            (s', None) \<Rightarrow> NUM_QUEUES \<le> pq_i s \<and> s' = s
          | (s', Some j) \<Rightarrow> j = pq_i s \<and> pq_i s' = Suc j \<and> pq_inv (pq_queue s' ! j) \<and>
              pq_list (pq_queue s' ! j) = [] \<and> (\<forall>k. k \<noteq> j \<longrightarrow> pq_queue s' ! k = pq_queue s ! k)"
  using assms by (auto simp: pq_create_queue_def pq_inv_def pq_list_def PQ_QUEUE_SIZE_def Let_def)

end
