(* ===== verification/Allocator.thy ===== *)
theory Allocator
  imports Lwip_Prelude
begin

text \<open>
  The contract between an allocator and its clients. lwIP has two allocators, the first-fit heap of
  \<open>src/firmware/lwip141/lwip-1.4.1/src/core/mem.c\<close> and the fixed-size pools of \<open>memp.c\<close> beside it; both are
  used the same way: ask for a region (NULL when there is none), use it, give it back. A live region
  is an address with a descriptor (the block size for the heap, the pool for the pools), \<open>extent\<close>
  gives its number of bytes. The client's lemmas are proved here once: any sequence of requests and
  releases of regions it holds runs to the end, and the regions it holds never overlap.
\<close>

lemma remove_nth:
  assumes "i < length xs"
  shows "set xs = insert (xs ! i) (set (take i xs @ drop (Suc i) xs))"
    "distinct xs \<Longrightarrow> distinct (take i xs @ drop (Suc i) xs) \<and> xs ! i \<notin> set (take i xs @ drop (Suc i) xs)"
proof -
  have *: "xs = take i xs @ xs ! i # drop (Suc i) xs" using id_take_nth_drop [OF assms] .
  show "set xs = insert (xs ! i) (set (take i xs @ drop (Suc i) xs))"
    using arg_cong [OF *, of set] by simp
  assume "distinct xs"
  then have "distinct (take i xs @ xs ! i # drop (Suc i) xs)" using * by metis
  then show "distinct (take i xs @ drop (Suc i) xs) \<and> xs ! i \<notin> set (take i xs @ drop (Suc i) xs)"
    unfolding distinct_append set_append distinct.simps list.simps by blast
qed

datatype 'r areq = Request 'r | Release nat

locale allocator =
  fixes invar :: "'s \<Rightarrow> bool"
    and live :: "'s \<Rightarrow> (ptr \<times> 'd) set"
    and extent :: "'d \<Rightarrow> nat"
    and fits :: "'r \<Rightarrow> 'd \<Rightarrow> bool"
    and alloc :: "'r \<Rightarrow> 's \<Rightarrow> ('s \<times> ptr) option"
    and release :: "'d \<Rightarrow> ptr \<Rightarrow> 's \<Rightarrow> 's"
  assumes live_disjoint: "invar s \<Longrightarrow> (p, d) \<in> live s \<Longrightarrow> (q, e) \<in> live s \<Longrightarrow> (p, d) \<noteq> (q, e) \<Longrightarrow>
      p + extent d \<le> q \<or> q + extent e \<le> p"
    and live_nonnull: "invar s \<Longrightarrow> (p, d) \<in> live s \<Longrightarrow> p \<noteq> NULL \<and> 0 < extent d"
    and alloc_spec: "invar s \<Longrightarrow> \<exists>s' p. alloc r s = Some (s', p) \<and> invar s' \<and>
      (p = NULL \<and> live s' = live s \<or>
       p \<noteq> NULL \<and> (\<exists>d. fits r d \<and> (p, d) \<notin> live s \<and> live s' = insert (p, d) (live s)))"
    and release_spec: "invar s \<Longrightarrow> (p, d) \<in> live s \<Longrightarrow>
      invar (release d p s) \<and> live (release d p s) = live s - {(p, d)}"
begin

text \<open>A new region does not touch any region that was live.\<close>

lemma alloc_fresh:
  assumes "invar s" "alloc r s = Some (s', p)" "p \<noteq> NULL"
  obtains d where "fits r d" "live s' = insert (p, d) (live s)" "invar s'"
    "\<And>q e. (q, e) \<in> live s \<Longrightarrow> p + extent d \<le> q \<or> q + extent e \<le> p"
proof -
  obtain d where d: "fits r d" "(p, d) \<notin> live s" "live s' = insert (p, d) (live s)" "invar s'"
    using alloc_spec [OF assms(1), of r] assms(2,3) by auto
  have "p + extent d \<le> q \<or> q + extent e \<le> p" if "(q, e) \<in> live s" for q e
    using live_disjoint [OF d(4), of p d q e] d(2,3) that by blast
  then show ?thesis using that d by blast
qed

lemma alloc_release:
  assumes "invar s" "alloc r s = Some (s', p)" "p \<noteq> NULL"
  shows "\<exists>d. (p, d) \<in> live s' \<and> fits r d \<and> invar (release d p s') \<and> live (release d p s') = live s"
proof -
  obtain d where d: "fits r d" "(p, d) \<notin> live s" "live s' = insert (p, d) (live s)" "invar s'"
    using alloc_spec [OF assms(1), of r] assms(2,3) by auto
  then show ?thesis using release_spec [of s' p d] by auto
qed

text \<open>
  A client holds a list of regions. \<open>describe\<close> is its knowledge of a region it was given; a request
  that yields NULL leaves the list alone, releasing index \<open>i\<close> gives the \<open>i\<close>-th region back.
\<close>

fun client :: "(ptr \<Rightarrow> 's \<Rightarrow> 'd) \<Rightarrow> 'r areq list \<Rightarrow> 's \<Rightarrow> (ptr \<times> 'd) list \<Rightarrow> ('s \<times> (ptr \<times> 'd) list) option" where
  "client describe [] s held = Some (s, held)"
| "client describe (Request r # ops) s held =
     (case alloc r s of None \<Rightarrow> None
      | Some (s', p) \<Rightarrow>
          if p = NULL then client describe ops s' held
          else client describe ops s' (held @ [(p, describe p s')]))"
| "client describe (Release i # ops) s held =
     (if i < length held
      then client describe ops (release (snd (held ! i)) (fst (held ! i)) s) (take i held @ drop (Suc i) held)
      else client describe ops s held)"

lemma client_safe:
  assumes describe: "\<And>s p d. invar s \<Longrightarrow> (p, d) \<in> live s \<Longrightarrow> describe p s = d"
  shows "invar s \<Longrightarrow> distinct held \<Longrightarrow> live s = rest \<union> set held \<Longrightarrow> rest \<inter> set held = {} \<Longrightarrow>
    \<exists>s' held'. client describe ops s held = Some (s', held') \<and> invar s' \<and> distinct held' \<and>
      live s' = rest \<union> set held' \<and> rest \<inter> set held' = {}"
proof (induction ops arbitrary: s held)
  case Nil
  then show ?case by simp
next
  case (Cons op ops)
  show ?case
  proof (cases op)
    case (Request r)
    obtain s' p where a: "alloc r s = Some (s', p)" "invar s'" and
      or: "p = NULL \<and> live s' = live s \<or>
       p \<noteq> NULL \<and> (\<exists>d. fits r d \<and> (p, d) \<notin> live s \<and> live s' = insert (p, d) (live s))"
      using alloc_spec [OF Cons.prems(1), of r] by blast
    show ?thesis
    proof (cases "p = NULL")
      case True
      then have "live s' = rest \<union> set held" using or Cons.prems(3) by blast
      from Cons.IH [OF a(2) Cons.prems(2) this Cons.prems(4)] show ?thesis using True a(1) Request by simp
    next
      case False
      then obtain d where d: "(p, d) \<notin> live s" "live s' = insert (p, d) (live s)" using or by blast
      then have "describe p s' = d" using describe [OF a(2)] by blast
      moreover have "distinct (held @ [(p, d)])" "live s' = rest \<union> set (held @ [(p, d)])"
        "rest \<inter> set (held @ [(p, d)]) = {}" using Cons.prems(2-4) d by auto
      note Cons.IH [OF a(2) this]
      ultimately show ?thesis using a(1) False Request by simp
    qed
  next
    case (Release i)
    show ?thesis
    proof (cases "i < length held")
      case True
      obtain p d where e: "held ! i = (p, d)" by fastforce
      let ?h = "take i held @ drop (Suc i) held"
      have h: "distinct ?h" "(p, d) \<notin> set ?h" "set held = insert (p, d) (set ?h)"
        using remove_nth [OF True] Cons.prems(2) e by simp_all
      have pd: "(p, d) \<in> live s" using nth_mem [OF True] unfolding e Cons.prems(3) by blast
      have r: "invar (release d p s)" "live (release d p s) = live s - {(p, d)}"
        using release_spec [OF Cons.prems(1) pd] by blast+
      have "live (release d p s) = rest \<union> set ?h" "rest \<inter> set ?h = {}"
        using r(2) Cons.prems(3,4) h(2,3) by blast+
      from Cons.IH [OF r(1) h(1) this] show ?thesis unfolding Release client.simps e if_P [OF True] fst_conv snd_conv .
    next
      case False
      then show ?thesis using Cons.IH [OF Cons.prems] Release by simp
    qed
  qed
qed

lemma client_disjoint:
  assumes "invar s" "live s = rest \<union> set held" "i < length held" "j < length held" "i \<noteq> j" "distinct held"
  shows "fst (held ! i) + extent (snd (held ! i)) \<le> fst (held ! j) \<or>
         fst (held ! j) + extent (snd (held ! j)) \<le> fst (held ! i)"
proof (rule live_disjoint [OF assms(1)])
  show "(fst (held ! i), snd (held ! i)) \<in> live s" "(fst (held ! j), snd (held ! j)) \<in> live s"
    using assms(2-4) by simp_all
  show "(fst (held ! i), snd (held ! i)) \<noteq> (fst (held ! j), snd (held ! j))"
    using nth_eq_iff_index_eq [OF assms(6,3,4)] assms(5) by simp
qed

end

end
