(* ===== verification/Mylib.thy ===== *)
theory Mylib
  imports Lwip_Prelude
begin

text \<open>
  The memory and string functions of \<^verbatim>\<open>src/firmware/mylib.c\<close>, the firmware's C library. Memory is
  a function from addresses to bytes. Loops whose counter is an integer recurse on it (a negative
  counter reads as its unsigned value, the number of iterations until it reaches 0); the loops that
  only end at a terminating NUL are \<open>partial_function\<close>s, so that not ending is \<open>None\<close>. Plain \<open>char\<close>
  is unsigned on this target, and words are little-endian.
\<close>

type_synonym memory = "nat \<Rightarrow> u8"

subsection \<open>Memory functions\<close>

primrec memcpy :: "nat \<Rightarrow> ptr \<Rightarrow> ptr \<Rightarrow> memory \<Rightarrow> memory" where
  "memcpy 0 a b m = m"
| "memcpy (Suc n) a b m = memcpy n (a + 1) (b + 1) (m(a := m b))"

primrec memset :: "nat \<Rightarrow> ptr \<Rightarrow> u8 \<Rightarrow> memory \<Rightarrow> memory" where
  "memset 0 dst val m = m"
| "memset (Suc count) dst val m = memset count (dst + 1) val (m(dst := val))"

primrec memcmp_loop :: "nat \<Rightarrow> ptr \<Rightarrow> ptr \<Rightarrow> memory \<Rightarrow> int" where
  "memcmp_loop 0 b1 b2 m = uint (m b1) - uint (m b2)"
| "memcmp_loop (Suc count) b1 b2 m =
     (if m b1 = m b2 then memcmp_loop count (b1 + 1) (b2 + 1) m else uint (m b1) - uint (m b2))"

definition memcmp :: "ptr \<Rightarrow> ptr \<Rightarrow> nat \<Rightarrow> memory \<Rightarrow> int" where
  "memcmp buffer1 buffer2 count m = (if count = 0 then 0 else memcmp_loop (count - 1) buffer1 buffer2 m)"

text \<open>A block of memory as a list of bytes.\<close>

definition bytes_at :: "memory \<Rightarrow> ptr \<Rightarrow> nat \<Rightarrow> u8 list" where
  "bytes_at m a n = map (\<lambda>i. m (a + i)) [0..<n]"

lemma length_bytes_at [simp]: "length (bytes_at m a n) = n"
  by (simp add: bytes_at_def)

lemma bytes_at_0 [simp]: "bytes_at m a 0 = []"
  by (simp add: bytes_at_def)

lemma nth_bytes_at [simp]: "i < n \<Longrightarrow> bytes_at m a n ! i = m (a + i)"
  by (simp add: bytes_at_def)

lemma bytes_at_Suc: "bytes_at m a (Suc n) = m a # bytes_at m (a + 1) n"
  by (auto simp: list_eq_iff_nth_eq nth_Cons split: nat.splits)

lemma bytes_at_add: "bytes_at m a (j + k) = bytes_at m a j @ bytes_at m (a + j) k"
  by (auto simp: list_eq_iff_nth_eq nth_append)

lemma bytes_at_cong: "(\<And>i. i < n \<Longrightarrow> m (a + i) = m' (a + i)) \<Longrightarrow> bytes_at m a n = bytes_at m' a n"
  by (simp add: bytes_at_def)

lemma take_bytes_at [simp]: "take k (bytes_at m a n) = bytes_at m a (min k n)"
  by (auto simp: list_eq_iff_nth_eq)

lemma drop_bytes_at [simp]: "drop k (bytes_at m a n) = bytes_at m (a + k) (n - k)"
  by (auto simp: list_eq_iff_nth_eq add.assoc)

text \<open>
  \<open>memcpy\<close> copies upwards byte by byte: it is a block move when the source does not begin below an
  overlapping destination.
\<close>

lemma memcpy_block:
  "a \<le> b \<or> b + n \<le> a \<Longrightarrow> memcpy n a b m = (\<lambda>x. if a \<le> x \<and> x < a + n then m (b + (x - a)) else m x)"
proof (induction n arbitrary: a b m)
  case (Suc n)
  have "a + 1 \<le> b + 1 \<or> b + 1 + n \<le> a + 1" using Suc.prems by auto
  then have "memcpy (Suc n) a b m x = (if a \<le> x \<and> x < a + Suc n then m (b + (x - a)) else m x)" for x
    using Suc.prems by (cases "x = a") (auto simp: Suc.IH Suc_diff_Suc)
  then show ?case by blast
qed (auto simp: fun_eq_iff)

lemma bytes_at_memcpy:
  "a \<le> b \<or> b + n \<le> a \<Longrightarrow> bytes_at (memcpy n a b m) a n = bytes_at m b n"
  by (auto simp: memcpy_block bytes_at_def)

lemma memcpy_outside: "x < a \<or> a + n \<le> x \<Longrightarrow> memcpy n a b m x = m x"
  by (induction n arbitrary: a b m) auto

lemma memset_block: "memset n a v m = (\<lambda>x. if a \<le> x \<and> x < a + n then v else m x)"
  by (induction n arbitrary: a m) (auto simp: fun_eq_iff)

lemma memcmp_loop_zero: "memcmp_loop n a b m = 0 \<longleftrightarrow> bytes_at m a (Suc n) = bytes_at m b (Suc n)"
  by (induction n arbitrary: a b) (auto simp: bytes_at_Suc word_uint_eq_iff)

lemma memcmp_zero: "memcmp a b n m = 0 \<longleftrightarrow> bytes_at m a n = bytes_at m b n"
  using memcmp_loop_zero [of "n - 1" a b m] by (cases n) (auto simp: memcmp_def)

subsection \<open>Strings\<close>

text \<open>The string at an address: its bytes up to the terminating NUL.\<close>

definition cstring :: "memory \<Rightarrow> ptr \<Rightarrow> u8 list \<Rightarrow> bool" where
  "cstring m a xs \<longleftrightarrow> bytes_at m a (length xs) = xs \<and> 0 \<notin> set xs \<and> m (a + length xs) = 0"

lemma cstring_Nil [simp]: "cstring m a [] \<longleftrightarrow> m a = 0"
  by (simp add: cstring_def)

lemma cstring_Cons [simp]: "cstring m a (x # xs) \<longleftrightarrow> m a = x \<and> x \<noteq> 0 \<and> cstring m (a + 1) xs"
  by (auto simp: cstring_def bytes_at_Suc)

primrec strnlen :: "nat \<Rightarrow> ptr \<Rightarrow> memory \<Rightarrow> nat" where
  "strnlen 0 str m = 0"
| "strnlen (Suc maxsize) str m = (if m str \<noteq> 0 then Suc (strnlen maxsize (str + 1) m) else 0)"

partial_function (option) strlen_loop :: "ptr \<Rightarrow> memory \<Rightarrow> ptr option" where
  "strlen_loop eos m = (if m eos \<noteq> 0 then strlen_loop (eos + 1) m else Some (eos + 1))"

definition strlen :: "ptr \<Rightarrow> memory \<Rightarrow> nat option" where
  "strlen str m = (case strlen_loop str m of None \<Rightarrow> None | Some eos \<Rightarrow> Some (eos - str - 1))"

lemma strnlen_cstring: "cstring m a xs \<Longrightarrow> strnlen n a m = min n (length xs)"
proof (induction n arbitrary: a xs)
  case (Suc n)
  then show ?case by (cases xs) auto
qed simp

lemma strlen_loop_cstring: "cstring m a xs \<Longrightarrow> strlen_loop a m = Some (a + length xs + 1)"
proof (induction xs arbitrary: a)
  case Nil
  then show ?case by (subst strlen_loop.simps) simp
next
  case (Cons x xs)
  then show ?case by (subst strlen_loop.simps) simp
qed

lemma strlen_cstring: "cstring m a xs \<Longrightarrow> strlen a m = Some (length xs)"
  by (simp add: strlen_def strlen_loop_cstring)

subsection \<open>Word access\<close>

definition ld32 :: "memory \<Rightarrow> ptr \<Rightarrow> u32" where
  "ld32 m a = word_of_nat (unat (m a) + 256 * unat (m (a + 1)) + 65536 * unat (m (a + 2)) + 16777216 * unat (m (a + 3)))"

definition st32 :: "ptr \<Rightarrow> u32 \<Rightarrow> memory \<Rightarrow> memory" where
  "st32 a v m = m(a := ucast v, a + 1 := ucast (drop_bit 8 v), a + 2 := ucast (drop_bit 16 v), a + 3 := ucast (drop_bit 24 v))"

text \<open>The test of \<open>strcpy\<close> and \<open>strcmp\<close> for a zero byte in a word.\<close>

definition has_zero_byte :: "u32 \<Rightarrow> bool" where
  "has_zero_byte v \<longleftrightarrow> (v - 0x01010101) AND NOT v AND 0x80808080 \<noteq> 0"

lemma odd_div_iff: "0 < k \<Longrightarrow> odd (x div k) \<longleftrightarrow> k \<le> x mod (2 * k)" for x k :: nat
proof -
  assume k: "0 < k"
  have "x div k mod 2 = (x mod (k * 2)) div k" by (simp add: mod_mult2_eq k)
  moreover have "x mod (k * 2) < k * 2" using k by simp
  then have "(x mod (k * 2)) div k < 2" using k by (simp add: less_mult_imp_div_less mult.commute)
  ultimately show ?thesis using k
    by (metis One_nat_def div_greater_zero_iff mult.commute odd_iff_mod_2_eq_one zero_less_one less_2_cases_iff not_gr0)
qed

lemma bit_unat_ge: "bit w n \<longleftrightarrow> 2 ^ n \<le> unat w mod 2 ^ Suc n" for w :: u32
proof -
  have "bit w n \<longleftrightarrow> bit (unat w) n" by (simp add: bit_simps)
  then show ?thesis using odd_div_iff [of "2 ^ n" "unat w"] by (simp add: bit_iff_odd)
qed

lemma high_bits: "bit (0x80808080 :: u32) n \<longleftrightarrow> n \<in> {7, 15, 23, 31}"
proof (cases "n < 32")
  case True
  then have "n \<in> set [0..<32]" by simp
  then show ?thesis by (simp add: upt_rec) (elim disjE; simp)
next
  case False
  then show ?thesis by (auto dest: bit_imp_le_length)
qed

lemma has_zero_byte_bits:
  "has_zero_byte v \<longleftrightarrow> (\<exists>n\<in>{7, 15, 23, 31}. bit (v - 0x01010101) n \<and> \<not> bit v n)"
proof -
  have "has_zero_byte v \<longleftrightarrow> (\<exists>n. bit ((v - 0x01010101) AND NOT v AND 0x80808080) n)"
    unfolding has_zero_byte_def by (metis bit_eq_iff bit_0_eq bot_apply bot_bool_def)
  also have "\<dots> \<longleftrightarrow> (\<exists>n\<in>{7, 15, 23, 31}. bit (v - 0x01010101) n \<and> \<not> bit v n)"
    unfolding bit_and_iff bit_not_iff high_bits using bit_imp_possible_bit by blast
  finally show ?thesis .
qed

lemma sub_borrow:
  fixes x c k :: nat
  assumes "x < 2 * k" "c \<le> k"
  shows "k \<le> (x + (2 * k - c)) mod (2 * k) \<and> x < k \<longleftrightarrow> x < c"
proof (cases "x < c")
  case True
  then show ?thesis using assms by simp
next
  case False
  then have "x + (2 * k - c) = (x - c) + 2 * k" using assms by simp
  then have "(x + (2 * k - c)) mod (2 * k) = x - c" using assms(1) by (simp only: mod_add_self2) simp
  then show ?thesis using False by (cases "x < k") auto
qed

lemma sub_bit:
  fixes v :: u32
  assumes k: "k = 2 ^ n" "2 * k dvd 4294967296" and c: "4278124287 mod (2 * k) = 2 * k - c" "c \<le> k"
  shows "bit (v - 0x01010101) n \<and> \<not> bit v n \<longleftrightarrow> unat v mod (2 * k) < c"
proof -
  have "unat (v - 0x01010101) = (unat v + 4278124287) mod 4294967296"
  proof (cases "unat v < 16843009")
    case False
    then obtain d where "unat v = 16843009 + d" using le_Suc_ex [of 16843009 "unat v"] by auto
    then show ?thesis using unat_u32_less [of v] by (simp add: unat_sub_if' del: unat_u32_less)
  qed (simp add: unat_sub_if')
  then have "unat (v - 0x01010101) mod (2 * k) = (unat v + 4278124287) mod (2 * k)"
    by (simp add: mod_mod_cancel [OF k(2)])
  also have "\<dots> = (unat v mod (2 * k) + (2 * k - c)) mod (2 * k)"
    unfolding c(1) [symmetric] by (rule mod_add_eq [symmetric])
  finally have e: "unat (v - 0x01010101) mod (2 * k) = (unat v mod (2 * k) + (2 * k - c)) mod (2 * k)" .
  have b: "bit w n \<longleftrightarrow> k \<le> unat w mod (2 * k)" for w :: u32 using bit_unat_ge [of w n] k(1) by simp
  have "unat v mod (2 * k) < 2 * k" using k(1) by simp
  from sub_borrow [OF this c(2)] show ?thesis unfolding b e by (simp add: not_le)
qed

lemma has_zero_byte_iff:
  assumes "b0 < 256" "b1 < 256" "b2 < 256" "b3 < 256"
  shows "has_zero_byte (word_of_nat (b0 + 256 * b1 + 65536 * b2 + 16777216 * b3)) \<longleftrightarrow>
    b0 = 0 \<or> b1 = 0 \<or> b2 = 0 \<or> b3 = (0 :: nat)"
proof -
  define N where "N = b0 + 256 * b1 + 65536 * b2 + 16777216 * b3"
  have u: "unat (word_of_nat N :: u32) = N" using assms by (intro unat_of_nat_u32) (simp add: N_def)
  have m: "N mod 256 = b0" "N mod 65536 = b0 + 256 * b1" "N mod 16777216 = b0 + 256 * b1 + 65536 * b2" "N mod 4294967296 = N"
  proof -
    have e: "b0 + 256 * b1 < 65536" "b0 + 256 * b1 + 65536 * b2 < 16777216" using assms by simp_all
    have "N = b0 + (b1 + 256 * b2 + 65536 * b3) * 256" "N = b0 + 256 * b1 + (b2 + 256 * b3) * 65536"
      "N = b0 + 256 * b1 + 65536 * b2 + b3 * 16777216" by (simp_all add: N_def)
    then show "N mod 256 = b0" "N mod 65536 = b0 + 256 * b1" "N mod 16777216 = b0 + 256 * b1 + 65536 * b2"
      using assms by (metis mod_mult_self1 mod_less, metis e(1) mod_mult_self1 mod_less, metis e(2) mod_mult_self1 mod_less)
    show "N mod 4294967296 = N" using assms by (simp add: N_def)
  qed
  have "has_zero_byte (word_of_nat N) \<longleftrightarrow>
    N mod 256 < 1 \<or> N mod 65536 < 0x0101 \<or> N mod 16777216 < 0x010101 \<or> N mod 4294967296 < 0x01010101"
    unfolding has_zero_byte_bits using sub_bit [where k = 128 and n = 7 and c = 1 and v = "word_of_nat N"] sub_bit [where k = 32768 and n = 15 and c = 257 and v = "word_of_nat N"]
      sub_bit [where k = 8388608 and n = 23 and c = 65793 and v = "word_of_nat N"] sub_bit [where k = 2147483648 and n = 31 and c = 16843009 and v = "word_of_nat N"] by (simp add: u)
  also have "\<dots> \<longleftrightarrow> b0 = 0 \<or> b1 = 0 \<or> b2 = 0 \<or> b3 = 0"
    unfolding m using assms by (auto simp: N_def)
  finally show ?thesis by (simp add: N_def)
qed

lemma has_zero_byte_ld32: "has_zero_byte (ld32 m a) \<longleftrightarrow> m a = 0 \<or> m (a + 1) = 0 \<or> m (a + 2) = 0 \<or> m (a + 3) = 0"
proof -
  note b = unat_u8_less
  show ?thesis unfolding ld32_def has_zero_byte_iff [OF b b b b] by (simp add: unat_eq_0)
qed

lemma mod256: "x < 256 \<Longrightarrow> (x + 256 * q) mod 256 = x" for x q :: nat
  by simp

lemma ld32_bytes:
  "ucast (ld32 m a) = m a" "ucast (drop_bit 8 (ld32 m a)) = m (a + 1)"
  "ucast (drop_bit 16 (ld32 m a)) = m (a + 2)" "ucast (drop_bit 24 (ld32 m a)) = m (a + 3)"
proof -
  define N where "N = unat (m a) + 256 * unat (m (a + 1)) + 65536 * unat (m (a + 2)) + 16777216 * unat (m (a + 3))"
  have "N < 4294967296" using unat_u8_less [of "m a"] unat_u8_less [of "m (a + 1)"] unat_u8_less [of "m (a + 2)"]
      unat_u8_less [of "m (a + 3)"] by (simp add: N_def del: unat_u8_less)
  then have u: "unat (ld32 m a) = N" unfolding ld32_def N_def by (rule unat_of_nat_u32)
  have b: "ucast (drop_bit k (ld32 m a)) = (x :: u8)" if "N div 2 ^ k mod 256 = unat x" for k and x :: u8
  proof -
    have "unat (ucast (drop_bit k (ld32 m a)) :: u8) = unat (drop_bit k (ld32 m a)) mod 256"
      by (simp add: unsigned_ucast_eq take_bit_nat_def)
    also have "\<dots> = unat x" unfolding unat_drop_bit_eq u using that by (simp add: drop_bit_eq_div)
    finally show ?thesis by (simp add: word_unat_eq_iff)
  qed
  have d: "N div 256 = unat (m (a + 1)) + 256 * (unat (m (a + 2)) + 256 * unat (m (a + 3)))"
    "N div 65536 = unat (m (a + 2)) + 256 * unat (m (a + 3))" "N div 16777216 = unat (m (a + 3))"
    using unat_u8_less [of "m a"] unat_u8_less [of "m (a + 1)"] unat_u8_less [of "m (a + 2)"]
    by (intro div_nat_eqI; simp add: N_def del: unat_u8_less)+
  have N: "N = unat (m a) + 256 * (unat (m (a + 1)) + 256 * unat (m (a + 2)) + 65536 * unat (m (a + 3)))" by (simp add: N_def)
  have "N mod 256 = unat (m a)" unfolding N by (rule mod256 [OF unat_u8_less])
  then show "ucast (ld32 m a) = m a" using b [of 0 "m a"] by simp
  have e: "N div 256 mod 256 = unat (m (a + 1))" "N div 65536 mod 256 = unat (m (a + 2))" "N div 16777216 mod 256 = unat (m (a + 3))"
    unfolding d by (rule mod256 [OF unat_u8_less])+ (rule mod_less [OF unat_u8_less])
  show "ucast (drop_bit 8 (ld32 m a)) = m (a + 1)" using b [of 8 "m (a + 1)"] e(1) by simp
  show "ucast (drop_bit 16 (ld32 m a)) = m (a + 2)" using b [of 16 "m (a + 2)"] e(2) by simp
  show "ucast (drop_bit 24 (ld32 m a)) = m (a + 3)" using b [of 24 "m (a + 3)"] e(3) by simp
qed

lemma st32_ld32: "st32 d (ld32 m s) m = m(d := m s, d + 1 := m (s + 1), d + 2 := m (s + 2), d + 3 := m (s + 3))"
  by (simp add: st32_def ld32_bytes)

lemma ld32_eq_iff:
  "ld32 m a = ld32 m b \<longleftrightarrow> m a = m b \<and> m (a + 1) = m (b + 1) \<and> m (a + 2) = m (b + 2) \<and> m (a + 3) = m (b + 3)"
proof
  assume "ld32 m a = ld32 m b"
  then show "m a = m b \<and> m (a + 1) = m (b + 1) \<and> m (a + 2) = m (b + 2) \<and> m (a + 3) = m (b + 3)"
    using ld32_bytes [of m a] ld32_bytes [of m b] by metis
qed (simp add: ld32_def)

subsection \<open>String copy and comparison\<close>

text \<open>The byte loop of \<open>strcpy\<close>: it ends with a finished copy or at a pair of aligned addresses.\<close>

partial_function (option) strcpy_bytes :: "ptr \<Rightarrow> ptr \<Rightarrow> memory \<Rightarrow> (memory \<times> (ptr \<times> ptr) option) option" where
  "strcpy_bytes dst src m =
     (if (dst OR src) AND 3 \<noteq> 0 then
        let c = m src; m' = m(dst := c)
        in if c = 0 then Some (m', None) else strcpy_bytes (dst + 1) (src + 1) m'
      else Some (m, Some (dst, src)))"

definition strcpy_tail :: "ptr \<Rightarrow> u32 \<Rightarrow> memory \<Rightarrow> memory" where
  "strcpy_tail dst v0 m =
     (let m0 = m(dst := ucast (v0 AND 0xff))
      in if v0 AND 0xff = 0 then m0 else
         let v1 = drop_bit 8 v0; m1 = m0(dst + 1 := ucast (v1 AND 0xff))
         in if v1 AND 0xff = 0 then m1 else
            let v2 = drop_bit 8 v1; m2 = m1(dst + 2 := ucast (v2 AND 0xff))
            in if v2 AND 0xff = 0 then m2 else
               let v3 = drop_bit 8 v2
               in m2(dst + 3 := ucast (v3 AND 0xff)))"

partial_function (option) strcpy_words :: "ptr \<Rightarrow> ptr \<Rightarrow> memory \<Rightarrow> memory option" where
  "strcpy_words dst src m =
     (let v = ld32 m src
      in if has_zero_byte v then Some (strcpy_tail dst v m)
         else strcpy_words (dst + 4) (src + 4) (st32 dst v m))"

definition strcpy :: "ptr \<Rightarrow> ptr \<Rightarrow> memory \<Rightarrow> memory option" where
  "strcpy dst src m =
     (case strcpy_bytes dst src m of
        None \<Rightarrow> None | Some (m', None) \<Rightarrow> Some m' | Some (m', Some (d, s)) \<Rightarrow> strcpy_words d s m')"

text \<open>One comparison of two characters, as written five times in \<open>strcmp\<close>: a difference or the end
  decides, otherwise the comparison goes on.\<close>

definition cmp_char :: "u8 \<Rightarrow> u8 \<Rightarrow> int option" where
  "cmp_char c1 c2 = (if c1 \<noteq> c2 then Some (if c1 < c2 then -1 else 1) else if c1 = 0 then Some 0 else None)"

partial_function (option) strcmp_bytes :: "ptr \<Rightarrow> ptr \<Rightarrow> memory \<Rightarrow> (int + ptr \<times> ptr) option" where
  "strcmp_bytes s1 s2 m =
     (if (s1 OR s2) AND 3 \<noteq> 0 then
        case cmp_char (m s1) (m s2) of Some r \<Rightarrow> Some (Inl r) | None \<Rightarrow> strcmp_bytes (s1 + 1) (s2 + 1) m
      else Some (Inr (s1, s2)))"

definition strcmp_tail :: "u32 \<Rightarrow> u32 \<Rightarrow> int" where
  "strcmp_tail v1 v2 =
     (case cmp_char (ucast v1) (ucast v2) of Some r \<Rightarrow> r | None \<Rightarrow>
      case cmp_char (ucast (drop_bit 8 v1)) (ucast (drop_bit 8 v2)) of Some r \<Rightarrow> r | None \<Rightarrow>
      case cmp_char (ucast (drop_bit 16 v1)) (ucast (drop_bit 16 v2)) of Some r \<Rightarrow> r | None \<Rightarrow>
      (let c1 = ucast (drop_bit 24 v1) :: u8; c2 = ucast (drop_bit 24 v2)
       in if c1 \<noteq> c2 then (if c1 < c2 then -1 else 1) else 0))"

partial_function (option) strcmp_words :: "ptr \<Rightarrow> ptr \<Rightarrow> memory \<Rightarrow> int option" where
  "strcmp_words s1 s2 m =
     (let v1 = ld32 m s1; v2 = ld32 m s2
      in if v1 \<noteq> v2 then Some (strcmp_tail v1 v2)
         else if has_zero_byte v1 then Some 0
         else strcmp_words (s1 + 4) (s2 + 4) m)"

definition strcmp :: "ptr \<Rightarrow> ptr \<Rightarrow> memory \<Rightarrow> int option" where
  "strcmp s1 s2 m =
     (case strcmp_bytes s1 s2 m of
        None \<Rightarrow> None | Some (Inl r) \<Rightarrow> Some r | Some (Inr (a, b)) \<Rightarrow> strcmp_words a b m)"

text \<open>The reference: comparison of the byte strings, lexicographically.\<close>

fun strcmp_spec :: "u8 list \<Rightarrow> u8 list \<Rightarrow> int" where
  "strcmp_spec [] [] = 0"
| "strcmp_spec [] (y # ys) = -1"
| "strcmp_spec (x # xs) [] = 1"
| "strcmp_spec (x # xs) (y # ys) = (if x < y then -1 else if y < x then 1 else strcmp_spec xs ys)"

lemma low_byte: "ucast (v AND 0xff) = (ucast v :: u8)" "v AND 0xff = 0 \<longleftrightarrow> (ucast v :: u8) = 0" for v :: u32
proof -
  have m: "(0xff :: u32) = mask 8" by (simp add: mask_eq_exp_minus_1)
  show e: "ucast (v AND 0xff) = (ucast v :: u8)"
    unfolding m by (auto simp: bit_eq_iff bit_simps)
  have "v AND 0xff = ucast (ucast v :: u8)" unfolding m by (auto simp: bit_eq_iff bit_simps)
  then show "v AND 0xff = 0 \<longleftrightarrow> (ucast v :: u8) = 0" by (metis e ucast_0)
qed

lemma four_le_length: "4 \<le> length xs \<Longrightarrow> \<exists>x y z w ys. xs = x # y # z # w # ys"
  by (auto simp: numeral_eq_Suc Suc_le_length_iff)

lemma strcpy_tail_ld32:
  "strcpy_tail d (ld32 m s) m' =
     (let m0 = m'(d := m s) in if m s = 0 then m0 else
      let m1 = m0(d + 1 := m (s + 1)) in if m (s + 1) = 0 then m1 else
      let m2 = m1(d + 2 := m (s + 2)) in if m (s + 2) = 0 then m2 else m2(d + 3 := m (s + 3)))"
  using ld32_bytes [of m s] by (simp add: strcpy_tail_def Let_def low_byte)

lemma memcpy_4:
  assumes "d + 4 \<le> s \<or> s + 4 \<le> d"
  shows "memcpy (4 + n) d s m = memcpy n (d + 4) (s + 4) (st32 d (ld32 m s) m)"
  using assms by (auto simp: st32_ld32 numeral_eq_Suc)

lemma cstring_outside:
  "(\<And>i. i \<le> length xs \<Longrightarrow> m' (a + i) = m (a + i)) \<Longrightarrow> cstring m' a xs = cstring m a xs"
  using bytes_at_cong [of "length xs" m' a m] by (simp add: cstring_def)

lemma cstring_move:
  assumes "\<And>i. i \<le> length xs \<Longrightarrow> m' (d + i) = m (s + i)" "cstring m s xs"
  shows "cstring m' d xs"
proof -
  have "bytes_at m' d (length xs) = bytes_at m s (length xs)" using assms(1) by (auto simp: list_eq_iff_nth_eq)
  then show ?thesis using assms by (simp add: cstring_def)
qed

lemma strcpy_words_spec:
  "cstring m s xs \<Longrightarrow> d + length xs + 1 \<le> s \<or> s + length xs + 1 \<le> d \<Longrightarrow>
   strcpy_words d s m = Some (memcpy (length xs + 1) d s m)"
proof (induction xs arbitrary: d s m rule: measure_induct_rule [where f = length])
  case (less xs)
  show ?case
  proof (cases "length xs < 4")
    case True
    then consider "xs = []" | x where "xs = [x]" | x y where "xs = [x, y]" | x y z where "xs = [x, y, z]"
      by (auto simp: numeral_eq_Suc less_Suc_eq length_Suc_conv)
    then show ?thesis
    proof cases
    qed (use less.prems in \<open>subst strcpy_words.simps; auto simp: has_zero_byte_ld32 strcpy_tail_ld32 Let_def numeral_eq_Suc\<close>)+
  next
    case False
    then obtain x y z w ys where xs: "xs = x # y # z # w # ys"
      using four_le_length [of xs] by (auto simp: not_less)
    let ?m = "st32 d (ld32 m s) m"
    have nz: "\<not> has_zero_byte (ld32 m s)" using less.prems(1) xs by (auto simp: has_zero_byte_ld32 numeral_eq_Suc)
    have "cstring m (s + 4) ys" using less.prems(1) xs by (simp add: numeral_eq_Suc)
    moreover have "?m (s + 4 + i) = m (s + 4 + i)" if "i \<le> length ys" for i
      using less.prems(2) xs that by (auto simp: st32_def)
    ultimately have "cstring ?m (s + 4) ys" using cstring_outside [of ys ?m "s + 4" m] by blast
    moreover have "d + 4 + length ys + 1 \<le> s + 4 \<or> s + 4 + length ys + 1 \<le> d + 4" "d + 4 \<le> s \<or> s + 4 \<le> d"
      using less.prems(2) xs by auto
    ultimately have "strcpy_words (d + 4) (s + 4) ?m = Some (memcpy (length ys + 1) (d + 4) (s + 4) ?m)"
      "memcpy (4 + (length ys + 1)) d s m = memcpy (length ys + 1) (d + 4) (s + 4) ?m"
      using less.IH [of ys ?m "s + 4" "d + 4"] xs by (simp, intro memcpy_4)
    moreover have "strcpy_words d s m = strcpy_words (d + 4) (s + 4) ?m"
      using nz by (subst strcpy_words.simps) (simp add: Let_def)
    moreover have "length xs + 1 = 4 + (length ys + 1)" using xs by simp
    ultimately show ?thesis by (simp only:)
  qed
qed

lemma strcpy_spec:
  "cstring m s xs \<Longrightarrow> d + length xs + 1 \<le> s \<or> s + length xs + 1 \<le> d \<Longrightarrow>
   strcpy d s m = Some (memcpy (length xs + 1) d s m)"
proof (induction xs arbitrary: d s m)
  case Nil
  show ?case
  proof (cases "(d OR s) AND 3 = 0")
    case True
    then show ?thesis using strcpy_words_spec [OF Nil] by (subst strcpy_def, subst strcpy_bytes.simps) simp
  next
    case False
    then show ?thesis using Nil by (subst strcpy_def, subst strcpy_bytes.simps) simp
  qed
next
  case (Cons x xs)
  show ?case
  proof (cases "(d OR s) AND 3 = 0")
    case True
    then show ?thesis using strcpy_words_spec [OF Cons.prems] by (subst strcpy_def, subst strcpy_bytes.simps) simp
  next
    case False
    define m' where "m' = m(d := m s)"
    have "cstring m' (s + 1) xs \<longleftrightarrow> cstring m (s + 1) xs"
      by (rule cstring_outside) (use Cons.prems(2) in \<open>auto simp: m'_def\<close>)
    then have c: "cstring m' (s + 1) xs" using Cons.prems(1) by simp
    have "d + 1 + length xs + 1 \<le> s + 1 \<or> s + 1 + length xs + 1 \<le> d + 1" using Cons.prems(2) by auto
    note Cons.IH [OF c this]
    moreover have "memcpy (length (x # xs) + 1) d s m = memcpy (length xs + 1) (d + 1) (s + 1) m'" by (simp add: m'_def)
    moreover have "strcpy d s m = strcpy (d + 1) (s + 1) m'"
      using False Cons.prems(1) by (subst strcpy_def, subst strcpy_bytes.simps) (simp add: strcpy_def m'_def)
    ultimately show ?thesis by (simp only:)
  qed
qed

lemma cmp_char_spec:
  assumes "cstring m a xs" "cstring m b ys"
  shows "case cmp_char (m a) (m b) of
      Some r \<Rightarrow> strcmp_spec xs ys = r
    | None \<Rightarrow> \<exists>x xs' ys'. xs = x # xs' \<and> ys = x # ys' \<and> m a = x \<and> m b = x \<and> x \<noteq> 0"
  using assms by (cases xs; cases ys) (auto simp: cmp_char_def word_neq_0_conv)

lemma strcmp_step:
  assumes "cstring m a xs" "cstring m b ys" "cmp_char (m a) (m b) = None"
  obtains xs' ys' where "strcmp_spec xs ys = strcmp_spec xs' ys'" "cstring m (a + 1) xs'" "cstring m (b + 1) ys'"
    "length xs = Suc (length xs')"
proof -
  obtain x xs' ys' where "xs = x # xs'" "ys = x # ys'" using cmp_char_spec [OF assms(1,2)] assms(3) by auto
  then show ?thesis using that [of xs' ys'] assms(1,2) by simp
qed

lemma strcmp_decide:
  "cstring m a xs \<Longrightarrow> cstring m b ys \<Longrightarrow> cmp_char (m a) (m b) = Some r \<Longrightarrow> strcmp_spec xs ys = r"
  using cmp_char_spec [of m a xs b ys] by simp

text \<open>Four characters at once: what the comparison of one word decides.\<close>

fun cmp_chars :: "nat \<Rightarrow> ptr \<Rightarrow> ptr \<Rightarrow> memory \<Rightarrow> int option" where
  "cmp_chars 0 a b m = None"
| "cmp_chars (Suc n) a b m = (case cmp_char (m a) (m b) of Some r \<Rightarrow> Some r | None \<Rightarrow> cmp_chars n (a + 1) (b + 1) m)"

lemma cmp_chars_decide:
  "cstring m a xs \<Longrightarrow> cstring m b ys \<Longrightarrow> cmp_chars n a b m = Some r \<Longrightarrow> strcmp_spec xs ys = r"
proof (induction n arbitrary: a b xs ys)
  case (Suc n)
  show ?case
  proof (cases "cmp_char (m a) (m b)")
    case None
    obtain xs' ys' where *: "strcmp_spec xs ys = strcmp_spec xs' ys'" "cstring m (a + 1) xs'" "cstring m (b + 1) ys'"
      by (rule strcmp_step [OF Suc.prems(1,2) None])
    then show ?thesis using Suc.IH [OF *(2,3)] Suc.prems(3) None by simp
  next
    case (Some r')
    then show ?thesis using Suc.prems(3) strcmp_decide [OF Suc.prems(1,2) Some] by simp
  qed
qed simp

lemma cmp_chars_continue:
  "cstring m a xs \<Longrightarrow> cstring m b ys \<Longrightarrow> cmp_chars n a b m = None \<Longrightarrow>
   \<exists>xs' ys'. strcmp_spec xs ys = strcmp_spec xs' ys' \<and> cstring m (a + n) xs' \<and> cstring m (b + n) ys' \<and>
     length xs = length xs' + n"
proof (induction n arbitrary: a b xs ys)
  case 0
  then show ?case by auto
next
  case (Suc n)
  then have none: "cmp_char (m a) (m b) = None" "cmp_chars n (a + 1) (b + 1) m = None" by (auto split: option.splits)
  obtain xs' ys' where *: "strcmp_spec xs ys = strcmp_spec xs' ys'" "cstring m (a + 1) xs'" "cstring m (b + 1) ys'"
    "length xs = Suc (length xs')"
    by (rule strcmp_step [OF Suc.prems(1,2) none(1)])
  from Suc.IH [OF *(2,3) none(2)] show ?case using *(1,4) by fastforce
qed

lemma strcmp_word_step:
  "(if ld32 m a \<noteq> ld32 m b then Some (strcmp_tail (ld32 m a) (ld32 m b))
    else if has_zero_byte (ld32 m a) then Some 0 else None) = cmp_chars 4 a b m"
proof -
  have four: "cmp_chars 4 a b m = cmp_chars (Suc (Suc (Suc (Suc 0)))) a b m" by (simp add: numeral_eq_Suc)
  have n: "a + 1 + 1 = a + 2" "a + 2 + 1 = a + 3" "b + 1 + 1 = b + 2" "b + 2 + 1 = b + 3" by simp_all
  show ?thesis
    unfolding strcmp_tail_def ld32_bytes ld32_eq_iff has_zero_byte_ld32 four cmp_chars.simps n cmp_char_def Let_def
    by (cases "m a = m b"; cases "m (a + 1) = m (b + 1)"; cases "m (a + 2) = m (b + 2)"; cases "m (a + 3) = m (b + 3)") simp_all
qed

lemma strcmp_words_spec:
  "cstring m a xs \<Longrightarrow> cstring m b ys \<Longrightarrow> strcmp_words a b m = Some (strcmp_spec xs ys)"
proof (induction xs arbitrary: a b ys rule: measure_induct_rule [where f = length])
  case (less xs)
  have step: "strcmp_words a b m = (case cmp_chars 4 a b m of Some r \<Rightarrow> Some r | None \<Rightarrow> strcmp_words (a + 4) (b + 4) m)"
    unfolding strcmp_word_step [symmetric] by (subst strcmp_words.simps) (simp add: Let_def)
  show ?case
  proof (cases "cmp_chars 4 a b m")
    case None
    from cmp_chars_continue [OF less.prems None] obtain xs' ys' where *:
      "strcmp_spec xs ys = strcmp_spec xs' ys'" "cstring m (a + 4) xs'" "cstring m (b + 4) ys'" "length xs = length xs' + 4"
      by blast
    then show ?thesis using less.IH [OF _ *(2,3)] step None by simp
  next
    case (Some r)
    then show ?thesis using step cmp_chars_decide [OF less.prems Some] by simp
  qed
qed

lemma strcmp_correct_aux:
  "cstring m a xs \<Longrightarrow> cstring m b ys \<Longrightarrow> strcmp a b m = Some (strcmp_spec xs ys)"
proof (induction xs arbitrary: a b ys rule: measure_induct_rule [where f = length])
  case (less xs)
  show ?case
  proof (cases "(a OR b) AND 3 = 0")
    case True
    then show ?thesis using strcmp_words_spec [OF less.prems] by (subst strcmp_def, subst strcmp_bytes.simps) simp
  next
    case False
    then have step: "strcmp a b m = (case cmp_char (m a) (m b) of Some r \<Rightarrow> Some r | None \<Rightarrow> strcmp (a + 1) (b + 1) m)"
      by (subst strcmp_def, subst strcmp_bytes.simps) (simp add: strcmp_def split: option.splits)
    show ?thesis
    proof (cases "cmp_char (m a) (m b)")
      case None
      obtain xs' ys' where *: "strcmp_spec xs ys = strcmp_spec xs' ys'" "cstring m (a + 1) xs'" "cstring m (b + 1) ys'"
        "length xs = Suc (length xs')" by (rule strcmp_step [OF less.prems None])
      then show ?thesis using less.IH [OF _ *(2,3)] step None by simp
    next
      case (Some r)
      then show ?thesis using step strcmp_decide [OF less.prems Some] by simp
    qed
  qed
qed

lemma strcmp_spec_zero: "strcmp_spec xs ys = 0 \<longleftrightarrow> xs = ys"
  by (induction xs ys rule: strcmp_spec.induct) auto

subsection \<open>Properties of the library\<close>

text \<open>
  C17: \<open>strcpy\<close>, which copies words as soon as both addresses are aligned, copies a string that does
  not overlap its destination for every alignment: it returns, the destination holds the same
  string, and no other byte changes.
\<close>

theorem strcpy_correct:
  assumes "cstring m src xs" and "dst + length xs + 1 \<le> src \<or> src + length xs + 1 \<le> dst"
  shows "\<exists>m'. strcpy dst src m = Some m' \<and> cstring m' dst xs \<and>
    (\<forall>x. x < dst \<or> dst + length xs < x \<longrightarrow> m' x = m x)"
proof -
  let ?m = "memcpy (length xs + 1) dst src m"
  have "dst \<le> src \<or> src + (length xs + 1) \<le> dst" using assms(2) by auto
  note b = memcpy_block [OF this, of m]
  have "?m (dst + i) = m (src + i)" if "i \<le> length xs" for i using that unfolding b by simp
  then have "cstring ?m dst xs" using assms(1) by (rule cstring_move)
  moreover have "?m x = m x" if "x < dst \<or> dst + length xs < x" for x by (rule memcpy_outside) (use that in auto)
  ultimately show ?thesis using strcpy_spec [OF assms] by blast
qed

theorem strcpy_correct_witness:
  "\<exists>m'. strcpy 201 100 ((\<lambda>_. 0)(100 := 72, 101 := 105)) = Some m' \<and> cstring m' 201 [72, 105]"
  using strcpy_correct [of "(\<lambda>_. 0)(100 := 72, 101 := 105)" 100 "[72, 105]" 201] by auto

text \<open>
  C18: \<open>strcmp\<close>, which compares words as soon as both addresses are aligned, returns for any two
  strings and any alignment the sign of their lexicographic comparison; 0 exactly if they are equal.
\<close>

theorem strcmp_correct:
  assumes "cstring m s1 xs" and "cstring m s2 ys"
  shows "strcmp s1 s2 m = Some (strcmp_spec xs ys) \<and> (strcmp s1 s2 m = Some 0 \<longleftrightarrow> xs = ys)"
  using strcmp_correct_aux [OF assms] strcmp_spec_zero [of xs ys] by simp

theorem strcmp_correct_witness:
  "strcmp 100 201 ((\<lambda>_. 0)(100 := 72, 101 := 105, 201 := 72, 202 := 106)) = Some (- 1)"
  using strcmp_correct [of "(\<lambda>_. 0)(100 := 72, 101 := 105, 201 := 72, 202 := 106)" 100 "[72, 105]" 201 "[72, 106]"] by simp

text \<open>
  After a \<open>memcpy\<close> whose source does not start below an overlapping destination, \<open>memcmp\<close> finds
  the destination equal to the original source bytes, and no byte outside the destination changed.
\<close>

lemma memcpy_correct:
  assumes "a \<le> b \<or> b + n \<le> a"
  shows "bytes_at (memcpy n a b m) a n = bytes_at m b n \<and>
    (\<forall>x. x < a \<or> a + n \<le> x \<longrightarrow> memcpy n a b m x = m x) \<and>
    (b + n \<le> a \<longrightarrow> memcmp a b n (memcpy n a b m) = 0)"
proof -
  have "bytes_at (memcpy n a b m) b n = bytes_at m b n" if "b + n \<le> a"
    using that by (intro bytes_at_cong memcpy_outside) auto
  then show ?thesis using bytes_at_memcpy [OF assms] memcpy_outside by (auto simp: memcmp_zero)
qed

end
