(* ===== verification/Mem_Heap.thy ===== *)
theory Mem_Heap
  imports Allocator Mylib
begin

text \<open>
  The heap of \<^verbatim>\<open>lwip-1.4.1/src/core/mem.c\<close> as configured by
  \<^verbatim>\<open>lwipopts.h\<close> (\<open>MEM_SIZE\<close> 8192, \<open>MEM_ALIGNMENT\<close> 4, no pools, \<open>NO_SYS\<close>,
  so \<open>mem_size_t\<close> is \<open>u16_t\<close>).  The heap is a doubly linked list of \<open>struct mem\<close>
  headers addressed by their offset in \<open>ram\<close>; \<open>lfree\<close> is the offset of the lowest free block.
  The model keeps the headers in a map from offsets to headers.  A block's data is the part of
  \<open>ram\<close> between its header and the next one.
\<close>

subsection \<open>Constants and data\<close>

text \<open>\<open>LWIP_MEM_ALIGN_SIZE\<close> and \<open>LWIP_MEM_ALIGN\<close> of \<^verbatim>\<open>lwip/mem.h\<close>; the result is not
  yet truncated to \<open>mem_size_t\<close>.\<close>

definition MEM_ALIGNMENT :: nat where "MEM_ALIGNMENT = 4"

definition mem_align_size :: "nat \<Rightarrow> nat" where
  "mem_align_size n = (n + MEM_ALIGNMENT - 1) div MEM_ALIGNMENT * MEM_ALIGNMENT"

definition MIN_SIZE_ALIGNED :: nat where "MIN_SIZE_ALIGNED = mem_align_size 12"

text \<open>\<open>struct mem\<close> has two \<open>u16_t\<close> and one \<open>u8_t\<close>: 6 bytes with padding.\<close>

definition SIZEOF_STRUCT_MEM :: nat where "SIZEOF_STRUCT_MEM = mem_align_size 6"

definition MEM_SIZE_ALIGNED :: nat where "MEM_SIZE_ALIGNED = mem_align_size 8192"

record struct_mem =
  mem_next :: nat
  mem_prev :: nat
  mem_used :: bool

record mem_heap =
  ram :: ptr
  hdrs :: "nat \<Rightarrow> struct_mem"
  lfree :: nat

abbreviation ram_end :: nat where "ram_end \<equiv> MEM_SIZE_ALIGNED"

lemma mem_consts [simp]:
  "MEM_ALIGNMENT = 4" "MIN_SIZE_ALIGNED = 12" "SIZEOF_STRUCT_MEM = 8" "MEM_SIZE_ALIGNED = 8192"
  by (simp_all add: MEM_ALIGNMENT_def MIN_SIZE_ALIGNED_def SIZEOF_STRUCT_MEM_def
      MEM_SIZE_ALIGNED_def mem_align_size_def)

subsection \<open>Operations\<close>

text \<open>Field writes through a \<open>struct mem\<close> pointer, given by its offset.\<close>

definition set_next :: "nat \<Rightarrow> nat \<Rightarrow> mem_heap \<Rightarrow> mem_heap" where
  "set_next p v H = H\<lparr>hdrs := (hdrs H)(p := (hdrs H p)\<lparr>mem_next := v\<rparr>)\<rparr>"

definition set_prev :: "nat \<Rightarrow> nat \<Rightarrow> mem_heap \<Rightarrow> mem_heap" where
  "set_prev p v H = H\<lparr>hdrs := (hdrs H)(p := (hdrs H p)\<lparr>mem_prev := v\<rparr>)\<rparr>"

definition set_used :: "nat \<Rightarrow> bool \<Rightarrow> mem_heap \<Rightarrow> mem_heap" where
  "set_used p v H = H\<lparr>hdrs := (hdrs H)(p := (hdrs H p)\<lparr>mem_used := v\<rparr>)\<rparr>"

lemmas set_hdr_defs = set_next_def set_prev_def set_used_def

definition plug_forward :: "nat \<Rightarrow> mem_heap \<Rightarrow> mem_heap" where
  "plug_forward mem H =
     (let nmem = mem_next (hdrs H mem)
      in if mem \<noteq> nmem \<and> \<not> mem_used (hdrs H nmem) \<and> nmem \<noteq> ram_end then
           let H1 = (if lfree H = nmem then H\<lparr>lfree := mem\<rparr> else H);
               H2 = set_next mem (mem_next (hdrs H1 nmem)) H1
           in set_prev (mem_next (hdrs H2 nmem)) mem H2
         else H)"

definition plug_backward :: "nat \<Rightarrow> mem_heap \<Rightarrow> mem_heap" where
  "plug_backward mem H =
     (let pmem = mem_prev (hdrs H mem)
      in if pmem \<noteq> mem \<and> \<not> mem_used (hdrs H pmem) then
           let H1 = (if lfree H = mem then H\<lparr>lfree := pmem\<rparr> else H);
               H2 = set_next pmem (mem_next (hdrs H1 mem)) H1
           in set_prev (mem_next (hdrs H2 mem)) pmem H2
         else H)"

definition plug_holes :: "nat \<Rightarrow> mem_heap \<Rightarrow> mem_heap" where
  "plug_holes mem H = plug_backward mem (plug_forward mem H)"

definition mem_init :: "ptr \<Rightarrow> mem_heap" where
  "mem_init ram_heap =
     \<lparr>ram = mem_align_size ram_heap,
      hdrs = (\<lambda>_. \<lparr>mem_next = 0, mem_prev = 0, mem_used = False\<rparr>)
               (0 := \<lparr>mem_next = MEM_SIZE_ALIGNED, mem_prev = 0, mem_used = False\<rparr>,
                ram_end := \<lparr>mem_next = MEM_SIZE_ALIGNED, mem_prev = MEM_SIZE_ALIGNED, mem_used = True\<rparr>),
      lfree = 0\<rparr>"

definition mem_free :: "ptr \<Rightarrow> mem_heap \<Rightarrow> mem_heap" where
  "mem_free rmem H =
     (if rmem = NULL then H
      else if rmem < ram H \<or> rmem \<ge> ram H + ram_end then H
      else let mem = rmem - SIZEOF_STRUCT_MEM - ram H;
               H1 = set_used mem False H;
               H2 = (if mem < lfree H1 then H1\<lparr>lfree := mem\<rparr> else H1)
           in plug_holes mem H2)"

text \<open>
  Writing a free header at \<open>ptr2\<close> behind the block at \<open>ptr\<close> and linking it in before \<open>nx\<close>: the
  field writes both shrinking branches of \<open>mem_trim\<close> end with.
\<close>

definition link_free :: "nat \<Rightarrow> nat \<Rightarrow> nat \<Rightarrow> mem_heap \<Rightarrow> mem_heap" where
  "link_free ptr ptr2 nx H =
     (let H1 = set_used ptr2 False H;
          H2 = set_next ptr2 nx H1;
          H3 = set_prev ptr2 ptr H2;
          H4 = set_next ptr ptr2 H3
      in if mem_next (hdrs H4 ptr2) \<noteq> MEM_SIZE_ALIGNED
         then set_prev (mem_next (hdrs H4 ptr2)) ptr2 H4 else H4)"

definition mem_trim :: "ptr \<Rightarrow> nat \<Rightarrow> mem_heap \<Rightarrow> mem_heap \<times> ptr" where
  "mem_trim rmem newsize0 H =
     (let newsize1 = to_u16 (mem_align_size newsize0);
          newsize = (if newsize1 < MIN_SIZE_ALIGNED then MIN_SIZE_ALIGNED else newsize1)
      in if newsize > MEM_SIZE_ALIGNED then (H, NULL)
         else if rmem < ram H \<or> rmem \<ge> ram H + ram_end then (H, rmem)
         else
           let ptr = rmem - SIZEOF_STRUCT_MEM - ram H;
               sz = usub 16 (mem_next (hdrs H ptr)) (ptr + SIZEOF_STRUCT_MEM)
           in if newsize > sz then (H, NULL)
              else if newsize = sz then (H, rmem)
              else
                let mem2 = mem_next (hdrs H ptr);
                    ptr2 = to_u16 (ptr + SIZEOF_STRUCT_MEM + newsize)
                in if \<not> mem_used (hdrs H mem2) then
                     let nx = mem_next (hdrs H mem2);
                         H1 = (if lfree H = mem2 then H\<lparr>lfree := ptr2\<rparr> else H)
                     in (link_free ptr ptr2 nx H1, rmem)
                   else if newsize + SIZEOF_STRUCT_MEM + MIN_SIZE_ALIGNED \<le> sz then
                     let H1 = (if ptr2 < lfree H then H\<lparr>lfree := ptr2\<rparr> else H)
                     in (link_free ptr ptr2 (mem_next (hdrs H1 ptr)) H1, rmem)
                   else (H, rmem))"

text \<open>The search loop of \<open>mem_malloc\<close>: the offset of the first fitting block, if any.\<close>

partial_function (option) malloc_scan :: "mem_heap \<Rightarrow> nat \<Rightarrow> nat \<Rightarrow> nat option option" where
  "malloc_scan H sz ptr =
     (if ptr < MEM_SIZE_ALIGNED - sz then
        if \<not> mem_used (hdrs H ptr) \<and>
           usub 32 (mem_next (hdrs H ptr)) (ptr + SIZEOF_STRUCT_MEM) \<ge> sz
        then Some (Some ptr)
        else malloc_scan H sz (mem_next (hdrs H ptr))
      else Some None)"

text \<open>The loop that moves \<open>lfree\<close> to the next free block.\<close>

partial_function (option) next_free :: "mem_heap \<Rightarrow> nat \<Rightarrow> nat option" where
  "next_free H cur =
     (if mem_used (hdrs H cur) \<and> cur \<noteq> ram_end then next_free H (mem_next (hdrs H cur)) else Some cur)"

text \<open>Marking the block at \<open>ptr\<close> used, splitting it when the remainder is large enough.\<close>

definition malloc_take :: "nat \<Rightarrow> nat \<Rightarrow> mem_heap \<Rightarrow> mem_heap" where
  "malloc_take sz ptr H =
     (if usub 32 (mem_next (hdrs H ptr)) (ptr + SIZEOF_STRUCT_MEM)
           \<ge> sz + SIZEOF_STRUCT_MEM + MIN_SIZE_ALIGNED then
        let ptr2 = to_u16 (ptr + SIZEOF_STRUCT_MEM + sz);
            H1 = set_used ptr2 False H;
            H2 = set_next ptr2 (mem_next (hdrs H1 ptr)) H1;
            H3 = set_prev ptr2 ptr H2;
            H4 = set_next ptr ptr2 H3;
            H5 = set_used ptr True H4
        in if mem_next (hdrs H5 ptr2) \<noteq> MEM_SIZE_ALIGNED
           then set_prev (mem_next (hdrs H5 ptr2)) ptr2 H5 else H5
      else set_used ptr True H)"

definition mem_malloc :: "nat \<Rightarrow> mem_heap \<Rightarrow> (mem_heap \<times> ptr) option" where
  "mem_malloc sz0 H =
     (if sz0 = 0 then Some (H, NULL)
      else
        let sz1 = to_u16 (mem_align_size sz0);
            sz = (if sz1 < MIN_SIZE_ALIGNED then MIN_SIZE_ALIGNED else sz1)
        in if sz > MEM_SIZE_ALIGNED then Some (H, NULL)
           else case malloc_scan H sz (lfree H) of
               None \<Rightarrow> None
             | Some None \<Rightarrow> Some (H, NULL)
             | Some (Some ptr) \<Rightarrow>
                 let H1 = malloc_take sz ptr H
                 in if ptr = lfree H1 then
                      case next_free H1 (lfree H1) of
                        None \<Rightarrow> None
                      | Some cur \<Rightarrow> Some (H1\<lparr>lfree := cur\<rparr>, ram H + ptr + SIZEOF_STRUCT_MEM)
                    else Some (H1, ram H + ptr + SIZEOF_STRUCT_MEM))"

lemmas mem_defs [model_defs] =
  plug_forward_def plug_backward_def plug_holes_def mem_init_def mem_free_def link_free_def mem_trim_def malloc_take_def mem_malloc_def

subsection \<open>The invariant\<close>

abbreviation nxt :: "mem_heap \<Rightarrow> nat \<Rightarrow> nat" where "nxt H b \<equiv> mem_next (hdrs H b)"
abbreviation prv :: "mem_heap \<Rightarrow> nat \<Rightarrow> nat" where "prv H b \<equiv> mem_prev (hdrs H b)"
abbreviation usd :: "mem_heap \<Rightarrow> nat \<Rightarrow> bool" where "usd H b \<equiv> mem_used (hdrs H b)"

text \<open>
  \<open>B\<close> is the set of offsets at which a block header stands, the sentinel \<open>ram_end\<close> included.
  \<open>linked\<close> says that the \<open>next\<close> fields enumerate \<open>B\<close> upwards, that every block has room for
  its header and \<open>MIN_SIZE\<close> bytes, and that the \<open>prev\<close> fields are the inverse (the sentinel's is
  never read).
\<close>

definition linked :: "nat set \<Rightarrow> (nat \<Rightarrow> nat) \<Rightarrow> (nat \<Rightarrow> nat) \<Rightarrow> bool" where
  "linked B nx pv \<longleftrightarrow>
     0 \<in> B \<and> ram_end \<in> B \<and> (\<forall>b\<in>B. b \<le> ram_end \<and> 4 dvd b) \<and> nx ram_end = ram_end \<and> pv 0 = 0 \<and>
     (\<forall>b\<in>B. b < ram_end \<longrightarrow> nx b \<in> B \<and> b + 20 \<le> nx b \<and>
        (\<forall>c\<in>B. b < c \<longrightarrow> nx b \<le> c) \<and> (nx b \<noteq> ram_end \<longrightarrow> pv (nx b) = b))"

definition heap_wf :: "nat set \<Rightarrow> mem_heap \<Rightarrow> bool" where
  "heap_wf B H \<longleftrightarrow>
     0 < ram H \<and> 4 dvd ram H \<and> linked B (nxt H) (prv H) \<and> usd H ram_end \<and>
     (\<forall>b\<in>B. b < ram_end \<longrightarrow> \<not> usd H b \<longrightarrow> usd H (nxt H b)) \<and>
     lfree H \<in> B \<and> (\<forall>b\<in>B. b < lfree H \<longrightarrow> usd H b) \<and> (lfree H \<noteq> ram_end \<longrightarrow> \<not> usd H (lfree H))"

lemma linkedD:
  assumes "linked B nx pv"
  shows "0 \<in> B" "ram_end \<in> B" "\<And>b. b \<in> B \<Longrightarrow> b \<le> ram_end" "\<And>b. b \<in> B \<Longrightarrow> 4 dvd b"
    "nx ram_end = ram_end" "pv 0 = 0"
    "\<And>b. b \<in> B \<Longrightarrow> b < ram_end \<Longrightarrow> nx b \<in> B"
    "\<And>b. b \<in> B \<Longrightarrow> b < ram_end \<Longrightarrow> b + 20 \<le> nx b"
    "\<And>b c. b \<in> B \<Longrightarrow> b < ram_end \<Longrightarrow> c \<in> B \<Longrightarrow> b < c \<Longrightarrow> nx b \<le> c"
    "\<And>b. b \<in> B \<Longrightarrow> b < ram_end \<Longrightarrow> nx b \<noteq> ram_end \<Longrightarrow> pv (nx b) = b"
  using assms unfolding linked_def by blast+

lemma linked_bound:
  assumes "linked B nx pv" and "b \<in> B"
  shows "nx b \<le> 8192" "b \<le> 8192"
  using linkedD(3) [OF assms(1)] linkedD(5,7) [OF assms(1)] assms(2)
  by (metis le_neq_implies_less mem_consts(4) nat_less_le)+

lemma linked_nx_inj:
  assumes "linked B nx pv" "b \<in> B" "c \<in> B" "b < ram_end" "c < ram_end" "nx b = nx c"
  shows "b = c"
proof (rule ccontr)
  assume "b \<noteq> c"
  then consider "b < c" | "c < b" by linarith
  then show False
  proof cases
    case 1
    then show ?thesis using linkedD(9) [OF assms(1,2,4,3) 1] linkedD(8) [OF assms(1,3,5)] assms(6) by simp
  next
    case 2
    then show ?thesis using linkedD(9) [OF assms(1,3,5,2) 2] linkedD(8) [OF assms(1,2,4)] assms(6) by simp
  qed
qed

lemma linked_pred:
  assumes L: "linked B nx pv" and b: "b \<in> B" "b \<noteq> 0"
  obtains m where "m \<in> B" "m < b" "m < ram_end" "nx m = b"
proof -
  define P where "P = {c \<in> B. c < b}"
  have fin: "finite P" and ne: "P \<noteq> {}"
    using linkedD(1) [OF L] b by (auto simp: P_def)
  define m where "m = Max P"
  have m: "m \<in> B" "m < b" using Max_in [OF fin ne] by (auto simp: m_def P_def)
  have mx: "c \<le> m" if "c \<in> B" "c < b" for c using that fin by (auto simp: m_def P_def)
  have lt: "m < ram_end" using m(2) linkedD(3) [OF L b(1)] by simp
  have "nx m \<le> b" using linkedD(9) [OF L m(1) lt b(1) m(2)] .
  moreover have "\<not> nx m < b"
    using mx [OF linkedD(7) [OF L m(1) lt]] linkedD(8) [OF L m(1) lt] by auto
  ultimately have "nx m = b" by simp
  then show ?thesis using that m lt by blast
qed

lemma linked_prev:
  assumes L: "linked B nx pv" and b: "b \<in> B" "b < ram_end" "b \<noteq> 0"
  shows "pv b \<in> B \<and> pv b < b \<and> nx (pv b) = b"
proof -
  obtain m where m: "m \<in> B" "m < b" "m < ram_end" "nx m = b" using linked_pred [OF L b(1,3)] .
  then have "pv b = m" using linkedD(10) [OF L m(1,3)] b(2) by simp
  then show ?thesis using m by simp
qed

text \<open>The block set is what the \<open>next\<close> fields reach from the first header.\<close>

definition mem_blocks :: "mem_heap \<Rightarrow> nat set" where
  "mem_blocks H = range (\<lambda>k. (nxt H ^^ k) 0)"

lemma linked_blocks:
  assumes L: "linked B nx pv"
  shows "B = range (\<lambda>k. (nx ^^ k) 0)"
proof
  show "range (\<lambda>k. (nx ^^ k) 0) \<subseteq> B"
  proof safe
    fix k :: nat
    show "(nx ^^ k) 0 \<in> B"
    proof (induction k)
      case 0
      then show ?case using linkedD(1) [OF L] by simp
    next
      case (Suc k)
      then show ?case using linkedD(3,5,7) [OF L] by (metis funpow.simps(2) o_apply le_neq_implies_less)
    qed
  qed
  show "B \<subseteq> range (\<lambda>k. (nx ^^ k) 0)"
  proof
    fix b assume "b \<in> B"
    then show "b \<in> range (\<lambda>k. (nx ^^ k) 0)"
    proof (induction b rule: less_induct)
      case (less b)
      show ?case
      proof (cases "b = 0")
        case True
        then show ?thesis by (intro range_eqI [of _ _ 0]) simp
      next
        case False
        obtain m where "m \<in> B" "m < b" "nx m = b" using linked_pred [OF L less.prems False] by blast
        then obtain k where "(nx ^^ k) 0 = m" using less.IH by blast
        then have "(nx ^^ Suc k) 0 = b" using \<open>nx m = b\<close> by simp
        then show ?thesis by (intro range_eqI [of _ _ "Suc k"]) simp
      qed
    qed
  qed
qed

definition mem_inv :: "mem_heap \<Rightarrow> bool" where
  "mem_inv H \<longleftrightarrow> heap_wf (mem_blocks H) H"

lemma heap_wf_blocks: "heap_wf B H \<Longrightarrow> mem_blocks H = B"
  using linked_blocks unfolding heap_wf_def mem_blocks_def by metis

lemma heap_wf_inv: "heap_wf B H \<Longrightarrow> mem_inv H"
  using heap_wf_blocks by (auto simp: mem_inv_def)

text \<open>The allocated regions: address of the data and its size.\<close>

definition mem_live :: "mem_heap \<Rightarrow> (ptr \<times> nat) set" where
  "mem_live H = {(ram H + b + SIZEOF_STRUCT_MEM, nxt H b - (b + SIZEOF_STRUCT_MEM)) |b.
      b \<in> mem_blocks H \<and> b < ram_end \<and> usd H b}"

text \<open>The three structural changes: splitting a block, merging a block with its successor, and
  changes that leave the links alone.\<close>

lemma linked_split:
  assumes L: "linked B nx pv" and b: "b \<in> B" "b < ram_end"
    and c: "b + 20 \<le> c" "c + 20 \<le> nx b" "4 dvd c"
    and nx': "nx' b = c" "nx' c = nx b" "\<And>x. x \<in> B \<Longrightarrow> x \<noteq> b \<Longrightarrow> nx' x = nx x"
    and pv': "pv' c = b" "nx b \<noteq> ram_end \<Longrightarrow> pv' (nx b) = c"
      "\<And>x. x \<in> B \<Longrightarrow> x \<noteq> nx b \<Longrightarrow> x \<noteq> ram_end \<Longrightarrow> pv' x = pv x"
  shows "linked (insert c B) nx' pv'"
proof -
  note D = linkedD [OF L]
  have nb: "nx b \<in> B" "nx b \<le> ram_end" using D(3,7) b by blast+
  have cB: "c \<notin> B" using D(9) [OF b, of c] c by auto
  have between: "x \<le> b \<or> nx b \<le> x" if "x \<in> B" for x using D(9) [OF b that] by linarith
  have "nx' x \<in> insert c B \<and> x + 20 \<le> nx' x \<and> (\<forall>d\<in>insert c B. x < d \<longrightarrow> nx' x \<le> d) \<and>
        (nx' x \<noteq> ram_end \<longrightarrow> pv' (nx' x) = x)" if x: "x \<in> insert c B" "x < ram_end" for x
  proof -
    consider "x = b" | "x = c" | "x \<in> B" "x \<noteq> b" "x \<noteq> c" using x by blast
    then show ?thesis
    proof cases
      case 1
      have "c \<le> d" if "d \<in> B" "b < d" for d using between [OF that(1)] that(2) c by linarith
      then show ?thesis using 1 nx'(1) pv'(1) c(1) by simp
    next
      case 2
      have "nx b \<le> d" if "d \<in> B" "c < d" for d using between [OF that(1)] that(2) c by linarith
      then show ?thesis using 2 nx'(2) pv'(2) c nb by simp
    next
      case 3
      have "nx x \<noteq> nx b" using linked_nx_inj [OF L 3(1) b(1) x(2) b(2)] 3 by blast
      moreover have "nx x \<le> c" if "x < c" using between [OF 3(1)] that c 3 D(9) [OF 3(1) x(2) b(1)] by auto
      moreover have "nx x \<in> B" "x + 20 \<le> nx x" "\<forall>d\<in>B. x < d \<longrightarrow> nx x \<le> d"
        "nx x \<noteq> ram_end \<Longrightarrow> pv (nx x) = x" using D 3 x by blast+
      ultimately show ?thesis using nx' pv' 3 cB by (metis insertE insertI2)
    qed
  qed
  moreover have "nx' ram_end = ram_end" using nx'(3) [OF D(2)] b D(5) by simp
  moreover have "pv' 0 = 0"
  proof -
    have "nx b \<noteq> 0" "(0::nat) \<noteq> ram_end" using c by auto
    then show ?thesis using pv'(3) [OF D(1)] D(6) by metis
  qed
  moreover have "c \<le> ram_end" using c nb by linarith
  ultimately show ?thesis unfolding linked_def using D(1-4) c(3) by blast
qed

lemma linked_merge:
  assumes L: "linked B nx pv" and b: "b \<in> B" "b < ram_end" and n: "n = nx b" "n \<noteq> ram_end"
    and nx': "nx' b = nx n" "\<And>x. x \<in> B \<Longrightarrow> x \<noteq> b \<Longrightarrow> x \<noteq> n \<Longrightarrow> nx' x = nx x"
    and pv': "nx n \<noteq> ram_end \<Longrightarrow> pv' (nx n) = b"
      "\<And>x. x \<in> B \<Longrightarrow> x \<noteq> n \<Longrightarrow> x \<noteq> nx n \<Longrightarrow> x \<noteq> ram_end \<Longrightarrow> pv' x = pv x"
  shows "linked (B - {n}) nx' pv'"
proof -
  note D = linkedD [OF L]
  have nB: "n \<in> B" "n < ram_end" "b + 20 \<le> n" using D(3,7,8) b n by (auto simp: le_less)
  have nn: "nx n \<in> B" "n + 20 \<le> nx n" using D(7,8) nB by blast+
  have "nx' x \<in> B - {n} \<and> x + 20 \<le> nx' x \<and> (\<forall>d\<in>B - {n}. x < d \<longrightarrow> nx' x \<le> d) \<and>
        (nx' x \<noteq> ram_end \<longrightarrow> pv' (nx' x) = x)" if x: "x \<in> B - {n}" "x < ram_end" for x
  proof (cases "x = b")
    case True
    have "nx n \<le> d" if "d \<in> B - {n}" "b < d" for d
    proof -
      have "n \<le> d" using D(9) [OF b, of d] that n by blast
      then show ?thesis using D(9) [OF nB(1,2), of d] that by (simp add: le_less)
    qed
    then show ?thesis using True nx' pv' nn nB by force
  next
    case False
    have i: "nx x \<noteq> n" "nx x \<noteq> nx n"
      using linked_nx_inj [OF L, of x b] linked_nx_inj [OF L, of x n] x b nB n False by blast+
    have "nx x \<in> B" "x + 20 \<le> nx x" "\<forall>d\<in>B. x < d \<longrightarrow> nx x \<le> d"
      "nx x \<noteq> ram_end \<Longrightarrow> pv (nx x) = x" using D x by blast+
    then show ?thesis using nx' pv' False i x by (metis DiffD1 DiffI empty_iff insert_iff)
  qed
  moreover have "nx' ram_end = ram_end" using nx'(2) [OF D(2)] b n D(5) by (metis less_irrefl)
  moreover have "pv' 0 = 0"
  proof -
    have "0 \<noteq> n" "0 \<noteq> nx n" "(0::nat) \<noteq> ram_end" using nB nn by auto
    then show ?thesis using pv'(2) [OF D(1)] D(6) by metis
  qed
  moreover have "0 \<in> B - {n}" "ram_end \<in> B - {n}" using D(1,2) nB n by auto
  ultimately show ?thesis unfolding linked_def using D(3,4) by blast
qed

subsection \<open>Initialisation and freeing\<close>

lemma mem_init_wf: "0 < ram_heap \<Longrightarrow> heap_wf {0, ram_end} (mem_init ram_heap)"
  by (auto simp: heap_wf_def linked_def mem_init_def mem_align_size_def)

lemma plug_forward_spec:
  assumes L: "linked B (nxt H) (prv H)" and b: "b \<in> B" "b < ram_end" and E: "usd H ram_end"
  defines "H' \<equiv> plug_forward b H"
  shows "ram H' = ram H" "usd H' x = usd H x"
    "usd H (nxt H b) \<Longrightarrow> H' = H"
    "\<not> usd H (nxt H b) \<Longrightarrow> linked (B - {nxt H b}) (nxt H') (prv H')"
    "\<not> usd H (nxt H b) \<Longrightarrow> nxt H' x = (if x = b then nxt H (nxt H b) else nxt H x)"
    "\<not> usd H (nxt H b) \<Longrightarrow> lfree H' = (if lfree H = nxt H b then b else lfree H)"
proof -
  define n where "n = nxt H b"
  have n: "b + 20 \<le> n" "n \<in> B" using linkedD(7,8) [OF L b] by (auto simp: n_def)
  have nE: "n \<noteq> ram_end" if "\<not> usd H n" using that E by auto
  have nn: "n + 20 \<le> nxt H n" if "\<not> usd H n"
    using linkedD(3,8) [OF L n(2)] nE [OF that] by simp
  have eq: "H' = H\<lparr>lfree := (if lfree H = n then b else lfree H),
       hdrs := (hdrs H)(b := (hdrs H b)\<lparr>mem_next := nxt H n\<rparr>,
                        nxt H n := (hdrs H (nxt H n))\<lparr>mem_prev := b\<rparr>)\<rparr>" if "\<not> usd H n"
    using that n nE [OF that] nn [OF that]
    by (auto simp: H'_def plug_forward_def n_def [symmetric] Let_def set_hdr_defs)
  show "ram H' = ram H" "usd H' x = usd H x"
    by (auto simp: H'_def plug_forward_def Let_def set_hdr_defs)
  show "usd H (nxt H b) \<Longrightarrow> H' = H" by (auto simp: H'_def plug_forward_def)
  assume u: "\<not> usd H (nxt H b)"
  then have u': "\<not> usd H n" by (simp add: n_def)
  show "nxt H' x = (if x = b then nxt H (nxt H b) else nxt H x)" for x
    using eq [OF u'] nn [OF u'] n by (auto simp: n_def [symmetric])
  show "lfree H' = (if lfree H = nxt H b then b else lfree H)"
    using eq [OF u'] by (simp add: n_def)
  have "linked (B - {n}) (nxt H') (prv H')"
    by (rule linked_merge [OF L b n_def nE [OF u']]) (use eq [OF u'] nn [OF u'] n in auto)
  then show "linked (B - {nxt H b}) (nxt H') (prv H')" by (simp add: n_def)
qed

lemma plug_backward_spec:
  assumes L: "linked B (nxt H) (prv H)" and b: "b \<in> B" "b < ram_end"
  defines "H' \<equiv> plug_backward b H"
  shows "ram H' = ram H" "usd H' x = usd H x"
    "b = 0 \<or> usd H (prv H b) \<Longrightarrow> H' = H"
    "b \<noteq> 0 \<Longrightarrow> \<not> usd H (prv H b) \<Longrightarrow> linked (B - {b}) (nxt H') (prv H')"
    "b \<noteq> 0 \<Longrightarrow> \<not> usd H (prv H b) \<Longrightarrow> nxt H' x = (if x = prv H b then nxt H b else nxt H x)"
    "b \<noteq> 0 \<Longrightarrow> \<not> usd H (prv H b) \<Longrightarrow> lfree H' = (if lfree H = b then prv H b else lfree H)"
proof -
  define p where "p = prv H b"
  have n: "b + 20 \<le> nxt H b" using linkedD(8) [OF L b] .
  show "ram H' = ram H" "usd H' x = usd H x"
    by (auto simp: H'_def plug_backward_def Let_def set_hdr_defs)
  show "b = 0 \<or> usd H (prv H b) \<Longrightarrow> H' = H"
    using linkedD(6) [OF L] by (auto simp: H'_def plug_backward_def)
  assume b0: "b \<noteq> 0" and u: "\<not> usd H (prv H b)"
  have p: "p \<in> B" "p < b" "nxt H p = b" using linked_prev [OF L b b0] by (auto simp: p_def)
  have eq: "H' = H\<lparr>lfree := (if lfree H = b then p else lfree H),
       hdrs := (hdrs H)(p := (hdrs H p)\<lparr>mem_next := nxt H b\<rparr>,
                        nxt H b := (hdrs H (nxt H b))\<lparr>mem_prev := p\<rparr>)\<rparr>"
    using u p n by (auto simp: H'_def plug_backward_def p_def [symmetric] Let_def set_hdr_defs)
  show "nxt H' x = (if x = prv H b then nxt H b else nxt H x)" for x
    using eq p n by (auto simp: p_def [symmetric])
  show "lfree H' = (if lfree H = b then prv H b else lfree H)"
    using eq by (simp add: p_def)
  have "p < ram_end" "b \<noteq> ram_end" using p b by simp_all
  then show "linked (B - {b}) (nxt H') (prv H')"
    by (intro linked_merge [OF L p(1) _ p(3) [symmetric]]) (use eq p n in auto)
qed

lemma heap_wfD:
  assumes "heap_wf B H"
  shows "0 < ram H" "4 dvd ram H" "linked B (nxt H) (prv H)" "usd H ram_end"
    "\<And>b. b \<in> B \<Longrightarrow> b < ram_end \<Longrightarrow> \<not> usd H b \<Longrightarrow> usd H (nxt H b)"
    "lfree H \<in> B" "\<And>b. b \<in> B \<Longrightarrow> b < lfree H \<Longrightarrow> usd H b"
    "lfree H \<noteq> ram_end \<Longrightarrow> \<not> usd H (lfree H)"
  using assms unfolding heap_wf_def by blast+

text \<open>
  Plugging holes around a freshly freed block \<open>b\<close>: only free headers disappear, the used ones and
  their sizes stay.
\<close>

lemma plug_holes_wf:
  assumes R: "0 < ram H" "4 dvd ram H" and L: "linked B (nxt H) (prv H)" and E: "usd H ram_end"
    and b: "b \<in> B" "b < ram_end" "\<not> usd H b"
    and coal: "\<And>x. x \<in> B \<Longrightarrow> x < ram_end \<Longrightarrow> \<not> usd H x \<Longrightarrow> x \<noteq> b \<Longrightarrow> nxt H x \<noteq> b \<Longrightarrow> usd H (nxt H x)"
    and lf: "lfree H \<in> B" "lfree H \<le> b" "\<not> usd H (lfree H)" "\<And>x. x \<in> B \<Longrightarrow> x < lfree H \<Longrightarrow> usd H x"
  shows "\<exists>B'. heap_wf B' (plug_holes b H) \<and> B' \<subseteq> B \<and> {x \<in> B. usd H x} \<subseteq> B' \<and>
     (\<forall>x. usd (plug_holes b H) x = usd H x) \<and> ram (plug_holes b H) = ram H \<and>
     (\<forall>x\<in>B'. usd H x \<longrightarrow> nxt (plug_holes b H) x = nxt H x)"
proof -
  define F where "F = plug_forward b H"
  define n where "n = nxt H b"
  define B1 where "B1 = (if usd H n then B else B - {n})"
  note FS = plug_forward_spec [OF L b(1,2) E, folded F_def n_def]
  have n: "n \<in> B" "b + 20 \<le> n" using linkedD(7,8) [OF L b(1,2)] by (auto simp: n_def)
  have nE: "n < ram_end" if "\<not> usd H n"
    using that E linkedD(3) [OF L n(1)] by (metis le_neq_implies_less)
  have n': "usd H (nxt H n)" "n + 20 \<le> nxt H n" if "\<not> usd H n"
    using coal [OF n(1) nE [OF that] that] linkedD(8) [OF L n(1) nE [OF that]] n by auto
  have LF: "linked B1 (nxt F) (prv F)" using FS(3,4) L by (auto simp: B1_def)
  have usdF: "usd F x = usd H x" for x using FS(2) .
  have ramF: "ram F = ram H" using FS(1) .
  have lfF: "lfree F = lfree H" using FS(3,6) lf(2) n by (cases "usd H n") auto
  have nxtF: "nxt F x = nxt H x" if "x \<noteq> b" for x using FS(3,5) that by (cases "usd H n") auto
  have nxtU: "nxt F x = nxt H x" if "usd H x" for x using nxtF [of x] that b(3) by auto
  have nxtFb: "usd H (nxt F b)" using FS(3) FS(5) [of b] n' n_def by (cases "usd H n") auto
  have bF: "b \<in> B1" using b n by (auto simp: B1_def)
  have lfB: "lfree H \<in> B1" using lf n by (auto simp: B1_def)
  have sub: "B1 \<subseteq> B" by (auto simp: B1_def)
  have keep: "x \<in> B1" if "x \<in> B" "usd H x" for x using that by (auto simp: B1_def)
  have coalF: "usd H (nxt F x) \<or> nxt F x = b" if "x \<in> B1" "x < ram_end" "\<not> usd H x" for x
    using coal [of x] that sub nxtF [of x] nxtFb by (cases "x = b") auto
  define G where "G = plug_backward b F"
  note GS = plug_backward_spec [OF LF bF b(2), folded G_def]
  have PG: "plug_holes b H = G" by (simp add: plug_holes_def F_def G_def)
  have usdG: "usd G x = usd H x" and ramG: "ram G = ram H" for x
    using GS(1,2) usdF ramF by auto
  show ?thesis
  proof (cases "b = 0 \<or> usd F (prv F b)")
    case True
    then have [simp]: "G = F" using GS(3) by blast
    have pred: "usd H (nxt F x)" if x: "x \<in> B1" "x < ram_end" "\<not> usd H x" for x
    proof -
      have "nxt F x \<noteq> b"
      proof
        assume e: "nxt F x = b"
        then have "b \<noteq> 0" using linkedD(8) [OF LF x(1,2)] by auto
        moreover have "prv F b = x" using linkedD(10) [OF LF x(1,2)] e b(2) by simp
        ultimately show False using True x(3) usdF by auto
      qed
      then show ?thesis using coalF [OF x] by blast
    qed
    have "heap_wf B1 G" unfolding heap_wf_def
      using R LF E pred lfB lf sub usdF ramF lfF by auto
    then show ?thesis unfolding PG using sub keep usdG ramG nxtU by (intro exI [of _ B1]) auto
  next
    case False
    define p where "p = prv F b"
    have p: "p \<in> B1" "p < b" "nxt F p = b" "\<not> usd H p"
      using linked_prev [OF LF bF b(2)] False usdF by (auto simp: p_def)
    have lfp: "lfree H \<le> p" using lf(4) [of p] p sub by (meson not_le_imp_less subsetD)
    have nxtG: "nxt G x = (if x = p then nxt F b else nxt F x)" for x
      using GS(5) False usdF by (auto simp: p_def)
    have lfG: "lfree G = lfree H" using GS(6) False lfF lfp p(2) by (auto simp: p_def)
    have LG: "linked (B1 - {b}) (nxt G) (prv G)" using GS(4) False by auto
    have pred: "usd H (nxt G x)" if x: "x \<in> B1" "x < ram_end" "\<not> usd H x" "x \<noteq> b" for x
    proof (cases "x = p")
      case True
      then show ?thesis using nxtG nxtFb by simp
    next
      case False
      have "nxt F x \<noteq> b" using linked_nx_inj [OF LF x(1) p(1) x(2)] p b(2) False by auto
      then show ?thesis using coalF [OF x(1-3)] nxtG False by auto
    qed
    have "heap_wf (B1 - {b}) G" unfolding heap_wf_def
      using R LG E pred lfB lf sub usdG ramG lfG lfp p(2) by auto
    then show ?thesis unfolding PG using sub keep usdG ramG nxtU nxtG p(4) b
      by (intro exI [of _ "B1 - {b}"]) auto
  qed
qed

lemma mem_free_wf:
  assumes wf: "heap_wf B H" and b: "b \<in> B" "b < ram_end" "usd H b"
  defines "H' \<equiv> mem_free (ram H + b + SIZEOF_STRUCT_MEM) H"
  shows "\<exists>B'. heap_wf B' H' \<and> ram H' = ram H \<and>
     {x \<in> B'. x < ram_end \<and> usd H' x} = {x \<in> B. x < ram_end \<and> usd H x} - {b} \<and>
     (\<forall>x\<in>B'. usd H' x \<longrightarrow> nxt H' x = nxt H x)"
proof -
  note D = heap_wfD [OF wf]
  define H2 where "H2 = (let H1 = set_used b False H in if b < lfree H1 then H1\<lparr>lfree := b\<rparr> else H1)"
  have H2: "nxt H2 x = nxt H x" "prv H2 x = prv H x" "usd H2 x = (usd H x \<and> x \<noteq> b)" "ram H2 = ram H"
    "lfree H2 = min b (lfree H)" for x
    by (auto simp: H2_def Let_def set_used_def)
  have "nxt H b \<le> 8192" "b + 20 \<le> nxt H b"
    using linked_bound [OF D(3) b(1)] linkedD(8) [OF D(3) b(1,2)] by auto
  then have H': "H' = plug_holes b H2"
    using D(1) by (auto simp: H'_def mem_free_def H2_def Let_def)
  have L2: "linked B (nxt H2) (prv H2)"
    using D(3) H2(1,2) by presburger
  have "lfree H \<noteq> b" using D(8) b by auto
  have "\<exists>B'. heap_wf B' (plug_holes b H2) \<and> B' \<subseteq> B \<and> {x \<in> B. usd H2 x} \<subseteq> B' \<and>
     (\<forall>x. usd (plug_holes b H2) x = usd H2 x) \<and> ram (plug_holes b H2) = ram H2 \<and>
     (\<forall>x\<in>B'. usd H2 x \<longrightarrow> nxt (plug_holes b H2) x = nxt H2 x)"
  proof (rule plug_holes_wf [OF _ _ L2])
    show "usd H2 ram_end" using D(4) b H2 by auto
    show "usd H2 (nxt H2 x)" if "x \<in> B" "x < ram_end" "\<not> usd H2 x" "x \<noteq> b" "nxt H2 x \<noteq> b" for x
      using that D(5) [of x] H2 by auto
    show "lfree H2 \<in> B" "lfree H2 \<le> b" "\<not> usd H2 (lfree H2)"
      using D(6,8) b H2 by (auto simp: min_def)
    show "usd H2 x" if "x \<in> B" "x < lfree H2" for x using that D(7) [of x] H2 by auto
  qed (use D(1,2) b H2 in auto)
  then show ?thesis unfolding H' using H2 by (elim exE, intro exI conjI) auto
qed

subsection \<open>Allocation\<close>

text \<open>The room for data in the block at \<open>b\<close>.\<close>

abbreviation room :: "mem_heap \<Rightarrow> nat \<Rightarrow> nat" where
  "room H b \<equiv> nxt H b - (b + SIZEOF_STRUCT_MEM)"

lemma usub_room:
  assumes "linked B (nxt H) pv" "b \<in> B" "b < ram_end"
  shows "usub 32 (nxt H b) (b + 8) = room H b" "usub 16 (nxt H b) (b + 8) = room H b"
  using linkedD(8) [OF assms] linked_bound(1) [OF assms(1,2)] by (auto intro!: usub_le)

lemma malloc_scan_spec:
  assumes L: "linked B (nxt H) pv" and sz: "0 < sz" "sz \<le> ram_end" and p: "p \<in> B"
  shows "\<exists>r. malloc_scan H sz p = Some r \<and>
    (case r of
       None \<Rightarrow> \<forall>b\<in>B. p \<le> b \<longrightarrow> b < ram_end \<longrightarrow> \<not> usd H b \<longrightarrow> room H b < sz
     | Some b \<Rightarrow> b \<in> B \<and> p \<le> b \<and> b < ram_end \<and> \<not> usd H b \<and> sz \<le> room H b \<and>
         (\<forall>c\<in>B. p \<le> c \<longrightarrow> c < b \<longrightarrow> \<not> usd H c \<longrightarrow> room H c < sz))"
  using p
proof (induction "ram_end - p" arbitrary: p rule: less_induct)
  case less
  note D = linkedD [OF L]
  show ?case
  proof (cases "p < ram_end - sz")
    case False
    have "room H b < sz" if "b \<in> B" "p \<le> b" "b < ram_end" for b
      using linked_bound(1) [OF L that(1)] D(8) [OF that(1,3)] that False sz by simp
    then show ?thesis using False by (subst malloc_scan.simps) auto
  next
    case True
    then have pE: "p < ram_end" using sz by simp
    show ?thesis
    proof (cases "\<not> usd H p \<and> sz \<le> room H p")
      case fit: True
      then show ?thesis using True less.prems pE usub_room [OF L less.prems pE]
        by (subst malloc_scan.simps) auto
    next
      case nofit: False
      have n: "nxt H p \<in> B" "p + 20 \<le> nxt H p" using D(7,8) less.prems pE by auto
      have "ram_end - nxt H p < ram_end - p" using n pE by simp
      from less.hyps [OF this n(1)] obtain r where r: "malloc_scan H sz (nxt H p) = Some r"
        "case r of None \<Rightarrow> \<forall>b\<in>B. nxt H p \<le> b \<longrightarrow> b < ram_end \<longrightarrow> \<not> usd H b \<longrightarrow> room H b < sz
         | Some b \<Rightarrow> b \<in> B \<and> nxt H p \<le> b \<and> b < ram_end \<and> \<not> usd H b \<and> sz \<le> room H b \<and>
             (\<forall>c\<in>B. nxt H p \<le> c \<longrightarrow> c < b \<longrightarrow> \<not> usd H c \<longrightarrow> room H c < sz)"
        by blast
      have step: "malloc_scan H sz p = Some r"
        using True nofit usub_room [OF L less.prems pE] r(1) by (subst malloc_scan.simps) auto
      have "b = p \<or> nxt H p \<le> b" if "b \<in> B" "p \<le> b" for b
        using D(9) [OF less.prems pE that(1)] that(2) by linarith
      then show ?thesis using step r(2) nofit n(2) by (cases r) (force dest: not_le_imp_less)+
    qed
  qed
qed

lemma next_free_spec:
  assumes L: "linked B (nxt H) pv" and p: "p \<in> B"
  shows "\<exists>r. next_free H p = Some r \<and> r \<in> B \<and> p \<le> r \<and> (r = ram_end \<or> \<not> usd H r) \<and>
    (\<forall>x\<in>B. p \<le> x \<longrightarrow> x < r \<longrightarrow> usd H x)"
  using p
proof (induction "ram_end - p" arbitrary: p rule: less_induct)
  case less
  note D = linkedD [OF L]
  show ?case
  proof (cases "usd H p \<and> p \<noteq> ram_end")
    case False
    then show ?thesis using less.prems by (subst next_free.simps) auto
  next
    case True
    then have pE: "p < ram_end" using D(3) [OF less.prems] by (simp add: le_less)
    have n: "nxt H p \<in> B" "p + 20 \<le> nxt H p" using D(7,8) less.prems pE by auto
    have "ram_end - nxt H p < ram_end - p" using n pE by simp
    from less.hyps [OF this n(1)] obtain r where r: "next_free H (nxt H p) = Some r" "r \<in> B"
      "nxt H p \<le> r" "r = ram_end \<or> \<not> usd H r" "\<forall>x\<in>B. nxt H p \<le> x \<longrightarrow> x < r \<longrightarrow> usd H x"
      by blast
    have "b = p \<or> nxt H p \<le> b" if "b \<in> B" "p \<le> b" for b
      using D(9) [OF less.prems pE that(1)] that(2) by linarith
    moreover have "next_free H p = Some r" using True r(1) by (subst next_free.simps) auto
    ultimately show ?thesis using r True n(2) by (intro exI [of _ r]) auto
  qed
qed

lemma link_free_fields:
  assumes "b \<noteq> c" "nx \<noteq> b" "nx \<noteq> c"
  shows "nxt (link_free b c nx H) x = (if x = b then c else if x = c then nx else nxt H x)"
    "prv (link_free b c nx H) x = (if x = c then b else if x = nx \<and> nx \<noteq> ram_end then c else prv H x)"
    "usd (link_free b c nx H) x = (usd H x \<and> x \<noteq> c)"
    "ram (link_free b c nx H) = ram H" "lfree (link_free b c nx H) = lfree H"
  using assms by (auto simp: link_free_def Let_def set_hdr_defs)

text \<open>Taking the free block at \<open>b\<close>: afterwards it is used, everything else keeps its state, and a
  split leaves a free block behind it.\<close>

lemma malloc_take_spec:
  assumes L: "linked B (nxt H) (prv H)" and b: "b \<in> B" "b < ram_end"
    and sz: "12 \<le> sz" "4 dvd sz" "sz \<le> room H b"
  defines "H' \<equiv> malloc_take sz b H"
  shows "\<exists>C. linked (C \<union> B) (nxt H') (prv H') \<and> C \<inter> B = {} \<and> (\<forall>x\<in>C. b < x \<and> x < ram_end \<and> \<not> usd H' x \<and> nxt H' x = nxt H b \<and> nxt H' b = x) \<and>
     (C = {} \<longrightarrow> nxt H' b = nxt H b) \<and>
     usd H' b \<and> (\<forall>x\<in>B. x \<noteq> b \<longrightarrow> usd H' x = usd H x \<and> nxt H' x = nxt H x) \<and>
     sz \<le> room H' b \<and> ram H' = ram H \<and> lfree H' = lfree H"
proof (cases "sz + 20 \<le> room H b")
  case False
  then have "H' = set_used b True H"
    using usub_room [OF L b] by (simp add: H'_def malloc_take_def)
  moreover have "nxt (set_used b True H) = nxt H" "prv (set_used b True H) = prv H"
    by (auto simp: set_used_def)
  ultimately show ?thesis using L sz by (intro exI [of _ "{}"]) (auto simp: set_used_def)
next
  case True
  note D = linkedD [OF L]
  define c where "c = b + 8 + sz"
  have nb: "nxt H b \<in> B" "nxt H b \<le> 8192" "b + 20 \<le> nxt H b" using D(7,8) b linked_bound [OF L b(1)] by auto
  have c: "b + 20 \<le> c" "c + 20 \<le> nxt H b" "4 dvd c" using True sz nb D(4) [OF b(1)] by (auto simp: c_def)
  have cu: "to_u16 c = c" using c nb by simp
  have cB: "c \<notin> B" using D(9) [OF b, of c] c by auto
  have f: "nxt H' x = (if x = b then c else if x = c then nxt H b else nxt H x)"
    "prv H' x = (if x = c then b else if x = nxt H b \<and> nxt H b \<noteq> ram_end then c else prv H x)"
    "usd H' x = (x = b \<or> usd H x \<and> x \<noteq> c)" "ram H' = ram H" "lfree H' = lfree H" for x
  proof -
    have ne: "b \<noteq> c" "nxt H b \<noteq> b" "nxt H b \<noteq> c" using c by auto
    have "H' = set_used b True (link_free b c (nxt H b) H)"
      using True usub_room [OF L b] cu ne
      by (simp add: H'_def malloc_take_def link_free_def Let_def set_hdr_defs c_def [symmetric] fun_upd_twist)
    then show "nxt H' x = (if x = b then c else if x = c then nxt H b else nxt H x)"
      "prv H' x = (if x = c then b else if x = nxt H b \<and> nxt H b \<noteq> ram_end then c else prv H x)"
      "usd H' x = (x = b \<or> usd H x \<and> x \<noteq> c)" "ram H' = ram H" "lfree H' = lfree H"
      using link_free_fields [OF ne, of H] by (auto simp: set_used_def)
  qed
  have "linked (insert c B) (nxt H') (prv H')"
    by (rule linked_split [OF L b c]) (use f c cB in auto)
  then show ?thesis using f cB c b nb by (intro exI [of _ "{c}"]) (auto simp: c_def)
qed

text \<open>The size \<open>mem_malloc\<close> and \<open>mem_trim\<close> work with: aligned, truncated to \<open>mem_size_t\<close>, at least
  \<open>MIN_SIZE\<close>.\<close>

definition req_size :: "nat \<Rightarrow> nat" where
  "req_size n = max MIN_SIZE_ALIGNED (to_u16 (mem_align_size n))"

lemma req_size_props: "12 \<le> req_size n" "4 dvd req_size n" "n \<le> 65532 \<Longrightarrow> n \<le> req_size n"
proof -
  show "12 \<le> req_size n" by (simp add: req_size_def)
  have "4 dvd to_u16 (mem_align_size n)" by (simp add: to_u16_def mem_align_size_def dvd_mod_iff)
  then show "4 dvd req_size n" by (simp add: req_size_def max_def)
  show "n \<le> req_size n" if "n \<le> 65532"
  proof -
    have "mem_align_size n < 65536" "n \<le> mem_align_size n" using that by (auto simp: mem_align_size_def)
    then show ?thesis by (simp add: req_size_def)
  qed
qed

lemma req_size_if:
  "(if to_u16 (mem_align_size n) < MIN_SIZE_ALIGNED then MIN_SIZE_ALIGNED else to_u16 (mem_align_size n)) = req_size n"
  by (simp add: req_size_def max_def)

lemma mem_malloc_unfold:
  "n \<noteq> 0 \<Longrightarrow> req_size n \<le> ram_end \<Longrightarrow> mem_malloc n H =
     (case malloc_scan H (req_size n) (lfree H) of
        None \<Rightarrow> None | Some None \<Rightarrow> Some (H, NULL)
      | Some (Some b) \<Rightarrow>
          (let H1 = malloc_take (req_size n) b H
           in if b = lfree H1 then
                case next_free H1 (lfree H1) of
                  None \<Rightarrow> None | Some cur \<Rightarrow> Some (H1\<lparr>lfree := cur\<rparr>, ram H + b + SIZEOF_STRUCT_MEM)
              else Some (H1, ram H + b + SIZEOF_STRUCT_MEM)))"
  unfolding mem_malloc_def Let_def req_size_if by simp

lemma mem_malloc_null:
  "n = 0 \<or> ram_end < req_size n \<Longrightarrow> mem_malloc n H = Some (H, NULL)"
  unfolding mem_malloc_def Let_def req_size_if by auto

text \<open>The heap right after a block was taken, \<open>lfree\<close> not yet adjusted.\<close>

lemma malloc_take_heap:
  assumes wf: "heap_wf B H" and b: "b \<in> B" "b < ram_end" "\<not> usd H b"
    and sz: "12 \<le> sz" "4 dvd sz" "sz \<le> room H b"
  defines "H1 \<equiv> malloc_take sz b H"
  obtains B' where "linked B' (nxt H1) (prv H1)" "B \<subseteq> B'" "\<And>x. x \<in> B' - B \<Longrightarrow> b < x" "usd H1 ram_end"
    "\<And>x. x \<in> B' \<Longrightarrow> x < ram_end \<Longrightarrow> \<not> usd H1 x \<Longrightarrow> usd H1 (nxt H1 x)" "usd H1 b"
    "\<And>x. x \<in> B \<Longrightarrow> x \<noteq> b \<Longrightarrow> usd H1 x = usd H x \<and> nxt H1 x = nxt H x" "sz \<le> room H1 b"
    "{x \<in> B'. x < ram_end \<and> usd H1 x} = insert b {x \<in> B. x < ram_end \<and> usd H x}"
    "ram H1 = ram H" "lfree H1 = lfree H"
proof -
  note D = heap_wfD [OF wf]
  obtain C where C: "linked (C \<union> B) (nxt H1) (prv H1)" "C \<inter> B = {}"
    "\<forall>x\<in>C. b < x \<and> x < ram_end \<and> \<not> usd H1 x \<and> nxt H1 x = nxt H b \<and> nxt H1 b = x"
    "C = {} \<longrightarrow> nxt H1 b = nxt H b" "usd H1 b"
    "\<forall>x\<in>B. x \<noteq> b \<longrightarrow> usd H1 x = usd H x \<and> nxt H1 x = nxt H x" "sz \<le> room H1 b"
    "ram H1 = ram H" "lfree H1 = lfree H"
    using malloc_take_spec [OF D(3) b(1,2) sz, folded H1_def] by blast
  have nb: "nxt H b \<in> B" "b < nxt H b" using linkedD(7,8) [OF D(3) b(1,2)] by auto
  have nbu: "usd H1 (nxt H b)" using D(5) [OF b] C(6) nb by auto
  have coal: "usd H1 (nxt H1 x)" if x: "x \<in> C \<union> B" "x < ram_end" "\<not> usd H1 x" for x
  proof (cases "x \<in> C")
    case False
    then have "x \<in> B" "x \<noteq> b" using x C(5) by auto
    then have "usd H (nxt H x)" "nxt H1 x = nxt H x" "nxt H x \<in> B"
      using D(5) [of x] x C(6) linkedD(7) [OF D(3)] by auto
    then show ?thesis using C(5,6) by (cases "nxt H x = b") auto
  qed (use C(3) nbu in simp)
  have "usd H1 ram_end" using D(4) C(6) linkedD(2) [OF D(3)] b(2) by auto
  moreover have "{x \<in> C \<union> B. x < ram_end \<and> usd H1 x} = insert b {x \<in> B. x < ram_end \<and> usd H x}"
    using C(3,5,6) b(1,2) by auto
  ultimately show ?thesis by (intro that [of "C \<union> B"]) (use C coal in auto)
qed

text \<open>What a successful or failed call does, over the block set.\<close>

lemma malloc_scan_first:
  assumes wf: "heap_wf B H" and n: "req_size n \<le> ram_end"
  shows "\<exists>r. malloc_scan H (req_size n) (lfree H) = Some r \<and>
    (case r of None \<Rightarrow> \<forall>b\<in>B. b < ram_end \<longrightarrow> \<not> usd H b \<longrightarrow> room H b < req_size n
     | Some b \<Rightarrow> b \<in> B \<and> lfree H \<le> b \<and> b < ram_end \<and> \<not> usd H b \<and> req_size n \<le> room H b \<and>
         (\<forall>c\<in>B. c < b \<longrightarrow> \<not> usd H c \<longrightarrow> room H c < req_size n))"
proof -
  note D = heap_wfD [OF wf]
  obtain r where r: "malloc_scan H (req_size n) (lfree H) = Some r"
    "case r of None \<Rightarrow> \<forall>b\<in>B. lfree H \<le> b \<longrightarrow> b < ram_end \<longrightarrow> \<not> usd H b \<longrightarrow> room H b < req_size n
     | Some b \<Rightarrow> b \<in> B \<and> lfree H \<le> b \<and> b < ram_end \<and> \<not> usd H b \<and> req_size n \<le> room H b \<and>
         (\<forall>c\<in>B. lfree H \<le> c \<longrightarrow> c < b \<longrightarrow> \<not> usd H c \<longrightarrow> room H c < req_size n)"
    using malloc_scan_spec [OF D(3) _ n D(6)] req_size_props(1) [of n] by fastforce
  have "lfree H \<le> b" if "b \<in> B" "\<not> usd H b" for b using D(7) [OF that(1)] that(2) by (meson not_le)
  then show ?thesis using r by (cases r) auto
qed

lemma mem_malloc_wf:
  assumes wf: "heap_wf B H" and n: "n \<noteq> 0" "req_size n \<le> ram_end"
  shows "(\<forall>b\<in>B. b < ram_end \<longrightarrow> \<not> usd H b \<longrightarrow> room H b < req_size n) \<and> mem_malloc n H = Some (H, NULL) \<or>
    (\<exists>b B' H'. b \<in> B \<and> b < ram_end \<and> \<not> usd H b \<and> mem_malloc n H = Some (H', ram H + b + SIZEOF_STRUCT_MEM) \<and>
       (\<forall>c\<in>B. c < b \<longrightarrow> \<not> usd H c \<longrightarrow> room H c < req_size n) \<and>
       req_size n \<le> room H b \<and>
       heap_wf B' H' \<and> ram H' = ram H \<and> req_size n \<le> room H' b \<and>
       {x \<in> B'. x < ram_end \<and> usd H' x} = insert b {x \<in> B. x < ram_end \<and> usd H x} \<and>
       (\<forall>x\<in>B. x \<noteq> b \<longrightarrow> nxt H' x = nxt H x) \<and>
       H' = (malloc_take (req_size n) b H)\<lparr>lfree := lfree H'\<rparr> \<and> (b \<noteq> lfree H \<longrightarrow> lfree H' = lfree H))"
proof -
  note D = heap_wfD [OF wf]
  note sz = req_size_props(1,2) [of n]
  obtain r where r: "malloc_scan H (req_size n) (lfree H) = Some r"
    "case r of None \<Rightarrow> \<forall>b\<in>B. b < ram_end \<longrightarrow> \<not> usd H b \<longrightarrow> room H b < req_size n
     | Some b \<Rightarrow> b \<in> B \<and> lfree H \<le> b \<and> b < ram_end \<and> \<not> usd H b \<and> req_size n \<le> room H b \<and>
         (\<forall>c\<in>B. c < b \<longrightarrow> \<not> usd H c \<longrightarrow> room H c < req_size n)"
    using malloc_scan_first [OF wf n(2)] by blast
  show ?thesis
  proof (cases r)
    case None
    then show ?thesis using r by (intro disjI1) (auto simp: mem_malloc_unfold [OF n])
  next
    case (Some b)
    with r(2) have b: "b \<in> B" "b < ram_end" "\<not> usd H b" "req_size n \<le> room H b" "lfree H \<le> b"
      and first: "\<forall>c\<in>B. c < b \<longrightarrow> \<not> usd H c \<longrightarrow> room H c < req_size n" by auto
    define H1 where "H1 = malloc_take (req_size n) b H"
    obtain B' where T: "linked B' (nxt H1) (prv H1)" "B \<subseteq> B'" "\<And>x. x \<in> B' - B \<Longrightarrow> b < x" "usd H1 ram_end"
      "\<And>x. x \<in> B' \<Longrightarrow> x < ram_end \<Longrightarrow> \<not> usd H1 x \<Longrightarrow> usd H1 (nxt H1 x)" "usd H1 b"
      "\<And>x. x \<in> B \<Longrightarrow> x \<noteq> b \<Longrightarrow> usd H1 x = usd H x \<and> nxt H1 x = nxt H x" "req_size n \<le> room H1 b"
      "{x \<in> B'. x < ram_end \<and> usd H1 x} = insert b {x \<in> B. x < ram_end \<and> usd H x}"
      "ram H1 = ram H" "lfree H1 = lfree H"
      using malloc_take_heap [OF wf b(1-3) sz b(4), folded H1_def] by blast
    have bel: "usd H1 x" if "x \<in> B'" "x < b" "x < lfree H" for x
      using that T(3,7) D(7) by (metis DiffI less_asym)
    obtain cur where cur: "cur \<in> B'" "cur \<noteq> ram_end \<longrightarrow> \<not> usd H1 cur" "\<forall>x\<in>B'. x < cur \<longrightarrow> usd H1 x"
      "mem_malloc n H = Some (H1\<lparr>lfree := cur\<rparr>, ram H + b + SIZEOF_STRUCT_MEM)"
      "b \<noteq> lfree H \<longrightarrow> cur = lfree H"
    proof (cases "b = lfree H")
      case True
      obtain c where c: "next_free H1 (lfree H1) = Some c" "c \<in> B'" "lfree H1 \<le> c"
        "c = ram_end \<or> \<not> usd H1 c" "\<forall>x\<in>B'. lfree H1 \<le> x \<longrightarrow> x < c \<longrightarrow> usd H1 x"
        using next_free_spec [OF T(1), of "lfree H1"] D(6) T(2,11) by auto
      have "mem_malloc n H = Some (H1\<lparr>lfree := c\<rparr>, ram H + b + SIZEOF_STRUCT_MEM)"
        using Some r(1) True T(11) [unfolded H1_def] c(1) [unfolded H1_def]
        by (simp add: mem_malloc_unfold [OF n] H1_def Let_def)
      then show ?thesis using that [of c] c bel True T(11) by (metis leI)
    next
      case False
      then have lt: "lfree H < b" using b(5) by (simp add: le_neq_implies_less)
      have "mem_malloc n H = Some (H1\<lparr>lfree := lfree H\<rparr>, ram H + b + SIZEOF_STRUCT_MEM)"
        using Some r(1) False T(11) [unfolded H1_def]
        by (simp add: mem_malloc_unfold [OF n] H1_def Let_def)
      moreover have "lfree H \<noteq> ram_end \<longrightarrow> \<not> usd H1 (lfree H)" using D(6,8) T(7) False by auto
      ultimately show ?thesis using that [of "lfree H"] D(6) T(2) bel lt by (meson less_trans subsetD)
    qed
    have "heap_wf B' (H1\<lparr>lfree := cur\<rparr>)" unfolding heap_wf_def
      using D(1,2) T(1,4,5,10) cur(1-3) by simp
    then show ?thesis using b first T cur
      by (intro disjI2 exI [of _ b] exI [of _ B'] exI [of _ "H1\<lparr>lfree := cur\<rparr>"]) (simp add: H1_def)
  qed
qed

subsection \<open>Shrinking\<close>

lemma free_succ_lt:
  assumes "heap_wf B H" "b \<in> B" "b < ram_end" "\<not> usd H (nxt H b)"
  shows "nxt H b \<in> B" "nxt H b < ram_end" "nxt H b + 20 \<le> nxt H (nxt H b)"
proof -
  note D = heap_wfD [OF assms(1)]
  show n: "nxt H b \<in> B" using linkedD(7) [OF D(3)] assms by blast
  show "nxt H b < ram_end" using linkedD(3) [OF D(3) n] D(4) assms(4) by (metis le_neq_implies_less)
  then show "nxt H b + 20 \<le> nxt H (nxt H b)" using linkedD(8) [OF D(3) n] by blast
qed

text \<open>Moving the free block behind \<open>b\<close> down to \<open>c\<close>.\<close>

lemma trim_move_wf:
  assumes wf: "heap_wf B H" and b: "b \<in> B" "b < ram_end" "usd H b" and n: "\<not> usd H (nxt H b)"
    and c: "b + 20 \<le> c" "c < nxt H b" "4 dvd c"
    and f: "\<And>x. nxt H' x = (if x = b then c else if x = c then nxt H (nxt H b) else nxt H x)"
      "\<And>x. prv H' x = (if x = c then b else if x = nxt H (nxt H b) \<and> nxt H (nxt H b) \<noteq> ram_end then c else prv H x)"
      "\<And>x. usd H' x = (usd H x \<and> x \<noteq> c)" "ram H' = ram H"
      "lfree H' = (if lfree H = nxt H b then c else lfree H)"
  shows "heap_wf (insert c (B - {nxt H b})) H'"
proof -
  note D = heap_wfD [OF wf]
  note L = linkedD [OF D(3)]
  define m where "m = nxt H b"
  have m: "m \<in> B" "m < ram_end" "m \<noteq> ram_end" "b + 20 \<le> m"
    using free_succ_lt [OF wf b(1,2) n] L(8) [OF b(1,2)] by (auto simp: m_def)
  have mm: "nxt H m \<in> B" "m + 20 \<le> nxt H m" using L(7,8) m by auto
  have cB: "c \<notin> B" using L(9) [OF b(1,2), of c] c by auto
  have un: "usd H (nxt H m)" using D(5) [OF m(1,2)] n by (simp add: m_def)
  have M: "linked (B - {m}) ((nxt H)(b := nxt H m)) (\<lambda>x. if x = nxt H m \<and> nxt H m \<noteq> ram_end then b else prv H x)"
    by (rule linked_merge [OF D(3) b(1,2) m_def m(3)]) auto
  have LK: "linked (insert c (B - {m})) (nxt H') (prv H')"
    by (rule linked_split [OF M, of b]) (use b c m mm f cB in \<open>auto simp: m_def [symmetric]\<close>)
  have coal: "usd H' (nxt H' x)" if x: "x \<in> insert c (B - {m})" "x < ram_end" "\<not> usd H' x" for x
  proof (cases "x = c")
    case True
    moreover have "c \<noteq> b" "nxt H m \<noteq> c" using c(1) mm(1) cB by auto
    ultimately show ?thesis using f(1,3) un by (simp add: m_def)
  next
    case False
    then have "x \<in> B" "\<not> usd H x" "x \<noteq> b" using x f(3) b(3) by auto
    then have "usd H (nxt H x)" "nxt H x \<in> B" using D(5) L(7) x by auto
    then show ?thesis using f(1,3) False \<open>x \<noteq> b\<close> cB by auto
  qed
  have lowm: "lfree H \<le> m" using D(7) [OF m(1)] n by (metis m_def not_le)
  have lf: "\<forall>x\<in>insert c (B - {m}). x < lfree H' \<longrightarrow> usd H' x"
  proof (intro ballI impI)
    fix x assume x: "x \<in> insert c (B - {m})" "x < lfree H'"
    have "x \<noteq> c"
    proof
      assume "x = c"
      then have "lfree H \<noteq> m" "c < lfree H" using x(2) f(5) by (auto simp: m_def split: if_splits)
      then show False using lowm D(6) L(9) [OF b(1,2), of "lfree H"] c by (auto simp: m_def)
    qed
    moreover have "x < lfree H" using x(2) f(5) c by (auto split: if_splits)
    ultimately show "usd H' x" using x D(7) f(3) by auto
  qed
  have "usd H' ram_end" "lfree H' \<in> insert c (B - {m})" "lfree H' \<noteq> ram_end \<longrightarrow> \<not> usd H' (lfree H')"
    using D(4,6,8) f(3,5) c(2) m(2) by (auto simp: m_def [symmetric])
  with D(1,2) f(4) LK coal lf show ?thesis unfolding m_def [symmetric] heap_wf_def by simp
qed

text \<open>Cutting a new free block at \<open>c\<close> off the end of \<open>b\<close>, whose successor is in use.\<close>

lemma trim_cut_wf:
  assumes wf: "heap_wf B H" and b: "b \<in> B" "b < ram_end" "usd H b" and n: "usd H (nxt H b)"
    and c: "b + 20 \<le> c" "c + 20 \<le> nxt H b" "4 dvd c"
    and f: "\<And>x. nxt H' x = (if x = b then c else if x = c then nxt H b else nxt H x)"
      "\<And>x. prv H' x = (if x = c then b else if x = nxt H b \<and> nxt H b \<noteq> ram_end then c else prv H x)"
      "\<And>x. usd H' x = (usd H x \<and> x \<noteq> c)" "ram H' = ram H" "lfree H' = min c (lfree H)"
  shows "heap_wf (insert c B) H'"
proof -
  note D = heap_wfD [OF wf]
  note L = linkedD [OF D(3)]
  have cB: "c \<notin> B" using L(9) [OF b(1,2), of c] c by auto
  have nE: "nxt H b \<le> ram_end" "nxt H b \<in> B" using L(3,7) b by auto
  have LK: "linked (insert c B) (nxt H') (prv H')"
    by (rule linked_split [OF D(3) b(1,2) c]) (use b c f cB in auto)
  have coal: "usd H' (nxt H' x)" if x: "x \<in> insert c B" "x < ram_end" "\<not> usd H' x" for x
  proof (cases "x = c")
    case True
    then show ?thesis using f n nE cB c by auto
  next
    case False
    then have "x \<in> B" "\<not> usd H x" "x \<noteq> b" using x f(3) b(3) by auto
    then have "usd H (nxt H x)" "nxt H x \<in> B" using D(5) L(7) x by auto
    then show ?thesis using f(1,3) False \<open>x \<noteq> b\<close> cB by auto
  qed
  have "usd H' ram_end" "lfree H' \<in> insert c B" "lfree H' \<noteq> ram_end \<longrightarrow> \<not> usd H' (lfree H')"
    using D(4,6,8) f(3,5) c(2) nE by (auto simp: min_def)
  moreover have "\<forall>x\<in>insert c B. x < lfree H' \<longrightarrow> usd H' x" using D(7) f(3,5) by auto
  ultimately show ?thesis using D(1,2) f(4) LK coal unfolding heap_wf_def by simp
qed

lemma mem_trim_eq:
  assumes wf: "heap_wf B H" and b: "b \<in> B" "b < ram_end" and c: "c = b + 8 + req_size n"
  defines "p \<equiv> ram H + b + SIZEOF_STRUCT_MEM"
  shows "mem_trim p n H =
    (if ram_end < req_size n \<or> room H b < req_size n then (H, NULL)
     else if req_size n = room H b then (H, p)
     else if \<not> usd H (nxt H b) then
       (link_free b c (nxt H (nxt H b)) (if lfree H = nxt H b then H\<lparr>lfree := c\<rparr> else H), p)
     else if req_size n + 20 \<le> room H b then
       (link_free b c (nxt H b) (if c < lfree H then H\<lparr>lfree := c\<rparr> else H), p)
     else (H, p))"
proof -
  note D = heap_wfD [OF wf]
  have nb: "nxt H b \<le> 8192" "b + 20 \<le> nxt H b"
    using linked_bound [OF D(3) b(1)] linkedD(8) [OF D(3) b] by auto
  have guard: "\<not> (p < ram H \<or> ram H + ram_end \<le> p)" "p - SIZEOF_STRUCT_MEM - ram H = b"
    using nb by (auto simp: p_def)
  have cu: "to_u16 (b + SIZEOF_STRUCT_MEM + req_size n) = c" if "req_size n \<le> room H b"
    using that nb c by (simp add: to_u16_def)
  have us: "usub 16 (nxt H b) (b + SIZEOF_STRUCT_MEM) = room H b" using usub_room(2) [OF D(3) b] by simp
  have keep: "nxt (if c < lfree H then H\<lparr>lfree := c\<rparr> else H) b = nxt H b" by simp
  show ?thesis
  proof (cases "req_size n \<le> room H b")
    case True
    show ?thesis
      unfolding mem_trim_def Let_def req_size_if guard(2) us cu [OF True] keep if_not_P [OF guard(1)]
      by simp
  next
    case False
    then show ?thesis
      unfolding mem_trim_def Let_def req_size_if guard(2) us if_not_P [OF guard(1)] by simp
  qed
qed

lemma mem_trim_wf:
  assumes wf: "heap_wf B H" and b: "b \<in> B" "b < ram_end" "usd H b"
    and fit: "req_size n \<le> ram_end" "req_size n \<le> room H b"
  defines "p \<equiv> ram H + b + SIZEOF_STRUCT_MEM"
  shows "\<exists>B' H'. mem_trim p n H = (H', p) \<and> heap_wf B' H' \<and> ram H' = ram H \<and>
         req_size n \<le> room H' b \<and> room H' b \<le> room H b \<and>
         {x \<in> B'. x < ram_end \<and> usd H' x} = {x \<in> B. x < ram_end \<and> usd H x} \<and>
         (\<forall>x\<in>B. usd H x \<longrightarrow> x \<noteq> b \<longrightarrow> nxt H' x = nxt H x)"
proof -
  note D = heap_wfD [OF wf]
  note L = linkedD [OF D(3)]
  have nb: "b + 20 \<le> nxt H b" using L(8) b by auto
  define s where "s = req_size n"
  define c where "c = b + 8 + s"
  note EQ = mem_trim_eq [OF wf b(1,2), of c n, folded s_def p_def, OF c_def]
  have s: "12 \<le> s" "4 dvd s" "s \<le> room H b" "s \<le> ram_end" using req_size_props [of n] fit by (auto simp: s_def)
  have c: "b + 20 \<le> c" "4 dvd c" "c \<le> nxt H b" using s L(4) [OF b(1)] nb by (auto simp: c_def)
  have cB: "c \<notin> B" if "c < nxt H b" using L(9) [OF b(1,2), of c] c that by auto
  consider "mem_trim p n H = (H, p)" | "s < room H b" "\<not> usd H (nxt H b)"
    | "s + 20 \<le> room H b" "usd H (nxt H b)"
    using s(3,4) EQ by (cases "s = room H b"; cases "usd H (nxt H b)"; cases "s + 20 \<le> room H b") simp_all
  then show ?thesis
  proof cases
    case 1
    then show ?thesis using wf fit by (intro exI [of _ B] exI [of _ H] conjI ballI impI) simp_all
  next
    case 2
    define H' where "H' = link_free b c (nxt H (nxt H b)) (if lfree H = nxt H b then H\<lparr>lfree := c\<rparr> else H)"
    have lt: "c < nxt H b" using 2 nb by (simp add: c_def)
    note N = free_succ_lt [OF wf b(1,2) 2(2)]
    have "b \<noteq> c" "nxt H (nxt H b) \<noteq> b" "nxt H (nxt H b) \<noteq> c" using c N lt nb by auto
    note F = link_free_fields [OF this, where H = "if lfree H = nxt H b then H\<lparr>lfree := c\<rparr> else H", folded H'_def]
    have W: "heap_wf (insert c (B - {nxt H b})) H'"
      by (rule trim_move_wf [OF wf b 2(2) c(1) lt c(2)]) (use F in auto)
    have "mem_trim p n H = (H', p)" using EQ 2 s by (simp add: H'_def)
    moreover have "room H' b = s" using F(1) [of b] by (simp add: c_def)
    moreover have "{x \<in> insert c (B - {nxt H b}). x < ram_end \<and> usd H' x} = {x \<in> B. x < ram_end \<and> usd H x}"
      using F(3) cB [OF lt] 2(2) by auto
    moreover have "\<forall>x\<in>B. usd H x \<longrightarrow> x \<noteq> b \<longrightarrow> nxt H' x = nxt H x" using F(1) cB [OF lt] by auto
    ultimately show ?thesis using W F(4) s(3) s_def by (intro exI [of _ "insert c (B - {nxt H b})"] exI [of _ H'] conjI) simp_all
  next
    case 3
    define H' where "H' = link_free b c (nxt H b) (if c < lfree H then H\<lparr>lfree := c\<rparr> else H)"
    have lt: "c + 20 \<le> nxt H b" using 3 nb by (simp add: c_def)
    have "b \<noteq> c" "nxt H b \<noteq> b" "nxt H b \<noteq> c" using c lt nb by auto
    note F = link_free_fields [OF this, where H = "if c < lfree H then H\<lparr>lfree := c\<rparr> else H", folded H'_def]
    have W: "heap_wf (insert c B) H'"
      by (rule trim_cut_wf [OF wf b 3(2) c(1) lt c(2)]) (use F in auto)
    have "mem_trim p n H = (H', p)" using EQ 3 s by (simp add: H'_def)
    moreover have "room H' b = s" using F(1) [of b] by (simp add: c_def)
    moreover have "{x \<in> insert c B. x < ram_end \<and> usd H' x} = {x \<in> B. x < ram_end \<and> usd H x}"
      using F(3) cB lt by auto
    moreover have "\<forall>x\<in>B. usd H x \<longrightarrow> x \<noteq> b \<longrightarrow> nxt H' x = nxt H x" using F(1) cB lt by auto
    ultimately show ?thesis using W F(4) s(3) s_def by (intro exI [of _ "insert c B"] exI [of _ H'] conjI) simp_all
  qed
qed

subsection \<open>The heap as a set of live regions\<close>

lemma heap_wf_live:
  "heap_wf B H \<Longrightarrow> mem_live H = (\<lambda>b. (ram H + b + 8, room H b)) ` {b \<in> B. b < ram_end \<and> usd H b}"
  using heap_wf_blocks [of B H] by (auto simp: mem_live_def)

lemma mem_liveE:
  assumes "mem_inv H" "(p, n) \<in> mem_live H"
  obtains B b where "heap_wf B H" "b \<in> B" "b < ram_end" "usd H b" "p = ram H + b + 8" "n = room H b"
  using assms unfolding mem_inv_def by (auto simp: mem_live_def)

lemma mem_live_region:
  assumes "mem_inv H" "(p, n) \<in> mem_live H"
  shows "ram H + 8 \<le> p" "p + n \<le> ram H + ram_end" "4 dvd p" "4 dvd n" "12 \<le> n" "0 < ram H" "4 dvd ram H"
proof -
  obtain B b where b: "heap_wf B H" "b \<in> B" "b < ram_end" "usd H b" "p = ram H + b + 8" "n = room H b"
    by (rule mem_liveE [OF assms])
  note D = heap_wfD [OF b(1)]
  note L = linkedD [OF D(3)]
  have "4 dvd b" "b + 20 \<le> nxt H b" "nxt H b \<le> ram_end" "4 dvd nxt H b" using L b by blast+
  moreover from this have "4 dvd nxt H b - (b + 8)" by (simp add: dvd_diff_nat)
  ultimately show "ram H + 8 \<le> p" "p + n \<le> ram H + ram_end" "4 dvd p" "4 dvd n" "12 \<le> n" "0 < ram H" "4 dvd ram H"
    using D(1,2) b(5,6) by auto
qed

lemma mem_live_disjoint:
  assumes "mem_inv H" "(p, n) \<in> mem_live H" "(q, m) \<in> mem_live H" "(p, n) \<noteq> (q, m)"
  shows "p + n \<le> q \<or> q + m \<le> p"
proof -
  have wf: "heap_wf (mem_blocks H) H" using assms(1) by (simp add: mem_inv_def)
  note L = linkedD [OF heap_wfD(3) [OF wf]]
  obtain b c where b: "b \<in> mem_blocks H" "b < ram_end" "p = ram H + b + 8" "n = room H b"
    and c: "c \<in> mem_blocks H" "c < ram_end" "q = ram H + c + 8" "m = room H c"
    using assms(2,3) by (auto simp: mem_live_def)
  have "b \<noteq> c" using b c assms(4) by auto
  then show ?thesis using L(8) [OF b(1,2)] L(9) [OF b(1,2) c(1)] L(8) [OF c(1,2)] L(9) [OF c(1,2) b(1)] b(3,4) c(3,4)
    by (cases "b < c") auto
qed

lemma live_image_cong:
  assumes "\<And>x. x \<in> S \<Longrightarrow> nxt H' x = nxt H x" "ram H' = ram H"
  shows "(\<lambda>b. (ram H' + b + 8, room H' b)) ` S = (\<lambda>b. (ram H + b + 8, room H b)) ` S"
  using assms by (intro image_cong) auto

lemma mem_free_live:
  assumes "mem_inv H" "(p, n) \<in> mem_live H"
  shows "mem_inv (mem_free p H)" "mem_live (mem_free p H) = mem_live H - {(p, n)}"
    "ram (mem_free p H) = ram H"
proof -
  obtain B b where b: "heap_wf B H" "b \<in> B" "b < ram_end" "usd H b" "p = ram H + b + 8" "n = room H b"
    by (rule mem_liveE [OF assms])
  from mem_free_wf [OF b(1-4)] obtain B' where W: "heap_wf B' (mem_free p H)" "ram (mem_free p H) = ram H"
     "{x \<in> B'. x < ram_end \<and> usd (mem_free p H) x} = {x \<in> B. x < ram_end \<and> usd H x} - {b}"
     "\<forall>x\<in>B'. usd (mem_free p H) x \<longrightarrow> nxt (mem_free p H) x = nxt H x"
    by (auto simp: b(5))
  show "mem_inv (mem_free p H)" "ram (mem_free p H) = ram H" using W heap_wf_inv by auto
  have "mem_live (mem_free p H) = (\<lambda>b. (ram H + b + 8, room H b)) ` ({x \<in> B. x < ram_end \<and> usd H x} - {b})"
    unfolding heap_wf_live [OF W(1)] W(3) [symmetric] using W(2,4) by (intro live_image_cong) auto
  also have "\<dots> = mem_live H - {(p, n)}"
    unfolding heap_wf_live [OF b(1)] using b(5,6) by auto
  finally show "mem_live (mem_free p H) = mem_live H - {(p, n)}" .
qed

text \<open>\<open>mem_malloc\<close> returns NULL and changes nothing, or returns a new region of at least the
  requested size, disjoint from the live ones by \<open>mem_live_disjoint\<close>.\<close>

lemma mem_malloc_live:
  assumes "mem_inv H"
  shows "\<exists>H' p. mem_malloc n H = Some (H', p) \<and> mem_inv H' \<and> ram H' = ram H \<and>
    (p = NULL \<and> H' = H \<or>
     p \<noteq> NULL \<and> n \<noteq> 0 \<and> (\<exists>k\<ge>req_size n. (\<forall>j. (p, j) \<notin> mem_live H) \<and> mem_live H' = insert (p, k) (mem_live H)))"
proof (cases "n = 0 \<or> ram_end < req_size n")
  case True
  then show ?thesis using mem_malloc_null [OF True] assms by auto
next
  case False
  have wf: "heap_wf (mem_blocks H) H" using assms by (simp add: mem_inv_def)
  from False have n: "n \<noteq> 0" "req_size n \<le> ram_end" by auto
  from mem_malloc_wf [OF wf n] show ?thesis
  proof (elim disjE conjE exE)
    assume "mem_malloc n H = Some (H, NULL)"
    then show ?thesis using assms by auto
  next
    fix b B' H'
    assume b: "b \<in> mem_blocks H" "\<not> usd H b" and M: "mem_malloc n H = Some (H', ram H + b + SIZEOF_STRUCT_MEM)"
      and W: "heap_wf B' H'" "ram H' = ram H" "req_size n \<le> room H' b"
       "{x \<in> B'. x < ram_end \<and> usd H' x} = insert b {x \<in> mem_blocks H. x < ram_end \<and> usd H x}"
       "\<forall>x\<in>mem_blocks H. x \<noteq> b \<longrightarrow> nxt H' x = nxt H x"
    let ?U = "{x \<in> mem_blocks H. x < ram_end \<and> usd H x}"
    have same: "(\<lambda>b. (ram H' + b + 8, room H' b)) ` ?U = (\<lambda>b. (ram H + b + 8, room H b)) ` ?U"
      using W(2,5) b(2) by (intro live_image_cong) auto
    have L: "mem_live H' = insert (ram H + b + 8, room H' b) (mem_live H)"
      unfolding heap_wf_live [OF W(1)] heap_wf_live [OF wf] W(4) using same W(2) by simp
    have "(ram H + b + 8, j) \<notin> mem_live H" for j using b(2) unfolding heap_wf_live [OF wf] by auto
    then show ?thesis using M L W(2,3) heap_wf_inv [OF W(1)] n(1) by auto
  qed
qed

text \<open>A request fails only if no free block is large enough.\<close>

lemma mem_malloc_complete:
  assumes "mem_inv H" "n \<noteq> 0" "b \<in> mem_blocks H" "b < ram_end" "\<not> usd H b" "req_size n \<le> room H b"
  shows "\<exists>H' p. mem_malloc n H = Some (H', p) \<and> p \<noteq> NULL"
proof -
  have wf: "heap_wf (mem_blocks H) H" using assms by (simp add: mem_inv_def)
  have "nxt H b \<le> ram_end" using linkedD(3,7) [OF heap_wfD(3) [OF wf]] assms(3,4) by blast
  then have "req_size n \<le> ram_end" using assms(6) by simp
  from mem_malloc_wf [OF wf assms(2) this] show ?thesis using assms(3-6) by (fastforce simp: not_less)
qed

lemma mem_trim_live:
  assumes "mem_inv H" "(p, k) \<in> mem_live H" "req_size n \<le> k"
  shows "\<exists>H' k'. mem_trim p n H = (H', p) \<and> mem_inv H' \<and> ram H' = ram H \<and> req_size n \<le> k' \<and> k' \<le> k \<and>
           mem_live H' = insert (p, k') (mem_live H - {(p, k)})"
proof -
  obtain B b where b: "heap_wf B H" "b \<in> B" "b < ram_end" "usd H b" "p = ram H + b + 8" "k = room H b"
    by (rule mem_liveE [OF assms(1,2)])
  have "k \<le> ram_end" using mem_live_region [OF assms(1,2)] by simp
  with mem_trim_wf [OF b(1-4), of n] assms(3) obtain B' H' where
    T: "mem_trim p n H = (H', p)" and W: "heap_wf B' H'" "ram H' = ram H"
     "req_size n \<le> room H' b" "room H' b \<le> room H b"
     "{x \<in> B'. x < ram_end \<and> usd H' x} = {x \<in> B. x < ram_end \<and> usd H x}"
     "\<forall>x\<in>B. usd H x \<longrightarrow> x \<noteq> b \<longrightarrow> nxt H' x = nxt H x"
    by (auto simp: b(5,6))
  let ?U = "{x \<in> B. x < ram_end \<and> usd H x}"
  have "mem_live H' = insert (p, room H' b) ((\<lambda>b. (ram H' + b + 8, room H' b)) ` (?U - {b}))"
    unfolding heap_wf_live [OF W(1)] W(5) using b W(2) by auto
  also have "(\<lambda>b. (ram H' + b + 8, room H' b)) ` (?U - {b}) = (\<lambda>b. (ram H + b + 8, room H b)) ` (?U - {b})"
    using W(2,6) by (intro live_image_cong) auto
  also have "\<dots> = mem_live H - {(p, k)}" unfolding heap_wf_live [OF b(1)] using b(5,6) by auto
  finally show ?thesis using T W heap_wf_inv b(6) by auto
qed

text \<open>The block size a client may rely on for a pointer it was given.\<close>

definition mem_region_size :: "ptr \<Rightarrow> mem_heap \<Rightarrow> nat" where
  "mem_region_size p H = room H (p - SIZEOF_STRUCT_MEM - ram H)"

lemma mem_region_size_live: "mem_inv H \<Longrightarrow> (p, n) \<in> mem_live H \<Longrightarrow> mem_region_size p H = n"
  by (auto simp: mem_live_def mem_region_size_def)

interpretation mem: allocator mem_inv mem_live id "\<lambda>n k. req_size n \<le> k" mem_malloc "\<lambda>_. mem_free"
proof unfold_locales
  fix H :: mem_heap and n
  assume "mem_inv H"
  from mem_malloc_live [OF this, of n] show "\<exists>H' p. mem_malloc n H = Some (H', p) \<and> mem_inv H' \<and>
    (p = NULL \<and> mem_live H' = mem_live H \<or>
     p \<noteq> NULL \<and> (\<exists>d. req_size n \<le> d \<and> (p, d) \<notin> mem_live H \<and> mem_live H' = insert (p, d) (mem_live H)))"
    by blast
next
  fix H p d q e
  assume "mem_inv H" "(p, d) \<in> mem_live H" "(q, e) \<in> mem_live H" "(p, d) \<noteq> (q, e)"
  from mem_live_disjoint [OF this] show "p + id d \<le> q \<or> q + id e \<le> p" by simp
next
  fix H p d
  assume H: "mem_inv H" "(p, d) \<in> mem_live H"
  show "mem_inv (mem_free p H) \<and> mem_live (mem_free p H) = mem_live H - {(p, d)}"
    using mem_free_live [OF H] by blast
  show "p \<noteq> NULL \<and> 0 < id d" using mem_live_region [OF H] by simp
qed

lemma mem_init_live:
  assumes "0 < r"
  shows "mem_inv (mem_init r)" "mem_live (mem_init r) = {}"
  using heap_wf_inv [OF mem_init_wf [OF assms]] heap_wf_live [OF mem_init_wf [OF assms]]
  by (auto simp: mem_init_def)

text \<open>A heap without live regions is one free block: everything is coalesced.\<close>

lemma mem_no_live:
  assumes "mem_inv H" "mem_live H = {}"
  shows "nxt H 0 = ram_end" "\<not> usd H 0" "lfree H = 0" "mem_blocks H = {0, ram_end}"
proof -
  have wf: "heap_wf (mem_blocks H) H" using assms by (simp add: mem_inv_def)
  note D = heap_wfD [OF wf]
  note L = linkedD [OF D(3)]
  have free: "\<not> usd H b" if "b \<in> mem_blocks H" "b < ram_end" for b
    using assms(2) that by (auto simp: mem_live_def)
  show u0: "\<not> usd H 0" using free L(1) by simp
  then have "usd H (nxt H 0)" "nxt H 0 \<in> mem_blocks H" "nxt H 0 \<le> ram_end" using D(5) L(1,3,7) by auto
  then show n0: "nxt H 0 = ram_end" using free by (metis le_neq_implies_less)
  show "lfree H = 0" using D(7) [OF L(1)] u0 by blast
  show "mem_blocks H = {0, ram_end}"
  proof (intro equalityI subsetI)
    fix b assume b: "b \<in> mem_blocks H"
    then show "b \<in> {0, ram_end}" using L(9) [OF L(1) _ b] L(3) [OF b] n0 by (cases "b = 0") auto
  qed (use L(1,2) in auto)
qed

text \<open>The first request on a fresh heap.\<close>

lemma malloc_fresh:
  assumes "n \<noteq> 0" "req_size n \<le> 8164"
  shows "\<exists>H'. mem_malloc n (mem_init 1000) = Some (H', 1008) \<and> mem_inv H' \<and> mem_live H' = {(1008, req_size n)}"
proof -
  let ?H = "mem_init 1000"
  have wf: "heap_wf {0, ram_end} ?H" by (rule mem_init_wf) simp
  have r: "ram ?H = 1000" by (simp add: mem_init_def mem_align_size_def)
  have "room ?H 0 = 8184" "\<not> usd ?H 0" by (auto simp: mem_init_def)
  then obtain b B' H' where b: "b \<in> {0, ram_end}" "b < ram_end"
    "mem_malloc n ?H = Some (H', ram ?H + b + SIZEOF_STRUCT_MEM)" and W: "heap_wf B' H'" "ram H' = ram ?H"
      "{x \<in> B'. x < ram_end \<and> usd H' x} = insert b {x \<in> {0, ram_end}. x < ram_end \<and> usd ?H x}"
      "H' = (malloc_take (req_size n) b ?H)\<lparr>lfree := lfree H'\<rparr>"
    using mem_malloc_wf [OF wf assms(1)] assms(2) by fastforce
  have b0: "b = 0" using b by auto
  have "nxt H' 0 = nxt (malloc_take (req_size n) 0 ?H) 0"
    using W(4) b0 by (metis mem_heap.select_convs(2) mem_heap.surjective mem_heap.update_convs(3))
  also have "\<dots> = req_size n + 8"
    using assms(2) by (simp add: malloc_take_def mem_init_def set_hdr_defs Let_def usub_def to_u16_def)
  finally have "room H' 0 = req_size n" by simp
  then have "mem_live H' = {(1008, req_size n)}"
    unfolding heap_wf_live [OF W(1)] W(3) using b0 W(2) r by (auto simp: mem_init_def)
  then show ?thesis using b(3) b0 r heap_wf_inv [OF W(1)] by auto
qed

subsection \<open>Properties of the heap\<close>

lemma req_size_ge: "n \<le> 65532 \<Longrightarrow> n \<le> req_size n"
  by (simp add: req_size_def mem_align_size_def to_u16_def)

text \<open>
  C9: on a well-formed heap \<open>mem_malloc\<close> always returns. It gives NULL and leaves the heap as it was,
  or it gives a word-aligned region inside the heap, at least as large as the request (for requests
  whose alignment does not wrap around), which overlaps no region that was live; the live regions
  stay what they were and the heap stays well formed.
\<close>

theorem mem_malloc_correct:
  assumes "mem_inv H" "n \<le> 65532"
  shows "\<exists>H' p. mem_malloc n H = Some (H', p) \<and> mem_inv H' \<and>
    (if p = NULL then H' = H
     else \<exists>k\<ge>n. mem_live H' = insert (p, k) (mem_live H) \<and> 4 dvd p \<and>
            ram H + SIZEOF_STRUCT_MEM \<le> p \<and> p + k \<le> ram H + ram_end \<and>
            (\<forall>(q, m) \<in> mem_live H. p + k \<le> q \<or> q + m \<le> p))"
proof -
  obtain H' p where M: "mem_malloc n H = Some (H', p)" "mem_inv H'" "ram H' = ram H" and
    or: "p = NULL \<and> H' = H \<or>
     p \<noteq> NULL \<and> n \<noteq> 0 \<and> (\<exists>k\<ge>req_size n. (\<forall>j. (p, j) \<notin> mem_live H) \<and> mem_live H' = insert (p, k) (mem_live H))"
    using mem_malloc_live [OF assms(1), of n] by blast
  show ?thesis
  proof (cases "p = NULL")
    case True
    then show ?thesis using M or by auto
  next
    case False
    then obtain k where k: "req_size n \<le> k" "mem_live H' = insert (p, k) (mem_live H)" "\<And>j. (p, j) \<notin> mem_live H"
      using or by blast
    then have "(p, k) \<in> mem_live H'" by simp
    note R = mem_live_region [OF M(2) this] and J = mem_live_disjoint [OF M(2) this]
    have "\<forall>(q, m) \<in> mem_live H. p + k \<le> q \<or> q + m \<le> p" using J k(2,3) by fastforce
    moreover have "n \<le> k" using k(1) req_size_ge [OF assms(2)] by simp
    ultimately show ?thesis using M False k(2) R by (intro exI [of _ H'] exI [of _ p]) (auto intro!: exI [of _ k])
  qed
qed

theorem mem_malloc_correct_witness:
  "mem_inv (mem_init 1000) \<and> (\<exists>H' p. mem_malloc 100 (mem_init 1000) = Some (H', p) \<and> mem_inv H')"
  using mem_malloc_correct [of "mem_init 1000" 100] mem_init_live(1) [of 1000] by auto



text \<open>
  C10: giving back a live region with \<open>mem_free\<close> removes exactly that region: every other live region
  keeps its address and size, and the heap stays well formed, in particular coalesced (no two
  neighbouring free blocks).
\<close>

theorem mem_free_correct:
  assumes "mem_inv H" "(p, k) \<in> mem_live H"
  shows "mem_inv (mem_free p H) \<and> mem_live (mem_free p H) = mem_live H - {(p, k)} \<and>
    (\<forall>b\<in>mem_blocks (mem_free p H). b < MEM_SIZE_ALIGNED \<longrightarrow> \<not> mem_used (hdrs (mem_free p H) b) \<longrightarrow>
       mem_used (hdrs (mem_free p H) (mem_next (hdrs (mem_free p H) b))))"
proof -
  have "mem_inv (mem_free p H)" using mem_free_live(1) [OF assms] .
  then have "heap_wf (mem_blocks (mem_free p H)) (mem_free p H)" by (simp add: mem_inv_def)
  from heap_wfD(5) [OF this] show ?thesis using mem_free_live [OF assms] by blast
qed

theorem mem_free_correct_witness:
  "\<exists>H. mem_malloc 100 (mem_init 1000) = Some (H, 1008) \<and> mem_live H = {(1008, 100)} \<and>
     mem_live (mem_free 1008 H) = {}"
proof -
  obtain H where H: "mem_malloc 100 (mem_init 1000) = Some (H, 1008)" "mem_inv H" "mem_live H = {(1008, 100)}"
    using malloc_fresh [of 100] by (auto simp: req_size_def mem_align_size_def to_u16_def)
  then show ?thesis using mem_free_correct [OF H(2), of 1008 100] by auto
qed



text \<open>
  C4: a client of a fresh heap may interleave requests and releases in any order: every call
  returns, the live regions are exactly the regions the client holds, and once it holds none the
  heap is a single free block again.
\<close>

theorem mem_client_safe:
  assumes "0 < r"
  shows "\<exists>H held. mem.client mem_region_size ops (mem_init r) [] = Some (H, held) \<and> mem_inv H \<and>
    distinct held \<and> mem_live H = set held \<and>
    (held = [] \<longrightarrow> mem_blocks H = {0, MEM_SIZE_ALIGNED} \<and> lfree H = 0)"
proof -
  from mem.client_safe [where describe = mem_region_size and s = "mem_init r" and held = "[]" and rest = "{}" and ops = ops]
  obtain H held where "mem.client mem_region_size ops (mem_init r) [] = Some (H, held)" "mem_inv H"
    "distinct held" "mem_live H = set held"
    using mem_init_live [OF assms] mem_region_size_live by auto
  then show ?thesis using mem_no_live [of H] by auto
qed

theorem mem_client_safe_witness:
  "\<exists>H held. mem.client mem_region_size [Request 100, Request 50, Release 0] (mem_init 1000) [] = Some (H, held) \<and> mem_inv H"
  using mem_client_safe [of 1000 "[Request 100, Request 50, Release 0]"] by auto



subsection \<open>Zeroed allocation\<close>

text \<open>\<open>mem_calloc\<close>: the argument of \<open>mem_malloc\<close> is truncated to \<open>mem_size_t\<close>, the one of \<open>memset\<close> is not.\<close>

definition mem_calloc :: "nat \<Rightarrow> nat \<Rightarrow> mem_heap \<Rightarrow> memory \<Rightarrow> (mem_heap \<times> memory \<times> ptr) option" where
  "mem_calloc count sz H m =
     (case mem_malloc (to_u16 (count * sz)) H of
        None \<Rightarrow> None
      | Some (H', p) \<Rightarrow> Some (H', (if p \<noteq> NULL then memset (count * sz) p 0 m else m), p))"



end
