(* ===== verification/Memp.thy ===== *)
theory Memp
  imports Mem_Heap
begin

text \<open>
  The fixed-size pools of \<^verbatim>\<open>lwip-1.4.1/src/core/memp.c\<close>. All pools live in one static array
  \<open>memp_memory\<close>; the free elements of a pool form a linked list through their first word, whose
  head is \<open>memp_tab[type]\<close>. In this configuration \<open>MEMP_SIZE\<close> is 0 (no overflow checks), so an
  element's address is the address handed to the client.
\<close>

subsection \<open>Data and operations\<close>

text \<open>The pools of \<^verbatim>\<open>memp_std.h\<close> this configuration creates, in the order of the enumeration.\<close>

datatype memp_t = MEMP_RAW_PCB | MEMP_UDP_PCB | MEMP_TCP_PCB | MEMP_TCP_PCB_LISTEN | MEMP_TCP_SEG
  | MEMP_REASSDATA | MEMP_FRAG_PBUF | MEMP_ARP_QUEUE | MEMP_PBUF | MEMP_PBUF_POOL | MEMP_MAX

definition memp_types :: "memp_t list" where
  "memp_types = [MEMP_RAW_PCB, MEMP_UDP_PCB, MEMP_TCP_PCB, MEMP_TCP_PCB_LISTEN, MEMP_TCP_SEG,
     MEMP_REASSDATA, MEMP_FRAG_PBUF, MEMP_ARP_QUEUE, MEMP_PBUF, MEMP_PBUF_POOL]"

fun memp_num :: "memp_t \<Rightarrow> nat" where
  "memp_num MEMP_RAW_PCB = 4"
| "memp_num MEMP_UDP_PCB = 4"
| "memp_num MEMP_TCP_PCB = 5"
| "memp_num MEMP_TCP_PCB_LISTEN = 2"
| "memp_num MEMP_TCP_SEG = 32"
| "memp_num MEMP_REASSDATA = 5"
| "memp_num MEMP_FRAG_PBUF = 8"
| "memp_num MEMP_ARP_QUEUE = 30"
| "memp_num MEMP_PBUF = 32"
| "memp_num MEMP_PBUF_POOL = 16"
| "memp_num MEMP_MAX = 0"

text \<open>\<open>sizeof(struct pbuf)\<close> and \<open>PBUF_POOL_BUFSIZE\<close>, both already multiples of \<open>MEM_ALIGNMENT\<close>.\<close>

definition SIZEOF_STRUCT_PBUF :: nat where "SIZEOF_STRUCT_PBUF = mem_align_size 16"
definition PBUF_POOL_BUFSIZE :: nat where "PBUF_POOL_BUFSIZE = 1700"
definition PBUF_POOL_BUFSIZE_ALIGNED :: nat where "PBUF_POOL_BUFSIZE_ALIGNED = mem_align_size PBUF_POOL_BUFSIZE"

text \<open>
  \<open>memp_sizes\<close>: the element sizes of the pbuf pools follow from the configuration; those of the
  control block pools are the (aligned) \<open>sizeof\<close> of their structs, a parameter of the model.
\<close>

definition memp_elem_size :: "(memp_t \<Rightarrow> nat) \<Rightarrow> memp_t \<Rightarrow> nat" where
  "memp_elem_size struct_size t =
     (if t = MEMP_PBUF then SIZEOF_STRUCT_PBUF + mem_align_size 0
      else if t = MEMP_PBUF_POOL then SIZEOF_STRUCT_PBUF + PBUF_POOL_BUFSIZE_ALIGNED
      else mem_align_size (struct_size t))"

record memp_state =
  memp_memory :: ptr
  memp_sizes :: "memp_t \<Rightarrow> nat"
  memp_tab :: "memp_t \<Rightarrow> ptr"
  memp_next :: "ptr \<Rightarrow> ptr"

fun memp_carve :: "nat \<Rightarrow> nat \<Rightarrow> ptr \<Rightarrow> ptr \<Rightarrow> (ptr \<Rightarrow> ptr) \<Rightarrow> ptr \<times> ptr \<times> (ptr \<Rightarrow> ptr)" where
  "memp_carve 0 sz memp tab nx = (memp, tab, nx)"
| "memp_carve (Suc j) sz memp tab nx = memp_carve j sz (memp + sz) memp (nx(memp := tab))"

fun memp_init_pools :: "memp_t list \<Rightarrow> ptr \<Rightarrow> memp_state \<Rightarrow> memp_state" where
  "memp_init_pools [] memp s = s"
| "memp_init_pools (t # ts) memp s =
     (let (memp', tab, nx) = memp_carve (memp_num t) (memp_sizes s t) memp NULL (memp_next s)
      in memp_init_pools ts memp' (s\<lparr>memp_tab := (memp_tab s)(t := tab), memp_next := nx\<rparr>))"

definition memp_init :: "memp_state \<Rightarrow> memp_state" where
  "memp_init s = memp_init_pools memp_types (mem_align_size (memp_memory s)) s"

definition memp_malloc :: "memp_t \<Rightarrow> memp_state \<Rightarrow> memp_state \<times> ptr" where
  "memp_malloc type s =
     (if type = MEMP_MAX then (s, NULL)
      else let memp = memp_tab s type
           in if memp \<noteq> NULL then (s\<lparr>memp_tab := (memp_tab s)(type := memp_next s memp)\<rparr>, memp)
              else (s, NULL))"

definition memp_free :: "memp_t \<Rightarrow> ptr \<Rightarrow> memp_state \<Rightarrow> memp_state" where
  "memp_free type mem s =
     (if mem = NULL then s
      else s\<lparr>memp_next := (memp_next s)(mem := memp_tab s type),
             memp_tab := (memp_tab s)(type := mem)\<rparr>)"

lemmas memp_defs [model_defs] = memp_init_def memp_malloc_def memp_free_def

lemma memp_consts [simp]: "SIZEOF_STRUCT_PBUF = 16" "PBUF_POOL_BUFSIZE_ALIGNED = 1700"
  by (simp_all add: SIZEOF_STRUCT_PBUF_def PBUF_POOL_BUFSIZE_ALIGNED_def PBUF_POOL_BUFSIZE_def mem_align_size_def)

subsection \<open>Layout of the pools\<close>

fun pool_off :: "(memp_t \<Rightarrow> nat) \<Rightarrow> memp_t list \<Rightarrow> memp_t \<Rightarrow> nat" where
  "pool_off sz [] t = 0"
| "pool_off sz (u # us) t = (if u = t then 0 else memp_num u * sz u + pool_off sz us t)"

lemma pool_off_disjoint:
  "t \<noteq> u \<Longrightarrow> t \<in> set ts \<Longrightarrow> u \<in> set ts \<Longrightarrow>
   pool_off sz ts t + memp_num t * sz t \<le> pool_off sz ts u \<or>
   pool_off sz ts u + memp_num u * sz u \<le> pool_off sz ts t"
  by (induction ts) auto

text \<open>The elements of a pool and its memory.\<close>

definition pool_elems :: "nat \<Rightarrow> nat \<Rightarrow> nat \<Rightarrow> ptr set" where
  "pool_elems b n sz = {b + k * sz |k. k < n}"

definition memp_base :: "memp_state \<Rightarrow> memp_t \<Rightarrow> ptr" where
  "memp_base s t = mem_align_size (memp_memory s) + pool_off (memp_sizes s) memp_types t"

abbreviation memp_elems :: "memp_state \<Rightarrow> memp_t \<Rightarrow> ptr set" where
  "memp_elems s t \<equiv> pool_elems (memp_base s t) (memp_num t) (memp_sizes s t)"

lemma in_memp_types [simp]: "t \<in> set memp_types \<longleftrightarrow> t \<noteq> MEMP_MAX"
  by (cases t) (auto simp: memp_types_def)

lemma pool_elems_Suc: "pool_elems b (Suc n) sz = insert b (pool_elems (b + sz) n sz)"
proof (intro set_eqI iffI)
  fix x assume "x \<in> pool_elems b (Suc n) sz"
  then obtain k where "x = b + k * sz" "k < Suc n" by (auto simp: pool_elems_def)
  then show "x \<in> insert b (pool_elems (b + sz) n sz)"
    by (cases k) (auto simp: pool_elems_def)
next
  fix x assume "x \<in> insert b (pool_elems (b + sz) n sz)"
  then consider "x = b" | k where "x = b + sz + k * sz" "k < n" by (auto simp: pool_elems_def)
  then show "x \<in> pool_elems b (Suc n) sz"
  proof cases
    case 1
    then show ?thesis by (auto simp: pool_elems_def intro: exI [of _ 0])
  next
    case (2 k)
    then show ?thesis by (auto simp: pool_elems_def intro!: exI [of _ "Suc k"])
  qed
qed

lemma pool_elems_0 [simp]: "pool_elems b 0 sz = {}"
  by (simp add: pool_elems_def)

lemma pool_elems_bounds: "x \<in> pool_elems b n sz \<Longrightarrow> b \<le> x \<and> x + sz \<le> b + n * sz"
proof -
  assume "x \<in> pool_elems b n sz"
  then obtain k where k: "x = b + k * sz" "k < n" by (auto simp: pool_elems_def)
  then have "Suc k * sz \<le> n * sz" by (intro mult_le_mono1) simp
  then show ?thesis using k by simp
qed

lemma pool_elems_apart:
  assumes "x \<in> pool_elems b n sz" "y \<in> pool_elems b n sz" "x \<noteq> y"
  shows "x + sz \<le> y \<or> y + sz \<le> x"
proof -
  obtain i j where ij: "x = b + i * sz" "y = b + j * sz" using assms by (auto simp: pool_elems_def)
  then have "i \<noteq> j" using assms(3) by auto
  then have "Suc i * sz \<le> j * sz \<or> Suc j * sz \<le> i * sz"
    by (metis Suc_leI linorder_neqE_nat mult_le_mono1)
  then show ?thesis using ij by auto
qed

lemma finite_pool_elems [simp]: "finite (pool_elems b n sz)"
  by (induction n arbitrary: b) (simp_all add: pool_elems_Suc)

lemma card_pool_elems: "card (pool_elems b n sz) \<le> n"
  by (induction n arbitrary: b) (auto simp: pool_elems_Suc intro: order_trans [OF card_insert_le_m1])

lemma memp_elems_apart:
  assumes "x \<in> memp_elems s t" "y \<in> memp_elems s u" "(x, t) \<noteq> (y, u)"
  shows "x + memp_sizes s t \<le> y \<or> y + memp_sizes s u \<le> x"
proof (cases "t = u")
  case True
  then show ?thesis using assms pool_elems_apart by auto
next
  case False
  have "t \<noteq> MEMP_MAX" "u \<noteq> MEMP_MAX" using assms by auto
  then have "memp_base s t + memp_num t * memp_sizes s t \<le> memp_base s u \<or>
    memp_base s u + memp_num u * memp_sizes s u \<le> memp_base s t"
    using pool_off_disjoint [OF False, of memp_types "memp_sizes s"] by (auto simp: memp_base_def)
  then show ?thesis using pool_elems_bounds [OF assms(1)] pool_elems_bounds [OF assms(2)] by linarith
qed

subsection \<open>Free lists and the invariant\<close>

fun memp_path :: "(ptr \<Rightarrow> ptr) \<Rightarrow> ptr \<Rightarrow> ptr list \<Rightarrow> bool" where
  "memp_path nx p [] \<longleftrightarrow> p = NULL"
| "memp_path nx p (x # xs) \<longleftrightarrow> p = x \<and> x \<noteq> NULL \<and> memp_path nx (nx x) xs"

lemma memp_path_unique: "memp_path nx p xs \<Longrightarrow> memp_path nx p ys \<Longrightarrow> xs = ys"
proof (induction xs arbitrary: p ys)
  case Nil
  then show ?case by (cases ys) auto
next
  case (Cons x xs)
  then show ?case by (cases ys) auto
qed

lemma memp_path_upd [simp]: "x \<notin> set xs \<Longrightarrow> memp_path (nx(x := y)) p xs = memp_path nx p xs"
  by (induction xs arbitrary: p) auto

lemma memp_path_cong:
  "(\<And>x. x \<in> set xs \<Longrightarrow> nx' x = nx x) \<Longrightarrow> memp_path nx' p xs = memp_path nx p xs"
  by (induction xs arbitrary: p) auto

text \<open>The free elements of a pool, in list order.\<close>

fun memp_walk :: "nat \<Rightarrow> (ptr \<Rightarrow> ptr) \<Rightarrow> ptr \<Rightarrow> ptr list" where
  "memp_walk 0 nx p = []"
| "memp_walk (Suc n) nx p = (if p = NULL then [] else p # memp_walk n nx (nx p))"

definition memp_free_list :: "memp_state \<Rightarrow> memp_t \<Rightarrow> ptr list" where
  "memp_free_list s t = memp_walk (memp_num t) (memp_next s) (memp_tab s t)"

lemma memp_walk_path: "memp_path nx p xs \<Longrightarrow> length xs \<le> n \<Longrightarrow> memp_walk n nx p = xs"
proof (induction n arbitrary: p xs)
  case (Suc n)
  then show ?case by (cases xs) auto
qed simp

definition memp_inv :: "memp_state \<Rightarrow> bool" where
  "memp_inv s \<longleftrightarrow> 0 < memp_memory s \<and>
     (\<forall>t. t \<noteq> MEMP_MAX \<longrightarrow> 4 \<le> memp_sizes s t \<and> 4 dvd memp_sizes s t \<and>
        memp_path (memp_next s) (memp_tab s t) (memp_free_list s t) \<and>
        distinct (memp_free_list s t) \<and> set (memp_free_list s t) \<subseteq> memp_elems s t)"

lemma memp_free_list_eq:
  assumes "memp_path (memp_next s) (memp_tab s t) xs" "distinct xs" "set xs \<subseteq> memp_elems s t"
  shows "memp_free_list s t = xs"
proof -
  have "length xs \<le> card (memp_elems s t)"
    using assms(2,3) by (metis card_mono distinct_card finite_pool_elems)
  also have "\<dots> \<le> memp_num t" by (rule card_pool_elems)
  finally show ?thesis unfolding memp_free_list_def by (rule memp_walk_path [OF assms(1)])
qed

lemma memp_inv_intro:
  assumes "0 < memp_memory s" "\<And>t. t \<noteq> MEMP_MAX \<Longrightarrow> 4 \<le> memp_sizes s t \<and> 4 dvd memp_sizes s t"
    "\<And>t. t \<noteq> MEMP_MAX \<Longrightarrow> memp_path (memp_next s) (memp_tab s t) (fl t) \<and> distinct (fl t) \<and> set (fl t) \<subseteq> memp_elems s t"
  shows "memp_inv s" "\<And>t. t \<noteq> MEMP_MAX \<Longrightarrow> memp_free_list s t = fl t"
proof -
  show f: "\<And>t. t \<noteq> MEMP_MAX \<Longrightarrow> memp_free_list s t = fl t" using assms(3) memp_free_list_eq by blast
  show "memp_inv s" unfolding memp_inv_def using assms f by simp
qed

lemma memp_invD:
  assumes "memp_inv s" "t \<noteq> MEMP_MAX"
  shows "4 \<le> memp_sizes s t" "4 dvd memp_sizes s t"
    "memp_path (memp_next s) (memp_tab s t) (memp_free_list s t)"
    "distinct (memp_free_list s t)" "set (memp_free_list s t) \<subseteq> memp_elems s t"
  using assms by (auto simp: memp_inv_def)

text \<open>The elements clients hold, with their pool and size.\<close>

definition memp_live :: "memp_state \<Rightarrow> (ptr \<times> memp_t \<times> nat) set" where
  "memp_live s = {(p, t, memp_sizes s t) |p t. p \<in> memp_elems s t \<and> p \<notin> set (memp_free_list s t)}"

lemma memp_live_iff:
  "(p, t, k) \<in> memp_live s \<longleftrightarrow> k = memp_sizes s t \<and> p \<in> memp_elems s t \<and> p \<notin> set (memp_free_list s t)"
  by (auto simp: memp_live_def)

lemma memp_elems_pos:
  assumes "memp_inv s" "p \<in> memp_elems s t"
  shows "p \<noteq> NULL"
proof -
  have "0 < memp_memory s" using assms(1) by (simp add: memp_inv_def)
  then have "0 < mem_align_size (memp_memory s)" by (simp add: mem_align_size_def)
  then have "0 < memp_base s t" by (simp add: memp_base_def)
  then show ?thesis using pool_elems_bounds [OF assms(2)] by linarith
qed

lemma memp_elems_type: "p \<in> memp_elems s t \<Longrightarrow> t \<noteq> MEMP_MAX"
  by auto

subsection \<open>Allocation and release\<close>

lemma memp_malloc_empty:
  assumes "memp_inv s" "t \<noteq> MEMP_MAX" "memp_free_list s t = []"
  shows "memp_malloc t s = (s, NULL)"
  using memp_invD [OF assms(1,2)] assms(2,3) by (auto simp: memp_malloc_def)

lemma memp_malloc_take:
  assumes I: "memp_inv s" and t: "t \<noteq> MEMP_MAX" and f: "memp_free_list s t = p # ps"
  defines "s' \<equiv> s\<lparr>memp_tab := (memp_tab s)(t := memp_next s p)\<rparr>"
  shows "memp_malloc t s = (s', p)" "p \<noteq> NULL" "memp_inv s'" "memp_sizes s' = memp_sizes s"
    "memp_memory s' = memp_memory s" "p \<in> memp_elems s t"
    "memp_free_list s' u = (if u = t then ps else memp_free_list s u)"
proof -
  note D = memp_invD [OF I t]
  have p: "memp_tab s t = p" "p \<noteq> NULL" "memp_path (memp_next s) (memp_next s p) ps" using D(3) f by auto
  then show "memp_malloc t s = (s', p)" "p \<noteq> NULL" by (auto simp: memp_malloc_def t s'_def)
  show same: "memp_sizes s' = memp_sizes s" "memp_memory s' = memp_memory s" by (auto simp: s'_def)
  show "p \<in> memp_elems s t" using D(5) f by auto
  have b: "memp_base s' = memp_base s" by (simp add: memp_base_def [abs_def] same)
  have fl: "memp_path (memp_next s') (memp_tab s' v) (if v = t then ps else memp_free_list s v) \<and>
      distinct (if v = t then ps else memp_free_list s v) \<and>
      set (if v = t then ps else memp_free_list s v) \<subseteq> memp_elems s' v" if "v \<noteq> MEMP_MAX" for v
    using memp_invD [OF I that] p D f by (auto simp: s'_def memp_base_def)
  have pos: "0 < memp_memory s'" "\<And>v. v \<noteq> MEMP_MAX \<Longrightarrow> 4 \<le> memp_sizes s' v \<and> 4 dvd memp_sizes s' v"
    using I by (auto simp: memp_inv_def s'_def)
  show "memp_inv s'" by (rule memp_inv_intro(1) [OF pos fl])
  show "memp_free_list s' u = (if u = t then ps else memp_free_list s u)"
    using memp_inv_intro(2) [OF pos fl, of u] t by (cases "u = MEMP_MAX") (auto simp: memp_free_list_def)
qed

lemma memp_free_put:
  assumes I: "memp_inv s" and p: "p \<in> memp_elems s t" "p \<notin> set (memp_free_list s t)"
  defines "s' \<equiv> memp_free t p s"
  shows "memp_inv s'" "memp_sizes s' = memp_sizes s" "memp_memory s' = memp_memory s"
    "memp_free_list s' u = (if u = t then p # memp_free_list s t else memp_free_list s u)"
proof -
  have t: "t \<noteq> MEMP_MAX" using p by auto
  note D = memp_invD [OF I t]
  have p0: "p \<noteq> NULL" using memp_elems_pos [OF I p(1)] .
  have s': "s' = s\<lparr>memp_next := (memp_next s)(p := memp_tab s t), memp_tab := (memp_tab s)(t := p)\<rparr>"
    by (simp add: s'_def memp_free_def p0)
  show "memp_sizes s' = memp_sizes s" "memp_memory s' = memp_memory s" by (auto simp: s')
  have other: "p \<notin> set (memp_free_list s v)" if "v \<noteq> MEMP_MAX" "v \<noteq> t" for v
  proof
    assume "p \<in> set (memp_free_list s v)"
    then have "p \<in> memp_elems s v" using memp_invD(5) [OF I that(1)] by blast
    then show False using memp_elems_apart [OF p(1), of p v] that(2) D(1) memp_invD(1) [OF I that(1)] by auto
  qed
  have fl: "memp_path (memp_next s') (memp_tab s' v) (if v = t then p # memp_free_list s t else memp_free_list s v) \<and>
      distinct (if v = t then p # memp_free_list s t else memp_free_list s v) \<and>
      set (if v = t then p # memp_free_list s t else memp_free_list s v) \<subseteq> memp_elems s' v" if "v \<noteq> MEMP_MAX" for v
    using memp_invD [OF I that] other [OF that] p p0 by (auto simp: s' memp_base_def)
  have pos: "0 < memp_memory s'" "\<And>v. v \<noteq> MEMP_MAX \<Longrightarrow> 4 \<le> memp_sizes s' v \<and> 4 dvd memp_sizes s' v"
    using I by (auto simp: memp_inv_def s')
  show "memp_inv s'" by (rule memp_inv_intro(1) [OF pos fl])
  show "memp_free_list s' u = (if u = t then p # memp_free_list s t else memp_free_list s u)"
    using memp_inv_intro(2) [OF pos fl, of u] t by (cases "u = MEMP_MAX") (auto simp: memp_free_list_def)
qed

subsection \<open>Initialisation\<close>

lemma memp_carve_spec:
  assumes "0 < sz" "0 < m" "memp_path nx h xs" "\<And>x. x \<in> set xs \<Longrightarrow> x < m"
  shows "\<exists>h' nx' ys. memp_carve n sz m h nx = (m + n * sz, h', nx') \<and> memp_path nx' h' (ys @ xs) \<and>
     distinct ys \<and> set ys = pool_elems m n sz \<and> (\<forall>x. x < m \<longrightarrow> nx' x = nx x)"
  using assms(2-)
proof (induction n arbitrary: m h nx xs)
  case 0
  then show ?case by (auto intro!: exI [of _ "[]"])
next
  case (Suc n)
  have fresh: "m \<notin> set xs" using Suc.prems(3) by blast
  have "memp_path (nx(m := h)) m (m # xs)" "\<And>x. x \<in> set (m # xs) \<Longrightarrow> x < m + sz"
    using Suc.prems(1,2) fresh by (auto simp: trans_less_add1 [OF Suc.prems(3)] assms(1))
  moreover have "0 < m + sz" using assms(1) by simp
  ultimately obtain h' nx' ys where *: "memp_carve n sz (m + sz) m (nx(m := h)) = (m + sz + n * sz, h', nx')"
    "memp_path nx' h' (ys @ m # xs)" "distinct ys" "set ys = pool_elems (m + sz) n sz"
    "\<And>x. x < m + sz \<Longrightarrow> nx' x = (nx(m := h)) x"
    using Suc.IH [of "m + sz" "nx(m := h)" m "m # xs"] by blast
  have "m \<notin> set ys" using *(4) pool_elems_bounds [of m "m + sz" n sz] assms(1) by auto
  moreover have "nx' x = nx x" if "x < m" for x using *(5) [of x] that by simp
  ultimately show ?case using * by (intro exI [of _ h'] exI [of _ nx'] exI [of _ "ys @ [m]"])
      (auto simp: pool_elems_Suc)
qed

text \<open>The pools carved so far keep their lists; the ones to come lie above.\<close>

lemma memp_init_pools_spec:
  assumes "distinct ts" "0 < m" "\<And>t. t \<in> set ts \<Longrightarrow> 0 < memp_sizes s t"
  shows "\<exists>s'. memp_init_pools ts m s = s' \<and> memp_sizes s' = memp_sizes s \<and> memp_memory s' = memp_memory s \<and>
    (\<forall>x<m. memp_next s' x = memp_next s x) \<and> (\<forall>t. t \<notin> set ts \<longrightarrow> memp_tab s' t = memp_tab s t) \<and>
    (\<forall>t\<in>set ts. \<exists>ys. memp_path (memp_next s') (memp_tab s' t) ys \<and> distinct ys \<and>
       set ys = pool_elems (m + pool_off (memp_sizes s) ts t) (memp_num t) (memp_sizes s t))"
  using assms
proof (induction ts arbitrary: m s)
  case Nil
  then show ?case by simp
next
  case (Cons t ts)
  let ?sz = "memp_sizes s t" and ?n = "memp_num t"
  obtain tab nx ys where c: "memp_carve ?n ?sz m NULL (memp_next s) = (m + ?n * ?sz, tab, nx)"
    "memp_path nx tab ys" "distinct ys" "set ys = pool_elems m ?n ?sz" "\<And>x. x < m \<Longrightarrow> nx x = memp_next s x"
    using memp_carve_spec [of ?sz m "memp_next s" NULL "[]" ?n] Cons.prems by auto
  define s1 where "s1 = s\<lparr>memp_tab := (memp_tab s)(t := tab), memp_next := nx\<rparr>"
  have "distinct ts" "0 < m + ?n * ?sz" "\<And>u. u \<in> set ts \<Longrightarrow> 0 < memp_sizes s1 u"
    using Cons.prems by (auto simp: s1_def)
  from Cons.IH [OF this] obtain s' where I: "memp_init_pools ts (m + ?n * ?sz) s1 = s'"
    "memp_sizes s' = memp_sizes s1" "memp_memory s' = memp_memory s1"
    "\<And>x. x < m + ?n * ?sz \<Longrightarrow> memp_next s' x = memp_next s1 x" "\<And>u. u \<notin> set ts \<Longrightarrow> memp_tab s' u = memp_tab s1 u"
    "\<And>u. u \<in> set ts \<Longrightarrow> \<exists>ys. memp_path (memp_next s') (memp_tab s' u) ys \<and> distinct ys \<and>
       set ys = pool_elems (m + ?n * ?sz + pool_off (memp_sizes s1) ts u) (memp_num u) (memp_sizes s1 u)"
    by blast
  have "memp_next s' x = nx x" if "x \<in> set ys" for x
    using I(4) [of x] that c(4) pool_elems_bounds [of x m ?n ?sz] Cons.prems(3) [of t] by (auto simp: s1_def)
  then have first: "memp_path (memp_next s') (memp_tab s' t) ys"
    using c(2) I(5) [of t] Cons.prems(1) memp_path_cong [of ys "memp_next s'" nx] by (simp add: s1_def)
  have "\<exists>ys. memp_path (memp_next s') (memp_tab s' u) ys \<and> distinct ys \<and>
       set ys = pool_elems (m + pool_off (memp_sizes s) (t # ts) u) (memp_num u) (memp_sizes s u)"
    if u: "u \<in> set (t # ts)" for u
  proof (cases "u = t")
    case True
    then show ?thesis using first c(3,4) by auto
  next
    case False
    then show ?thesis using I(6) [of u] u by (auto simp: s1_def add.assoc)
  qed
  moreover have "memp_init_pools (t # ts) m s = s'" using c(1) I(1) by (simp add: s1_def)
  moreover have "memp_next s' x = memp_next s x" if "x < m" for x using I(4) [of x] c(5) that by (simp add: s1_def)
  moreover have "memp_tab s' u = memp_tab s u" if "u \<notin> set (t # ts)" for u using I(5) [of u] that by (simp add: s1_def)
  ultimately show ?case using I(2,3) by (intro exI [of _ s'] conjI allI impI ballI) (simp_all add: s1_def del: memp_init_pools.simps)
qed

lemma distinct_memp_types [simp]: "distinct memp_types"
  by (simp add: memp_types_def)

lemma memp_init_spec:
  assumes "0 < memp_memory s" "\<And>t. t \<noteq> MEMP_MAX \<Longrightarrow> 4 \<le> memp_sizes s t \<and> 4 dvd memp_sizes s t"
  shows "memp_inv (memp_init s)" "memp_live (memp_init s) = {}" "memp_sizes (memp_init s) = memp_sizes s"
    "\<And>t. t \<noteq> MEMP_MAX \<Longrightarrow> set (memp_free_list (memp_init s) t) = memp_elems (memp_init s) t"
proof -
  let ?m = "mem_align_size (memp_memory s)" and ?s = "memp_init s"
  have m: "0 < ?m" using assms(1) by (simp add: mem_align_size_def)
  have sz: "t \<in> set memp_types \<Longrightarrow> 0 < memp_sizes s t" for t using assms(2) [of t] by simp
  note S = memp_init_pools_spec [OF distinct_memp_types m sz, folded memp_init_def]
  then have same: "memp_sizes ?s = memp_sizes s" "memp_memory ?s = memp_memory s" by auto
  have "\<exists>ys. memp_path (memp_next ?s) (memp_tab ?s t) ys \<and> distinct ys \<and> set ys = memp_elems ?s t"
    if "t \<noteq> MEMP_MAX" for t
    using S that by (simp add: memp_base_def same)
  then obtain fl where fl: "\<And>t. t \<noteq> MEMP_MAX \<Longrightarrow>
      memp_path (memp_next ?s) (memp_tab ?s t) (fl t) \<and> distinct (fl t) \<and> set (fl t) = memp_elems ?s t"
    by metis
  have pos: "0 < memp_memory ?s" "\<And>t. t \<noteq> MEMP_MAX \<Longrightarrow> 4 \<le> memp_sizes ?s t \<and> 4 dvd memp_sizes ?s t"
    using assms by (simp_all add: same)
  have fl': "\<And>t. t \<noteq> MEMP_MAX \<Longrightarrow>
      memp_path (memp_next ?s) (memp_tab ?s t) (fl t) \<and> distinct (fl t) \<and> set (fl t) \<subseteq> memp_elems ?s t"
    using fl by blast
  show "memp_inv ?s" "memp_sizes ?s = memp_sizes s" using memp_inv_intro(1) [OF pos fl'] same by auto
  show F: "\<And>t. t \<noteq> MEMP_MAX \<Longrightarrow> set (memp_free_list ?s t) = memp_elems ?s t"
    using memp_inv_intro(2) [OF pos fl'] fl by simp
  show "memp_live ?s = {}" using F memp_elems_type by (fastforce simp: memp_live_def)
qed

lemma card_pool_elems_eq: "0 < sz \<Longrightarrow> card (pool_elems b n sz) = n"
proof (induction n arbitrary: b)
  case (Suc n)
  then have "b \<notin> pool_elems (b + sz) n sz" using pool_elems_bounds [of b "b + sz" n sz] by auto
  then show ?case using Suc by (simp add: pool_elems_Suc)
qed simp

subsection \<open>The pools as an allocator\<close>

lemma memp_malloc_live:
  assumes I: "memp_inv s"
  shows "\<exists>s' p. memp_malloc t s = (s', p) \<and> memp_inv s' \<and> memp_sizes s' = memp_sizes s \<and>
    (p = NULL \<and> s' = s \<and> memp_free_list s t = [] \<or>
     p \<noteq> NULL \<and> memp_free_list s t \<noteq> [] \<and> (p, t, memp_sizes s t) \<notin> memp_live s \<and>
       memp_live s' = insert (p, t, memp_sizes s t) (memp_live s))"
proof (cases "t = MEMP_MAX \<or> memp_free_list s t = []")
  case True
  then have "memp_malloc t s = (s, NULL)" "memp_free_list s t = []"
    using memp_malloc_empty [OF I] by (auto simp: memp_malloc_def memp_free_list_def)
  then show ?thesis using I by auto
next
  case False
  then obtain p ps where f: "memp_free_list s t = p # ps" "t \<noteq> MEMP_MAX" by (cases "memp_free_list s t") auto
  note T = memp_malloc_take [OF I f(2,1)]
  have "distinct (p # ps)" using memp_invD(4) [OF I f(2)] f(1) by simp
  moreover have "memp_base (s\<lparr>memp_tab := (memp_tab s)(t := memp_next s p)\<rparr>) = memp_base s"
    by (simp add: memp_base_def [abs_def])
  ultimately have "memp_live (s\<lparr>memp_tab := (memp_tab s)(t := memp_next s p)\<rparr>) = insert (p, t, memp_sizes s t) (memp_live s)"
    using T(4,6,7) f(1) by (auto simp: set_eq_iff memp_live_iff)
  then show ?thesis using T f by (auto simp: memp_live_iff)
qed

lemma memp_free_live:
  assumes I: "memp_inv s" and p: "(p, t, k) \<in> memp_live s"
  shows "memp_inv (memp_free t p s)" "memp_live (memp_free t p s) = memp_live s - {(p, t, k)}"
    "memp_sizes (memp_free t p s) = memp_sizes s"
proof -
  have p': "p \<in> memp_elems s t" "p \<notin> set (memp_free_list s t)" "k = memp_sizes s t"
    using p by (auto simp: memp_live_iff)
  note T = memp_free_put [OF I p'(1,2)]
  show "memp_inv (memp_free t p s)" "memp_sizes (memp_free t p s) = memp_sizes s" using T by auto
  have "memp_base (memp_free t p s) = memp_base s" using T(2,3) by (simp add: memp_base_def [abs_def])
  then show "memp_live (memp_free t p s) = memp_live s - {(p, t, k)}"
    using T(2,4) p' by (auto simp: set_eq_iff memp_live_iff)
qed

text \<open>The pool an element belongs to.\<close>

definition memp_descr :: "ptr \<Rightarrow> memp_state \<Rightarrow> memp_t \<times> nat" where
  "memp_descr p s =
     (case List.find (\<lambda>t. p \<in> memp_elems s t) memp_types of Some t \<Rightarrow> (t, memp_sizes s t) | None \<Rightarrow> (MEMP_MAX, 0))"

lemma memp_elems_unique:
  assumes "memp_inv s" "p \<in> memp_elems s t" "p \<in> memp_elems s u"
  shows "t = u"
proof (rule ccontr)
  assume "t \<noteq> u"
  then show False
    using memp_elems_apart [OF assms(2,3)] memp_invD(1) [OF assms(1) memp_elems_type [OF assms(2)]]
      memp_invD(1) [OF assms(1) memp_elems_type [OF assms(3)]] by simp
qed

lemma memp_descr_live: "memp_inv s \<Longrightarrow> (p, d) \<in> memp_live s \<Longrightarrow> memp_descr p s = d"
proof -
  assume I: "memp_inv s" and l: "(p, d) \<in> memp_live s"
  obtain t where d: "d = (t, memp_sizes s t)" "p \<in> memp_elems s t" using l by (auto simp: memp_live_def)
  have "t \<in> set memp_types" using memp_elems_type [OF d(2)] by simp
  then have "List.find (\<lambda>t. p \<in> memp_elems s t) memp_types \<noteq> None" using d(2) by (auto simp: find_None_iff)
  moreover have "u = t" if "List.find (\<lambda>t. p \<in> memp_elems s t) memp_types = Some u" for u
    using that memp_elems_unique [OF I d(2), of u] by (auto simp: find_Some_iff)
  ultimately show ?thesis using d by (auto simp: memp_descr_def)
qed

interpretation memp: allocator memp_inv memp_live snd "\<lambda>t d. fst d = t" "\<lambda>t s. Some (memp_malloc t s)" "\<lambda>d. memp_free (fst d)"
proof unfold_locales
  fix s p d q e
  assume a: "memp_inv s" "(p, d) \<in> memp_live s" "(q, e) \<in> memp_live s" "(p, d) \<noteq> (q, e)"
  obtain t k where d: "d = (t, k)" by (cases d)
  obtain u l where e: "e = (u, l)" by (cases e)
  from a d e show "p + snd d \<le> q \<or> q + snd e \<le> p"
    using memp_elems_apart [of p s t q u] by (auto simp: memp_live_iff)
next
  fix s t assume "memp_inv s"
  from memp_malloc_live [OF this, of t] show "\<exists>s' p. Some (memp_malloc t s) = Some (s', p) \<and> memp_inv s' \<and>
      (p = NULL \<and> memp_live s' = memp_live s \<or>
       p \<noteq> NULL \<and> (\<exists>d. fst d = t \<and> (p, d) \<notin> memp_live s \<and> memp_live s' = insert (p, d) (memp_live s)))"
    by (metis fst_conv)
next
  fix s p d assume a: "memp_inv s" "(p, d) \<in> memp_live s"
  obtain t k where d: "d = (t, k)" by (cases d)
  show "memp_inv (memp_free (fst d) p s) \<and> memp_live (memp_free (fst d) p s) = memp_live s - {(p, d)}"
    using memp_free_live [of s p t k] a d by simp
  have "t \<noteq> MEMP_MAX" using a(2) d memp_elems_type by (auto simp: memp_live_iff)
  then show "p \<noteq> NULL \<and> 0 < snd d"
    using a d memp_elems_pos [OF a(1)] memp_invD(1) [OF a(1)] by (fastforce simp: memp_live_iff)
qed

lemma memp_elem_size_ok:
  assumes "\<And>t. 0 < sizeof t"
  shows "4 \<le> memp_elem_size sizeof t \<and> 4 dvd memp_elem_size sizeof t"
proof -
  have "4 \<le> mem_align_size n" if "0 < n" for n
  proof -
    have "4 div 4 \<le> (n + 3) div 4" using that by (intro div_le_mono) simp
    then have "1 * 4 \<le> (n + 3) div 4 * 4" by (intro mult_le_mono1) simp
    then show ?thesis by (simp add: mem_align_size_def)
  qed
  moreover have "4 dvd mem_align_size n" for n by (simp add: mem_align_size_def)
  ultimately show ?thesis using assms by (auto simp: memp_elem_size_def mem_align_size_def [of 0])
qed

text \<open>The module's static data before \<open>memp_init\<close>.\<close>

definition memp_static :: "ptr \<Rightarrow> (memp_t \<Rightarrow> nat) \<Rightarrow> memp_state" where
  "memp_static memory struct_size =
     \<lparr>memp_memory = memory, memp_sizes = memp_elem_size struct_size, memp_tab = (\<lambda>_. NULL), memp_next = (\<lambda>_. NULL)\<rparr>"

lemma memp_static_init:
  assumes "0 < m" "\<And>t. 0 < sizeof t"
  shows "memp_inv (memp_init (memp_static m sizeof))" "memp_live (memp_init (memp_static m sizeof)) = {}"
    "t \<noteq> MEMP_MAX \<Longrightarrow> length (memp_free_list (memp_init (memp_static m sizeof)) t) = memp_num t"
proof -
  let ?s = "memp_static m sizeof"
  have sz: "4 \<le> memp_sizes ?s t \<and> 4 dvd memp_sizes ?s t" for t
    using memp_elem_size_ok [OF assms(2)] by (simp add: memp_static_def)
  have m: "0 < memp_memory ?s" using assms(1) by (simp add: memp_static_def)
  note I = memp_init_spec [OF m sz]
  show "memp_inv (memp_init ?s)" "memp_live (memp_init ?s) = {}" using I by auto
  show "t \<noteq> MEMP_MAX \<Longrightarrow> length (memp_free_list (memp_init ?s) t) = memp_num t"
    using distinct_card [OF memp_invD(4) [OF I(1)]] I(3,4) card_pool_elems_eq sz by (metis less_le_trans zero_less_numeral)
qed

subsection \<open>Properties of the pools\<close>

text \<open>
  C15: \<open>memp_malloc\<close> gives an element of the asked pool that nobody holds, or NULL exactly if the pool
  has no free element; the elements held by others are not touched.
\<close>

theorem memp_malloc_correct:
  assumes "memp_inv s"
  shows "\<exists>s' p. memp_malloc type s = (s', p) \<and> memp_inv s' \<and>
    (if memp_free_list s type = [] then p = NULL \<and> s' = s
     else p \<noteq> NULL \<and> memp_live s' = insert (p, type, memp_sizes s type) (memp_live s) \<and>
       (\<forall>(q, u, k) \<in> memp_live s. p + memp_sizes s type \<le> q \<or> q + k \<le> p))"
proof -
  obtain s' p where M: "memp_malloc type s = (s', p)" "memp_inv s'" and
    or: "p = NULL \<and> s' = s \<and> memp_free_list s type = [] \<or>
     p \<noteq> NULL \<and> memp_free_list s type \<noteq> [] \<and> (p, type, memp_sizes s type) \<notin> memp_live s \<and>
       memp_live s' = insert (p, type, memp_sizes s type) (memp_live s)"
    using memp_malloc_live [OF assms, of type] by blast
  show ?thesis
  proof (cases "memp_free_list s type = []")
    case True
    then show ?thesis using M or by auto
  next
    case False
    then have l: "(p, type, memp_sizes s type) \<notin> memp_live s"
      "memp_live s' = insert (p, type, memp_sizes s type) (memp_live s)" using or by auto
    have "p + memp_sizes s type \<le> q \<or> q + k \<le> p" if "(q, u, k) \<in> memp_live s" for q u k
      using memp.live_disjoint [OF M(2), of p "(type, memp_sizes s type)" q "(u, k)"] l that by fastforce
    then show ?thesis using M or False by auto
  qed
qed

theorem memp_malloc_correct_witness:
  "\<exists>s' p. memp_malloc MEMP_PBUF (memp_init (memp_static 1000 (\<lambda>_. 20))) = (s', p) \<and> memp_inv s' \<and> p \<noteq> NULL"
proof -
  have "memp_free_list (memp_init (memp_static 1000 (\<lambda>_. 20))) MEMP_PBUF \<noteq> []"
    using memp_static_init(3) [of 1000 "\<lambda>_. 20" MEMP_PBUF] by auto
  then show ?thesis using memp_malloc_correct [OF memp_static_init(1) [of 1000 "\<lambda>_. 20"], of MEMP_PBUF] by auto
qed

text \<open>
  C16: \<open>memp_init\<close> carves the static array into all pools: nothing is held, every element of every pool
  is free, and any interleaving of allocations and releases that follows runs without the client's
  elements ever overlapping.
\<close>

theorem memp_init_correct:
  assumes "0 < memory" and "\<forall>t. 0 < struct_size t"
  shows "memp_live (memp_init (memp_static memory struct_size)) = {} \<and>
    (\<forall>t. t \<noteq> MEMP_MAX \<longrightarrow> length (memp_free_list (memp_init (memp_static memory struct_size)) t) = memp_num t) \<and>
    (\<exists>s' held. memp.client memp_descr ops (memp_init (memp_static memory struct_size)) [] = Some (s', held) \<and>
       memp_inv s' \<and> distinct held \<and> memp_live s' = set held)"
proof -
  note I = memp_static_init [of memory struct_size, OF assms(1) assms(2) [rule_format]]
  have "\<exists>s' held. memp.client memp_descr ops (memp_init (memp_static memory struct_size)) [] = Some (s', held) \<and>
       memp_inv s' \<and> distinct held \<and> memp_live s' = {} \<union> set held \<and> {} \<inter> set held = {}"
    by (rule memp.client_safe) (use I memp_descr_live in auto)
  then show ?thesis using I(2,3) by simp
qed

theorem memp_init_correct_witness:
  "memp_live (memp_init (memp_static 1000 (\<lambda>_. 20))) = {} \<and>
   (\<exists>s' held. memp.client memp_descr [Request MEMP_PBUF, Request MEMP_PBUF_POOL, Release 0]
      (memp_init (memp_static 1000 (\<lambda>_. 20))) [] = Some (s', held) \<and> memp_live s' = set held)"
  using memp_init_correct [of 1000 "\<lambda>_. 20" "[Request MEMP_PBUF, Request MEMP_PBUF_POOL, Release 0]"] by auto

end
