(* ===== verification/Pbuf.thy ===== *)
theory Pbuf
  imports Memp "HOL-Library.Multiset"
begin

text \<open>
  Packet buffers, \<^verbatim>\<open>lwip-1.4.1/src/core/pbuf.c\<close>. A pbuf is a header with a pointer to its payload;
  pbufs are chained through \<open>next\<close> and reference counted. The state holds the two allocators, the
  headers, and the bytes of memory the payload pointers point into. Headers are kept in a map of
  their own, apart from the payload bytes: the invariant below keeps every payload inside the part
  of its block behind the header. \<open>alive\<close> is the set of addresses that hold an allocated header; an
  access to any other address is a fault, the value \<open>None\<close>. The header at an address survives its
  release, as memory does, so that a field that is read before it is written after a new allocation
  has the old value.
\<close>

subsection \<open>Data\<close>

datatype pbuf_layer = PBUF_TRANSPORT | PBUF_IP | PBUF_LINK | PBUF_RAW

datatype pbuf_type = PBUF_RAM | PBUF_ROM | PBUF_REF | PBUF_POOL

definition PBUF_TRANSPORT_HLEN :: nat where "PBUF_TRANSPORT_HLEN = 20"
definition PBUF_IP_HLEN :: nat where "PBUF_IP_HLEN = 20"
definition PBUF_LINK_HLEN :: nat where "PBUF_LINK_HLEN = 14"

record pbuf =
  pb_next :: ptr
  payload :: ptr
  tot_len :: nat
  pb_len :: nat
  pb_type :: pbuf_type
  pb_flags :: nat
  pb_ref :: nat

text \<open>\<open>PBUF_FLAG_IS_CUSTOM\<close> is bit 1 of \<open>flags\<close>.\<close>

definition is_custom :: "pbuf \<Rightarrow> bool" where
  "is_custom b \<longleftrightarrow> bit (pb_flags b) 1"

text \<open>
  \<open>frag_original\<close> is the member \<open>original\<close> of the \<open>struct pbuf_custom_ref\<close> at an address: custom
  pbufs are only made by \<^verbatim>\<open>ip_frag.c\<close>, whose \<open>custom_free_function\<close> is always
  \<open>ipfrag_free_pbuf_custom\<close>.
\<close>

record net =
  heap :: mem_heap
  pools :: memp_state
  alive :: "ptr set"
  pbufs :: "ptr \<Rightarrow> pbuf"
  frag_original :: "ptr \<Rightarrow> ptr"
  ram_bytes :: memory
  pbuf_free_ooseq_pending :: bool

definition get_pbuf :: "ptr \<Rightarrow> net \<Rightarrow> pbuf option" where
  "get_pbuf p s = (if p \<in> alive s then Some (pbufs s p) else None)"

definition upd_pbuf :: "ptr \<Rightarrow> (pbuf \<Rightarrow> pbuf) \<Rightarrow> net \<Rightarrow> net" where
  "upd_pbuf p f s = s\<lparr>pbufs := (pbufs s)(p := f (pbufs s p))\<rparr>"

subsection \<open>Allocation and release\<close>

definition pbuf_offset :: "pbuf_layer \<Rightarrow> nat" where
  "pbuf_offset layer =
     (case layer of
        PBUF_TRANSPORT \<Rightarrow> PBUF_LINK_HLEN + PBUF_IP_HLEN + PBUF_TRANSPORT_HLEN
      | PBUF_IP \<Rightarrow> PBUF_LINK_HLEN + PBUF_IP_HLEN
      | PBUF_LINK \<Rightarrow> PBUF_LINK_HLEN
      | PBUF_RAW \<Rightarrow> 0)"

definition pbuf_pool_is_empty :: "net \<Rightarrow> net" where
  "pbuf_pool_is_empty s = s\<lparr>pbuf_free_ooseq_pending := True\<rparr>"

text \<open>The memory of a pbuf whose count reached zero goes back where it came from (the header is dead
  from here on).\<close>

definition pbuf_release :: "ptr \<Rightarrow> pbuf_type \<Rightarrow> net \<Rightarrow> net" where
  "pbuf_release p type s =
     (if type = PBUF_POOL then s\<lparr>pools := memp_free MEMP_PBUF_POOL p (pools s)\<rparr>
      else if type = PBUF_ROM \<or> type = PBUF_REF then s\<lparr>pools := memp_free MEMP_PBUF p (pools s)\<rparr>
      else s\<lparr>heap := mem_free p (heap s)\<rparr>)"

text \<open>\<open>ip_frag_free_pbuf_custom_ref\<close>.\<close>

definition ip_frag_free_pbuf_custom_ref :: "ptr \<Rightarrow> net \<Rightarrow> net" where
  "ip_frag_free_pbuf_custom_ref p s = s\<lparr>pools := memp_free MEMP_FRAG_PBUF p (pools s)\<rparr>"

text \<open>
  The loop of \<open>pbuf_free\<close>, with the call of \<open>ipfrag_free_pbuf_custom\<close> for a custom pbuf (it frees
  the pbuf the fragment refers to, by a nested call) written out.
\<close>

partial_function (option) pbuf_free_loop :: "ptr \<Rightarrow> nat \<Rightarrow> net \<Rightarrow> (net \<times> nat) option" where
  "pbuf_free_loop p cnt s =
     (if p = NULL then Some (s, cnt)
      else case get_pbuf p s of
        None \<Rightarrow> None
      | Some b \<Rightarrow>
          let ref = usub 16 (pb_ref b) 1; s1 = upd_pbuf p (\<lambda>b. b\<lparr>pb_ref := ref\<rparr>) s
          in if ref = 0 then
               let q = pb_next b; s2 = s1\<lparr>alive := alive s1 - {p}\<rparr>
               in if is_custom b then
                    Option.bind
                      (if frag_original s2 p \<noteq> NULL then pbuf_free_loop (frag_original s2 p) 0 s2 else Some (s2, 0))
                      (\<lambda>r. pbuf_free_loop q (to_u8 (cnt + 1)) (ip_frag_free_pbuf_custom_ref p (fst r)))
                  else pbuf_free_loop q (to_u8 (cnt + 1)) (pbuf_release p (pb_type b) s2)
             else Some (s1, cnt))"

definition pbuf_free :: "ptr \<Rightarrow> net \<Rightarrow> (net \<times> nat) option" where
  "pbuf_free p s = (if p = NULL then Some (s, 0) else pbuf_free_loop p 0 s)"

text \<open>A header the allocator has just handed out: its memory holds what it held before.\<close>

definition claim :: "ptr \<Rightarrow> net \<Rightarrow> net" where
  "claim p s = s\<lparr>alive := insert p (alive s)\<rparr>"

text \<open>The loop of \<open>pbuf_alloc\<close> that appends pool pbufs behind \<open>r\<close> until \<open>rem_len\<close> bytes are
  there. (A pass that adds nothing would repeat forever, \<open>None\<close>; it cannot happen for a 16-bit length.)\<close>

function pbuf_alloc_tail :: "ptr \<Rightarrow> ptr \<Rightarrow> nat \<Rightarrow> net \<Rightarrow> (net \<times> ptr) option" where
  "pbuf_alloc_tail p r rem_len s =
     (if rem_len > 0 then
        let (pl, q) = memp_malloc MEMP_PBUF_POOL (pools s); s1 = s\<lparr>pools := pl\<rparr>
        in if q = NULL then
             (case pbuf_free p (pbuf_pool_is_empty s1) of None \<Rightarrow> None | Some (s2, _) \<Rightarrow> Some (s2, NULL))
           else
             let n = min (to_u16 rem_len) PBUF_POOL_BUFSIZE_ALIGNED;
                 s2 = upd_pbuf q (\<lambda>b. b\<lparr>pb_type := PBUF_POOL, pb_flags := 0, pb_next := NULL\<rparr>) (claim q s1);
                 s3 = upd_pbuf r (\<lambda>b. b\<lparr>pb_next := q\<rparr>) s2;
                 s4 = upd_pbuf q (\<lambda>b. b\<lparr>tot_len := to_u16 rem_len, pb_len := n,
                                       payload := q + SIZEOF_STRUCT_PBUF, pb_ref := 1\<rparr>) s3
             in if n = 0 then None else pbuf_alloc_tail p q (rem_len - n) s4
      else Some (s, p))"
  by pat_completeness auto
termination by (relation "measure (\<lambda>(p, r, rem_len, s). rem_len)") (auto simp: Let_def)

definition pbuf_alloc :: "pbuf_layer \<Rightarrow> nat \<Rightarrow> pbuf_type \<Rightarrow> net \<Rightarrow> (net \<times> ptr) option" where
  "pbuf_alloc layer len type s =
     (let offset = pbuf_offset layer;
          finish = (\<lambda>r. case r of None \<Rightarrow> None
                        | Some (s, p) \<Rightarrow>
                            if p = NULL then Some (s, NULL)
                            else Some (upd_pbuf p (\<lambda>b. b\<lparr>pb_ref := 1, pb_flags := 0\<rparr>) s, p))
      in finish
        (case type of
          PBUF_POOL \<Rightarrow>
            (let (pl, p) = memp_malloc MEMP_PBUF_POOL (pools s); s1 = s\<lparr>pools := pl\<rparr>
             in if p = NULL then Some (pbuf_pool_is_empty s1, NULL)
                else
                  let n = min len (PBUF_POOL_BUFSIZE_ALIGNED - mem_align_size offset);
                      s2 = upd_pbuf p (\<lambda>b. b\<lparr>pb_type := PBUF_POOL, pb_next := NULL,
                              payload := mem_align_size (p + (SIZEOF_STRUCT_PBUF + offset)),
                              tot_len := len, pb_len := n, pb_ref := 1\<rparr>) (claim p s1)
                  in pbuf_alloc_tail p p (len - n) s2)
        | PBUF_RAM \<Rightarrow>
            (case mem_malloc (to_u16 (mem_align_size (SIZEOF_STRUCT_PBUF + offset) + mem_align_size len)) (heap s) of
               None \<Rightarrow> None
             | Some (h, p) \<Rightarrow>
                 let s1 = s\<lparr>heap := h\<rparr>
                 in if p = NULL then Some (s1, NULL)
                    else Some (upd_pbuf p (\<lambda>b. b\<lparr>payload := mem_align_size (p + SIZEOF_STRUCT_PBUF + offset),
                                 pb_len := len, tot_len := len, pb_next := NULL, pb_type := PBUF_RAM\<rparr>)
                               (claim p s1), p))
        | _ \<Rightarrow>
            (let (pl, p) = memp_malloc MEMP_PBUF (pools s); s1 = s\<lparr>pools := pl\<rparr>
             in if p = NULL then Some (s1, NULL)
                else Some (upd_pbuf p (\<lambda>b. b\<lparr>payload := NULL, pb_len := len, tot_len := len,
                             pb_next := NULL, pb_type := type\<rparr>) (claim p s1), p))))"

definition pbuf_alloced_custom ::
    "pbuf_layer \<Rightarrow> nat \<Rightarrow> pbuf_type \<Rightarrow> ptr \<Rightarrow> ptr \<Rightarrow> nat \<Rightarrow> net \<Rightarrow> net \<times> ptr" where
  "pbuf_alloced_custom l len type p payload_mem payload_mem_len s =
     (let offset = pbuf_offset l
      in if mem_align_size offset + len > payload_mem_len then (s, NULL)
         else (upd_pbuf p (\<lambda>b. b\<lparr>pb_next := NULL,
                 payload := (if payload_mem \<noteq> NULL then payload_mem + mem_align_size offset else NULL),
                 pb_flags := 2, pb_len := len, tot_len := len, pb_type := type, pb_ref := 1\<rparr>) (claim p s), p))"

subsection \<open>Resizing\<close>

text \<open>The loop of \<open>pbuf_realloc\<close> over the pbufs that stay: it ends at the new last pbuf.\<close>

partial_function (option) pbuf_realloc_walk :: "ptr \<Rightarrow> nat \<Rightarrow> nat \<Rightarrow> net \<Rightarrow> (net \<times> ptr \<times> nat) option" where
  "pbuf_realloc_walk q rem_len grow s =
     (case get_pbuf q s of
        None \<Rightarrow> None
      | Some b \<Rightarrow>
          if rem_len > pb_len b
          then pbuf_realloc_walk (pb_next b) (rem_len - pb_len b) grow
                 (upd_pbuf q (\<lambda>b. b\<lparr>tot_len := to_u16 (tot_len b + grow)\<rparr>) s)
          else Some (s, q, rem_len))"

definition pbuf_realloc :: "ptr \<Rightarrow> nat \<Rightarrow> net \<Rightarrow> net option" where
  "pbuf_realloc p new_len s =
     (case get_pbuf p s of
        None \<Rightarrow> None
      | Some b \<Rightarrow>
          if new_len \<ge> tot_len b then Some s
          else
            case pbuf_realloc_walk p new_len (usub 16 new_len (tot_len b)) s of
              None \<Rightarrow> None
            | Some (s1, q, rem_len) \<Rightarrow>
                let bq = pbufs s1 q;
                    (s2, q2) =
                      (if pb_type bq = PBUF_RAM \<and> rem_len \<noteq> pb_len bq
                       then let (h, r) = mem_trim q (to_u16 (usub 16 (payload bq) q + rem_len)) (heap s1)
                            in (s1\<lparr>heap := h\<rparr>, r)
                       else (s1, q))
                in if q2 \<notin> alive s2 then None
                   else
                     let s3 = upd_pbuf q2 (\<lambda>b. b\<lparr>pb_len := rem_len, tot_len := rem_len\<rparr>) s2;
                         n = pb_next (pbufs s3 q2)
                     in case (if n \<noteq> NULL then pbuf_free n s3 else Some (s3, 0)) of
                          None \<Rightarrow> None
                        | Some (s4, _) \<Rightarrow> Some (upd_pbuf q2 (\<lambda>b. b\<lparr>pb_next := NULL\<rparr>) s4))"

text \<open>Adding a signed number to a \<open>u16_t\<close>.\<close>

definition add_s16 :: "nat \<Rightarrow> int \<Rightarrow> nat" where
  "add_s16 n i = nat ((int n + i) mod 65536)"

definition pbuf_header :: "ptr \<Rightarrow> int \<Rightarrow> net \<Rightarrow> (net \<times> nat) option" where
  "pbuf_header p inc s =
     (if inc = 0 \<or> p = NULL then Some (s, 0)
      else case get_pbuf p s of
        None \<Rightarrow> None
      | Some b \<Rightarrow>
          let increment_magnitude = (if inc < 0 then nat (- inc) else nat inc)
          in if inc < 0 \<and> \<not> increment_magnitude \<le> pb_len b then Some (s, 1)
             else if pb_type b = PBUF_RAM \<or> pb_type b = PBUF_POOL then
               (if int (payload b) - inc < int (p + SIZEOF_STRUCT_PBUF) then Some (s, 1)
                else Some (upd_pbuf p (\<lambda>b. b\<lparr>payload := nat (int (payload b) - inc),
                             pb_len := add_s16 (pb_len b) inc, tot_len := add_s16 (tot_len b) inc\<rparr>) s, 0))
             else
               (if inc < 0 \<and> increment_magnitude \<le> pb_len b
                then Some (upd_pbuf p (\<lambda>b. b\<lparr>payload := nat (int (payload b) - inc),
                             pb_len := add_s16 (pb_len b) inc, tot_len := add_s16 (tot_len b) inc\<rparr>) s, 0)
                else Some (s, 1)))"

subsection \<open>Chains\<close>

partial_function (option) pbuf_clen_loop :: "ptr \<Rightarrow> nat \<Rightarrow> net \<Rightarrow> nat option" where
  "pbuf_clen_loop p len s =
     (if p = NULL then Some len
      else case get_pbuf p s of None \<Rightarrow> None | Some b \<Rightarrow> pbuf_clen_loop (pb_next b) (to_u8 (len + 1)) s)"

definition pbuf_clen :: "ptr \<Rightarrow> net \<Rightarrow> nat option" where
  "pbuf_clen p s = pbuf_clen_loop p 0 s"

definition pbuf_ref :: "ptr \<Rightarrow> net \<Rightarrow> net option" where
  "pbuf_ref p s =
     (if p = NULL then Some s
      else case get_pbuf p s of None \<Rightarrow> None
           | Some _ \<Rightarrow> Some (upd_pbuf p (\<lambda>b. b\<lparr>pb_ref := to_u16 (pb_ref b + 1)\<rparr>) s))"

partial_function (option) pbuf_cat_loop :: "ptr \<Rightarrow> ptr \<Rightarrow> net \<Rightarrow> net option" where
  "pbuf_cat_loop p t s =
     (case get_pbuf p s of
        None \<Rightarrow> None
      | Some b \<Rightarrow>
          case get_pbuf t s of
            None \<Rightarrow> None
          | Some bt \<Rightarrow>
              let s1 = upd_pbuf p (\<lambda>b. b\<lparr>tot_len := to_u16 (tot_len b + tot_len bt)\<rparr>) s
              in if pb_next b \<noteq> NULL then pbuf_cat_loop (pb_next b) t s1
                 else Some (upd_pbuf p (\<lambda>b. b\<lparr>pb_next := t\<rparr>) s1))"

definition pbuf_cat :: "ptr \<Rightarrow> ptr \<Rightarrow> net \<Rightarrow> net option" where
  "pbuf_cat h t s = (if h = NULL \<or> t = NULL then Some s else pbuf_cat_loop h t s)"

definition pbuf_chain :: "ptr \<Rightarrow> ptr \<Rightarrow> net \<Rightarrow> net option" where
  "pbuf_chain h t s = (case pbuf_cat h t s of None \<Rightarrow> None | Some s1 \<Rightarrow> pbuf_ref t s1)"

definition pbuf_dechain :: "ptr \<Rightarrow> net \<Rightarrow> (net \<times> ptr) option" where
  "pbuf_dechain p s =
     (case get_pbuf p s of
        None \<Rightarrow> None
      | Some b \<Rightarrow>
          let q = pb_next b
          in if q = NULL then Some (s, NULL)
             else if q \<notin> alive s then None
             else
               let s1 = upd_pbuf q (\<lambda>bq. bq\<lparr>tot_len := usub 16 (tot_len b) (pb_len b)\<rparr>) s;
                   s2 = upd_pbuf p (\<lambda>b. b\<lparr>pb_next := NULL, tot_len := pb_len b\<rparr>) s1
               in case pbuf_free q s2 of
                    None \<Rightarrow> None
                  | Some (s3, tail_gone) \<Rightarrow> Some (s3, if tail_gone > 0 then NULL else q))"

subsection \<open>Copying\<close>

text \<open>The do-while loop of \<open>pbuf_copy\<close>.\<close>

partial_function (option) pbuf_copy_loop ::
    "ptr \<Rightarrow> ptr \<Rightarrow> nat \<Rightarrow> nat \<Rightarrow> net \<Rightarrow> (net \<times> err_t) option" where
  "pbuf_copy_loop p_to p_from offset_to offset_from s =
     (case (get_pbuf p_to s, get_pbuf p_from s) of
        (Some bt, Some bf) \<Rightarrow>
          let len = (if int (pb_len bt) - int offset_to \<ge> int (pb_len bf) - int offset_from
                     then usub 16 (pb_len bf) offset_from else usub 16 (pb_len bt) offset_to);
              s1 = s\<lparr>ram_bytes := memcpy len (payload bt + offset_to) (payload bf + offset_from) (ram_bytes s)\<rparr>;
              ot = to_u16 (offset_to + len);
              of' = to_u16 (offset_from + len);
              (of2, from2) = (if of' \<ge> pb_len bf then (0, pb_next bf) else (of', p_from));
              (ot2, to2) = (if ot = pb_len bt then (0, pb_next bt) else (ot, p_to))
          in if ot = pb_len bt \<and> to2 = NULL \<and> from2 \<noteq> NULL then Some (s1, ERR_ARG)
             else if from2 \<noteq> NULL \<and> from2 \<notin> alive s1 then None
             else if from2 \<noteq> NULL \<and> pb_len (pbufs s1 from2) = tot_len (pbufs s1 from2) \<and> pb_next (pbufs s1 from2) \<noteq> NULL
             then Some (s1, ERR_VAL)
             else if to2 \<noteq> NULL \<and> to2 \<notin> alive s1 then None
             else if to2 \<noteq> NULL \<and> pb_len (pbufs s1 to2) = tot_len (pbufs s1 to2) \<and> pb_next (pbufs s1 to2) \<noteq> NULL
             then Some (s1, ERR_VAL)
             else if from2 \<noteq> NULL then pbuf_copy_loop to2 from2 ot2 of2 s1
             else Some (s1, ERR_OK)
      | _ \<Rightarrow> None)"

definition pbuf_copy :: "ptr \<Rightarrow> ptr \<Rightarrow> net \<Rightarrow> (net \<times> err_t) option" where
  "pbuf_copy p_to p_from s =
     (if p_to = NULL \<or> p_from = NULL then Some (s, ERR_ARG)
      else case (get_pbuf p_to s, get_pbuf p_from s) of
        (Some bt, Some bf) \<Rightarrow>
          if tot_len bt < tot_len bf then Some (s, ERR_ARG) else pbuf_copy_loop p_to p_from 0 0 s
      | _ \<Rightarrow> None)"

partial_function (option) pbuf_copy_partial_loop ::
    "ptr \<Rightarrow> ptr \<Rightarrow> nat \<Rightarrow> nat \<Rightarrow> nat \<Rightarrow> net \<Rightarrow> (net \<times> nat) option" where
  "pbuf_copy_partial_loop p dataptr len offset left s =
     (if len = 0 \<or> p = NULL then Some (s, left)
      else case get_pbuf p s of
        None \<Rightarrow> None
      | Some b \<Rightarrow>
          if offset \<noteq> 0 \<and> offset \<ge> pb_len b
          then pbuf_copy_partial_loop (pb_next b) dataptr len (offset - pb_len b) left s
          else
            let n0 = usub 16 (pb_len b) offset; n = (if n0 > len then len else n0)
            in pbuf_copy_partial_loop (pb_next b) dataptr (len - n) 0 (to_u16 (left + n))
                 (s\<lparr>ram_bytes := memcpy n (dataptr + left) (payload b + offset) (ram_bytes s)\<rparr>))"

text \<open>\<open>copied_total\<close> and \<open>left\<close> are the same number throughout.\<close>

definition pbuf_copy_partial :: "ptr \<Rightarrow> ptr \<Rightarrow> nat \<Rightarrow> nat \<Rightarrow> net \<Rightarrow> (net \<times> nat) option" where
  "pbuf_copy_partial buf dataptr len offset s =
     (if buf = NULL then Some (s, 0)
      else if dataptr = NULL then Some (s, 0)
      else pbuf_copy_partial_loop buf dataptr len offset 0 s)"

partial_function (option) pbuf_take_loop :: "ptr \<Rightarrow> ptr \<Rightarrow> nat \<Rightarrow> nat \<Rightarrow> net \<Rightarrow> net option" where
  "pbuf_take_loop p dataptr total_copy_len copied_total s =
     (if total_copy_len = 0 then Some s
      else case get_pbuf p s of
        None \<Rightarrow> None
      | Some b \<Rightarrow>
          let n = (if total_copy_len > pb_len b then pb_len b else total_copy_len)
          in pbuf_take_loop (pb_next b) dataptr (total_copy_len - n) (to_u16 (copied_total + n))
               (s\<lparr>ram_bytes := memcpy n (payload b) (dataptr + copied_total) (ram_bytes s)\<rparr>))"

definition pbuf_take :: "ptr \<Rightarrow> ptr \<Rightarrow> nat \<Rightarrow> net \<Rightarrow> (net \<times> err_t) option" where
  "pbuf_take buf dataptr len s =
     (if buf = NULL then Some (s, ERR_OK)
      else if dataptr = NULL then Some (s, ERR_OK)
      else case get_pbuf buf s of
        None \<Rightarrow> None
      | Some b \<Rightarrow>
          if tot_len b < len then Some (s, ERR_ARG)
          else case pbuf_take_loop buf dataptr len 0 s of None \<Rightarrow> None | Some s' \<Rightarrow> Some (s', ERR_OK))"

definition pbuf_coalesce :: "ptr \<Rightarrow> pbuf_layer \<Rightarrow> net \<Rightarrow> (net \<times> ptr) option" where
  "pbuf_coalesce p layer s =
     (case get_pbuf p s of
        None \<Rightarrow> None
      | Some b \<Rightarrow>
          if pb_next b = NULL then Some (s, p)
          else case pbuf_alloc layer (tot_len b) PBUF_RAM s of
            None \<Rightarrow> None
          | Some (s1, q) \<Rightarrow>
              if q = NULL then Some (s1, p)
              else case pbuf_copy q p s1 of
                None \<Rightarrow> None
              | Some (s2, _) \<Rightarrow> (case pbuf_free p s2 of None \<Rightarrow> None | Some (s3, _) \<Rightarrow> Some (s3, q)))"

subsection \<open>Reading\<close>

text \<open>The loop that finds the pbuf holding an offset, shared by \<open>pbuf_get_at\<close> and \<open>pbuf_memcmp\<close>.\<close>

partial_function (option) pbuf_skip :: "ptr \<Rightarrow> nat \<Rightarrow> net \<Rightarrow> (ptr \<times> nat) option" where
  "pbuf_skip q copy_from s =
     (if q = NULL then Some (q, copy_from)
      else case get_pbuf q s of
        None \<Rightarrow> None
      | Some b \<Rightarrow>
          if pb_len b \<le> copy_from then pbuf_skip (pb_next b) (copy_from - pb_len b) s
          else Some (q, copy_from))"

definition pbuf_get_at :: "ptr \<Rightarrow> nat \<Rightarrow> net \<Rightarrow> u8 option" where
  "pbuf_get_at p offset s =
     (case pbuf_skip p offset s of
        None \<Rightarrow> None
      | Some (q, copy_from) \<Rightarrow>
          if q \<noteq> NULL \<and> pb_len (pbufs s q) > copy_from
          then Some (ram_bytes s (payload (pbufs s q) + copy_from)) else Some 0)"

text \<open>The comparison loop of \<open>pbuf_memcmp\<close>, from index \<open>i\<close> with \<open>k\<close> bytes left.\<close>

fun pbuf_memcmp_loop :: "nat \<Rightarrow> nat \<Rightarrow> ptr \<Rightarrow> nat \<Rightarrow> ptr \<Rightarrow> net \<Rightarrow> nat option" where
  "pbuf_memcmp_loop 0 i q start s2 s = Some 0"
| "pbuf_memcmp_loop (Suc k) i q start s2 s =
     (case pbuf_get_at q (to_u16 (start + i)) s of
        None \<Rightarrow> None
      | Some a \<Rightarrow>
          if a \<noteq> ram_bytes s (s2 + i) then Some (to_u16 (i + 1))
          else pbuf_memcmp_loop k (i + 1) q start s2 s)"

definition pbuf_memcmp :: "ptr \<Rightarrow> nat \<Rightarrow> ptr \<Rightarrow> nat \<Rightarrow> net \<Rightarrow> nat option" where
  "pbuf_memcmp p offset s2 n s =
     (case pbuf_skip p offset s of
        None \<Rightarrow> None
      | Some (q, start) \<Rightarrow>
          if q \<noteq> NULL \<and> pb_len (pbufs s q) > start then pbuf_memcmp_loop n 0 q start s2 s
          else Some 0xffff)"

partial_function (option) pbuf_memfind_loop :: "ptr \<Rightarrow> ptr \<Rightarrow> nat \<Rightarrow> nat \<Rightarrow> nat \<Rightarrow> net \<Rightarrow> nat option" where
  "pbuf_memfind_loop p mem mem_len mx i s =
     (if i \<le> mx then
        case pbuf_memcmp p i mem mem_len s of
          None \<Rightarrow> None
        | Some pl \<Rightarrow>
            if pl = 0 then Some i
            else pbuf_memfind_loop p mem mem_len mx (to_u16 (i + pl)) s
      else Some 0xFFFF)"

definition pbuf_memfind :: "ptr \<Rightarrow> ptr \<Rightarrow> nat \<Rightarrow> nat \<Rightarrow> net \<Rightarrow> nat option" where
  "pbuf_memfind p mem mem_len start_offset s =
     (case get_pbuf p s of
        None \<Rightarrow> None
      | Some b \<Rightarrow>
          if tot_len b \<ge> mem_len + start_offset
          then pbuf_memfind_loop p mem mem_len (usub 16 (tot_len b) mem_len) start_offset s
          else Some 0xFFFF)"

definition pbuf_strstr :: "ptr \<Rightarrow> ptr \<Rightarrow> net \<Rightarrow> nat option" where
  "pbuf_strstr p substr s =
     (if substr = NULL \<or> ram_bytes s substr = 0 then Some 0xFFFF
      else case get_pbuf p s of
        None \<Rightarrow> None
      | Some b \<Rightarrow>
          if tot_len b = 0xFFFF then Some 0xFFFF
          else case strlen substr (ram_bytes s) of
            None \<Rightarrow> None
          | Some substr_len \<Rightarrow>
              if substr_len \<ge> 0xFFFF then Some 0xFFFF
              else pbuf_memfind p substr (to_u16 substr_len) 0 s)"

lemmas pbuf_defs [model_defs] =
  pbuf_free_def pbuf_alloc_def pbuf_realloc_def pbuf_header_def pbuf_clen_def pbuf_ref_def pbuf_cat_def
  pbuf_chain_def pbuf_dechain_def pbuf_copy_def pbuf_copy_partial_def pbuf_take_def pbuf_coalesce_def
  pbuf_get_at_def pbuf_memcmp_def pbuf_memfind_def pbuf_strstr_def

end
