(* ===== verification/Pbuf_Refs.thy ===== *)
theory Pbuf_Refs
  imports Pbuf
begin

text \<open>
  Ownership of packet buffers. A pbuf's reference count is the number of pointers to it: pointers
  held outside (by the application, by queues, by the caller of a function; the multiset \<open>R\<close>), \<open>next\<close>
  pointers of other pbufs, and the references of fragments to the packet they were cut from. The
  invariant says that all counts are exact and no pointer dangles, and that every header lies in a
  block of the allocator it came from. It is the invariant every operation on pbufs keeps.
\<close>

subsection \<open>Pointers and counts\<close>

definition customs :: "net \<Rightarrow> ptr set" where
  "customs s = {p \<in> alive s. is_custom (pbufs s p)}"

definition all_ptrs :: "net \<Rightarrow> ptr multiset \<Rightarrow> ptr multiset" where
  "all_ptrs s R = R + image_mset (\<lambda>p. pb_next (pbufs s p)) (mset_set (alive s))
                    + image_mset (frag_original s) (mset_set (customs s))"

definition refs_inv :: "net \<Rightarrow> ptr multiset \<Rightarrow> bool" where
  "refs_inv s R \<longleftrightarrow> finite (alive s) \<and> NULL \<notin> alive s \<and>
     (\<forall>p\<in>alive s. 0 < pb_ref (pbufs s p) \<and> pb_ref (pbufs s p) < 65536 \<and>
        pb_ref (pbufs s p) = count (all_ptrs s R) p) \<and>
     (\<forall>p\<in>#all_ptrs s R. p = NULL \<or> p \<in> alive s)"

lemma refs_invD:
  assumes "refs_inv s R"
  shows "finite (alive s)" "NULL \<notin> alive s" "p \<in> alive s \<Longrightarrow> 0 < pb_ref (pbufs s p)"
    "p \<in> alive s \<Longrightarrow> pb_ref (pbufs s p) < 65536"
    "p \<in> alive s \<Longrightarrow> pb_ref (pbufs s p) = count (all_ptrs s R) p"
    "p \<in># all_ptrs s R \<Longrightarrow> p = NULL \<or> p \<in> alive s"
  using assms by (auto simp: refs_inv_def)

lemma all_ptrs_add: "all_ptrs s (add_mset p R) = add_mset p (all_ptrs s R)"
  by (simp add: all_ptrs_def)

lemma all_ptrs_plus: "all_ptrs s (R + R') = all_ptrs s R + R'"
  by (simp add: all_ptrs_def)

lemma refs_inv_root: "refs_inv s (add_mset p R) \<Longrightarrow> p = NULL \<or> p \<in> alive s"
  by (auto simp: refs_inv_def all_ptrs_add)

lemma refs_inv_next: "refs_inv s R \<Longrightarrow> p \<in> alive s \<Longrightarrow> pb_next (pbufs s p) = NULL \<or> pb_next (pbufs s p) \<in> alive s"
proof -
  assume I: "refs_inv s R" and p: "p \<in> alive s"
  have "pb_next (pbufs s p) \<in># all_ptrs s R" using refs_invD(1) [OF I] p by (auto simp: all_ptrs_def)
  then show ?thesis using refs_invD(6) [OF I] by blast
qed

lemma refs_inv_NULL [simp]: "refs_inv s (add_mset NULL R) \<longleftrightarrow> refs_inv s R"
  by (auto simp: refs_inv_def all_ptrs_add)

text \<open>Changes that touch neither pointers nor counts.\<close>

lemma refs_inv_cong:
  assumes "alive s' = alive s" "frag_original s' = frag_original s"
    "\<And>p. p \<in> alive s \<Longrightarrow> pb_next (pbufs s' p) = pb_next (pbufs s p) \<and>
       is_custom (pbufs s' p) = is_custom (pbufs s p) \<and> pb_ref (pbufs s' p) = pb_ref (pbufs s p)"
  shows "refs_inv s' R = refs_inv s R"
proof (cases "finite (alive s)")
  case True
  have c: "customs s' = customs s" using assms(1,3) by (auto simp: customs_def)
  have n: "image_mset (\<lambda>p. pb_next (pbufs s' p)) (mset_set (alive s)) = image_mset (\<lambda>p. pb_next (pbufs s p)) (mset_set (alive s))"
    using assms(3) True by (intro image_mset_cong) auto
  have "all_ptrs s' R = all_ptrs s R" by (simp add: all_ptrs_def assms(1,2) c n)
  then show ?thesis using assms(1,3) by (auto simp: refs_inv_def)
next
  case False
  then show ?thesis using assms(1) by (simp add: refs_inv_def)
qed

text \<open>A count goes down with a pointer given up.\<close>

lemma refs_inv_dec:
  assumes I: "refs_inv s (add_mset p R)" and p: "p \<in> alive s" "1 < pb_ref (pbufs s p)"
    and s': "alive s' = alive s" "frag_original s' = frag_original s"
      "pbufs s' = (pbufs s)(p := (pbufs s p)\<lparr>pb_ref := pb_ref (pbufs s p) - 1\<rparr>)"
  shows "refs_inv s' R"
proof -
  have c: "customs s' = customs s" using s' by (auto simp: customs_def is_custom_def)
  have n: "(\<lambda>q. pb_next (pbufs s' q)) = (\<lambda>q. pb_next (pbufs s q))" by (auto simp: s')
  have a: "all_ptrs s' R = all_ptrs s R" by (simp add: all_ptrs_def s'(1,2) c n)
  show ?thesis using I p unfolding refs_inv_def a all_ptrs_add s'(1) by (auto simp: s'(3))
qed

text \<open>
  A count reaches zero: the header is dead, and its pointers now belong to whoever took it apart.
\<close>

lemma refs_inv_drop:
  assumes I: "refs_inv s (add_mset p R)" and p: "p \<in> alive s" "pb_ref (pbufs s p) = 1"
    and s': "alive s' = alive s - {p}" "frag_original s' = frag_original s"
      "\<And>q. q \<noteq> p \<Longrightarrow> pbufs s' q = pbufs s q"
  shows "refs_inv s' (add_mset (pb_next (pbufs s p)) (if is_custom (pbufs s p) then add_mset (frag_original s p) R else R))"
    (is "refs_inv s' ?R")
proof -
  note D = refs_invD [OF I]
  have old: "pbufs s' q = pbufs s q" if "q \<in> alive s'" for q by (rule s'(3)) (use s'(1) that in auto)
  have al: "mset_set (alive s) = add_mset p (mset_set (alive s'))"
    using mset_set.remove [OF D(1) p(1)] s'(1) by simp
  have n: "image_mset (\<lambda>q. pb_next (pbufs s' q)) (mset_set (alive s')) = image_mset (\<lambda>q. pb_next (pbufs s q)) (mset_set (alive s'))"
    using old D(1) s'(1) by (intro image_mset_cong) auto
  have c: "customs s = (if is_custom (pbufs s p) then insert p (customs s') else customs s')" "p \<notin> customs s'" "finite (customs s')"
  proof -
    have "x \<in> customs s' \<longleftrightarrow> x \<in> customs s - {p}" for x
      using old [of x] s'(1) by (cases "x \<in> alive s'") (auto simp: customs_def)
    then have cs: "customs s' = customs s - {p}" by blast
    have "p \<in> customs s \<longleftrightarrow> is_custom (pbufs s p)" using p(1) by (simp add: customs_def)
    then show "customs s = (if is_custom (pbufs s p) then insert p (customs s') else customs s')" unfolding cs by auto
    show "p \<notin> customs s'" "finite (customs s')" using cs D(1) by (auto simp: customs_def)
  qed
  have cm: "mset_set (customs s) = (if is_custom (pbufs s p) then add_mset p (mset_set (customs s')) else mset_set (customs s'))"
    using c by simp
  have a: "all_ptrs s (add_mset p R) = add_mset p (all_ptrs s' ?R)"
    by (simp add: all_ptrs_def s'(2) n al cm)
  have pz: "count (all_ptrs s' ?R) p = 0" using D(5) [OF p(1)] p(2) a by simp
  show ?thesis unfolding refs_inv_def
  proof (intro conjI ballI)
    show "finite (alive s')" "NULL \<notin> alive s'" using D(1,2) s'(1) by auto
  next
    fix q assume q: "q \<in> alive s'"
    then have "q \<noteq> p" "q \<in> alive s" using s'(1) by auto
    then show "0 < pb_ref (pbufs s' q)" "pb_ref (pbufs s' q) < 65536" "pb_ref (pbufs s' q) = count (all_ptrs s' ?R) q"
      using D(3-5) [of q] a old [OF q] by auto
  next
    fix q assume q: "q \<in># all_ptrs s' ?R"
    then have "q \<noteq> p" using pz by (metis count_eq_zero_iff)
    then show "q = NULL \<or> q \<in> alive s'" using D(6) [of q] q a s'(1) by auto
  qed
qed

text \<open>A new header, with no pointers to it but the one the caller gets.\<close>

lemma refs_inv_new:
  assumes I: "refs_inv s R" and p: "p \<notin> alive s" "p \<noteq> NULL"
    and s': "alive s' = insert p (alive s)" "frag_original s' = frag_original s"
      "\<And>q. q \<noteq> p \<Longrightarrow> pbufs s' q = pbufs s q"
      "pb_next (pbufs s' p) = NULL" "pb_ref (pbufs s' p) = 1" "\<not> is_custom (pbufs s' p)"
  shows "refs_inv s' (add_mset p R)"
proof -
  note D = refs_invD [OF I]
  have old: "pbufs s' q = pbufs s q" if "q \<in> alive s" for q by (rule s'(3)) (use p(1) that in auto)
  then have c: "customs s' = customs s" using s'(1,6) by (auto simp: customs_def)
  have n: "image_mset (\<lambda>q. pb_next (pbufs s' q)) (mset_set (alive s)) = image_mset (\<lambda>q. pb_next (pbufs s q)) (mset_set (alive s))"
    using old D(1) by (intro image_mset_cong) auto
  have a: "all_ptrs s' (add_mset p R) = add_mset p (add_mset NULL (all_ptrs s R))"
    using D(1) p(1) by (simp add: all_ptrs_def s' c n)
  have pz: "count (all_ptrs s R) p = 0" using D(6) [of p] p by (metis count_inI)
  show ?thesis unfolding refs_inv_def a s'(1)
  proof (intro conjI ballI)
    fix q assume q: "q \<in> insert p (alive s)"
    show "0 < pb_ref (pbufs s' q)" "pb_ref (pbufs s' q) < 65536"
      "pb_ref (pbufs s' q) = count (add_mset p (add_mset NULL (all_ptrs s R))) q"
      using q D(2) D(3-5) [of q] old [of q] pz p s'(5) by auto
  qed (use D(1,2,6) p in auto)
qed

subsection \<open>Where the headers live\<close>

text \<open>The pool a header belongs to; \<open>None\<close> is the heap.\<close>

definition pool_of :: "pbuf \<Rightarrow> memp_t option" where
  "pool_of b = (if is_custom b then Some MEMP_FRAG_PBUF
     else case pb_type b of PBUF_POOL \<Rightarrow> Some MEMP_PBUF_POOL | PBUF_RAM \<Rightarrow> None | _ \<Rightarrow> Some MEMP_PBUF)"

definition pbuf_block :: "net \<Rightarrow> ptr \<Rightarrow> nat \<Rightarrow> bool" where
  "pbuf_block s p k = (case pool_of (pbufs s p) of
     Some t \<Rightarrow> (p, t, k) \<in> memp_live (pools s) | None \<Rightarrow> (p, k) \<in> mem_live (heap s))"

text \<open>A header lies in a block of its allocator, and a payload of its own lies behind it in the block.\<close>

definition pbuf_placed :: "net \<Rightarrow> ptr \<Rightarrow> bool" where
  "pbuf_placed s p \<longleftrightarrow> (\<exists>k. pbuf_block s p k \<and>
     (pool_of (pbufs s p) = None \<or> pool_of (pbufs s p) = Some MEMP_PBUF_POOL \<longrightarrow>
        p + SIZEOF_STRUCT_PBUF \<le> payload (pbufs s p) \<and> payload (pbufs s p) + pb_len (pbufs s p) \<le> p + k))"

definition separated :: "mem_heap \<Rightarrow> memp_state \<Rightarrow> bool" where
  "separated H pl \<longleftrightarrow> (\<forall>t. \<forall>p\<in>memp_elems pl t. p + memp_sizes pl t \<le> ram H \<or> ram H + ram_end \<le> p)"

definition store_inv :: "net \<Rightarrow> bool" where
  "store_inv s \<longleftrightarrow> mem_inv (heap s) \<and> memp_inv (pools s) \<and> separated (heap s) (pools s) \<and>
     memp_sizes (pools s) MEMP_PBUF_POOL = SIZEOF_STRUCT_PBUF + PBUF_POOL_BUFSIZE_ALIGNED \<and>
     (\<forall>p\<in>alive s. pbuf_placed s p) \<and>
     (\<forall>p t k. (p, t, k) \<in> memp_live (pools s) \<longrightarrow> t = MEMP_PBUF \<or> t = MEMP_PBUF_POOL \<longrightarrow>
        p \<in> alive s \<and> pool_of (pbufs s p) = Some t) \<and>
     (\<forall>p\<in>memp_elems (pools s) MEMP_PBUF_POOL. \<not> is_custom (pbufs s p))"

definition net_inv :: "net \<Rightarrow> ptr multiset \<Rightarrow> bool" where
  "net_inv s R \<longleftrightarrow> refs_inv s R \<and> store_inv s"

lemma store_invD:
  assumes "store_inv s"
  shows "mem_inv (heap s)" "memp_inv (pools s)" "separated (heap s) (pools s)"
    "memp_sizes (pools s) MEMP_PBUF_POOL = SIZEOF_STRUCT_PBUF + PBUF_POOL_BUFSIZE_ALIGNED"
    "\<And>p. p \<in> alive s \<Longrightarrow> pbuf_placed s p"
    "\<And>p t k. (p, t, k) \<in> memp_live (pools s) \<Longrightarrow> t = MEMP_PBUF \<or> t = MEMP_PBUF_POOL \<Longrightarrow>
        p \<in> alive s \<and> pool_of (pbufs s p) = Some t"
    "\<And>p. p \<in> memp_elems (pools s) MEMP_PBUF_POOL \<Longrightarrow> \<not> is_custom (pbufs s p)"
  using assms unfolding store_inv_def by blast+

text \<open>The static data of the pools never changes.\<close>

lemma memp_free_static [simp]:
  "memp_memory (memp_free t p s) = memp_memory s" "memp_sizes (memp_free t p s) = memp_sizes s"
  by (simp_all add: memp_free_def)

lemma memp_malloc_static [simp]:
  "memp_memory (fst (memp_malloc t s)) = memp_memory s" "memp_sizes (fst (memp_malloc t s)) = memp_sizes s"
  by (simp_all add: memp_malloc_def Let_def)

lemma memp_elems_cong: "memp_memory s' = memp_memory s \<Longrightarrow> memp_sizes s' = memp_sizes s \<Longrightarrow> memp_elems s' t = memp_elems s t"
  by (simp add: memp_base_def)

lemma separated_cong:
  "ram H' = ram H \<Longrightarrow> memp_memory pl' = memp_memory pl \<Longrightarrow> memp_sizes pl' = memp_sizes pl \<Longrightarrow>
   separated H' pl' = separated H pl"
  by (simp add: separated_def memp_base_def)

lemma placed_cong:
  assumes "pbufs s' p = pbufs s p" "\<And>k. (p, k) \<in> mem_live (heap s') \<longleftrightarrow> (p, k) \<in> mem_live (heap s)"
    "\<And>t k. (p, t, k) \<in> memp_live (pools s') \<longleftrightarrow> (p, t, k) \<in> memp_live (pools s)"
  shows "pbuf_placed s' p = pbuf_placed s p"
  using assms by (simp add: pbuf_placed_def pbuf_block_def split: option.split)

lemma memp_live_unique:
  "memp_inv s \<Longrightarrow> (p, t, k) \<in> memp_live s \<Longrightarrow> (p, u, l) \<in> memp_live s \<Longrightarrow> t = u \<and> k = l"
  using memp_elems_unique [of s p t u] by (auto simp: memp_live_iff)

lemma mem_live_unique: "mem_inv H \<Longrightarrow> (p, k) \<in> mem_live H \<Longrightarrow> (p, l) \<in> mem_live H \<Longrightarrow> k = l"
  using mem_live_disjoint [of H p k p l] mem_live_region(5) [of H p k] mem_live_region(5) [of H p l] by fastforce

text \<open>An element of a pool is not a block of the heap.\<close>

lemma pool_not_heap:
  assumes "store_inv s" "p \<in> memp_elems (pools s) t"
  shows "(p, k) \<notin> mem_live (heap s)"
proof
  assume l: "(p, k) \<in> mem_live (heap s)"
  note D = store_invD [OF assms(1)]
  have "4 \<le> memp_sizes (pools s) t" using memp_invD(1) [OF D(2) memp_elems_type [OF assms(2)]] .
  moreover have "ram (heap s) + 8 \<le> p" "p + k \<le> ram (heap s) + ram_end" "12 \<le> k"
    using mem_live_region [OF D(1) l] by auto
  ultimately show False using D(3) assms(2) unfolding separated_def by fastforce
qed

lemma placed_block: "pbuf_placed s p \<Longrightarrow> \<exists>k. pbuf_block s p k"
  by (auto simp: pbuf_placed_def)

lemma store_release_pool:
  assumes I: "store_inv s" and p: "p \<in> alive s" "pool_of (pbufs s p) = Some t"
    and s': "alive s' = alive s - {p}" "pools s' = memp_free t p (pools s)" "heap s' = heap s"
      "\<And>q. q \<noteq> p \<Longrightarrow> pbufs s' q = pbufs s q" "is_custom (pbufs s' p) = is_custom (pbufs s p)"
  shows "store_inv s'" "\<And>q u k. q \<noteq> p \<Longrightarrow> (q, u, k) \<in> memp_live (pools s') \<longleftrightarrow> (q, u, k) \<in> memp_live (pools s)"
proof -
  note D = store_invD [OF I]
  obtain k where k: "(p, t, k) \<in> memp_live (pools s)"
    using placed_block [OF D(5) [OF p(1)]] p(2) by (auto simp: pbuf_block_def)
  note F = memp_free_live [OF D(2) k, folded s'(2)]
  show live: "\<And>q u k. q \<noteq> p \<Longrightarrow> (q, u, k) \<in> memp_live (pools s') \<longleftrightarrow> (q, u, k) \<in> memp_live (pools s)"
    using F(2) by auto
  have el: "memp_elems (pools s') u = memp_elems (pools s) u" for u by (rule memp_elems_cong) (simp_all add: s'(2))
  show "store_inv s'" unfolding store_inv_def el
  proof (intro conjI ballI allI impI)
    show "mem_inv (heap s')" "memp_inv (pools s')" using D(1) F(1) s'(3) by auto
    show "separated (heap s') (pools s')" using D(3) separated_cong [of "heap s'" "heap s" "pools s'" "pools s"] by (simp add: s')
    show "memp_sizes (pools s') MEMP_PBUF_POOL = SIZEOF_STRUCT_PBUF + PBUF_POOL_BUFSIZE_ALIGNED" using D(4) by (simp add: s'(2))
  next
    fix q assume "q \<in> alive s'"
    then have q: "q \<noteq> p" "q \<in> alive s" using s'(1) by auto
    have "pbuf_placed s' q = pbuf_placed s q"
      by (rule placed_cong) (simp_all add: s'(3,4) q(1) live)
    then show "pbuf_placed s' q" using D(5) [OF q(2)] by simp
  next
    fix q u l assume l: "(q, u, l) \<in> memp_live (pools s')" "u = MEMP_PBUF \<or> u = MEMP_PBUF_POOL"
    have q: "q \<noteq> p" using l(1) F(2) memp_live_unique [OF D(2) k] by auto
    then show "q \<in> alive s'" "pool_of (pbufs s' q) = Some u" using D(6) [of q u l] l live [OF q] s'(1,4) by auto
  next
    fix q assume "q \<in> memp_elems (pools s) MEMP_PBUF_POOL"
    then show "\<not> is_custom (pbufs s' q)" using D(7) [of q] s'(4,5) by (cases "q = p") auto
  qed
qed

lemma store_release_heap:
  assumes I: "store_inv s" and p: "p \<in> alive s" "pool_of (pbufs s p) = None"
    and s': "alive s' = alive s - {p}" "heap s' = mem_free p (heap s)" "pools s' = pools s"
      "\<And>q. q \<noteq> p \<Longrightarrow> pbufs s' q = pbufs s q" "is_custom (pbufs s' p) = is_custom (pbufs s p)"
  shows "store_inv s'" "\<And>q k. q \<noteq> p \<Longrightarrow> (q, k) \<in> mem_live (heap s') \<longleftrightarrow> (q, k) \<in> mem_live (heap s)"
    "ram (heap s') = ram (heap s)"
proof -
  note D = store_invD [OF I]
  obtain k where k: "(p, k) \<in> mem_live (heap s)"
    using placed_block [OF D(5) [OF p(1)]] p(2) by (auto simp: pbuf_block_def)
  note F = mem_free_live [OF D(1) k, folded s'(2)]
  show live: "\<And>q k. q \<noteq> p \<Longrightarrow> (q, k) \<in> mem_live (heap s') \<longleftrightarrow> (q, k) \<in> mem_live (heap s)" using F(2) by auto
  show ram: "ram (heap s') = ram (heap s)" by (rule F(3))
  show "store_inv s'" unfolding store_inv_def s'(3)
  proof (intro conjI ballI allI impI)
    show "mem_inv (heap s')" "memp_inv (pools s)" using D(2) F(1) by auto
    show "separated (heap s') (pools s)" using D(3) separated_cong [OF ram refl refl] by simp
    show "memp_sizes (pools s) MEMP_PBUF_POOL = SIZEOF_STRUCT_PBUF + PBUF_POOL_BUFSIZE_ALIGNED" by (rule D(4))
  next
    fix q assume "q \<in> alive s'"
    then have q: "q \<noteq> p" "q \<in> alive s" using s'(1) by auto
    have "pbuf_placed s' q = pbuf_placed s q"
      by (rule placed_cong) (simp_all add: s'(3,4) q(1) live)
    then show "pbuf_placed s' q" using D(5) [OF q(2)] by simp
  next
    fix q u l assume l: "(q, u, l) \<in> memp_live (pools s)" "u = MEMP_PBUF \<or> u = MEMP_PBUF_POOL"
    then have "q \<noteq> p" using D(6) [OF l] p(2) by auto
    then show "q \<in> alive s'" "pool_of (pbufs s' q) = Some u" using D(6) [OF l] s'(1,4) by auto
  next
    fix q assume "q \<in> memp_elems (pools s) MEMP_PBUF_POOL"
    then show "\<not> is_custom (pbufs s' q)" using D(7) [of q] s'(4,5) by (cases "q = p") auto
  qed
qed

text \<open>A custom pbuf dies before its memory goes back, and its memory goes back afterwards.\<close>

lemma store_drop_custom:
  assumes I: "store_inv s" and p: "p \<in> alive s" "pool_of (pbufs s p) = Some MEMP_FRAG_PBUF"
    and s': "alive s' = alive s - {p}" "heap s' = heap s" "pools s' = pools s"
      "\<And>q. q \<noteq> p \<Longrightarrow> pbufs s' q = pbufs s q" "is_custom (pbufs s' p) = is_custom (pbufs s p)"
  shows "store_inv s'"
proof -
  note D = store_invD [OF I]
  show ?thesis unfolding store_inv_def s'(2,3)
  proof (intro conjI ballI allI impI)
    fix q assume "q \<in> alive s'"
    then have q: "q \<noteq> p" "q \<in> alive s" using s'(1) by auto
    have "pbuf_placed s' q = pbuf_placed s q"
      by (rule placed_cong) (simp_all add: s'(2-4) q(1))
    then show "pbuf_placed s' q" using D(5) [OF q(2)] by simp
  next
    fix q u l assume l: "(q, u, l) \<in> memp_live (pools s)" "u = MEMP_PBUF \<or> u = MEMP_PBUF_POOL"
    then have "q \<noteq> p" using D(6) [OF l] p(2) by auto
    then show "q \<in> alive s'" "pool_of (pbufs s' q) = Some u" using D(6) [OF l] s'(1,4) by auto
  next
    fix q assume "q \<in> memp_elems (pools s) MEMP_PBUF_POOL"
    then show "\<not> is_custom (pbufs s' q)" using D(7) [of q] s'(4,5) by (cases "q = p") auto
  qed (use D in auto)
qed

lemma store_free_frag:
  assumes I: "store_inv s" and p: "p \<notin> alive s" "(p, MEMP_FRAG_PBUF, k) \<in> memp_live (pools s)"
  defines "s' \<equiv> ip_frag_free_pbuf_custom_ref p s"
  shows "store_inv s'" "\<And>q u k. q \<noteq> p \<Longrightarrow> (q, u, k) \<in> memp_live (pools s') \<longleftrightarrow> (q, u, k) \<in> memp_live (pools s)"
proof -
  have s': "alive s' = alive s" "pools s' = memp_free MEMP_FRAG_PBUF p (pools s)" "heap s' = heap s" "pbufs s' = pbufs s"
    by (simp_all add: s'_def ip_frag_free_pbuf_custom_ref_def)
  note D = store_invD [OF I]
  note F = memp_free_live [OF D(2) p(2), folded s'(2)]
  show live: "\<And>q u k. q \<noteq> p \<Longrightarrow> (q, u, k) \<in> memp_live (pools s') \<longleftrightarrow> (q, u, k) \<in> memp_live (pools s)"
    using F(2) by auto
  have el: "memp_elems (pools s') u = memp_elems (pools s) u" for u by (rule memp_elems_cong) (simp_all add: s'(2))
  show "store_inv s'" unfolding store_inv_def el s'(1,3,4)
  proof (intro conjI ballI allI impI)
    show "memp_inv (pools s')" by (rule F(1))
    show "separated (heap s) (pools s')" using D(3) separated_cong [of "heap s" "heap s" "pools s'" "pools s"] by (simp add: s')
    show "memp_sizes (pools s') MEMP_PBUF_POOL = SIZEOF_STRUCT_PBUF + PBUF_POOL_BUFSIZE_ALIGNED" using D(4) by (simp add: s'(2))
  next
    fix q assume q: "q \<in> alive s"
    then have "q \<noteq> p" using p(1) by auto
    then have "pbuf_placed s' q = pbuf_placed s q"
      by (intro placed_cong) (simp_all add: s'(3,4) live)
    then show "pbuf_placed s' q" using D(5) [OF q] by simp
  next
    fix q u l assume l: "(q, u, l) \<in> memp_live (pools s')" "u = MEMP_PBUF \<or> u = MEMP_PBUF_POOL"
    then show "q \<in> alive s" "pool_of (pbufs s q) = Some u" using D(6) [of q u l] F(2) by auto
  qed (use D in auto)
qed

subsection \<open>Release\<close>

text \<open>What a release leaves alone: blocks and headers of others, and every field but the counts.\<close>

definition net_frame :: "net \<Rightarrow> net \<Rightarrow> bool" where
  "net_frame s s' \<longleftrightarrow> alive s' \<subseteq> alive s \<and> ram_bytes s' = ram_bytes s \<and> frag_original s' = frag_original s \<and>
     pbuf_free_ooseq_pending s' = pbuf_free_ooseq_pending s \<and> ram (heap s') = ram (heap s) \<and>
     memp_memory (pools s') = memp_memory (pools s) \<and> memp_sizes (pools s') = memp_sizes (pools s) \<and>
     (\<forall>q. (pbufs s' q)\<lparr>pb_ref := 0\<rparr> = (pbufs s q)\<lparr>pb_ref := 0\<rparr>) \<and>
     (\<forall>q. q \<notin> alive s \<longrightarrow> pbufs s' q = pbufs s q) \<and>
     (\<forall>q t k. q \<notin> alive s \<longrightarrow> (q, t, k) \<in> memp_live (pools s') \<longleftrightarrow> (q, t, k) \<in> memp_live (pools s)) \<and>
     (\<forall>q k. q \<notin> alive s \<longrightarrow> (q, k) \<in> mem_live (heap s') \<longleftrightarrow> (q, k) \<in> mem_live (heap s))"

lemma net_frameD:
  assumes "net_frame s s'"
  shows "alive s' \<subseteq> alive s" "ram_bytes s' = ram_bytes s" "frag_original s' = frag_original s"
    "pbuf_free_ooseq_pending s' = pbuf_free_ooseq_pending s" "ram (heap s') = ram (heap s)"
    "memp_memory (pools s') = memp_memory (pools s)" "memp_sizes (pools s') = memp_sizes (pools s)"
    "\<And>q. (pbufs s' q)\<lparr>pb_ref := 0\<rparr> = (pbufs s q)\<lparr>pb_ref := 0\<rparr>" "\<And>q. q \<notin> alive s \<Longrightarrow> pbufs s' q = pbufs s q"
    "\<And>q t k. q \<notin> alive s \<Longrightarrow> (q, t, k) \<in> memp_live (pools s') \<longleftrightarrow> (q, t, k) \<in> memp_live (pools s)"
    "\<And>q k. q \<notin> alive s \<Longrightarrow> (q, k) \<in> mem_live (heap s') \<longleftrightarrow> (q, k) \<in> mem_live (heap s)"
  using assms unfolding net_frame_def by blast+

lemma net_frame_refl [simp]: "net_frame s s"
  by (simp add: net_frame_def)

text \<open>A step that only takes the header at \<open>p\<close> away.\<close>

lemma net_frame_drop:
  assumes "p \<in> alive s" "alive s' \<subseteq> alive s" "ram_bytes s' = ram_bytes s" "frag_original s' = frag_original s"
    "pbuf_free_ooseq_pending s' = pbuf_free_ooseq_pending s" "ram (heap s') = ram (heap s)"
    "memp_memory (pools s') = memp_memory (pools s)" "memp_sizes (pools s') = memp_sizes (pools s)"
    "\<And>q. (pbufs s' q)\<lparr>pb_ref := 0\<rparr> = (pbufs s q)\<lparr>pb_ref := 0\<rparr>" "\<And>q. q \<noteq> p \<Longrightarrow> pbufs s' q = pbufs s q"
    "\<And>q t k. q \<noteq> p \<Longrightarrow> (q, t, k) \<in> memp_live (pools s') \<longleftrightarrow> (q, t, k) \<in> memp_live (pools s)"
    "\<And>q k. q \<noteq> p \<Longrightarrow> (q, k) \<in> mem_live (heap s') \<longleftrightarrow> (q, k) \<in> mem_live (heap s)"
  shows "net_frame s s'"
proof -
  have ne: "q \<noteq> p" if "q \<notin> alive s" for q using assms(1) that by blast
  show ?thesis unfolding net_frame_def
    using assms(2-9) assms(10-12) [OF ne] by (intro conjI allI impI) simp_all
qed

lemma net_frame_trans:
  assumes "net_frame s s'" "net_frame s' s''"
  shows "net_frame s s''"
proof -
  note A = net_frameD [OF assms(1)] and B = net_frameD [OF assms(2)]
  have sub: "q \<notin> alive s'" if "q \<notin> alive s" for q using A(1) that by blast
  show ?thesis unfolding net_frame_def
  proof (intro conjI allI impI)
    fix q show "(pbufs s'' q)\<lparr>pb_ref := 0\<rparr> = (pbufs s q)\<lparr>pb_ref := 0\<rparr>" using A(8) [of q] B(8) [of q] by simp
  next
    fix q assume q: "q \<notin> alive s"
    then show "pbufs s'' q = pbufs s q" using A(9) [OF q] B(9) [OF sub [OF q]] by simp
  next
    fix q t k assume q: "q \<notin> alive s"
    show "(q, t, k) \<in> memp_live (pools s'') \<longleftrightarrow> (q, t, k) \<in> memp_live (pools s)"
      using A(10) [OF q] B(10) [OF sub [OF q]] by simp
  next
    fix q k assume q: "q \<notin> alive s"
    show "(q, k) \<in> mem_live (heap s'') \<longleftrightarrow> (q, k) \<in> mem_live (heap s)"
      using A(11) [OF q] B(11) [OF sub [OF q]] by simp
  qed (use A B in auto)
qed

lemma net_frame_fields:
  assumes "net_frame s s'"
  shows "pb_next (pbufs s' q) = pb_next (pbufs s q)" "payload (pbufs s' q) = payload (pbufs s q)"
    "tot_len (pbufs s' q) = tot_len (pbufs s q)" "pb_len (pbufs s' q) = pb_len (pbufs s q)"
    "pb_type (pbufs s' q) = pb_type (pbufs s q)" "pb_flags (pbufs s' q) = pb_flags (pbufs s q)"
    "is_custom (pbufs s' q) = is_custom (pbufs s q)" "pool_of (pbufs s' q) = pool_of (pbufs s q)"
proof -
  have e: "(pbufs s' q)\<lparr>pb_ref := 0\<rparr> = (pbufs s q)\<lparr>pb_ref := 0\<rparr>" using net_frameD(8) [OF assms] .
  show a: "pb_next (pbufs s' q) = pb_next (pbufs s q)" "payload (pbufs s' q) = payload (pbufs s q)"
    "tot_len (pbufs s' q) = tot_len (pbufs s q)" "pb_len (pbufs s' q) = pb_len (pbufs s q)"
    "pb_type (pbufs s' q) = pb_type (pbufs s q)" "pb_flags (pbufs s' q) = pb_flags (pbufs s q)"
    using arg_cong [OF e, of pb_next] arg_cong [OF e, of payload] arg_cong [OF e, of tot_len]
      arg_cong [OF e, of pb_len] arg_cong [OF e, of pb_type] arg_cong [OF e, of pb_flags] by simp_all
  then show "is_custom (pbufs s' q) = is_custom (pbufs s q)" "pool_of (pbufs s' q) = pool_of (pbufs s q)"
    by (simp_all add: is_custom_def pool_of_def)
qed

text \<open>The state in which the header at \<open>p\<close> is dead.\<close>

definition drop_hdr :: "ptr \<Rightarrow> net \<Rightarrow> net" where
  "drop_hdr p s = (upd_pbuf p (\<lambda>b. b\<lparr>pb_ref := 0\<rparr>) s)\<lparr>alive := alive s - {p}\<rparr>"

lemma drop_hdr_fields [simp]:
  "alive (drop_hdr p s) = alive s - {p}" "heap (drop_hdr p s) = heap s" "pools (drop_hdr p s) = pools s"
  "frag_original (drop_hdr p s) = frag_original s" "ram_bytes (drop_hdr p s) = ram_bytes s"
  "pbuf_free_ooseq_pending (drop_hdr p s) = pbuf_free_ooseq_pending s"
  "pbufs (drop_hdr p s) q = (if q = p then (pbufs s p)\<lparr>pb_ref := 0\<rparr> else pbufs s q)"
  by (simp_all add: drop_hdr_def upd_pbuf_def)

lemma release_fields [simp]:
  "alive (pbuf_release p t s) = alive s" "pbufs (pbuf_release p t s) = pbufs s"
  "frag_original (pbuf_release p t s) = frag_original s" "ram_bytes (pbuf_release p t s) = ram_bytes s"
  "pbuf_free_ooseq_pending (pbuf_release p t s) = pbuf_free_ooseq_pending s"
  by (simp_all add: pbuf_release_def)

lemma custom_ref [simp]: "is_custom (b\<lparr>pb_ref := n\<rparr>) = is_custom b" "pool_of (b\<lparr>pb_ref := n\<rparr>) = pool_of b"
  by (simp_all add: is_custom_def pool_of_def)

lemma drop_refs:
  assumes "refs_inv s (add_mset p R)" "p \<in> alive s" "pb_ref (pbufs s p) = 1"
  shows "refs_inv (drop_hdr p s)
    (add_mset (pb_next (pbufs s p)) (if is_custom (pbufs s p) then add_mset (frag_original s p) R else R))"
  by (rule refs_inv_drop [OF assms]) simp_all

lemma release_plain:
  assumes I: "store_inv s" and p: "p \<in> alive s" "\<not> is_custom (pbufs s p)"
  defines "s' \<equiv> pbuf_release p (pb_type (pbufs s p)) (drop_hdr p s)"
  shows "store_inv s'" "net_frame s s'"
proof -
  let ?t = "pb_type (pbufs s p)"
  have base: "alive s' = alive s - {p}" "\<And>q. q \<noteq> p \<Longrightarrow> pbufs s' q = pbufs s q"
    "is_custom (pbufs s' p) = is_custom (pbufs s p)" "frag_original s' = frag_original s" "ram_bytes s' = ram_bytes s"
    "pbuf_free_ooseq_pending s' = pbuf_free_ooseq_pending s" "\<And>q. (pbufs s' q)\<lparr>pb_ref := 0\<rparr> = (pbufs s q)\<lparr>pb_ref := 0\<rparr>"
    by (simp_all add: s'_def)
  consider t where "pool_of (pbufs s p) = Some t" "pools s' = memp_free t p (pools s)" "heap s' = heap s"
    | "pool_of (pbufs s p) = None" "pools s' = pools s" "heap s' = mem_free p (heap s)"
    using p(2) by (cases ?t) (auto simp: pool_of_def s'_def pbuf_release_def)
  then have "store_inv s' \<and> net_frame s s'"
  proof cases
    case 1
    note S = store_release_pool [OF I p(1) 1(1) base(1) 1(2,3) base(2,3)]
    have "net_frame s s'"
      by (rule net_frame_drop [OF p(1)]) (use base(1,4-7) in \<open>auto simp: 1(2,3) base(2) S(2) [unfolded 1(2)]\<close>)
    then show ?thesis using S(1) by simp
  next
    case 2
    note S = store_release_heap [OF I p(1) 2(1) base(1) 2(3,2) base(2,3)]
    have "net_frame s s'"
      by (rule net_frame_drop [OF p(1)]) (use base(1,4-7) S(3) in \<open>auto simp: 2(2) base(2) S(2)\<close>)
    then show ?thesis using S(1) by simp
  qed
  then show "store_inv s'" "net_frame s s'" by auto
qed

lemma store_inv_cong:
  assumes "heap s' = heap s" "pools s' = pools s" "alive s' = alive s"
    "\<And>q. pool_of (pbufs s' q) = pool_of (pbufs s q)" "\<And>q. is_custom (pbufs s' q) = is_custom (pbufs s q)"
    "\<And>q. payload (pbufs s' q) = payload (pbufs s q)" "\<And>q. pb_len (pbufs s' q) = pb_len (pbufs s q)"
  shows "store_inv s' = store_inv s"
proof -
  have "pbuf_block s' q k = pbuf_block s q k" for q k
    by (cases "pool_of (pbufs s q)") (simp_all add: pbuf_block_def assms)
  then have "pbuf_placed s' q = pbuf_placed s q" for q by (simp add: pbuf_placed_def assms)
  then show ?thesis by (simp add: store_inv_def assms)
qed

lemma store_inv_ref: "store_inv (upd_pbuf p (\<lambda>b. b\<lparr>pb_ref := n\<rparr>) s) = store_inv s"
  by (rule store_inv_cong) (simp_all add: upd_pbuf_def)

lemma release_custom:
  assumes I: "store_inv s" and p: "p \<in> alive s" "is_custom (pbufs s p)"
  shows "store_inv (drop_hdr p s)" "net_frame s (drop_hdr p s)" "\<exists>k. (p, MEMP_FRAG_PBUF, k) \<in> memp_live (pools s)"
proof -
  have t: "pool_of (pbufs s p) = Some MEMP_FRAG_PBUF" using p(2) by (simp add: pool_of_def)
  show "store_inv (drop_hdr p s)" by (rule store_drop_custom [OF I p(1) t]) simp_all
  show "net_frame s (drop_hdr p s)" by (rule net_frame_drop [OF p(1)]) simp_all
  show "\<exists>k. (p, MEMP_FRAG_PBUF, k) \<in> memp_live (pools s)"
    using placed_block [OF store_invD(5) [OF I p(1)]] t by (simp add: pbuf_block_def)
qed

lemma free_frag_spec:
  assumes I: "net_inv s' R" and F: "net_frame s s'" and p: "p \<in> alive s" "p \<notin> alive s'"
    and k: "(p, MEMP_FRAG_PBUF, k) \<in> memp_live (pools s')"
  shows "net_inv (ip_frag_free_pbuf_custom_ref p s') R" "net_frame s (ip_frag_free_pbuf_custom_ref p s')"
    "alive (ip_frag_free_pbuf_custom_ref p s') = alive s'"
proof -
  let ?s = "ip_frag_free_pbuf_custom_ref p s'"
  have f: "alive ?s = alive s'" "pbufs ?s = pbufs s'" "heap ?s = heap s'" "frag_original ?s = frag_original s'"
    "ram_bytes ?s = ram_bytes s'" "pbuf_free_ooseq_pending ?s = pbuf_free_ooseq_pending s'"
    "memp_memory (pools ?s) = memp_memory (pools s')" "memp_sizes (pools ?s) = memp_sizes (pools s')"
    by (simp_all add: ip_frag_free_pbuf_custom_ref_def)
  have st: "store_inv s'" "refs_inv s' R" using I by (auto simp: net_inv_def)
  note S = store_free_frag [OF st(1) p(2) k]
  have "refs_inv ?s R = refs_inv s' R" by (rule refs_inv_cong) (simp_all add: f)
  then show "net_inv ?s R" using S(1) st by (simp add: net_inv_def)
  note D = net_frameD [OF F]
  have ne: "q \<noteq> p" if "q \<notin> alive s" for q using p(1) that by blast
  show "net_frame s ?s" unfolding net_frame_def
    using D(1-8) D(9-11) S(2) [OF ne] by (intro conjI allI impI) (simp_all add: f)
  show "alive ?s = alive s'" by (rule f(1))
qed

lemma pbuf_free_loop_unfold:
  assumes "p \<in> alive s" "p \<noteq> NULL" "0 < pb_ref (pbufs s p)" "pb_ref (pbufs s p) < 65536"
  shows "pbuf_free_loop p c s =
    (if pb_ref (pbufs s p) = 1 then
       if is_custom (pbufs s p) then
         Option.bind
           (if frag_original s p \<noteq> NULL then pbuf_free_loop (frag_original s p) 0 (drop_hdr p s) else Some (drop_hdr p s, 0))
           (\<lambda>r. pbuf_free_loop (pb_next (pbufs s p)) (to_u8 (c + 1)) (ip_frag_free_pbuf_custom_ref p (fst r)))
       else pbuf_free_loop (pb_next (pbufs s p)) (to_u8 (c + 1)) (pbuf_release p (pb_type (pbufs s p)) (drop_hdr p s))
     else Some (upd_pbuf p (\<lambda>b. b\<lparr>pb_ref := pb_ref b - 1\<rparr>) s, c))"
proof -
  have r: "usub 16 (pb_ref (pbufs s p)) 1 = pb_ref (pbufs s p) - 1" using assms(3,4) by (intro usub_le) auto
  let ?f = "\<lambda>n. upd_pbuf p (\<lambda>b. b\<lparr>pb_ref := n\<rparr>) s"
  have g: "get_pbuf p s = Some (pbufs s p)" using assms(1) by (simp add: get_pbuf_def)
  have u: "?f (pb_ref (pbufs s p) - 1) = upd_pbuf p (\<lambda>b. b\<lparr>pb_ref := pb_ref b - 1\<rparr>) s"
    by (simp add: upd_pbuf_def)
  have a: "(?f 0)\<lparr>alive := alive (?f 0) - {p}\<rparr> = drop_hdr p s" by (simp add: drop_hdr_def upd_pbuf_def)
  show ?thesis
  proof (cases "pb_ref (pbufs s p) = 1")
    case True
    then have "usub 16 (pb_ref (pbufs s p)) 1 = 0" using r by simp
    then show ?thesis by (subst pbuf_free_loop.simps)
      (simp only: assms(2) if_False option.case g Let_def a refl if_True drop_hdr_fields True)
  next
    case False
    then have "usub 16 (pb_ref (pbufs s p)) 1 \<noteq> 0" using r assms(3) by simp
    then show ?thesis by (subst pbuf_free_loop.simps)
      (simp only: assms(2) if_False option.case g Let_def False r u)
  qed
qed

text \<open>What freeing one reference to \<open>p\<close> promises.\<close>

definition frees :: "ptr \<Rightarrow> nat \<Rightarrow> net \<Rightarrow> ptr multiset \<Rightarrow> bool" where
  "frees p c s R \<longleftrightarrow> (\<exists>s' n. pbuf_free_loop p c s = Some (s', n) \<and> net_inv s' R \<and> net_frame s s')"

lemma frees_after:
  assumes "frees q c' s1 R" "net_frame s s1" "pbuf_free_loop p c s = pbuf_free_loop q c' s1"
  shows "frees p c s R"
  using assms net_frame_trans unfolding frees_def by metis

lemma frees_shared:
  assumes "net_inv s (add_mset p R)" "p \<in> alive s" "pb_ref (pbufs s p) \<noteq> 1"
    "pbuf_free_loop p c s = Some (upd_pbuf p (\<lambda>b. b\<lparr>pb_ref := pb_ref b - 1\<rparr>) s, c)"
  shows "frees p c s R"
proof -
  have i: "refs_inv s (add_mset p R)" "store_inv s" using assms(1) by (auto simp: net_inv_def)
  let ?s = "upd_pbuf p (\<lambda>b. b\<lparr>pb_ref := pb_ref (pbufs s p) - 1\<rparr>) s"
  have e: "upd_pbuf p (\<lambda>b. b\<lparr>pb_ref := pb_ref b - 1\<rparr>) s = ?s" by (simp add: upd_pbuf_def)
  have "1 < pb_ref (pbufs s p)" using refs_invD(3) [OF i(1) assms(2)] assms(3) by simp
  then have "refs_inv ?s R" by (rule refs_inv_dec [OF i(1) assms(2)]) (simp_all add: upd_pbuf_def)
  moreover have "store_inv ?s" using i(2) by (simp add: store_inv_ref)
  moreover have "net_frame s ?s" by (rule net_frame_drop [OF assms(2)]) (simp_all add: upd_pbuf_def)
  ultimately show ?thesis unfolding frees_def assms(4) e net_inv_def by blast
qed

lemma frees_all: "net_inv s (add_mset p R) \<Longrightarrow> frees p c s R"
proof (induction "card (alive s)" arbitrary: s p R c rule: less_induct)
  case less
  have i: "refs_inv s (add_mset p R)" "store_inv s" using less.prems by (auto simp: net_inv_def)
  note D = refs_invD [OF i(1)]
  show ?case
  proof (cases "p = NULL")
    case True
    then show ?thesis using less.prems
      by (auto simp: frees_def net_inv_def pbuf_free_loop.simps)
  next
    case False
    then have p: "p \<in> alive s" using refs_inv_root [OF i(1)] by blast
    note U = pbuf_free_loop_unfold [OF p False D(3) [OF p] D(4) [OF p], of c]
    have smaller: "card (alive s') < card (alive s)" if "alive s' \<subseteq> alive s - {p}" for s'
      using that p D(1) by (intro psubset_card_mono) auto
    let ?d = "drop_hdr p s"
    show ?thesis
    proof (cases "pb_ref (pbufs s p) = 1")
      case False
      then show ?thesis using frees_shared [OF less.prems p False] U by simp
    next
      case one: True
      note R' = drop_refs [OF i(1) p one]
      show ?thesis
      proof (cases "is_custom (pbufs s p)")
        case False
        let ?s = "pbuf_release p (pb_type (pbufs s p)) ?d"
        note S = release_plain [OF i(2) p False]
        have "refs_inv ?s (add_mset (pb_next (pbufs s p)) R)"
          using R' False by (subst refs_inv_cong [of _ ?d]) simp_all
        then have "frees (pb_next (pbufs s p)) (to_u8 (c + 1)) ?s R"
          using S(1) by (intro less.hyps smaller) (simp_all add: net_inv_def)
        then show ?thesis by (rule frees_after [OF _ S(2)]) (simp add: U one False)
      next
        case cust: True
        let ?n = "pb_next (pbufs s p)" and ?o = "frag_original s p"
        note C = release_custom [OF i(2) p cust]
        have "net_inv ?d (add_mset ?o (add_mset ?n R))"
          using R' cust C(1) by (simp add: net_inv_def add_mset_commute)
        then have "frees ?o 0 ?d (add_mset ?n R)" by (intro less.hyps smaller) simp_all
        then obtain s3 m where s3: "pbuf_free_loop ?o 0 ?d = Some (s3, m)" "net_inv s3 (add_mset ?n R)" "net_frame ?d s3"
          by (auto simp: frees_def)
        have a3: "alive s3 \<subseteq> alive s - {p}" using net_frameD(1) [OF s3(3)] by simp
        obtain k where "(p, MEMP_FRAG_PBUF, k) \<in> memp_live (pools s)" using C(3) by blast
        then have k: "(p, MEMP_FRAG_PBUF, k) \<in> memp_live (pools s3)" using net_frameD(10) [OF s3(3), of p] by simp
        have p3: "p \<notin> alive s3" using a3 by blast
        note F = free_frag_spec [OF s3(2) net_frame_trans [OF C(2) s3(3)] p p3 k]
        have "frees ?n (to_u8 (c + 1)) (ip_frag_free_pbuf_custom_ref p s3) R"
          using F(1,3) a3 by (intro less.hyps smaller) simp_all
        moreover have "pbuf_free_loop p c s = pbuf_free_loop ?n (to_u8 (c + 1)) (ip_frag_free_pbuf_custom_ref p s3)"
          using s3(1) by (cases "?o = NULL") (simp_all add: U one cust pbuf_free_loop.simps [of NULL])
        ultimately show ?thesis by (rule frees_after [OF _ F(2)])
      qed
    qed
  qed
qed

subsection \<open>Chains\<close>

text \<open>The pbufs of one packet, in order: linked by \<open>next\<close>, each \<open>tot_len\<close> the length from there on.\<close>

definition first_ptr :: "ptr list \<Rightarrow> ptr" where
  "first_ptr qs = (case qs of [] \<Rightarrow> NULL | q # _ \<Rightarrow> q)"

lemma first_ptr_simps [simp]: "first_ptr [] = NULL" "first_ptr (q # qs) = q"
  by (simp_all add: first_ptr_def)

definition chain_len :: "net \<Rightarrow> ptr list \<Rightarrow> nat" where
  "chain_len s qs = (\<Sum>q\<leftarrow>qs. pb_len (pbufs s q))"

lemma chain_len_simps [simp]: "chain_len s [] = 0" "chain_len s (q # qs) = pb_len (pbufs s q) + chain_len s qs"
  "chain_len s (qs @ rs) = chain_len s qs + chain_len s rs"
  by (simp_all add: chain_len_def)

fun packet_to :: "net \<Rightarrow> ptr list \<Rightarrow> ptr \<Rightarrow> nat \<Rightarrow> bool" where
  "packet_to s [] e n \<longleftrightarrow> True"
| "packet_to s (q # qs) e n \<longleftrightarrow> q \<noteq> NULL \<and> q \<in> alive s \<and>
     pb_next (pbufs s q) = (if qs = [] then e else first_ptr qs) \<and>
     tot_len (pbufs s q) = pb_len (pbufs s q) + chain_len s qs + n \<and> packet_to s qs e n"

abbreviation packet :: "net \<Rightarrow> ptr list \<Rightarrow> bool" where
  "packet s qs \<equiv> packet_to s qs NULL 0"

text \<open>The pbufs of one chain, whatever their lengths.\<close>

fun chained :: "net \<Rightarrow> ptr list \<Rightarrow> bool" where
  "chained s [] \<longleftrightarrow> True"
| "chained s (q # qs) \<longleftrightarrow> q \<noteq> NULL \<and> q \<in> alive s \<and> pb_next (pbufs s q) = first_ptr qs \<and> chained s qs"

lemma packet_chained: "packet s qs \<Longrightarrow> chained s qs"
  by (induction qs) (auto split: if_splits)

lemma chained_cong:
  "(\<And>q. q \<in> set qs \<Longrightarrow> (q \<in> alive s' \<longleftrightarrow> q \<in> alive s) \<and> pb_next (pbufs s' q) = pb_next (pbufs s q)) \<Longrightarrow> chained s' qs = chained s qs"
  by (induction qs) auto

lemma chained_alive: "chained s qs \<Longrightarrow> q \<in> set qs \<Longrightarrow> q \<in> alive s \<and> q \<noteq> NULL"
  by (induction qs) auto

lemma chained_det: "chained s qs \<Longrightarrow> chained s qs' \<Longrightarrow> first_ptr qs = first_ptr qs' \<Longrightarrow> qs = qs'"
proof (induction qs arbitrary: qs')
  case Nil
  then show ?case by (cases qs') auto
next
  case (Cons q qs)
  then obtain rs where "qs' = q # rs" by (cases qs') auto
  then show ?case using Cons.IH [of rs] Cons.prems by simp
qed

lemma first_ptr_if [simp]: "(if qs = [] then NULL else first_ptr qs) = first_ptr qs"
  by simp

lemma packet_to_append:
  "packet_to s (qs @ rs) e n \<longleftrightarrow>
   packet_to s qs (if rs = [] then e else first_ptr rs) (chain_len s rs + n) \<and> packet_to s rs e n"
proof (induction qs)
  case (Cons q qs)
  have "first_ptr (qs @ rs) = (if qs = [] then first_ptr rs else first_ptr qs)" by (cases qs) auto
  then show ?case using Cons by (cases "qs = []"; cases "rs = []") (simp_all add: add.assoc conj_ac)
qed simp

lemma packet_to_cong:
  assumes "\<And>q. q \<in> set qs \<Longrightarrow> q \<in> alive s' \<longleftrightarrow> q \<in> alive s"
    "\<And>q. q \<in> set qs \<Longrightarrow> pb_next (pbufs s' q) = pb_next (pbufs s q) \<and>
       pb_len (pbufs s' q) = pb_len (pbufs s q) \<and> tot_len (pbufs s' q) = tot_len (pbufs s q)"
  shows "packet_to s' qs e n = packet_to s qs e n" "chain_len s' qs = chain_len s qs"
proof -
  have "packet_to s' qs e n = packet_to s qs e n \<and> chain_len s' qs = chain_len s qs"
    using assms by (induction qs) simp_all
  then show "packet_to s' qs e n = packet_to s qs e n" "chain_len s' qs = chain_len s qs" by auto
qed

lemma packet_alive: "packet_to s qs e n \<Longrightarrow> q \<in> set qs \<Longrightarrow> q \<in> alive s \<and> q \<noteq> NULL"
  by (induction qs) auto

lemma packet_pred:
  assumes "packet_to s qs e n" "q \<in> set qs" "q \<noteq> first_ptr qs"
  shows "\<exists>x\<in>alive s. pb_next (pbufs s x) = q"
  using assms
proof (induction qs)
  case (Cons x xs)
  show ?case
  proof (cases "q = first_ptr xs")
    case True
    then have "xs \<noteq> []" using Cons.prems by auto
    then show ?thesis using Cons.prems True by auto
  next
    case False
    then show ?thesis using Cons by auto
  qed
qed simp

text \<open>A pbuf whose only pointer is the one given has no predecessor.\<close>

lemma sole_pointer:
  assumes I: "refs_inv s (add_mset p R)" and p: "p \<in> alive s" "pb_ref (pbufs s p) = 1"
  shows "x \<in> alive s \<Longrightarrow> pb_next (pbufs s x) \<noteq> p"
proof
  assume x: "x \<in> alive s" "pb_next (pbufs s x) = p"
  have "count (all_ptrs s R) p = 0" using refs_invD(5) [OF I p(1)] p(2) by (simp add: all_ptrs_add)
  moreover have "p \<in># all_ptrs s R" using x refs_invD(1) [OF I] by (auto simp: all_ptrs_def)
  ultimately show False by (simp add: count_eq_zero_iff)
qed

text \<open>
  Freeing a chain: the pbufs in front that nothing else refers to are freed, and the first one that
  is shared loses one reference and is kept.
\<close>

lemma pbuf_free_prefix:
  assumes "net_inv s (add_mset (if qs = [] then e else first_ptr qs) R)" "packet_to s qs e n"
    "\<forall>q\<in>set qs. pb_ref (pbufs s q) = 1 \<and> \<not> is_custom (pbufs s q)" "e = NULL \<or> 1 < pb_ref (pbufs s e)" "c < 256"
  shows "\<exists>s'. pbuf_free_loop (if qs = [] then e else first_ptr qs) c s = Some (s', (c + length qs) mod 256) \<and>
    alive s' = alive s - set qs \<and> (e \<noteq> NULL \<longrightarrow> pb_ref (pbufs s' e) = pb_ref (pbufs s e) - 1) \<and>
    (\<forall>x. x \<notin> set qs \<longrightarrow> x \<noteq> e \<longrightarrow> pbufs s' x = pbufs s x)"
  using assms
proof (induction qs arbitrary: s c)
  case Nil
  have i: "refs_inv s (add_mset e R)" using Nil.prems(1) by (simp add: net_inv_def)
  show ?case
  proof (cases "e = NULL")
    case True
    then show ?thesis using Nil.prems(5) by (simp add: pbuf_free_loop.simps)
  next
    case False
    then have e: "e \<in> alive s" "1 < pb_ref (pbufs s e)" using refs_inv_root [OF i] Nil.prems(4) by auto
    show ?thesis using pbuf_free_loop_unfold [OF e(1) False _ refs_invD(4) [OF i e(1)], of c] e(2) Nil.prems(5)
      by (auto simp: upd_pbuf_def)
  qed
next
  case (Cons q qs)
  have i: "refs_inv s (add_mset q R)" "store_inv s" using Cons.prems(1) by (simp_all add: net_inv_def)
  have q: "q \<in> alive s" "q \<noteq> NULL" "pb_ref (pbufs s q) = 1" "\<not> is_custom (pbufs s q)" using Cons.prems(2,3) by auto
  let ?n = "if qs = [] then e else first_ptr qs" and ?s = "pbuf_release q (pb_type (pbufs s q)) (drop_hdr q s)"
  have n: "pb_next (pbufs s q) = ?n" "packet_to s qs e n" using Cons.prems(2) by auto
  have "q \<notin> set qs"
  proof
    assume "q \<in> set qs"
    then have "\<exists>x\<in>alive s. pb_next (pbufs s x) = q"
      using packet_pred [OF n(2), of q] n(1) q(1) by (cases "q = first_ptr qs"; cases qs) auto
    then show False using sole_pointer [OF i(1) q(1,3)] by blast
  qed
  moreover have qe: "q \<noteq> e" using Cons.prems(4) q(2,3) by auto
  ultimately have keep: "pbufs ?s x = pbufs s x" if "x \<in> set qs \<or> x = e" for x using that by auto
  have s1: "net_inv ?s (add_mset ?n R)"
    using drop_refs [OF i(1) q(1,3)] release_plain(1) [OF i(2) q(1,4)] q(4) n(1)
    by (auto simp: net_inv_def cong: refs_inv_cong [of ?s "drop_hdr q s"]) 
  have l1: "packet_to ?s qs e n"
    using n(2) \<open>q \<notin> set qs\<close> by (subst packet_to_cong(1) [of _ _ s]) auto
  have "\<exists>s'. pbuf_free_loop ?n (to_u8 (c + 1)) ?s = Some (s', (to_u8 (c + 1) + length qs) mod 256) \<and>
    alive s' = alive ?s - set qs \<and> (e \<noteq> NULL \<longrightarrow> pb_ref (pbufs s' e) = pb_ref (pbufs ?s e) - 1) \<and>
    (\<forall>x. x \<notin> set qs \<longrightarrow> x \<noteq> e \<longrightarrow> pbufs s' x = pbufs ?s x)"
    using Cons.prems(3,4) keep by (intro Cons.IH [OF s1 l1]) (auto simp: to_u8_def)
  then obtain s' where s': "pbuf_free_loop ?n (to_u8 (c + 1)) ?s = Some (s', (to_u8 (c + 1) + length qs) mod 256)"
    "alive s' = alive ?s - set qs" "e \<noteq> NULL \<longrightarrow> pb_ref (pbufs s' e) = pb_ref (pbufs ?s e) - 1"
    "\<forall>x. x \<notin> set qs \<longrightarrow> x \<noteq> e \<longrightarrow> pbufs s' x = pbufs ?s x" by auto
  have m: "(to_u8 (c + 1) + length qs) mod 256 = (c + length (q # qs)) mod 256"
    by (simp add: to_u8_def mod_add_left_eq) 
  have "pbuf_free_loop q c s = Some (s', (c + length (q # qs)) mod 256)"
    using pbuf_free_loop_unfold [OF q(1,2), of c] q(3,4) s'(1) n(1) m by simp
  moreover have "pbufs s' x = pbufs s x" if "x \<notin> set (q # qs)" "x \<noteq> e" for x using s'(4) that by simp
  moreover have "alive s' = alive s - set (q # qs)" using s'(2) by auto
  moreover have "e \<noteq> NULL \<longrightarrow> pb_ref (pbufs s' e) = pb_ref (pbufs s e) - 1" using s'(3) keep [of e] by simp
  ultimately show ?case by auto
qed

subsection \<open>New headers and new links\<close>

text \<open>A \<open>next\<close> pointer is overwritten: the old value is given up, the new one taken from outside.\<close>

lemma refs_inv_set_next:
  assumes I: "refs_inv s (add_mset q R)" and p: "p \<in> alive s"
    and s': "alive s' = alive s" "frag_original s' = frag_original s"
      "pb_next (pbufs s' p) = q" "\<And>x. x \<noteq> p \<Longrightarrow> pb_next (pbufs s' x) = pb_next (pbufs s x)"
      "\<And>x. is_custom (pbufs s' x) = is_custom (pbufs s x)" "\<And>x. pb_ref (pbufs s' x) = pb_ref (pbufs s x)"
  shows "refs_inv s' (add_mset (pb_next (pbufs s p)) R)"
proof -
  have f: "finite (alive s)" by (rule refs_invD(1) [OF I])
  have c: "customs s' = customs s" by (simp add: customs_def s'(1,5))
  have al: "mset_set (alive s) = add_mset p (mset_set (alive s - {p}))" using f p by (simp add: mset_set.remove)
  have n: "image_mset (\<lambda>x. pb_next (pbufs s' x)) (mset_set (alive s - {p})) = image_mset (\<lambda>x. pb_next (pbufs s x)) (mset_set (alive s - {p}))"
    using f s'(4) by (intro image_mset_cong) auto
  have a: "all_ptrs s' (add_mset (pb_next (pbufs s p)) R) = all_ptrs s (add_mset q R)"
    by (simp add: all_ptrs_def s'(1-3) c al n)
  show ?thesis using I unfolding refs_inv_def s'(1,6) a .
qed

lemma store_new_block:
  assumes I: "store_inv s" and m: "memp_malloc t (pools s) = (pl, p)" "p \<noteq> NULL"
    and s': "alive s' = insert p (alive s)" "pools s' = pl" "heap s' = heap s"
      "\<And>q. q \<noteq> p \<Longrightarrow> pbufs s' q = pbufs s q" "pool_of (pbufs s' p) = Some t" "is_custom (pbufs s' p) \<Longrightarrow> t = MEMP_FRAG_PBUF"
      "t = MEMP_PBUF_POOL \<Longrightarrow> p + SIZEOF_STRUCT_PBUF \<le> payload (pbufs s' p) \<and>
         payload (pbufs s' p) + pb_len (pbufs s' p) \<le> p + (SIZEOF_STRUCT_PBUF + PBUF_POOL_BUFSIZE_ALIGNED)"
  shows "store_inv s'" "p \<notin> alive s" "(p, t, memp_sizes (pools s) t) \<notin> memp_live (pools s)"
    "memp_live (pools s') = insert (p, t, memp_sizes (pools s) t) (memp_live (pools s))"
proof -
  note D = store_invD [OF I]
  have M: "memp_inv pl" "memp_sizes pl = memp_sizes (pools s)" "memp_memory pl = memp_memory (pools s)"
     "(p, t, memp_sizes (pools s) t) \<notin> memp_live (pools s)"
     "memp_live pl = insert (p, t, memp_sizes (pools s) t) (memp_live (pools s))"
    using memp_malloc_live [OF D(2), of t] memp_malloc_static(1) [of t "pools s"] m(1,2) by auto
  then show "(p, t, memp_sizes (pools s) t) \<notin> memp_live (pools s)"
    "memp_live (pools s') = insert (p, t, memp_sizes (pools s) t) (memp_live (pools s))" using s'(2) by auto
  have new: "(p, t, memp_sizes (pools s) t) \<in> memp_live pl" using M(5) by simp
  have el: "memp_elems (pools s') u = memp_elems (pools s) u" for u by (rule memp_elems_cong) (simp_all add: s'(2) M)
  have pe: "p \<in> memp_elems (pools s) t" using new el s'(2) by (auto simp: memp_live_iff)
  have other: "(p, u, k) \<notin> memp_live (pools s)" for u k
    using memp_live_unique [OF M(1) new, of u k] M(4,5) by auto
  show pa: "p \<notin> alive s"
  proof
    assume a: "p \<in> alive s"
    show False using placed_block [OF D(5) [OF a]] other pool_not_heap [OF I pe]
      by (auto simp: pbuf_block_def split: option.splits)
  qed
  show "store_inv s'" unfolding store_inv_def el
  proof (intro conjI ballI allI impI)
    show "mem_inv (heap s')" "memp_inv (pools s')" using D(1) M(1) s'(2,3) by auto
    show "separated (heap s') (pools s')" using D(3) separated_cong [of "heap s'" "heap s" "pools s'" "pools s"] by (simp add: s' M)
    show "memp_sizes (pools s') MEMP_PBUF_POOL = SIZEOF_STRUCT_PBUF + PBUF_POOL_BUFSIZE_ALIGNED" using D(4) by (simp add: s'(2) M)
  next
    fix q assume q: "q \<in> alive s'"
    show "pbuf_placed s' q"
    proof (cases "q = p")
      case True
      then show ?thesis unfolding pbuf_placed_def
        using s'(5,7) new D(4) by (intro exI [of _ "memp_sizes (pools s) t"]) (auto simp: pbuf_block_def s'(2))
    next
      case False
      then have "pbuf_placed s' q = pbuf_placed s q" by (intro placed_cong) (simp_all add: s'(2-4) M(5))
      then show ?thesis using D(5) q s'(1) False by auto
    qed
  next
    fix q u l assume l: "(q, u, l) \<in> memp_live (pools s')" "u = MEMP_PBUF \<or> u = MEMP_PBUF_POOL"
    consider "q = p" "u = t" | "q \<noteq> p" "(q, u, l) \<in> memp_live (pools s)"
      using l(1) other by (cases "q = p") (auto simp: s'(2) M(5))
    then have "q \<in> alive s' \<and> pool_of (pbufs s' q) = Some u"
    proof cases
      case 1
      then show ?thesis using s'(1,5) by simp
    next
      case 2
      then show ?thesis using D(6) [OF 2(2) l(2)] s'(1) s'(4) [OF 2(1)] by simp
    qed
    then show "q \<in> alive s'" "pool_of (pbufs s' q) = Some u" by auto
  next
    fix q assume q: "q \<in> memp_elems (pools s) MEMP_PBUF_POOL"
    show "\<not> is_custom (pbufs s' q)"
    proof (cases "q = p")
      case True
      then show ?thesis using memp_elems_unique [OF D(2) pe] q s'(6) by fastforce
    qed (use D(7) [OF q] s'(4) in simp)
  qed
qed

lemma store_new_pool:
  assumes I: "store_inv s" and m: "memp_malloc t (pools s) = (pl, p)" "p \<noteq> NULL" "t \<noteq> MEMP_FRAG_PBUF"
    and s': "alive s' = insert p (alive s)" "pools s' = pl" "heap s' = heap s"
      "\<And>q. q \<noteq> p \<Longrightarrow> pbufs s' q = pbufs s q" "pool_of (pbufs s' p) = Some t" "\<not> is_custom (pbufs s' p)"
      "t = MEMP_PBUF_POOL \<Longrightarrow> p + SIZEOF_STRUCT_PBUF \<le> payload (pbufs s' p) \<and>
         payload (pbufs s' p) + pb_len (pbufs s' p) \<le> p + (SIZEOF_STRUCT_PBUF + PBUF_POOL_BUFSIZE_ALIGNED)"
  shows "store_inv s'" "p \<notin> alive s" "(p, t, memp_sizes (pools s) t) \<notin> memp_live (pools s)"
    "memp_live (pools s') = insert (p, t, memp_sizes (pools s) t) (memp_live (pools s))"
  using store_new_block [OF I m(1,2) s'(1-5) _ s'(7)] s'(6) by blast+

lemma store_new_heap:
  assumes I: "store_inv s" and m: "mem_malloc n (heap s) = Some (h, p)" "p \<noteq> NULL"
    and s': "alive s' = insert p (alive s)" "heap s' = h" "pools s' = pools s"
      "\<And>q. q \<noteq> p \<Longrightarrow> pbufs s' q = pbufs s q" "pool_of (pbufs s' p) = None" "\<not> is_custom (pbufs s' p)"
      "p + SIZEOF_STRUCT_PBUF \<le> payload (pbufs s' p)" "payload (pbufs s' p) + pb_len (pbufs s' p) \<le> p + req_size n"
  shows "store_inv s'" "p \<notin> alive s" "ram h = ram (heap s)"
    "\<exists>k\<ge>req_size n. (\<forall>j. (p, j) \<notin> mem_live (heap s)) \<and> mem_live h = insert (p, k) (mem_live (heap s))"
proof -
  note D = store_invD [OF I]
  obtain k where M: "mem_inv h" "ram h = ram (heap s)" "k \<ge> req_size n" "\<And>j. (p, j) \<notin> mem_live (heap s)"
    "mem_live h = insert (p, k) (mem_live (heap s))"
    using mem_malloc_live [OF D(1), of n] m by auto
  then show "ram h = ram (heap s)"
    "\<exists>k\<ge>req_size n. (\<forall>j. (p, j) \<notin> mem_live (heap s)) \<and> mem_live h = insert (p, k) (mem_live (heap s))" by auto
  have new: "(p, k) \<in> mem_live h" using M(5) by simp
  have pe: "p \<notin> memp_elems (pools s) t" for t
  proof
    assume e: "p \<in> memp_elems (pools s) t"
    have "4 \<le> memp_sizes (pools s) t" using memp_invD(1) [OF D(2) memp_elems_type [OF e]] .
    moreover have "ram (heap s) + 8 \<le> p" "p + k \<le> ram (heap s) + ram_end" "12 \<le> k"
      using mem_live_region [OF M(1) new] M(2) by auto
    ultimately show False using D(3) e unfolding separated_def by fastforce
  qed
  show pa: "p \<notin> alive s"
  proof
    assume a: "p \<in> alive s"
    show False using placed_block [OF D(5) [OF a]] pe M(4)
      by (auto simp: pbuf_block_def memp_live_iff split: option.splits)
  qed
  show "store_inv s'" unfolding store_inv_def s'(3)
  proof (intro conjI ballI allI impI)
    show "mem_inv (heap s')" "memp_inv (pools s)" using D(2) M(1) s'(2) by auto
    show "separated (heap s') (pools s)" using D(3) separated_cong [OF M(2) refl refl] s'(2) by simp
    show "memp_sizes (pools s) MEMP_PBUF_POOL = SIZEOF_STRUCT_PBUF + PBUF_POOL_BUFSIZE_ALIGNED" by (rule D(4))
  next
    fix q assume q: "q \<in> alive s'"
    show "pbuf_placed s' q"
    proof (cases "q = p")
      case True
      then show ?thesis unfolding pbuf_placed_def
        using s'(5,7,8) new M(3) by (intro exI [of _ k]) (auto simp: pbuf_block_def s'(2))
    next
      case False
      then have "pbuf_placed s' q = pbuf_placed s q" by (intro placed_cong) (simp_all add: s'(2-4) M(5))
      then show ?thesis using D(5) q s'(1) False by auto
    qed
  next
    fix q u l assume l: "(q, u, l) \<in> memp_live (pools s)" "u = MEMP_PBUF \<or> u = MEMP_PBUF_POOL"
    have "q \<noteq> p" using D(6) [OF l] pa by auto
    then show "q \<in> alive s'" "pool_of (pbufs s' q) = Some u" using D(6) [OF l] s'(1,4) by auto
  next
    fix q assume q: "q \<in> memp_elems (pools s) MEMP_PBUF_POOL"
    then show "\<not> is_custom (pbufs s' q)" using D(7) [of q] s'(4,6) by (cases "q = p") auto
  qed
qed

end
