(* ===== verification/Pbuf_Ops.thy ===== *)
theory Pbuf_Ops
  imports Pbuf_Refs
begin

text \<open>
  The operations on packets keep the ownership invariant of the theory before: allocation of all
  types with the clean-up on failure, sharing, concatenation, splitting, resizing, and moving the
  payload pointer. For each, what happens to the chain is given as well.
\<close>

subsection \<open>Allocation\<close>

lemma net_new_pool:
  assumes I: "net_inv s R" and m: "memp_malloc t (pools s) = (pl, p)" "p \<noteq> NULL" "t \<noteq> MEMP_FRAG_PBUF"
    and s': "alive s' = insert p (alive s)" "pools s' = pl" "heap s' = heap s" "frag_original s' = frag_original s"
      "\<And>q. q \<noteq> p \<Longrightarrow> pbufs s' q = pbufs s q" "pool_of (pbufs s' p) = Some t" "\<not> is_custom (pbufs s' p)"
      "pb_next (pbufs s' p) = NULL" "pb_ref (pbufs s' p) = 1"
      "t = MEMP_PBUF_POOL \<Longrightarrow> p + SIZEOF_STRUCT_PBUF \<le> payload (pbufs s' p) \<and>
         payload (pbufs s' p) + pb_len (pbufs s' p) \<le> p + (SIZEOF_STRUCT_PBUF + PBUF_POOL_BUFSIZE_ALIGNED)"
  shows "net_inv s' (add_mset p R)" "p \<notin> alive s"
proof -
  have i: "refs_inv s R" "store_inv s" using I by (auto simp: net_inv_def)
  note S = store_new_pool [OF i(2) m s'(1-3,5-7,10)]
  show "p \<notin> alive s" by (rule S(2))
  show "net_inv s' (add_mset p R)"
    using S(1) refs_inv_new [OF i(1) S(2) m(2) s'(1,4,5,8,9,7)] by (simp add: net_inv_def)
qed

text \<open>A new last pbuf is linked in.\<close>

lemma net_link:
  assumes I: "net_inv s (add_mset q R)" and r: "r \<in> alive s" "pb_next (pbufs s r) = NULL"
  shows "net_inv (upd_pbuf r (\<lambda>b. b\<lparr>pb_next := q\<rparr>) s) R"
proof -
  have i: "refs_inv s (add_mset q R)" "store_inv s" using I by (auto simp: net_inv_def)
  let ?s = "upd_pbuf r (\<lambda>b. b\<lparr>pb_next := q\<rparr>) s"
  have c: "is_custom (b\<lparr>pb_next := q\<rparr>) = is_custom b" "pool_of (b\<lparr>pb_next := q\<rparr>) = pool_of b" for b
    by (simp_all add: is_custom_def pool_of_def)
  have "refs_inv ?s (add_mset (pb_next (pbufs s r)) R)"
    by (rule refs_inv_set_next [OF i(1) r(1)]) (auto simp: upd_pbuf_def c)
  moreover have "store_inv ?s = store_inv s" by (rule store_inv_cong) (auto simp: upd_pbuf_def c)
  ultimately show ?thesis using r(2) i(2) by (simp add: net_inv_def)
qed

lemma packet_relink:
  assumes "packet_to s (bs @ [r]) e n" "r \<notin> set bs" "alive s \<subseteq> alive s'"
    "\<And>q. q \<in> set bs \<Longrightarrow> pbufs s' q = pbufs s q" "pb_next (pbufs s' r) = e'"
    "pb_len (pbufs s' r) = pb_len (pbufs s r)" "tot_len (pbufs s' r) = tot_len (pbufs s r)"
  shows "packet_to s' (bs @ [r]) e' n" "chain_len s' (bs @ [r]) = chain_len s (bs @ [r])"
proof -
  have a: "packet_to s bs r (pb_len (pbufs s r) + n)" "packet_to s [r] e n" using assms(1) by (simp_all add: packet_to_append)
  have c: "packet_to s' bs r m = packet_to s bs r m" "chain_len s' bs = chain_len s bs" for m
    using assms(3,4) packet_alive [OF a(1)] by (intro packet_to_cong; auto)+
  show "chain_len s' (bs @ [r]) = chain_len s (bs @ [r])" using c(2) assms(6) by simp
  show "packet_to s' (bs @ [r]) e' n"
    using a(2) assms(3,5-7) c(1) [of "pb_len (pbufs s r) + n"] a(1) by (auto simp: packet_to_append)
qed

text \<open>One pbuf the tail loop appends: the header is filled in and hung behind \<open>r\<close>.\<close>

lemma alloc_tail_step:
  assumes I: "net_inv s (add_mset p R)" and P: "packet_to s (bs @ [r]) NULL rem" "r \<notin> set bs"
    and m: "memp_malloc MEMP_PBUF_POOL (pools s) = (pl, q)" "q \<noteq> NULL"
    and n: "n \<le> rem" "n \<le> PBUF_POOL_BUFSIZE_ALIGNED" "rem < 65536"
  defines "new \<equiv> \<lparr>pb_next = NULL, payload = q + SIZEOF_STRUCT_PBUF, tot_len = rem, pb_len = n, pb_type = PBUF_POOL, pb_flags = 0, pb_ref = 1\<rparr>"
  defines "s' \<equiv> upd_pbuf r (\<lambda>b. b\<lparr>pb_next := q\<rparr>) (upd_pbuf q (\<lambda>_. new) (claim q (s\<lparr>pools := pl\<rparr>)))"
  shows "net_inv s' (add_mset p R)" "q \<notin> alive s" "packet_to s' (bs @ [r, q]) NULL (rem - n)"
    "alive s' = insert q (alive s)" "pbufs s' q = new" "\<And>x. x \<noteq> q \<Longrightarrow> x \<noteq> r \<Longrightarrow> pbufs s' x = pbufs s x"
    "pbufs s' r = (pbufs s r)\<lparr>pb_next := q\<rparr>" "chain_len s' (bs @ [r]) = chain_len s (bs @ [r])"
proof -
  let ?s1 = "upd_pbuf q (\<lambda>_. new) (claim q (s\<lparr>pools := pl\<rparr>))"
  have S: "net_inv ?s1 (add_mset q (add_mset p R))" "q \<notin> alive s"
    by (rule net_new_pool [OF I m, of ?s1]; use n(2) in \<open>auto simp: upd_pbuf_def claim_def new_def pool_of_def is_custom_def\<close>)+
  show q: "q \<notin> alive s" by (rule S(2))
  have r: "r \<in> alive s" "pb_next (pbufs s r) = NULL" using P(1) by (simp_all add: packet_to_append)
  then have ne: "r \<noteq> q" using q by auto
  then show f: "alive s' = insert q (alive s)" "pbufs s' q = new" "\<And>x. x \<noteq> q \<Longrightarrow> x \<noteq> r \<Longrightarrow> pbufs s' x = pbufs s x"
    "pbufs s' r = (pbufs s r)\<lparr>pb_next := q\<rparr>" by (auto simp: s'_def upd_pbuf_def claim_def)
  show "net_inv s' (add_mset p R)" unfolding s'_def
    by (rule net_link [OF S(1)]) (use r ne in \<open>auto simp: upd_pbuf_def claim_def\<close>)
  have "x \<noteq> q" if "x \<in> set bs" for x using packet_alive [OF P(1), of x] that q by auto
  then have "pbufs s' x = pbufs s x" if "x \<in> set bs" for x using f(3) P(2) that by metis
  note L = packet_relink [OF P, of s' q, OF _ this]
  show "chain_len s' (bs @ [r]) = chain_len s (bs @ [r])" by (rule L(2)) (auto simp: f)
  have "packet_to s' (bs @ [r]) q rem" by (rule L(1)) (auto simp: f)
  then have "packet_to s' ((bs @ [r]) @ [q]) NULL (rem - n)"
    using m(2) n(1) by (subst packet_to_append) (simp add: f new_def)
  then show "packet_to s' (bs @ [r, q]) NULL (rem - n)" by simp
qed

text \<open>The tail loop either completes the packet or frees all of it.\<close>

lemma pool_is_empty_fields [simp]:
  "alive (pbuf_pool_is_empty s) = alive s" "pbufs (pbuf_pool_is_empty s) = pbufs s" "heap (pbuf_pool_is_empty s) = heap s"
  "pools (pbuf_pool_is_empty s) = pools s" "frag_original (pbuf_pool_is_empty s) = frag_original s"
  "ram_bytes (pbuf_pool_is_empty s) = ram_bytes s"
  by (simp_all add: pbuf_pool_is_empty_def)

lemma net_inv_pool_is_empty [simp]: "net_inv (pbuf_pool_is_empty s) R = net_inv s R"
  using refs_inv_cong [of "pbuf_pool_is_empty s" s] store_inv_cong [of "pbuf_pool_is_empty s" s]
  by (simp add: net_inv_def)

lemma memp_malloc_fail: "store_inv s \<Longrightarrow> memp_malloc t (pools s) = (pl, NULL) \<Longrightarrow> s\<lparr>pools := pl\<rparr> = s"
  using memp_malloc_live [OF store_invD(2), of s t] by auto

text \<open>Freeing an unshared packet takes exactly its pbufs away.\<close>

definition gone :: "net \<Rightarrow> ptr list \<Rightarrow> net \<Rightarrow> bool" where
  "gone s qs s' \<longleftrightarrow> alive s' = alive s - set qs \<and> ram_bytes s' = ram_bytes s \<and>
     (\<forall>x\<in>alive s - set qs. pbufs s' x = pbufs s x)"

lemma pbuf_free_packet:
  assumes I: "net_inv s (add_mset (first_ptr qs) R)" and P: "packet_to s qs NULL n" "qs \<noteq> []"
    "\<forall>q\<in>set qs. pb_ref (pbufs s q) = 1 \<and> \<not> is_custom (pbufs s q)"
  shows "\<exists>s'. pbuf_free (first_ptr qs) s = Some (s', length qs mod 256) \<and> net_inv s' R \<and> gone s qs s'"
proof -
  have nn: "first_ptr qs \<noteq> NULL" using P(1,2) by (cases qs) auto
  obtain s' k where s': "pbuf_free_loop (first_ptr qs) 0 s = Some (s', k)" "net_inv s' R" "net_frame s s'"
    using frees_all [OF I, of 0] by (auto simp: frees_def)
  have "k = length qs mod 256 \<and> alive s' = alive s - set qs \<and> (\<forall>x. x \<notin> set qs \<longrightarrow> x \<noteq> NULL \<longrightarrow> pbufs s' x = pbufs s x)"
    using pbuf_free_prefix [of s qs NULL R n 0] I P s'(1) by simp
  moreover have "NULL \<notin> alive s" using refs_invD(2) I by (auto simp: net_inv_def)
  ultimately have "k = length qs mod 256 \<and> gone s qs s'" unfolding gone_def
    using net_frameD(2) [OF s'(3)] by (metis DiffD1 DiffD2)
  then show ?thesis using s'(1,2) nn by (simp add: pbuf_free_def)
qed

definition completed :: "net \<Rightarrow> ptr list \<Rightarrow> net \<Rightarrow> bool" where
  "completed s qs s' \<longleftrightarrow> ram_bytes s' = ram_bytes s \<and> (\<exists>rs. packet s' (qs @ rs) \<and> distinct (qs @ rs) \<and>
     set rs \<inter> alive s = {} \<and> alive s' = alive s \<union> set rs \<and>
     (\<forall>q\<in>set (qs @ rs). pb_ref (pbufs s' q) = 1 \<and> \<not> is_custom (pbufs s' q)) \<and>
     (\<forall>x\<in>alive s - set qs. pbufs s' x = pbufs s x) \<and> (\<forall>x\<in>set qs. tot_len (pbufs s' x) = tot_len (pbufs s x)))"

lemma alloc_tail_unfold:
  assumes "0 < rem" "rem < 65536" "memp_malloc MEMP_PBUF_POOL (pools s) = (pl, q)" "q \<noteq> NULL" "r \<noteq> q"
  shows "pbuf_alloc_tail p r rem s = pbuf_alloc_tail p q (rem - min rem PBUF_POOL_BUFSIZE_ALIGNED)
    (upd_pbuf r (\<lambda>b. b\<lparr>pb_next := q\<rparr>) (upd_pbuf q (\<lambda>_. \<lparr>pb_next = NULL, payload = q + SIZEOF_STRUCT_PBUF, tot_len = rem,
       pb_len = min rem PBUF_POOL_BUFSIZE_ALIGNED, pb_type = PBUF_POOL, pb_flags = 0, pb_ref = 1\<rparr>)
      (claim q (s\<lparr>pools := pl\<rparr>))))"
proof -
  have u: "to_u16 rem = rem" using assms(2) by (simp add: to_u16_def)
  have n: "(min rem 1700 = 0) = False" using assms(1) by simp
  have b: "b\<lparr>pb_type := t, pb_flags := f, pb_next := x, tot_len := l, pb_len := k, payload := y, pb_ref := c\<rparr> =
      \<lparr>pb_next = x, payload = y, tot_len = l, pb_len = k, pb_type = t, pb_flags = f, pb_ref = c\<rparr>" for b t f x l k y c
    by (cases b) simp
  show ?thesis
    by (subst pbuf_alloc_tail.simps)
      (use assms in \<open>simp add: u n b Let_def upd_pbuf_def claim_def fun_upd_twist del: pbuf_alloc_tail.simps\<close>)
qed

lemma gone_trans:
  assumes "gone s1 (qs @ [q]) s'" "q \<notin> alive s" "alive s1 = insert q (alive s)" "ram_bytes s1 = ram_bytes s"
    "\<And>x. x \<in> alive s - set qs \<Longrightarrow> pbufs s1 x = pbufs s x"
  shows "gone s qs s'"
proof -
  have "x \<in> alive s1 - set (qs @ [q])" if "x \<in> alive s - set qs" for x using that assms(2,3) by auto
  then have "pbufs s' x = pbufs s x" if "x \<in> alive s - set qs" for x
    using assms(1) assms(5) [OF that] that by (auto simp: gone_def)
  moreover have "alive s' = alive s - set qs" using assms(1-3) by (auto simp: gone_def)
  moreover have "ram_bytes s' = ram_bytes s" using assms(1,4) by (simp add: gone_def)
  ultimately show ?thesis unfolding gone_def by blast
qed

lemma completed_trans:
  assumes "completed s1 (qs @ [q]) s'" "q \<notin> alive s" "alive s1 = insert q (alive s)" "ram_bytes s1 = ram_bytes s"
    "\<And>x. x \<in> alive s - set qs \<Longrightarrow> pbufs s1 x = pbufs s x"
    "\<And>x. x \<in> set qs \<Longrightarrow> tot_len (pbufs s1 x) = tot_len (pbufs s x)"
  shows "completed s qs s'"
proof -
  obtain rs where R: "ram_bytes s' = ram_bytes s1" "packet s' ((qs @ [q]) @ rs)" "distinct ((qs @ [q]) @ rs)"
     "set rs \<inter> alive s1 = {}" "alive s' = alive s1 \<union> set rs"
     "\<forall>x\<in>set ((qs @ [q]) @ rs). pb_ref (pbufs s' x) = 1 \<and> \<not> is_custom (pbufs s' x)"
     "\<forall>x\<in>alive s1 - set (qs @ [q]). pbufs s' x = pbufs s1 x"
     "\<forall>x\<in>set (qs @ [q]). tot_len (pbufs s' x) = tot_len (pbufs s1 x)"
    using assms(1) unfolding completed_def by blast
  have keep: "pbufs s' x = pbufs s x" if "x \<in> alive s - set qs" for x
  proof -
    have "x \<in> alive s1 - set (qs @ [q])" using that assms(2,3) by auto
    then show ?thesis using R(7) assms(5) [OF that] by simp
  qed
  show ?thesis unfolding completed_def
  proof (intro conjI exI [of _ "q # rs"])
    show "\<forall>x\<in>alive s - set qs. pbufs s' x = pbufs s x" using keep by blast
    show "\<forall>x\<in>set qs. tot_len (pbufs s' x) = tot_len (pbufs s x)" using R(8) assms(6) by simp
  qed (use R(1-6) assms(2-4) in auto)
qed

lemma alloc_tail_spec:
  assumes "net_inv s (add_mset p R)" "packet_to s (bs @ [r]) NULL rem" "first_ptr (bs @ [r]) = p"
    "distinct (bs @ [r])" "\<forall>q\<in>set (bs @ [r]). pb_ref (pbufs s q) = 1 \<and> \<not> is_custom (pbufs s q)" "rem < 65536"
  shows "\<exists>s' p'. pbuf_alloc_tail p r rem s = Some (s', p') \<and>
    (p' = NULL \<and> net_inv s' R \<and> gone s (bs @ [r]) s' \<or>
     p' = p \<and> net_inv s' (add_mset p R) \<and> completed s (bs @ [r]) s')"
  using assms
proof (induction rem arbitrary: s bs r rule: less_induct)
  case (less rem)
  have st: "store_inv s" using less.prems(1) by (simp add: net_inv_def)
  obtain pl q where m: "memp_malloc MEMP_PBUF_POOL (pools s) = (pl, q)" by (cases "memp_malloc MEMP_PBUF_POOL (pools s)")
  consider (zero) "rem = 0" | (fail) "rem > 0" "q = NULL" | (ok) "rem > 0" "q \<noteq> NULL" by auto
  then show ?case
  proof cases
    case zero
    have "completed s (bs @ [r]) s" unfolding completed_def
      using less.prems zero by (intro conjI exI [of _ "[]"]) auto
    then show ?thesis using less.prems(1) zero by simp
  next
    case fail
    let ?s = "pbuf_pool_is_empty s"
    have e: "s\<lparr>pools := pl\<rparr> = s" using memp_malloc_fail [OF st] m fail(2) by simp
    have pk: "packet_to ?s (bs @ [r]) NULL rem" using less.prems(2) by (subst packet_to_cong(1) [of _ _ s]) auto
    obtain s' where s': "pbuf_free p ?s = Some (s', length (bs @ [r]) mod 256)" "net_inv s' R" "gone ?s (bs @ [r]) s'"
      using pbuf_free_packet [of ?s "bs @ [r]" R rem] less.prems(1,3,5) pk by auto
    then have "gone s (bs @ [r]) s'" by (simp add: gone_def)
    moreover have "pbuf_alloc_tail p r rem s = Some (s', NULL)" using fail m s'(1) e by simp
    ultimately show ?thesis using s'(2) by simp
  next
    case ok
    let ?n = "min rem PBUF_POOL_BUFSIZE_ALIGNED"
    have n: "?n \<le> rem" "?n \<le> PBUF_POOL_BUFSIZE_ALIGNED" "0 < ?n" using ok(1) by auto
    have rb: "r \<notin> set bs" using less.prems(4) by simp
    note S = alloc_tail_step [OF less.prems(1,2) rb m ok(2) n(1,2) less.prems(6)]
    let ?s1 = "upd_pbuf r (\<lambda>b. b\<lparr>pb_next := q\<rparr>) (upd_pbuf q (\<lambda>_. \<lparr>pb_next = NULL, payload = q + SIZEOF_STRUCT_PBUF,
       tot_len = rem, pb_len = ?n, pb_type = PBUF_POOL, pb_flags = 0, pb_ref = 1\<rparr>) (claim q (s\<lparr>pools := pl\<rparr>)))"
    have old: "x \<in> alive s" if "x \<in> set (bs @ [r])" for x using packet_alive [OF less.prems(2) that] by simp
    have qn: "q \<notin> set (bs @ [r])" "r \<noteq> q" using old S(2) by auto
    have keep: "pbufs ?s1 x = pbufs s x" if "x \<in> alive s - set (bs @ [r])" for x using that S(2) by (intro S(6)) auto
    have tot: "tot_len (pbufs ?s1 x) = tot_len (pbufs s x)" if "x \<in> set (bs @ [r])" for x
    proof (cases "x = r")
      case True
      then show ?thesis using S(7) by simp
    next
      case False
      then show ?thesis using S(6) [of x] qn(1) that by (metis)
    qed
    have "\<exists>s' p'. pbuf_alloc_tail p q (rem - ?n) ?s1 = Some (s', p') \<and>
      (p' = NULL \<and> net_inv s' R \<and> gone ?s1 ((bs @ [r]) @ [q]) s' \<or>
       p' = p \<and> net_inv s' (add_mset p R) \<and> completed ?s1 ((bs @ [r]) @ [q]) s')"
    proof (rule less.IH)
      show "rem - ?n < rem" "rem - ?n < 65536" using n less.prems(6) by linarith+
      show "net_inv ?s1 (add_mset p R)" by (rule S(1))
      show "packet_to ?s1 ((bs @ [r]) @ [q]) NULL (rem - ?n)" using S(3) by simp
      show "first_ptr ((bs @ [r]) @ [q]) = p" using less.prems(3) by (cases bs) auto
      show "distinct ((bs @ [r]) @ [q])" using less.prems(4) qn by auto
      have "is_custom ((pbufs s r)\<lparr>pb_next := q\<rparr>) = is_custom (pbufs s r)" by (simp add: is_custom_def)
      moreover have "pbufs ?s1 x = pbufs s x" if "x \<in> set bs" for x using that qn(1) rb by (intro S(6)) auto
      ultimately show "\<forall>x\<in>set ((bs @ [r]) @ [q]). pb_ref (pbufs ?s1 x) = 1 \<and> \<not> is_custom (pbufs ?s1 x)"
        using less.prems(5) S(5,7) by (auto simp: is_custom_def)
    qed
    moreover have "ram_bytes ?s1 = ram_bytes s" by (simp add: upd_pbuf_def claim_def)
    ultimately show ?thesis
      unfolding alloc_tail_unfold [OF ok(1) less.prems(6) m ok(2) qn(2)]
      using gone_trans [OF _ S(2,4) _ keep] completed_trans [OF _ S(2,4) _ keep tot] by blast
  qed
qed

lemma align_add: "4 dvd p \<Longrightarrow> mem_align_size (p + n) = p + mem_align_size n"
proof -
  assume "4 dvd p"
  then obtain k where p: "p = 4 * k" by blast
  have "(4 * k + (n + 3)) div 4 = k + (n + 3) div 4" by simp
  then show ?thesis by (simp add: p mem_align_size_def ac_simps)
qed

lemma align_bounds: "n \<le> mem_align_size n" "mem_align_size n \<le> n + 3" "4 dvd mem_align_size n"
  by (simp_all add: mem_align_size_def)

lemma pool_off_dvd: "(\<And>t. t \<in> set ts \<Longrightarrow> 4 dvd sz t) \<Longrightarrow> (4::nat) dvd pool_off sz ts t"
  by (induction ts) auto

lemma memp_elems_aligned: "memp_inv s \<Longrightarrow> p \<in> memp_elems s t \<Longrightarrow> 4 dvd p"
proof -
  assume I: "memp_inv s" and p: "p \<in> memp_elems s t"
  obtain k where k: "p = memp_base s t + k * memp_sizes s t" using p by (auto simp: pool_elems_def)
  have "4 dvd memp_sizes s u" if "u \<in> set memp_types" for u using memp_invD(2) [OF I, of u] that by simp
  then have "4 dvd memp_base s t" "4 dvd memp_sizes s t"
    using pool_off_dvd [of memp_types "memp_sizes s" t] align_bounds(3) memp_elems_type [OF p]
    by (auto simp: memp_base_def)
  then show ?thesis using k by simp
qed

lemma memp_malloc_aligned:
  assumes "store_inv s" "memp_malloc t (pools s) = (pl, p)" "p \<noteq> NULL"
  shows "4 dvd p"
proof -
  note I = store_invD(2) [OF assms(1)]
  have pl: "memp_inv pl" "(p, t, memp_sizes (pools s) t) \<in> memp_live pl"
    using memp_malloc_live [OF I, of t] assms(2,3) by auto
  then show ?thesis using memp_elems_aligned [OF pl(1)] by (auto simp: memp_live_iff)
qed

text \<open>The packet an allocation gives: fresh, unshared, and of the asked length.\<close>

definition fresh_packet :: "net \<Rightarrow> ptr \<Rightarrow> nat \<Rightarrow> net \<Rightarrow> bool" where
  "fresh_packet s p len s' \<longleftrightarrow> (\<exists>qs. qs \<noteq> [] \<and> first_ptr qs = p \<and> packet s' qs \<and> distinct qs \<and> chain_len s' qs = len \<and>
     set qs \<inter> alive s = {} \<and> alive s' = alive s \<union> set qs \<and>
     (\<forall>q\<in>set qs. pb_ref (pbufs s' q) = 1 \<and> \<not> is_custom (pbufs s' q)) \<and>
     (\<forall>x\<in>alive s. pbufs s' x = pbufs s x) \<and> ram_bytes s' = ram_bytes s)"

text \<open>The last two assignments of \<open>pbuf_alloc\<close>.\<close>

lemma finish_net_inv:
  assumes "pb_ref (pbufs s p) = 1" "\<not> is_custom (pbufs s p)"
  shows "net_inv (upd_pbuf p (\<lambda>b. b\<lparr>pb_ref := 1, pb_flags := 0\<rparr>) s) R = net_inv s R"
proof -
  let ?s = "upd_pbuf p (\<lambda>b. b\<lparr>pb_ref := 1, pb_flags := 0\<rparr>) s"
  have c: "\<not> is_custom ((pbufs s p)\<lparr>pb_ref := 1, pb_flags := 0\<rparr>)" by (simp add: is_custom_def)
  then have c': "is_custom (pbufs ?s q) = is_custom (pbufs s q)" "pool_of (pbufs ?s q) = pool_of (pbufs s q)" for q
    using assms(2) by (auto simp: upd_pbuf_def pool_of_def)
  have "refs_inv ?s R = refs_inv s R" by (rule refs_inv_cong) (use assms(1) c' in \<open>auto simp: upd_pbuf_def\<close>)
  moreover have "store_inv ?s = store_inv s" by (rule store_inv_cong) (use c' in \<open>auto simp: upd_pbuf_def\<close>)
  ultimately show ?thesis by (simp add: net_inv_def)
qed

lemma fresh_single:
  assumes "p \<notin> alive s" "p \<noteq> NULL" "alive s' = insert p (alive s)" "\<And>q. q \<noteq> p \<Longrightarrow> pbufs s' q = pbufs s q"
    "pb_next (pbufs s' p) = NULL" "pb_ref (pbufs s' p) = 1" "\<not> is_custom (pbufs s' p)"
    "tot_len (pbufs s' p) = len" "pb_len (pbufs s' p) = len" "ram_bytes s' = ram_bytes s"
  shows "fresh_packet s p len s'"
  unfolding fresh_packet_def
proof (intro exI [of _ "[p]"] conjI)
  show "\<forall>x\<in>alive s. pbufs s' x = pbufs s x" using assms(1,4) by metis
qed (use assms(1-3,5-10) in auto)

lemma alloc_ref_spec:
  assumes I: "net_inv s R" and t: "type = PBUF_ROM \<or> type = PBUF_REF"
  shows "\<exists>s' p. pbuf_alloc layer len type s = Some (s', p) \<and>
    (p = NULL \<and> s' = s \<or> p \<noteq> NULL \<and> net_inv s' (add_mset p R) \<and> fresh_packet s p len s')"
proof -
  obtain pl p where m: "memp_malloc MEMP_PBUF (pools s) = (pl, p)" by (cases "memp_malloc MEMP_PBUF (pools s)")
  have st: "store_inv s" using I by (simp add: net_inv_def)
  show ?thesis
  proof (cases "p = NULL")
    case True
    then have "pbuf_alloc layer len type s = Some (s, NULL)"
      using memp_malloc_fail [OF st] m t by (auto simp: pbuf_alloc_def)
    then show ?thesis by simp
  next
    case False
    let ?f = "\<lambda>b. b\<lparr>payload := NULL, pb_len := len, tot_len := len, pb_next := NULL, pb_type := type, pb_ref := 1, pb_flags := 0\<rparr>"
    let ?s = "upd_pbuf p ?f (claim p (s\<lparr>pools := pl\<rparr>))"
    have a: "pbuf_alloc layer len type s = Some (?s, p)"
      using m False t by (auto simp: pbuf_alloc_def upd_pbuf_def claim_def Let_def)
    have S: "net_inv ?s (add_mset p R)" "p \<notin> alive s"
      by (rule net_new_pool [OF I m False, of ?s]; use t in \<open>auto simp: upd_pbuf_def claim_def pool_of_def is_custom_def\<close>)+
    have "fresh_packet s p len ?s" by (rule fresh_single [OF S(2) False]) (auto simp: upd_pbuf_def claim_def is_custom_def)
    then show ?thesis using a S(1) False by auto
  qed
qed

lemma offset_le [simp]: "pbuf_offset layer \<le> 54"
  by (simp add: pbuf_offset_def PBUF_TRANSPORT_HLEN_def PBUF_IP_HLEN_def PBUF_LINK_HLEN_def split: pbuf_layer.split)

lemma alloc_ram_spec:
  assumes I: "net_inv s R" and len: "len \<le> 65456"
  shows "\<exists>s' p. pbuf_alloc layer len PBUF_RAM s = Some (s', p) \<and>
    (p = NULL \<and> s' = s \<or> p \<noteq> NULL \<and> net_inv s' (add_mset p R) \<and> fresh_packet s p len s')"
proof -
  let ?o = "pbuf_offset layer" and ?n = "mem_align_size (SIZEOF_STRUCT_PBUF + pbuf_offset layer) + mem_align_size len"
  have st: "store_inv s" "refs_inv s R" using I by (simp_all add: net_inv_def)
  have n: "?n \<le> 65532" using align_bounds(2) [of len] align_bounds(2) [of "16 + ?o"] offset_le [of layer] len
    by (simp del: offset_le)
  then have u: "to_u16 ?n = ?n" by (simp add: to_u16_def)
  obtain h p where m: "mem_malloc ?n (heap s) = Some (h, p)" "p = NULL \<Longrightarrow> h = heap s" "p \<noteq> NULL \<Longrightarrow> mem_inv h \<and> (\<exists>k. (p, k) \<in> mem_live h)"
    using mem_malloc_live [OF store_invD(1) [OF st(1)], of ?n] by auto
  show ?thesis
  proof (cases "p = NULL")
    case True
    then have "pbuf_alloc layer len PBUF_RAM s = Some (s, NULL)"
      using m(1,2) u by (simp add: pbuf_alloc_def)
    then show ?thesis by simp
  next
    case False
    then have al: "4 dvd p" using m(3) mem_live_region(3) by blast
    let ?f = "\<lambda>b. b\<lparr>payload := mem_align_size (p + SIZEOF_STRUCT_PBUF + ?o), pb_len := len, tot_len := len,
        pb_next := NULL, pb_type := PBUF_RAM, pb_ref := 1, pb_flags := 0\<rparr>"
    let ?s = "upd_pbuf p ?f (claim p (s\<lparr>heap := h\<rparr>))"
    have a: "pbuf_alloc layer len PBUF_RAM s = Some (?s, p)"
      using m(1) False u by (simp add: pbuf_alloc_def upd_pbuf_def claim_def Let_def)
    have y: "mem_align_size (p + SIZEOF_STRUCT_PBUF + ?o) = p + mem_align_size (SIZEOF_STRUCT_PBUF + ?o)"
      using align_add [OF al] by (simp only: add.assoc)
    have "p + mem_align_size (SIZEOF_STRUCT_PBUF + ?o) + len \<le> p + req_size ?n"
      using req_size_ge [OF n] align_bounds(1) [of len] by linarith
    moreover have "SIZEOF_STRUCT_PBUF \<le> mem_align_size (SIZEOF_STRUCT_PBUF + ?o)" using align_bounds(1) [of "SIZEOF_STRUCT_PBUF + ?o"] by simp
    ultimately have S: "store_inv ?s" "p \<notin> alive s"
      using y by (intro store_new_heap [OF st(1) m(1) False, of ?s]; auto simp: upd_pbuf_def claim_def pool_of_def is_custom_def)+
    have "refs_inv ?s (add_mset p R)"
      by (rule refs_inv_new [OF st(2) S(2) False]) (auto simp: upd_pbuf_def claim_def is_custom_def)
    moreover have "fresh_packet s p len ?s" by (rule fresh_single [OF S(2) False]) (auto simp: upd_pbuf_def claim_def is_custom_def)
    ultimately show ?thesis using a S(1) False by (auto simp: net_inv_def)
  qed
qed


lemma pool_elem_plain:
  assumes "store_inv s" "memp_malloc MEMP_PBUF_POOL (pools s) = (pl, p)" "p \<noteq> NULL"
  shows "\<not> is_custom (pbufs s p)"
proof -
  note D = store_invD [OF assms(1)]
  have "memp_sizes pl = memp_sizes (pools s)" "memp_memory pl = memp_memory (pools s)"
    "(p, MEMP_PBUF_POOL, memp_sizes (pools s) MEMP_PBUF_POOL) \<in> memp_live pl"
    using memp_malloc_live [OF D(2), of MEMP_PBUF_POOL] memp_malloc_static(1) [of MEMP_PBUF_POOL "pools s"] assms(2,3) by auto
  then have "p \<in> memp_elems (pools s) MEMP_PBUF_POOL" by (simp add: memp_live_iff memp_base_def)
  then show ?thesis by (rule D(7))
qed

lemma alloc_pool_head:
  fixes len :: nat and layer :: pbuf_layer
  assumes I: "net_inv s R" and m: "memp_malloc MEMP_PBUF_POOL (pools s) = (pl, p)" "p \<noteq> NULL"
  defines "n \<equiv> min len (PBUF_POOL_BUFSIZE_ALIGNED - mem_align_size (pbuf_offset layer))"
  defines "s2 \<equiv> upd_pbuf p (\<lambda>b. b\<lparr>pb_type := PBUF_POOL, pb_next := NULL,
      payload := mem_align_size (p + (SIZEOF_STRUCT_PBUF + pbuf_offset layer)), tot_len := len, pb_len := n, pb_ref := 1\<rparr>)
      (claim p (s\<lparr>pools := pl\<rparr>))"
  shows "net_inv s2 (add_mset p R)" "p \<notin> alive s" "packet_to s2 [p] NULL (len - n)" "\<not> is_custom (pbufs s2 p)"
    "alive s2 = insert p (alive s)" "\<And>x. x \<noteq> p \<Longrightarrow> pbufs s2 x = pbufs s x" "pb_ref (pbufs s2 p) = 1"
    "tot_len (pbufs s2 p) = len" "ram_bytes s2 = ram_bytes s"
proof -
  have st: "store_inv s" using I by (simp add: net_inv_def)
  show f: "alive s2 = insert p (alive s)" "\<And>x. x \<noteq> p \<Longrightarrow> pbufs s2 x = pbufs s x" "pb_ref (pbufs s2 p) = 1"
    "tot_len (pbufs s2 p) = len" "ram_bytes s2 = ram_bytes s"
    by (simp_all add: s2_def upd_pbuf_def claim_def)
  show c: "\<not> is_custom (pbufs s2 p)" using pool_elem_plain [OF st m] by (simp add: s2_def upd_pbuf_def claim_def is_custom_def)
  have p: "pool_of (pbufs s2 p) = Some MEMP_PBUF_POOL" using c by (simp add: pool_of_def) (simp add: s2_def upd_pbuf_def claim_def)
  have y: "payload (pbufs s2 p) = p + SIZEOF_STRUCT_PBUF + mem_align_size (pbuf_offset layer)"
    using align_add [OF memp_malloc_aligned [OF st m], of "SIZEOF_STRUCT_PBUF + pbuf_offset layer"]
      align_add [of SIZEOF_STRUCT_PBUF "pbuf_offset layer"] by (simp add: s2_def upd_pbuf_def claim_def)
  have l: "pb_len (pbufs s2 p) = n" "n \<le> PBUF_POOL_BUFSIZE_ALIGNED - mem_align_size (pbuf_offset layer)" "n \<le> len"
    by (simp_all add: s2_def upd_pbuf_def claim_def n_def)
  have "mem_align_size (pbuf_offset layer) \<le> 57" using align_bounds(2) [of "pbuf_offset layer"] offset_le [of layer] by linarith
  then have fit: "p + SIZEOF_STRUCT_PBUF \<le> payload (pbufs s2 p) \<and>
      payload (pbufs s2 p) + pb_len (pbufs s2 p) \<le> p + (SIZEOF_STRUCT_PBUF + PBUF_POOL_BUFSIZE_ALIGNED)"
    using y l by simp
  have g: "pools s2 = pl" "heap s2 = heap s" "frag_original s2 = frag_original s" "pb_next (pbufs s2 p) = NULL"
    by (simp_all add: s2_def upd_pbuf_def claim_def)
  show "net_inv s2 (add_mset p R)" "p \<notin> alive s"
    by (rule net_new_pool [OF I m _ f(1) g(1-3) f(2) p c g(4) f(3) fit]; simp)+
  show "packet_to s2 [p] NULL (len - n)" using m(2) l f by (simp add: s2_def upd_pbuf_def claim_def)
qed

lemma finish_packet:
  assumes C: "completed s [p] s'" and f: "pbufs s'' = (pbufs s')(p := (pbufs s' p)\<lparr>pb_ref := 1, pb_flags := 0\<rparr>)"
    "alive s'' = alive s'" "ram_bytes s'' = ram_bytes s'"
    and s: "alive s = insert p (alive s0)" "p \<notin> alive s0" "\<And>x. x \<noteq> p \<Longrightarrow> pbufs s x = pbufs s0 x"
      "tot_len (pbufs s p) = len" "ram_bytes s = ram_bytes s0"
  shows "fresh_packet s0 p len s''"
proof -
  obtain rs where R: "ram_bytes s' = ram_bytes s" "packet s' ([p] @ rs)" "distinct ([p] @ rs)"
     "set rs \<inter> alive s = {}" "alive s' = alive s \<union> set rs"
     "\<forall>x\<in>set ([p] @ rs). pb_ref (pbufs s' x) = 1 \<and> \<not> is_custom (pbufs s' x)"
     "\<forall>x\<in>alive s - set [p]. pbufs s' x = pbufs s x" "\<forall>x\<in>set [p]. tot_len (pbufs s' x) = tot_len (pbufs s x)"
    using C unfolding completed_def by blast
  have pk: "packet s'' (p # rs) = packet s' (p # rs)" "chain_len s'' (p # rs) = chain_len s' (p # rs)"
    by (rule packet_to_cong; simp add: f)+
  have len: "chain_len s' (p # rs) = len" using R(2,8) s(4) by simp
  have keep: "pbufs s'' x = pbufs s0 x" if "x \<in> alive s0" for x
  proof -
    have "x \<noteq> p" "x \<in> alive s - set [p]" using that s(1,2) by auto
    then show ?thesis using R(7) s(3) by (simp add: f)
  qed
  show ?thesis unfolding fresh_packet_def
  proof (intro exI [of _ "p # rs"] conjI)
    show "\<forall>x\<in>alive s0. pbufs s'' x = pbufs s0 x" using keep by blast
    show "\<forall>q\<in>set (p # rs). pb_ref (pbufs s'' q) = 1 \<and> \<not> is_custom (pbufs s'' q)" using R(3,6) by (auto simp: f(1) is_custom_def)
    show "ram_bytes s'' = ram_bytes s0" using R(1) f(3) s(5) by simp
    show "set (p # rs) \<inter> alive s0 = {}" "alive s'' = alive s0 \<union> set (p # rs)" using R(4,5) s(1,2) f(2) by auto
  qed (use R(2,3) pk len in auto)
qed

lemma alloc_pool_spec:
  assumes I: "net_inv s R" and len: "len < 65536"
  shows "\<exists>s' p. pbuf_alloc layer len PBUF_POOL s = Some (s', p) \<and>
    (p = NULL \<and> net_inv s' R \<and> gone s [] s' \<or> p \<noteq> NULL \<and> net_inv s' (add_mset p R) \<and> fresh_packet s p len s')"
proof -
  obtain pl p where m: "memp_malloc MEMP_PBUF_POOL (pools s) = (pl, p)" by (cases "memp_malloc MEMP_PBUF_POOL (pools s)")
  have st: "store_inv s" using I by (simp add: net_inv_def)
  show ?thesis
  proof (cases "p = NULL")
    case True
    then have "pbuf_alloc layer len PBUF_POOL s = Some (pbuf_pool_is_empty s, NULL)"
      using memp_malloc_fail [OF st] m by (simp add: pbuf_alloc_def)
    then show ?thesis using I by (simp add: gone_def)
  next
    case False
    note H = alloc_pool_head(1,3-9) [OF I m False, where len = len and layer = layer] and new = alloc_pool_head(2) [OF I m False]
    let ?n = "min len (PBUF_POOL_BUFSIZE_ALIGNED - mem_align_size (pbuf_offset layer))"
    let ?s = "upd_pbuf p (\<lambda>b. b\<lparr>pb_type := PBUF_POOL, pb_next := NULL,
      payload := mem_align_size (p + (SIZEOF_STRUCT_PBUF + pbuf_offset layer)), tot_len := len, pb_len := ?n, pb_ref := 1\<rparr>)
      (claim p (s\<lparr>pools := pl\<rparr>))"
    have "len - ?n < 65536" using len by (rule le_less_trans [OF diff_le_self])
    then obtain s' p' where T: "pbuf_alloc_tail p p (len - ?n) ?s = Some (s', p')"
      "p' = NULL \<and> net_inv s' R \<and> gone ?s ([] @ [p]) s' \<or> p' = p \<and> net_inv s' (add_mset p R) \<and> completed ?s ([] @ [p]) s'"
      using alloc_tail_spec [of ?s p R "[]" p "len - ?n"] H(1,2,3,6) by (auto simp del: pbuf_alloc_tail.simps)
    have a: "pbuf_alloc layer len PBUF_POOL s = (if p' = NULL then Some (s', NULL)
        else Some (upd_pbuf p' (\<lambda>b. b\<lparr>pb_ref := 1, pb_flags := 0\<rparr>) s', p'))"
      using m False T(1) by (simp add: pbuf_alloc_def Let_def del: pbuf_alloc_tail.simps)
    from T(2) show ?thesis
    proof (elim disjE conjE)
      assume g: "p' = NULL" "net_inv s' R" "gone ?s ([] @ [p]) s'"
      have "x \<noteq> p" if "x \<in> alive s - set []" for x using that new by auto
      then have "gone s [] s'" using gone_trans [OF g(3) new H(4,8)] H(5) by blast
      then show ?thesis using a g by simp
    next
      assume g: "p' = p" "net_inv s' (add_mset p R)" "completed ?s ([] @ [p]) s'"
      let ?e = "upd_pbuf p (\<lambda>b. b\<lparr>pb_ref := 1, pb_flags := 0\<rparr>) s'"
      have "pb_ref (pbufs s' p) = 1" "\<not> is_custom (pbufs s' p)" using g(3) unfolding completed_def by auto
      then have "net_inv ?e (add_mset p R)" using g(2) finish_net_inv by simp
      moreover have "fresh_packet s p len ?e"
        by (rule finish_packet [OF g(3) [unfolded append_Nil] _ _ _ H(4) new H(5,7,8)]) (simp_all add: upd_pbuf_def)
      ultimately show ?thesis using a g(1) False by simp
    qed
  qed
qed

subsection \<open>Sharing and linking\<close>

lemma refs_inv_inc:
  assumes I: "refs_inv s R" and p: "p \<in> alive s" "pb_ref (pbufs s p) < 65535"
    and s': "alive s' = alive s" "frag_original s' = frag_original s"
      "pbufs s' = (pbufs s)(p := (pbufs s p)\<lparr>pb_ref := pb_ref (pbufs s p) + 1\<rparr>)"
  shows "refs_inv s' (add_mset p R)"
proof -
  have c: "customs s' = customs s" using s' by (auto simp: customs_def is_custom_def)
  have n: "(\<lambda>q. pb_next (pbufs s' q)) = (\<lambda>q. pb_next (pbufs s q))" by (auto simp: s')
  have a: "all_ptrs s' (add_mset p R) = add_mset p (all_ptrs s R)" by (simp add: all_ptrs_def s'(1,2) c n)
  show ?thesis using I p unfolding refs_inv_def a s'(1) by (auto simp: s'(3))
qed

lemma pbuf_ref_spec:
  assumes "net_inv s R" "p \<in> alive s" "pb_ref (pbufs s p) < 65535"
  shows "pbuf_ref p s = Some (upd_pbuf p (\<lambda>b. b\<lparr>pb_ref := pb_ref (pbufs s p) + 1\<rparr>) s)"
    "net_inv (upd_pbuf p (\<lambda>b. b\<lparr>pb_ref := pb_ref (pbufs s p) + 1\<rparr>) s) (add_mset p R)"
proof -
  have i: "refs_inv s R" "store_inv s" using assms(1) by (auto simp: net_inv_def)
  have "p \<noteq> NULL" using refs_invD(2) [OF i(1)] assms(2) by metis
  then show "pbuf_ref p s = Some (upd_pbuf p (\<lambda>b. b\<lparr>pb_ref := pb_ref (pbufs s p) + 1\<rparr>) s)"
    using assms(2,3) by (simp add: pbuf_ref_def get_pbuf_def upd_pbuf_def to_u16_def)
  have "refs_inv (upd_pbuf p (\<lambda>b. b\<lparr>pb_ref := pb_ref (pbufs s p) + 1\<rparr>) s) (add_mset p R)"
    by (rule refs_inv_inc [OF i(1) assms(2,3)]) (simp_all add: upd_pbuf_def)
  then show "net_inv (upd_pbuf p (\<lambda>b. b\<lparr>pb_ref := pb_ref (pbufs s p) + 1\<rparr>) s) (add_mset p R)"
    using i(2) by (simp add: net_inv_def store_inv_ref)
qed

text \<open>Only lengths counted, not placed, change: \<open>tot_len\<close>.\<close>

definition add_tot :: "ptr list \<Rightarrow> nat \<Rightarrow> net \<Rightarrow> net" where
  "add_tot qs n s = s\<lparr>pbufs := (\<lambda>q. if q \<in> set qs then (pbufs s q)\<lparr>tot_len := tot_len (pbufs s q) + n\<rparr> else pbufs s q)\<rparr>"

lemma tot_len_custom [simp]: "is_custom (b\<lparr>tot_len := n\<rparr>) = is_custom b" "pool_of (b\<lparr>tot_len := n\<rparr>) = pool_of b"
  by (simp_all add: is_custom_def pool_of_def)

lemma net_inv_cong:
  assumes "heap s' = heap s" "pools s' = pools s" "alive s' = alive s" "frag_original s' = frag_original s"
    "\<And>q. (pbufs s' q)\<lparr>tot_len := 0\<rparr> = (pbufs s q)\<lparr>tot_len := 0\<rparr>"
  shows "net_inv s' R = net_inv s R"
proof -
  have e: "f ((pbufs s' q)\<lparr>tot_len := 0\<rparr>) = f ((pbufs s q)\<lparr>tot_len := 0\<rparr>)" for f :: "pbuf \<Rightarrow> 'a" and q
    using assms(5) by simp
  have c: "is_custom (pbufs s' q) = is_custom (pbufs s q)" "pool_of (pbufs s' q) = pool_of (pbufs s q)" for q
    using arg_cong [OF assms(5), of is_custom q] arg_cong [OF assms(5), of pool_of q] by simp_all
  have f: "pb_next (pbufs s' q) = pb_next (pbufs s q)" "pb_ref (pbufs s' q) = pb_ref (pbufs s q)"
    "payload (pbufs s' q) = payload (pbufs s q)" "pb_len (pbufs s' q) = pb_len (pbufs s q)" for q
    using arg_cong [OF assms(5), of pb_next q] arg_cong [OF assms(5), of pb_ref q]
      arg_cong [OF assms(5), of payload q] arg_cong [OF assms(5), of pb_len q] by simp_all
  have "refs_inv s' R = refs_inv s R" by (rule refs_inv_cong) (use assms(3,4) c f in auto)
  moreover have "store_inv s' = store_inv s" by (rule store_inv_cong) (use assms(1-3) c f in auto)
  ultimately show ?thesis by (simp add: net_inv_def)
qed

lemma net_inv_add_tot: "net_inv (add_tot qs n s) R = net_inv s R"
  by (rule net_inv_cong) (simp_all add: add_tot_def)

lemma packet_add_tot:
  assumes "packet_to s qs e m" shows "packet_to (add_tot qs n s) qs e (m + n)" "chain_len (add_tot qs n s) rs = chain_len s rs"
proof -
  have c: "chain_len (add_tot xs n s) rs = chain_len s rs" for xs rs by (induction rs) (auto simp: add_tot_def)
  then show "chain_len (add_tot qs n s) rs = chain_len s rs" .
  have "packet_to s rs e m \<Longrightarrow> set rs \<subseteq> set qs \<Longrightarrow> packet_to (add_tot qs n s) rs e (m + n)" for rs
    by (induction rs) (auto simp: c, auto simp: add_tot_def)
  then show "packet_to (add_tot qs n s) qs e (m + n)" using assms by simp
qed

text \<open>The loop of \<open>pbuf_cat\<close> adds the length of the tail to every pbuf of the head and links the last one.\<close>

lemma pbuf_cat_loop_spec:
  assumes "packet_to s (bs @ [r]) NULL m" "distinct (bs @ [r])" "t \<in> alive s" "t \<notin> set (bs @ [r])"
    "chain_len s (bs @ [r]) + m + tot_len (pbufs s t) < 65536"
  shows "pbuf_cat_loop (first_ptr (bs @ [r])) t s =
    Some (upd_pbuf r (\<lambda>b. b\<lparr>pb_next := t\<rparr>) (add_tot (bs @ [r]) (tot_len (pbufs s t)) s))"
  using assms
proof (induction bs arbitrary: s)
  case Nil
  have "tot_len (pbufs s r) = pb_len (pbufs s r) + m" using Nil.prems(1) by simp
  then have "to_u16 (tot_len (pbufs s r) + tot_len (pbufs s t)) = tot_len (pbufs s r) + tot_len (pbufs s t)"
    using Nil.prems(5) by (simp add: to_u16_def)
  then have u: "upd_pbuf r (\<lambda>b. b\<lparr>tot_len := to_u16 (tot_len b + tot_len (pbufs s t))\<rparr>) s = add_tot [r] (tot_len (pbufs s t)) s"
    by (auto simp: upd_pbuf_def add_tot_def fun_eq_iff)
  show ?case using Nil.prems(1,3) by (subst pbuf_cat_loop.simps) (simp add: get_pbuf_def u)
next
  case (Cons q bs)
  let ?n = "tot_len (pbufs s t)"
  let ?s = "upd_pbuf q (\<lambda>b. b\<lparr>tot_len := to_u16 (tot_len b + ?n)\<rparr>) s"
  have q: "q \<in> alive s" "pb_next (pbufs s q) = first_ptr (bs @ [r])" "packet_to s (bs @ [r]) NULL m"
    "tot_len (pbufs s q) = chain_len s (q # bs @ [r]) + m" using Cons.prems(1) by (auto simp: packet_to_append)
  have nn: "first_ptr (bs @ [r]) \<noteq> NULL" using q(3) by (cases bs) auto
  have "to_u16 (tot_len (pbufs s q) + ?n) = tot_len (pbufs s q) + ?n"
    using Cons.prems(5) q(4) by (simp add: to_u16_def)
  then have u: "?s = add_tot [q] ?n s" by (auto simp: upd_pbuf_def add_tot_def fun_eq_iff)
  have same: "pbufs ?s x = pbufs s x" if "x \<noteq> q" for x using that by (simp add: upd_pbuf_def)
  have "x \<noteq> q" if "x \<in> set (bs @ [r])" for x using Cons.prems(2) that by auto
  then have k: "packet_to ?s (bs @ [r]) NULL m = packet_to s (bs @ [r]) NULL m" "chain_len ?s (bs @ [r]) = chain_len s (bs @ [r])"
    using same by (intro packet_to_cong; simp add: upd_pbuf_def)+
  have tq: "t \<noteq> q" using Cons.prems(4) by auto
  have "pbuf_cat_loop (first_ptr (bs @ [r])) t ?s =
    Some (upd_pbuf r (\<lambda>b. b\<lparr>pb_next := t\<rparr>) (add_tot (bs @ [r]) (tot_len (pbufs ?s t)) ?s))"
  proof (rule Cons.IH)
    show "t \<in> alive ?s" using Cons.prems(3) by (simp add: upd_pbuf_def)
    show "chain_len ?s (bs @ [r]) + m + tot_len (pbufs ?s t) < 65536" using Cons.prems(5) k(2) same [OF tq] by simp
  qed (use Cons.prems q(3) k in auto)
  moreover have "add_tot (bs @ [r]) ?n ?s = add_tot (q # bs @ [r]) ?n s"
    using Cons.prems(2) unfolding u by (auto simp: add_tot_def fun_eq_iff)
  ultimately have r: "pbuf_cat_loop (first_ptr (bs @ [r])) t ?s = Some (upd_pbuf r (\<lambda>b. b\<lparr>pb_next := t\<rparr>) (add_tot (q # bs @ [r]) ?n s))"
    using same [OF tq] by simp
  show ?case using q(1,2) nn Cons.prems(3) r by (subst pbuf_cat_loop.simps) (simp add: get_pbuf_def)
qed

text \<open>A chain that ends is determined by its head, and has no pbuf twice.\<close>

lemma packet_det:
  "packet_to s xs NULL m \<Longrightarrow> packet_to s ys NULL k \<Longrightarrow> first_ptr xs = first_ptr ys \<Longrightarrow> xs = ys"
proof (induction xs arbitrary: ys)
  case Nil
  then show ?case by (cases ys) auto
next
  case (Cons x xs)
  then obtain zs where ys: "ys = x # zs" by (cases ys) auto
  have "first_ptr xs = first_ptr zs" using Cons.prems(1,2) by (simp add: ys)
  then show ?case using Cons by (simp add: ys)
qed

lemma packet_distinct: "packet_to s qs NULL m \<Longrightarrow> distinct qs"
proof (induction qs)
  case (Cons q qs)
  have "q \<notin> set qs"
  proof
    assume "q \<in> set qs"
    then obtain us ys where u: "qs = us @ q # ys" by (auto dest: split_list)
    then have y: "packet_to s (q # ys) NULL m" using Cons.prems by (simp add: packet_to_append)
    have "q # qs = q # ys" by (rule packet_det [OF Cons.prems y]) simp
    then show False using u by (metis Suc_n_not_le_n append.right_neutral length_append length_Cons le_add2 list.inject)
  qed
  then show ?case using Cons by simp
qed simp

lemma pbuf_cat_spec:
  assumes I: "net_inv s (add_mset (first_ptr ts) R)" and P: "packet s qs" "qs \<noteq> []" "packet s ts" "ts \<noteq> []"
    "set qs \<inter> set ts = {}" "chain_len s qs + chain_len s ts < 65536"
  shows "\<exists>s'. pbuf_cat (first_ptr qs) (first_ptr ts) s = Some s' \<and> net_inv s' R \<and> packet s' (qs @ ts) \<and>
    alive s' = alive s \<and> ram_bytes s' = ram_bytes s \<and> pools s' = pools s \<and> (\<forall>x. x \<notin> set qs \<longrightarrow> pbufs s' x = pbufs s x) \<and>
    (\<forall>x. pb_len (pbufs s' x) = pb_len (pbufs s x) \<and> payload (pbufs s' x) = payload (pbufs s x) \<and> pb_ref (pbufs s' x) = pb_ref (pbufs s x)) \<and>
    (\<forall>x. pb_type (pbufs s' x) = pb_type (pbufs s x) \<and> pb_flags (pbufs s' x) = pb_flags (pbufs s x))"
proof -
  obtain bs r where qs: "qs = bs @ [r]" using P(2) by (metis rev_exhaust)
  obtain t us where ts: "ts = t # us" using P(4) by (cases ts) auto
  have t: "t \<in> alive s" "t \<noteq> NULL" "t \<notin> set qs" "tot_len (pbufs s t) = chain_len s ts" using P(3,5) by (auto simp: ts)
  have d: "distinct qs" by (rule packet_distinct [OF P(1)])
  let ?n = "chain_len s ts"
  let ?s1 = "add_tot qs ?n s"
  let ?s = "upd_pbuf r (\<lambda>b. b\<lparr>pb_next := t\<rparr>) ?s1"
  have h: "first_ptr qs \<noteq> NULL" using P(1,2) by (cases qs) auto
  have c: "pbuf_cat (first_ptr qs) t s = Some ?s"
    using pbuf_cat_loop_spec [of s bs r 0 t] P(1,6) d t h by (simp add: pbuf_cat_def qs)
  have r: "r \<in> alive ?s1" "pb_next (pbufs ?s1 r) = NULL" using P(1) by (simp_all add: qs packet_to_append add_tot_def)
  have "net_inv ?s R" by (rule net_link [OF _ r]) (use I in \<open>simp add: net_inv_add_tot ts\<close>)
  moreover have "packet_to ?s1 (bs @ [r]) NULL ?n" using packet_add_tot(1) [OF P(1), of ?n] by (simp add: qs)
  then have q1: "packet_to ?s (bs @ [r]) t ?n"
    by (rule packet_relink(1)) (use d in \<open>auto simp: qs upd_pbuf_def add_tot_def\<close>)
  have same: "pbufs ?s x = pbufs s x" if "x \<notin> set qs" for x using that by (simp add: qs upd_pbuf_def add_tot_def)
  have t1: "packet ?s ts = packet s ts" "chain_len ?s ts = chain_len s ts"
    using same P(5) by (intro packet_to_cong; fastforce simp: upd_pbuf_def add_tot_def)+
  have "first_ptr ts = t" by (simp add: ts)
  then have "packet ?s (qs @ ts)" unfolding packet_to_append [of _ qs] t1 using q1 P(3,4) by (simp add: qs)
  ultimately show ?thesis using c same by (auto simp: ts upd_pbuf_def add_tot_def)
qed

subsection \<open>Splitting and resizing\<close>

text \<open>The \<open>next\<close> pointer of the last pbuf that stays is taken out of the chain.\<close>

lemma net_unlink:
  assumes I: "net_inv s R" and p: "p \<in> alive s"
    and s': "alive s' = alive s" "heap s' = heap s" "pools s' = pools s" "frag_original s' = frag_original s"
      "\<And>x. x \<noteq> p \<Longrightarrow> pbufs s' x = pbufs s x"
      "pbufs s' p = (pbufs s p)\<lparr>pb_next := NULL, tot_len := n\<rparr>"
  shows "net_inv s' (add_mset (pb_next (pbufs s p)) R)"
proof -
  have i: "refs_inv s (add_mset NULL R)" "store_inv s" using I by (auto simp: net_inv_def)
  have c: "is_custom (pbufs s' x) = is_custom (pbufs s x) \<and> pool_of (pbufs s' x) = pool_of (pbufs s x)" for x
    using s'(5) [of x] s'(6) by (cases "x = p") (simp_all add: is_custom_def pool_of_def)
  have f: "pb_ref (pbufs s' x) = pb_ref (pbufs s x) \<and> payload (pbufs s' x) = payload (pbufs s x) \<and> pb_len (pbufs s' x) = pb_len (pbufs s x)" for x
    using s'(5) [of x] s'(6) by (cases "x = p") simp_all
  have "refs_inv s' (add_mset (pb_next (pbufs s p)) R)"
    by (rule refs_inv_set_next [OF i(1) p]) (use s' c f in auto)
  moreover have "store_inv s' = store_inv s" by (rule store_inv_cong) (use s'(1-3) c f in auto)
  ultimately show ?thesis using i(2) by (simp add: net_inv_def)
qed

text \<open>Freeing the tail \<open>q\<close> of a chain whose head is held by somebody.\<close>

lemma free_tail:
  assumes I: "net_inv s (add_mset q R)"
  obtains s' n where "pbuf_free q s = Some (s', n)" "net_inv s' R" "net_frame s s'"
    "\<And>p. p \<in># R \<Longrightarrow> p \<noteq> NULL \<Longrightarrow> p \<in> alive s'"
proof -
  obtain s' n where s': "pbuf_free_loop q 0 s = Some (s', n)" "net_inv s' R" "net_frame s s'"
    using frees_all [OF I, of 0] by (auto simp: frees_def)
  have "pbuf_free q s = Some (s', n)" using s'(1) by (cases "q = NULL") (simp_all add: pbuf_free_def pbuf_free_loop.simps)
  moreover have "p \<in> alive s'" if "p \<in># R" "p \<noteq> NULL" for p
  proof -
    have "p \<in># all_ptrs s' R" using that(1) by (simp add: all_ptrs_def)
    then show ?thesis using s'(2) that(2) refs_invD(6) by (auto simp: net_inv_def)
  qed
  ultimately show thesis using s'(2,3) that by blast
qed

lemma pbuf_dechain_spec:
  assumes I: "net_inv s R" and p: "p \<in># R" and P: "packet s (p # qs)" "qs \<noteq> []" "chain_len s (p # qs) < 65536"
  defines "q \<equiv> first_ptr qs"
  defines "s2 \<equiv> upd_pbuf p (\<lambda>b. b\<lparr>pb_next := NULL, tot_len := pb_len b\<rparr>) s"
  shows "net_inv s2 (add_mset q R)"
    "\<exists>s' n. pbuf_free q s2 = Some (s', n) \<and> pbuf_dechain p s = Some (s', if n > 0 then NULL else q) \<and>
       net_inv s' R \<and> net_frame s2 s' \<and> packet s' [p] \<and> chain_len s' [p] = chain_len s [p]"
proof -
  have q: "q \<noteq> NULL" "q \<in> alive s" "pb_next (pbufs s p) = q" "tot_len (pbufs s q) = chain_len s qs"
    using P(1,2) by (cases qs; simp add: q_def)+
  have p': "p \<in> alive s" "p \<noteq> NULL" "tot_len (pbufs s p) = pb_len (pbufs s p) + chain_len s qs" using P(1) by auto
  show i2: "net_inv s2 (add_mset q R)" unfolding q(3) [symmetric]
    by (rule net_unlink [OF I p'(1)]) (auto simp: s2_def upd_pbuf_def)
  obtain s' n where F: "pbuf_free q s2 = Some (s', n)" "net_inv s' R" "net_frame s2 s'" "p \<in> alive s'"
    by (rule free_tail [OF i2]) (use p p'(2) in blast)
  have u: "usub 16 (tot_len (pbufs s p)) (pb_len (pbufs s p)) = tot_len (pbufs s q)"
    using P(3) p'(3) q(4) by (simp add: usub_le)
  have e: "upd_pbuf p (\<lambda>b. b\<lparr>pb_next := NULL, tot_len := pb_len b\<rparr>) (upd_pbuf q (\<lambda>bq. bq\<lparr>tot_len := tot_len (pbufs s q)\<rparr>) s) = s2"
  proof -
    have "upd_pbuf q (\<lambda>bq. bq\<lparr>tot_len := tot_len (pbufs s q)\<rparr>) s = s" by (simp add: upd_pbuf_def)
    then show ?thesis by (simp add: s2_def)
  qed
  have "pbuf_dechain p s = Some (s', if n > 0 then NULL else q)"
    using p'(1) q(1-3) F(1) by (simp add: pbuf_dechain_def get_pbuf_def u e)
  moreover have "packet s' [p]" "chain_len s' [p] = chain_len s [p]"
    using F(4) p'(2) net_frame_fields [OF F(3)] by (simp_all add: s2_def upd_pbuf_def)
  ultimately show "\<exists>s' n. pbuf_free q s2 = Some (s', n) \<and> pbuf_dechain p s = Some (s', if n > 0 then NULL else q) \<and>
       net_inv s' R \<and> net_frame s2 s' \<and> packet s' [p] \<and> chain_len s' [p] = chain_len s [p]"
    using F(1-3) by blast
qed

text \<open>Moving the payload pointer within the block.\<close>

lemma net_move_payload:
  assumes I: "net_inv s R" and p: "p \<in> alive s"
    and s': "alive s' = alive s" "heap s' = heap s" "pools s' = pools s" "frag_original s' = frag_original s"
      "\<And>x. x \<noteq> p \<Longrightarrow> pbufs s' x = pbufs s x" "pb_next (pbufs s' p) = pb_next (pbufs s p)"
      "pb_ref (pbufs s' p) = pb_ref (pbufs s p)" "pb_type (pbufs s' p) = pb_type (pbufs s p)" "pb_flags (pbufs s' p) = pb_flags (pbufs s p)"
    and fit: "\<And>k. pbuf_block s p k \<Longrightarrow> pool_of (pbufs s p) = None \<or> pool_of (pbufs s p) = Some MEMP_PBUF_POOL \<Longrightarrow>
       p + SIZEOF_STRUCT_PBUF \<le> payload (pbufs s p) \<and> payload (pbufs s p) + pb_len (pbufs s p) \<le> p + k \<Longrightarrow>
       p + SIZEOF_STRUCT_PBUF \<le> payload (pbufs s' p) \<and> payload (pbufs s' p) + pb_len (pbufs s' p) \<le> p + k"
  shows "net_inv s' R"
proof -
  have i: "refs_inv s R" "store_inv s" using I by (auto simp: net_inv_def)
  note D = store_invD [OF i(2)]
  have c: "is_custom (pbufs s' x) = is_custom (pbufs s x) \<and> pool_of (pbufs s' x) = pool_of (pbufs s x)" for x
    using s'(5) [of x] s'(8,9) by (cases "x = p") (simp_all add: is_custom_def pool_of_def)
  have n: "pb_next (pbufs s' x) = pb_next (pbufs s x) \<and> pb_ref (pbufs s' x) = pb_ref (pbufs s x)" for x
    using s'(5) [of x] s'(6,7) by (cases "x = p") simp_all
  have "refs_inv s' R = refs_inv s R" by (rule refs_inv_cong) (use s'(1,4) c n in auto)
  moreover have "store_inv s'" unfolding store_inv_def s'(1-3)
  proof (intro conjI ballI allI impI)
    fix q assume q: "q \<in> alive s"
    show "pbuf_placed s' q"
    proof (cases "q = p")
      case True
      obtain k where k: "pbuf_block s p k" and
        f: "pool_of (pbufs s p) = None \<or> pool_of (pbufs s p) = Some MEMP_PBUF_POOL \<longrightarrow>
          p + SIZEOF_STRUCT_PBUF \<le> payload (pbufs s p) \<and> payload (pbufs s p) + pb_len (pbufs s p) \<le> p + k"
        using D(5) [OF p] unfolding pbuf_placed_def by blast
      have b: "pbuf_block s' p k" using k c [of p] by (simp add: pbuf_block_def s'(2,3) split: option.splits)
      show ?thesis unfolding pbuf_placed_def True using fit [OF k] f b c [of p] by (intro exI [of _ k]) metis
    next
      case False
      then have "pbuf_placed s' q = pbuf_placed s q" by (intro placed_cong) (simp_all add: s'(2,3,5))
      then show ?thesis using D(5) [OF q] by simp
    qed
  next
    fix q u l assume l: "(q, u, l) \<in> memp_live (pools s)" "u = MEMP_PBUF \<or> u = MEMP_PBUF_POOL"
    then show "q \<in> alive s" "pool_of (pbufs s' q) = Some u" using D(6) [OF l] c by auto
  next
    fix q assume "q \<in> memp_elems (pools s) MEMP_PBUF_POOL"
    then show "\<not> is_custom (pbufs s' q)" using D(7) c by simp
  qed (use D in auto)
  ultimately show ?thesis using i(1) by (simp add: net_inv_def)
qed

lemma block_size:
  assumes "net_inv s R" "p \<in> alive s" "pbuf_block s p k" "pool_of (pbufs s p) = None \<or> pool_of (pbufs s p) = Some MEMP_PBUF_POOL"
  shows "k < 65536"
proof -
  have st: "store_inv s" using assms(1) by (simp add: net_inv_def)
  note D = store_invD [OF st]
  show ?thesis
  proof (cases "pool_of (pbufs s p)")
    case None
    then have "(p, k) \<in> mem_live (heap s)" using assms(3) by (simp add: pbuf_block_def)
    from mem_live_region [OF D(1) this] show ?thesis by simp
  next
    case (Some t)
    then have "(p, MEMP_PBUF_POOL, k) \<in> memp_live (pools s)" using assms(3,4) by (simp add: pbuf_block_def)
    then show ?thesis using D(4) by (simp add: memp_live_iff)
  qed
qed

lemma add_s16_id: "0 \<le> int n + i \<Longrightarrow> int n + i < 65536 \<Longrightarrow> add_s16 n i = nat (int n + i)"
  by (simp add: add_s16_def)

lemma add_s16_back: "n < 65536 \<Longrightarrow> add_s16 (add_s16 n i) (- i) = n"
proof -
  assume n: "n < 65536"
  have "(int n + i) mod 65536 \<ge> 0" by simp
  then have "add_s16 (add_s16 n i) (- i) = nat (((int n + i) mod 65536 + - i) mod 65536)" by (simp add: add_s16_def)
  also have "((int n + i) mod 65536 + - i) mod 65536 = int n mod 65536" by (simp add: mod_diff_left_eq)
  finally show ?thesis using n by simp
qed

text \<open>A payload in its block: \<open>pbuf_header\<close> moves it within the block and never wraps its length.\<close>

lemma header_fits:
  assumes "net_inv s R" "p \<in> alive s" "pbuf_block s p k" "pool_of (pbufs s p) = None \<or> pool_of (pbufs s p) = Some MEMP_PBUF_POOL"
    "p + SIZEOF_STRUCT_PBUF \<le> payload (pbufs s p)" "payload (pbufs s p) + pb_len (pbufs s p) \<le> p + k"
    "inc < 0 \<longrightarrow> nat (- inc) \<le> pb_len (pbufs s p)" "int (p + SIZEOF_STRUCT_PBUF) \<le> int (payload (pbufs s p)) - inc"
  shows "add_s16 (pb_len (pbufs s p)) inc = nat (int (pb_len (pbufs s p)) + inc)"
    "p + SIZEOF_STRUCT_PBUF \<le> nat (int (payload (pbufs s p)) - inc)"
    "nat (int (payload (pbufs s p)) - inc) + nat (int (pb_len (pbufs s p)) + inc) \<le> p + k"
    "0 \<le> int (pb_len (pbufs s p)) + inc"
proof -
  have k: "k < 65536" by (rule block_size [OF assms(1-4)])
  show n: "0 \<le> int (pb_len (pbufs s p)) + inc" using assms(7) by (cases "inc < 0") auto
  have "int (pb_len (pbufs s p)) + inc < 65536" using assms(5,6,8) k by simp
  then show "add_s16 (pb_len (pbufs s p)) inc = nat (int (pb_len (pbufs s p)) + inc)" using n by (rule add_s16_id [rotated])
  show "p + SIZEOF_STRUCT_PBUF \<le> nat (int (payload (pbufs s p)) - inc)"
    "nat (int (payload (pbufs s p)) - inc) + nat (int (pb_len (pbufs s p)) + inc) \<le> p + k"
    using assms(5,6,8) n by linarith+
qed

definition move_header :: "ptr \<Rightarrow> int \<Rightarrow> net \<Rightarrow> net" where
  "move_header p inc s = upd_pbuf p (\<lambda>b. b\<lparr>payload := nat (int (payload b) - inc),
     pb_len := add_s16 (pb_len b) inc, tot_len := add_s16 (tot_len b) inc\<rparr>) s"

lemma move_header_fields [simp]:
  "alive (move_header p inc s) = alive s" "heap (move_header p inc s) = heap s" "pools (move_header p inc s) = pools s"
  "frag_original (move_header p inc s) = frag_original s" "ram_bytes (move_header p inc s) = ram_bytes s"
  "pbufs (move_header p inc s) q = (if q = p then (pbufs s p)\<lparr>payload := nat (int (payload (pbufs s p)) - inc),
     pb_len := add_s16 (pb_len (pbufs s p)) inc, tot_len := add_s16 (tot_len (pbufs s p)) inc\<rparr> else pbufs s q)"
  by (simp_all add: move_header_def upd_pbuf_def)

lemma pbuf_header_cases:
  assumes "p \<in> alive s" "p \<noteq> NULL" "inc \<noteq> 0"
  shows "pbuf_header p inc s =
    (if (inc < 0 \<longrightarrow> nat (- inc) \<le> pb_len (pbufs s p)) \<and>
        (if pb_type (pbufs s p) = PBUF_RAM \<or> pb_type (pbufs s p) = PBUF_POOL
         then int (p + SIZEOF_STRUCT_PBUF) \<le> int (payload (pbufs s p)) - inc else inc < 0)
     then Some (move_header p inc s, 0) else Some (s, 1))"
  using assms by (auto simp: pbuf_header_def get_pbuf_def move_header_def Let_def)

lemma pbuf_header_inv:
  assumes I: "net_inv s R" and p: "p \<in> alive s" and c: "\<not> is_custom (pbufs s p)"
  shows "\<exists>s' e. pbuf_header p inc s = Some (s', e) \<and> net_inv s' R \<and> (e = 0 \<and> (inc = 0 \<or> s' = move_header p inc s) \<or> e = 1 \<and> s' = s)"
proof (cases "inc = 0")
  case True
  then show ?thesis using I by (simp add: pbuf_header_def)
next
  case False
  have i: "refs_inv s R" "store_inv s" using I by (auto simp: net_inv_def)
  have nn: "p \<noteq> NULL" using refs_invD(2) [OF i(1)] p by metis
  note H = pbuf_header_cases [OF p nn False]
  let ?ok = "(inc < 0 \<longrightarrow> nat (- inc) \<le> pb_len (pbufs s p)) \<and>
        (if pb_type (pbufs s p) = PBUF_RAM \<or> pb_type (pbufs s p) = PBUF_POOL
         then int (p + SIZEOF_STRUCT_PBUF) \<le> int (payload (pbufs s p)) - inc else inc < 0)"
  show ?thesis
  proof (cases ?ok)
    case ok: True
    have "net_inv (move_header p inc s) R"
    proof (rule net_move_payload [OF I p])
      fix k assume a: "pbuf_block s p k" "pool_of (pbufs s p) = None \<or> pool_of (pbufs s p) = Some MEMP_PBUF_POOL"
        "p + SIZEOF_STRUCT_PBUF \<le> payload (pbufs s p) \<and> payload (pbufs s p) + pb_len (pbufs s p) \<le> p + k"
      have t: "pb_type (pbufs s p) = PBUF_RAM \<or> pb_type (pbufs s p) = PBUF_POOL"
        using a(2) c by (cases "pb_type (pbufs s p)") (auto simp: pool_of_def)
      have "inc < 0 \<longrightarrow> nat (- inc) \<le> pb_len (pbufs s p)" "int (p + SIZEOF_STRUCT_PBUF) \<le> int (payload (pbufs s p)) - inc"
        using ok t by auto
      from header_fits [OF I p a(1,2) conjunct1 [OF a(3)] conjunct2 [OF a(3)] this]
      show "p + SIZEOF_STRUCT_PBUF \<le> payload (pbufs (move_header p inc s) p) \<and>
          payload (pbufs (move_header p inc s) p) + pb_len (pbufs (move_header p inc s) p) \<le> p + k" by simp
    qed simp_all
    then show ?thesis unfolding H if_P [OF ok] by simp
  next
    case no: False
    show ?thesis unfolding H if_not_P [OF no] using I by simp
  qed
qed

text \<open>Hiding a header and exposing it again (or the other way round) gives back the same packet.\<close>

lemma pbuf_header_back:
  assumes I: "net_inv s R" and p: "p \<in> alive s" and c: "\<not> is_custom (pbufs s p)"
    and t: "pb_type (pbufs s p) = PBUF_RAM \<or> pb_type (pbufs s p) = PBUF_POOL" "tot_len (pbufs s p) < 65536"
    and h: "pbuf_header p inc s = Some (s', 0)"
  shows "pbuf_header p (- inc) s' = Some (s, 0)"
proof (cases "inc = 0")
  case True
  then show ?thesis using h by (simp add: pbuf_header_def)
next
  case False
  have i: "refs_inv s R" "store_inv s" using I by (auto simp: net_inv_def)
  have nn: "p \<noteq> NULL" using refs_invD(2) [OF i(1)] p by metis
  have po: "pool_of (pbufs s p) = None \<or> pool_of (pbufs s p) = Some MEMP_PBUF_POOL" using t(1) c by (auto simp: pool_of_def)
  obtain k where k: "pbuf_block s p k" "p + SIZEOF_STRUCT_PBUF \<le> payload (pbufs s p)" "payload (pbufs s p) + pb_len (pbufs s p) \<le> p + k"
    using store_invD(5) [OF i(2) p] po unfolding pbuf_placed_def by blast
  have ok: "inc < 0 \<longrightarrow> nat (- inc) \<le> pb_len (pbufs s p)" "int (p + SIZEOF_STRUCT_PBUF) \<le> int (payload (pbufs s p)) - inc"
    and s': "s' = move_header p inc s"
    using h t(1) unfolding pbuf_header_cases [OF p nn False] by (auto split: if_splits)
  note F = header_fits [OF I p k(1) po k(2,3) ok]
  have bk: "nat (int (nat (int (payload (pbufs s p)) - inc)) - (- inc)) = payload (pbufs s p)" using ok(2) by simp
  have len: "add_s16 (nat (int (pb_len (pbufs s p)) + inc)) (- inc) = pb_len (pbufs s p)"
    using add_s16_back [of "pb_len (pbufs s p)" inc] F(1) k(2,3) block_size [OF I p k(1) po] by simp
  have "move_header p (- inc) s' = s"
    using bk len add_s16_back [OF t(2), of inc] F(1) unfolding s' move_header_def upd_pbuf_def by simp
  moreover have "- inc < 0 \<longrightarrow> nat (- (- inc)) \<le> nat (int (pb_len (pbufs s p)) + inc)" using F(4) by linarith
  moreover have "int (p + SIZEOF_STRUCT_PBUF) \<le> int (nat (int (payload (pbufs s p)) - inc)) - (- inc)" using k(2) ok(2) by linarith
  ultimately show ?thesis using pbuf_header_cases [of p s' "- inc"] p nn False t(1) F(1) by (simp add: s')
qed

text \<open>Freeing does not look at the \<open>next\<close> pointer of a pbuf that survives.\<close>

definition put_next :: "ptr \<Rightarrow> ptr \<Rightarrow> net \<Rightarrow> net" where
  "put_next q x s = upd_pbuf q (\<lambda>b. b\<lparr>pb_next := x\<rparr>) s"

lemma put_next_fields [simp]:
  "alive (put_next q x s) = alive s" "frag_original (put_next q x s) = frag_original s"
  "pb_ref (pbufs (put_next q x s) p) = pb_ref (pbufs s p)" "pb_type (pbufs (put_next q x s) p) = pb_type (pbufs s p)"
  "is_custom (pbufs (put_next q x s) p) = is_custom (pbufs s p)"
  "p \<noteq> q \<Longrightarrow> pbufs (put_next q x s) p = pbufs s p"
  by (simp_all add: put_next_def upd_pbuf_def is_custom_def)

lemma put_next_commutes:
  "p \<noteq> q \<Longrightarrow> drop_hdr p (put_next q x s) = put_next q x (drop_hdr p s)"
  "pbuf_release p t (put_next q x s) = put_next q x (pbuf_release p t s)"
  "ip_frag_free_pbuf_custom_ref p (put_next q x s) = put_next q x (ip_frag_free_pbuf_custom_ref p s)"
  "upd_pbuf p (\<lambda>b. b\<lparr>pb_ref := pb_ref b - 1\<rparr>) (put_next q x s) = put_next q x (upd_pbuf p (\<lambda>b. b\<lparr>pb_ref := pb_ref b - 1\<rparr>) s)"
proof -
  have b: "b\<lparr>pb_next := x, pb_ref := n\<rparr> = b\<lparr>pb_ref := n, pb_next := x\<rparr>" for b :: pbuf and n by (cases b) simp
  show "p \<noteq> q \<Longrightarrow> drop_hdr p (put_next q x s) = put_next q x (drop_hdr p s)"
    "pbuf_release p t (put_next q x s) = put_next q x (pbuf_release p t s)"
    "ip_frag_free_pbuf_custom_ref p (put_next q x s) = put_next q x (ip_frag_free_pbuf_custom_ref p s)"
    "upd_pbuf p (\<lambda>b. b\<lparr>pb_ref := pb_ref b - 1\<rparr>) (put_next q x s) = put_next q x (upd_pbuf p (\<lambda>b. b\<lparr>pb_ref := pb_ref b - 1\<rparr>) s)"
    by (auto simp: put_next_def upd_pbuf_def drop_hdr_def pbuf_release_def ip_frag_free_pbuf_custom_ref_def fun_upd_twist b)
qed

abbreviation on_state :: "(net \<Rightarrow> net) \<Rightarrow> (net \<times> nat) option \<Rightarrow> (net \<times> nat) option" where
  "on_state f \<equiv> map_option (\<lambda>(s, n). (f s, n))"

lemma pbuf_free_put_next:
  assumes "net_inv s (add_mset p R)" "pbuf_free_loop p c s = Some (e, m)" "q \<in> alive e"
  shows "pbuf_free_loop p c (put_next q x s) = on_state (put_next q x) (pbuf_free_loop p c s)"
  using assms
proof (induction "card (alive s)" arbitrary: s p R c e m rule: less_induct)
  case less
  have i: "refs_inv s (add_mset p R)" "store_inv s" using less.prems by (auto simp: net_inv_def)
  note D = refs_invD [OF i(1)]
  show ?case
  proof (cases "p = NULL")
    case True
    then show ?thesis by (simp add: pbuf_free_loop.simps)
  next
    case False
    then have p: "p \<in> alive s" using refs_inv_root [OF i(1)] by blast
    let ?t = "put_next q x s" and ?d = "drop_hdr p s" and ?n = "pb_next (pbufs s p)" and ?o = "frag_original s p"
    note U = pbuf_free_loop_unfold [OF p False D(3) [OF p] D(4) [OF p], of c]
    have "p \<in> alive ?t" "0 < pb_ref (pbufs ?t p)" "pb_ref (pbufs ?t p) < 65536" using p D(3) [OF p] D(4) [OF p] by simp_all
    note V = pbuf_free_loop_unfold [OF this(1) False this(2,3), of c]
    have smaller: "card (alive s') < card (alive s)" if "alive s' \<subseteq> alive s - {p}" for s'
      using that p D(1) by (intro psubset_card_mono) auto
    show ?thesis
    proof (cases "pb_ref (pbufs s p) = 1")
      case False
      then show ?thesis unfolding U V put_next_commutes(4) by simp
    next
      case one: True
      note R' = drop_refs [OF i(1) p one]
      show ?thesis
      proof (cases "is_custom (pbufs s p)")
        case False
        let ?s = "pbuf_release p (pb_type (pbufs s p)) ?d"
        have "refs_inv ?s (add_mset ?n R)" using R' False by (subst refs_inv_cong [of _ ?d]) simp_all
        then have s: "net_inv ?s (add_mset ?n R)" using release_plain(1) [OF i(2) p False] by (simp add: net_inv_def)
        have e: "pbuf_free_loop ?n (to_u8 (c + 1)) ?s = Some (e, m)" using less.prems(2) U one False by simp
        have "alive e \<subseteq> alive s - {p}" using frees_all [OF s, of "to_u8 (c + 1)"] e net_frameD(1) by (fastforce simp: frees_def)
        then have pq: "p \<noteq> q" using less.prems(3) by auto
        have same: "pbufs ?t p = pbufs s p" using pq by simp
        have "pbuf_free_loop ?n (to_u8 (c + 1)) (put_next q x ?s) = on_state (put_next q x) (pbuf_free_loop ?n (to_u8 (c + 1)) ?s)"
          by (rule less.hyps [OF smaller s e less.prems(3)]) simp
        then show ?thesis unfolding U V same by (simp add: one False put_next_commutes(1) [OF pq] put_next_commutes(2))
      next
        case cust: True
        note F = release_custom [OF i(2) p cust]
        have d: "net_inv ?d (add_mset ?o (add_mset ?n R))"
          using R' cust F(1) by (simp add: net_inv_def add_mset_commute)
        obtain s3 l where s3: "pbuf_free_loop ?o 0 ?d = Some (s3, l)" "net_inv s3 (add_mset ?n R)" "net_frame ?d s3"
          using frees_all [OF d, of 0] by (auto simp: frees_def)
        have a3: "alive s3 \<subseteq> alive s - {p}" using net_frameD(1) [OF s3(3)] by simp
        obtain k where "(p, MEMP_FRAG_PBUF, k) \<in> memp_live (pools s)" using F(3) by blast
        then have k: "(p, MEMP_FRAG_PBUF, k) \<in> memp_live (pools s3)" using net_frameD(10) [OF s3(3), of p] by simp
        have p3: "p \<notin> alive s3" using a3 by blast
        note G = free_frag_spec [OF s3(2) net_frame_trans [OF F(2) s3(3)] p p3 k]
        let ?f = "ip_frag_free_pbuf_custom_ref p s3"
        have o: "(if ?o \<noteq> NULL then pbuf_free_loop ?o 0 ?d else Some (?d, 0)) = Some (s3, if ?o \<noteq> NULL then l else 0)"
          using s3(1) by (cases "?o = NULL") (simp_all add: pbuf_free_loop.simps [of NULL])
        have e: "pbuf_free_loop ?n (to_u8 (c + 1)) ?f = Some (e, m)"
          using less.prems(2) unfolding U o by (simp add: one cust)
        have "alive e \<subseteq> alive s3" using frees_all [OF G(1), of "to_u8 (c + 1)"] e G(3) net_frameD(1) by (fastforce simp: frees_def)
        then have q3: "q \<in> alive s3" and pq: "p \<noteq> q" using less.prems(3) p3 by auto
        have n1: "pbuf_free_loop ?o 0 (put_next q x ?d) = on_state (put_next q x) (pbuf_free_loop ?o 0 ?d)"
          by (rule less.hyps [OF smaller d s3(1) q3]) simp
        have n2: "pbuf_free_loop ?n (to_u8 (c + 1)) (put_next q x ?f) = on_state (put_next q x) (pbuf_free_loop ?n (to_u8 (c + 1)) ?f)"
          using G(3) a3 by (intro less.hyps [OF smaller G(1) e less.prems(3)]) simp
        have o': "(if ?o \<noteq> NULL then pbuf_free_loop ?o 0 (put_next q x ?d) else Some (put_next q x ?d, 0)) =
            Some (put_next q x s3, if ?o \<noteq> NULL then l else 0)"
          using s3(1) n1 by (cases "?o = NULL") (simp_all add: pbuf_free_loop.simps [of NULL])
        have same: "pbufs ?t p = pbufs s p" using pq by simp
        show ?thesis unfolding U V same put_next_fields(2) put_next_commutes(1) [OF pq] o o'
          by (simp add: one cust put_next_commutes(3) n2 del: One_nat_def)
      qed
    qed
  qed
qed

lemma chain_survives:
  assumes "packet_to s qs e m" "net_frame s s'" "net_inv s' R" "first_ptr qs \<in> alive s'"
  shows "set qs \<subseteq> alive s'"
  using assms(1,4)
proof (induction qs)
  case (Cons q qs)
  have q: "q \<in> alive s'" using Cons.prems(2) by simp
  show ?case
  proof (cases "qs = []")
    case True
    then show ?thesis using q by simp
  next
    case False
    then have "pb_next (pbufs s' q) = first_ptr qs" "first_ptr qs \<noteq> NULL"
      using Cons.prems(1) net_frame_fields(1) [OF assms(2)] by (cases qs; simp)+
    then have "first_ptr qs \<in> alive s'" using refs_inv_next [of s' R q] assms(3) q by (auto simp: net_inv_def)
    then show ?thesis using Cons q by simp
  qed
qed simp

lemma chain_len_cong: "(\<And>q. q \<in> set qs \<Longrightarrow> pb_len (pbufs s' q) = pb_len (pbufs s q)) \<Longrightarrow> chain_len s' qs = chain_len s qs"
  by (induction qs) simp_all

text \<open>The loop of \<open>pbuf_realloc\<close>: \<open>d\<close> is what the packet loses.\<close>

definition sub_tot :: "ptr list \<Rightarrow> nat \<Rightarrow> net \<Rightarrow> net" where
  "sub_tot qs d s = s\<lparr>pbufs := (\<lambda>q. if q \<in> set qs then (pbufs s q)\<lparr>tot_len := tot_len (pbufs s q) - d\<rparr> else pbufs s q)\<rparr>"

lemma sub_tot_fields [simp]:
  "alive (sub_tot qs d s) = alive s" "heap (sub_tot qs d s) = heap s" "pools (sub_tot qs d s) = pools s"
  "frag_original (sub_tot qs d s) = frag_original s" "ram_bytes (sub_tot qs d s) = ram_bytes s"
  "pbufs (sub_tot qs d s) q = (if q \<in> set qs then (pbufs s q)\<lparr>tot_len := tot_len (pbufs s q) - d\<rparr> else pbufs s q)"
  by (simp_all add: sub_tot_def)

lemma net_inv_sub_tot: "net_inv (sub_tot qs d s) R = net_inv s R"
  by (rule net_inv_cong) simp_all

lemma grow_shrinks:
  assumes "d \<le> t" "t < 65536" "n + d < 65536" shows "to_u16 (t + usub 16 n (n + d)) = t - d"
proof (cases "d = 0")
  case True
  then show ?thesis using assms by (simp add: to_u16_def usub_def)
next
  case False
  have "usub 16 n (n + d) = 65536 - d" using assms(3) False by (simp add: usub_def zmod_zminus1_eq_if)
  then have "t + usub 16 n (n + d) = (t - d) + 65536" using assms by simp
  then show ?thesis using assms(2) by (simp add: to_u16_def)
qed

lemma realloc_walk_spec:
  assumes "packet s qs" "rem + d = chain_len s qs" "0 < d" "chain_len s qs < 65536" "n + d < 65536"
  shows "\<exists>as q bs. qs = as @ q # bs \<and> chain_len s as \<le> rem \<and> rem - chain_len s as \<le> pb_len (pbufs s q) \<and>
    pbuf_realloc_walk (first_ptr qs) rem (usub 16 n (n + d)) s = Some (sub_tot as d s, q, rem - chain_len s as)"
  using assms
proof (induction qs arbitrary: s rem)
  case Nil
  then show ?case by simp
next
  case (Cons x xs)
  have x: "x \<in> alive s" "pb_next (pbufs s x) = first_ptr xs" "tot_len (pbufs s x) = pb_len (pbufs s x) + chain_len s xs" "packet s xs"
    using Cons.prems(1) by auto
  show ?case
  proof (cases "rem > pb_len (pbufs s x)")
    case False
    have "sub_tot [] d s = s" by (simp add: sub_tot_def)
    then have "pbuf_realloc_walk x rem (usub 16 n (n + d)) s = Some (sub_tot [] d s, x, rem - chain_len s [])"
      using x(1) False by (subst pbuf_realloc_walk.simps) (simp add: get_pbuf_def)
    then show ?thesis using False by (intro exI [of _ "[]"] exI [of _ x] exI [of _ xs]) simp
  next
    case True
    let ?g = "usub 16 n (n + d)"
    let ?s = "upd_pbuf x (\<lambda>b. b\<lparr>tot_len := to_u16 (tot_len b + ?g)\<rparr>) s" and ?r = "rem - pb_len (pbufs s x)"
    have "d \<le> tot_len (pbufs s x)" "tot_len (pbufs s x) < 65536" using Cons.prems(2,4) x(3) by simp_all
    then have t: "to_u16 (tot_len (pbufs s x) + ?g) = tot_len (pbufs s x) - d" by (rule grow_shrinks [OF _ _ Cons.prems(5)])
    then have s1: "?s = sub_tot [x] d s" by (auto simp: upd_pbuf_def sub_tot_def fun_eq_iff)
    have nx: "x \<notin> set xs" using packet_distinct [OF Cons.prems(1)] by simp
    have k: "packet ?s xs = packet s xs" "chain_len ?s zs = chain_len s zs" for zs
    proof -
      show "packet ?s xs = packet s xs" by (rule packet_to_cong) (use nx in \<open>auto simp: s1\<close>)
      show "chain_len ?s zs = chain_len s zs" by (rule chain_len_cong) (simp add: s1)
    qed
    have ih: "packet ?s xs" "?r + d = chain_len ?s xs" "chain_len ?s xs < 65536"
      using x(4) k(1) Cons.prems(2,4) True unfolding k(2) by auto
    obtain as q bs where w: "xs = as @ q # bs" "chain_len ?s as \<le> ?r" "?r - chain_len ?s as \<le> pb_len (pbufs ?s q)"
      "pbuf_realloc_walk (first_ptr xs) ?r ?g ?s = Some (sub_tot as d ?s, q, ?r - chain_len ?s as)"
      using Cons.IH [OF ih(1,2) Cons.prems(3) ih(3) Cons.prems(5)] by blast
    have "sub_tot as d (sub_tot [x] d s) = sub_tot (x # as) d s" using nx w(1) by (auto simp: sub_tot_def fun_eq_iff)
    then have "pbuf_realloc_walk x rem ?g s = Some (sub_tot (x # as) d s, q, rem - chain_len s (x # as))"
      using x(1,2) True w(4) by (subst pbuf_realloc_walk.simps) (simp add: get_pbuf_def k(2) [unfolded s1] s1)
    moreover have "pb_len (pbufs ?s q) = pb_len (pbufs s q)" by (simp add: s1)
    ultimately show ?thesis using w(1) w(2,3) [unfolded k(2)] True
      by (intro exI [of _ "x # as"] exI [of _ q] exI [of _ bs] conjI) simp_all
  qed
qed

text \<open>Shrinking the last pbuf in place, and the heap block under it.\<close>

lemma req_size_le: "n \<le> k \<Longrightarrow> 4 dvd k \<Longrightarrow> 12 \<le> k \<Longrightarrow> k < 65536 \<Longrightarrow> req_size n \<le> k"
proof -
  assume a: "n \<le> k" "4 dvd k" "12 \<le> k" "k < 65536"
  obtain j where j: "k = 4 * j" using a(2) by blast
  have "(n + 3) div 4 \<le> j" using a(1) j by simp
  then have "mem_align_size n \<le> k" using j by (simp add: mem_align_size_def)
  then show ?thesis using a(3,4) by (simp add: req_size_def to_u16_def)
qed

lemma net_trim:
  assumes I: "net_inv s R" and q: "q \<in> alive s" "pool_of (pbufs s q) = None"
    and n: "payload (pbufs s q) + pb_len (pbufs s q) \<le> q + n" "(q, k) \<in> mem_live (heap s)" "n \<le> k"
  shows "\<exists>h. mem_trim q n (heap s) = (h, q) \<and> net_inv (s\<lparr>heap := h\<rparr>) R"
proof -
  have i: "refs_inv s R" "store_inv s" using I by (auto simp: net_inv_def)
  note D = store_invD [OF i(2)]
  have k: "4 dvd k" "12 \<le> k" "k < 65536" using mem_live_region [OF D(1) n(2)] by auto
  have rq: "req_size n \<le> k" by (rule req_size_le [OF n(3) k])
  obtain h k' where h: "mem_trim q n (heap s) = (h, q)" "mem_inv h" "ram h = ram (heap s)" "req_size n \<le> k'"
    "mem_live h = insert (q, k') (mem_live (heap s) - {(q, k)})"
    using mem_trim_live [OF D(1) n(2) rq] by blast
  have nk: "n \<le> req_size n" using n(3) k by (intro req_size_ge) (auto elim!: dvdE)
  let ?s = "s\<lparr>heap := h\<rparr>"
  have other: "(x, j) \<in> mem_live h \<longleftrightarrow> (x, j) \<in> mem_live (heap s)" if "x \<noteq> q" for x j using h(5) that by auto
  have "store_inv ?s" unfolding store_inv_def
  proof (intro conjI ballI allI impI)
    show "mem_inv (heap ?s)" using h(2) by simp
    show "separated (heap ?s) (pools ?s)" using D(3) separated_cong [OF h(3) refl refl] by simp
    fix x assume x: "x \<in> alive ?s"
    show "pbuf_placed ?s x"
    proof (cases "x = q")
      case True
      have "q + SIZEOF_STRUCT_PBUF \<le> payload (pbufs s q)" using D(5) [OF q(1)] q(2) unfolding pbuf_placed_def by auto
      then show ?thesis unfolding pbuf_placed_def True using q(2) n(1) nk h(4,5)
        by (intro exI [of _ k']) (auto simp: pbuf_block_def)
    next
      case False
      then have "pbuf_placed ?s x = pbuf_placed s x" by (intro placed_cong) (simp_all add: other)
      then show ?thesis using D(5) x by simp
    qed
  qed (use D in auto)
  moreover have "refs_inv ?s R = refs_inv s R" by (rule refs_inv_cong) simp_all
  ultimately show ?thesis using h(1) i(1) by (auto simp: net_inv_def)
qed

text \<open>The packet that stays.\<close>

lemma packet_shrunk:
  assumes P: "packet s (as @ q # bs)" and d: "d = pb_len (pbufs s q) - r + chain_len s bs" "r \<le> pb_len (pbufs s q)"
    and s': "set (as @ [q]) \<subseteq> alive s'" "\<And>x. x \<in> set as \<Longrightarrow> tot_len (pbufs s' x) = tot_len (pbufs s x) - d \<and>
        pb_len (pbufs s' x) = pb_len (pbufs s x) \<and> pb_next (pbufs s' x) = pb_next (pbufs s x)"
      "pb_len (pbufs s' q) = r" "tot_len (pbufs s' q) = r" "pb_next (pbufs s' q) = NULL"
  shows "packet s' (as @ [q])" "chain_len s' (as @ [q]) = chain_len s as + r"
proof -
  have a: "packet_to s as q (chain_len s (q # bs))" "q \<noteq> NULL" using P by (auto simp: packet_to_append)
  have c: "chain_len s' xs = chain_len s xs" if "set xs \<subseteq> set as" for xs
    using that s'(2) by (intro chain_len_cong) auto
  have "packet_to s xs q (chain_len s (q # bs)) \<Longrightarrow> set xs \<subseteq> set as \<Longrightarrow> packet_to s' xs q r" for xs
  proof (induction xs)
    case (Cons x xs)
    then have t: "tot_len (pbufs s x) = pb_len (pbufs s x) + chain_len s xs + (pb_len (pbufs s q) + chain_len s bs)" by simp
    have "tot_len (pbufs s' x) = pb_len (pbufs s x) + chain_len s xs + r" using s'(2) [of x] Cons.prems(2) t d by simp
    then show ?case using Cons s'(1) s'(2) [of x] c [of xs] by auto
  qed simp
  then have "packet_to s' as q r" using a(1) by simp
  then show "packet s' (as @ [q])" using s'(1,3-5) a(2) by (simp add: packet_to_append)
  show "chain_len s' (as @ [q]) = chain_len s as + r" using c [of as] s'(3) by simp
qed

text \<open>The middle part of \<open>pbuf_realloc\<close>: the new last pbuf gets its new length, and its heap block is trimmed.\<close>

lemma realloc_last:
  assumes I: "net_inv s R" and q: "q \<in> alive s" "r \<le> pb_len (pbufs s q)" "pb_len (pbufs s q) < 65536"
    and c: "pb_type (pbufs s q) = PBUF_RAM \<longrightarrow> \<not> is_custom (pbufs s q)"
  shows "\<exists>h. (if pb_type (pbufs s q) = PBUF_RAM \<and> r \<noteq> pb_len (pbufs s q)
       then let (h, x) = mem_trim q (to_u16 (usub 16 (payload (pbufs s q)) q + r)) (heap s) in (s\<lparr>heap := h\<rparr>, x)
       else (s, q)) = (s\<lparr>heap := h\<rparr>, q) \<and>
     net_inv (upd_pbuf q (\<lambda>b. b\<lparr>pb_len := r, tot_len := r\<rparr>) (s\<lparr>heap := h\<rparr>)) R"
proof -
  let ?u = "upd_pbuf q (\<lambda>b. b\<lparr>pb_len := r, tot_len := r\<rparr>)"
  have u: "net_inv (?u s) R" by (rule net_move_payload [OF I q(1)]) (use q(2) in \<open>auto simp: upd_pbuf_def\<close>)
  show ?thesis
  proof (cases "pb_type (pbufs s q) = PBUF_RAM \<and> r \<noteq> pb_len (pbufs s q)")
    case False
    then show ?thesis using u by (intro exI [of _ "heap s"]) auto
  next
    case True
    then have po: "pool_of (pbufs s q) = None" using c by (auto simp: pool_of_def)
    have st: "store_inv s" using I by (simp add: net_inv_def)
    obtain k where k: "(q, k) \<in> mem_live (heap s)" "q + SIZEOF_STRUCT_PBUF \<le> payload (pbufs s q)"
      "payload (pbufs s q) + pb_len (pbufs s q) \<le> q + k"
      using store_invD(5) [OF st q(1)] po unfolding pbuf_placed_def pbuf_block_def by auto
    have "k < 65536" by (rule block_size [OF I q(1), of k]) (use k(1) po in \<open>auto simp: pbuf_block_def\<close>)
    then have n: "to_u16 (usub 16 (payload (pbufs s q)) q + r) = payload (pbufs s q) - q + r"
      using k(2,3) q(2) by (simp add: usub_def to_u16_def)
    have p: "pool_of (pbufs (?u s) q) = None" using po by (simp add: upd_pbuf_def pool_of_def is_custom_def split: if_splits)
    have "\<exists>h. mem_trim q (payload (pbufs s q) - q + r) (heap (?u s)) = (h, q) \<and> net_inv ((?u s)\<lparr>heap := h\<rparr>) R"
      by (rule net_trim [OF u _ p, of _ k]) (use q k in \<open>auto simp: upd_pbuf_def\<close>)
    then obtain h where h: "mem_trim q (payload (pbufs s q) - q + r) (heap s) = (h, q)" "net_inv ((?u s)\<lparr>heap := h\<rparr>) R"
      by (auto simp: upd_pbuf_def)
    have "(?u s)\<lparr>heap := h\<rparr> = ?u (s\<lparr>heap := h\<rparr>)" by (simp add: upd_pbuf_def)
    then show ?thesis using True h n by (intro exI [of _ h]) simp
  qed
qed

lemma realloc_tail:
  assumes I: "net_inv s R" and p: "p \<in># R" "p \<noteq> NULL" and P: "packet (put_next q NULL s) (as @ [q])" "first_ptr (as @ [q]) = p"
  defines "n \<equiv> pb_next (pbufs s q)"
  shows "\<exists>s4 c s'. (if n \<noteq> NULL then pbuf_free n s else Some (s, 0)) = Some (s4, c) \<and>
     upd_pbuf q (\<lambda>b. b\<lparr>pb_next := NULL\<rparr>) s4 = s' \<and> net_inv s' R \<and> net_frame (put_next q NULL s) s' \<and> set (as @ [q]) \<subseteq> alive s'"
proof -
  have q: "q \<in> alive s" using packet_alive [OF P(1), of q] by simp
  let ?s = "put_next q NULL s"
  have i: "net_inv ?s (add_mset n R)" unfolding n_def
    by (rule net_unlink [OF I q, of _ "tot_len (pbufs s q)"]) (auto simp: put_next_def upd_pbuf_def)
  obtain s' c where F: "pbuf_free n ?s = Some (s', c)" "net_inv s' R" "net_frame ?s s'" "p \<in> alive s'"
    by (rule free_tail [OF i]) (use p in blast)
  have surv: "set (as @ [q]) \<subseteq> alive s'" using chain_survives [OF P(1) F(3,2)] F(4) P(2) by blast
  have nq: "pb_next (pbufs s' q) = NULL" using net_frame_fields(1) [OF F(3), of q] by (simp add: put_next_def upd_pbuf_def)
  have bk: "put_next q n ?s = s" by (simp add: put_next_def upd_pbuf_def n_def)
  have fix_q: "upd_pbuf q (\<lambda>b. b\<lparr>pb_next := NULL\<rparr>) (put_next q x s') = s'" for x
    using nq by (simp add: put_next_def upd_pbuf_def fun_upd_idem)
  show ?thesis
  proof (cases "n = NULL")
    case True
    then have "?s = s" using bk by (simp add: put_next_def upd_pbuf_def n_def fun_upd_idem)
    then have "s' = s" using F(1) True by (simp add: pbuf_free_def)
    then show ?thesis using True F(2,3) surv fix_q [of NULL] \<open>?s = s\<close> by (auto simp: put_next_def)
  next
    case False
    then have l: "pbuf_free_loop n 0 ?s = Some (s', c)" using F(1) by (simp add: pbuf_free_def)
    have "pbuf_free_loop n 0 s = Some (put_next q n s', c)"
      using pbuf_free_put_next [OF i l, of q n] surv l bk by simp
    then show ?thesis using False F(2,3) surv fix_q by (auto simp: pbuf_free_def)
  qed
qed

lemma pbuf_realloc_spec:
  assumes I: "net_inv s R" and P: "packet s qs" "qs \<noteq> []" "first_ptr qs \<in># R" "chain_len s qs < 65536"
    and c: "\<forall>q\<in>set qs. pb_type (pbufs s q) = PBUF_RAM \<longrightarrow> \<not> is_custom (pbufs s q)"
  shows "\<exists>s' rs. pbuf_realloc (first_ptr qs) n s = Some s' \<and> net_inv s' R \<and> packet s' rs \<and> rs \<noteq> [] \<and> (\<exists>bs. qs = rs @ bs) \<and>
     chain_len s' rs = min n (chain_len s qs) \<and> ram_bytes s' = ram_bytes s \<and>
     (\<forall>x\<in>set rs. payload (pbufs s' x) = payload (pbufs s x)) \<and> (\<forall>x\<in>set (butlast rs). pb_len (pbufs s' x) = pb_len (pbufs s x))"
proof -
  let ?p = "first_ptr qs"
  have p: "?p \<in> alive s" "?p \<noteq> NULL" "tot_len (pbufs s ?p) = chain_len s qs" using P(1,2) by (cases qs; simp)+
  show ?thesis
  proof (cases "n \<ge> chain_len s qs")
    case True
    then have "pbuf_realloc ?p n s = Some s" using p by (simp add: pbuf_realloc_def get_pbuf_def)
    then show ?thesis using I P(1,2) True by (intro exI [of _ s] exI [of _ qs]) simp
  next
    case False
    define d where "d = chain_len s qs - n"
    have d: "n + d = chain_len s qs" "0 < d" using False by (simp_all add: d_def)
    have nd: "n + d < 65536" using d(1) P(4) by simp
    obtain as q bs where w: "qs = as @ q # bs" "chain_len s as \<le> n" "n - chain_len s as \<le> pb_len (pbufs s q)"
      "pbuf_realloc_walk ?p n (usub 16 n (n + d)) s = Some (sub_tot as d s, q, n - chain_len s as)"
      using realloc_walk_spec [OF P(1) d P(4) nd] by blast
    let ?r = "n - chain_len s as" and ?s1 = "sub_tot as d s"
    have q: "q \<in> alive s" "q \<notin> set as" using packet_alive [OF P(1), of q] packet_distinct [OF P(1)] w(1) by auto
    have "pb_len (pbufs s q) < 65536" using P(4) w(1) by simp
    then obtain h where h: "(if pb_type (pbufs ?s1 q) = PBUF_RAM \<and> ?r \<noteq> pb_len (pbufs ?s1 q)
       then let (h, x) = mem_trim q (to_u16 (usub 16 (payload (pbufs ?s1 q)) q + ?r)) (heap ?s1) in (?s1\<lparr>heap := h\<rparr>, x)
       else (?s1, q)) = (?s1\<lparr>heap := h\<rparr>, q)"
      "net_inv (upd_pbuf q (\<lambda>b. b\<lparr>pb_len := ?r, tot_len := ?r\<rparr>) (?s1\<lparr>heap := h\<rparr>)) R"
      using realloc_last [of ?s1 R q ?r] I q w(1,3) c by (auto simp: net_inv_sub_tot)
    let ?s3 = "upd_pbuf q (\<lambda>b. b\<lparr>pb_len := ?r, tot_len := ?r\<rparr>) (?s1\<lparr>heap := h\<rparr>)"
    let ?s4 = "put_next q NULL ?s3"
    have al: "set (as @ [q]) \<subseteq> alive s" using packet_alive [OF P(1)] w(1) by auto
    have dq: "d = pb_len (pbufs s q) - ?r + chain_len s bs" using d(1) w(1-3) by simp
    have f4: "pbufs ?s4 x = (if x = q then (pbufs s q)\<lparr>pb_len := ?r, tot_len := ?r, pb_next := NULL\<rparr> else pbufs ?s1 x)"
      "alive ?s4 = alive s" "ram_bytes ?s4 = ram_bytes s" for x
      using q(2) by (simp_all add: put_next_def upd_pbuf_def)
    note K = packet_shrunk [OF P(1) [unfolded w(1)] dq w(3), of ?s4]
    have k4: "packet ?s4 (as @ [q])" by (rule K(1)) (use q(2) al in \<open>auto simp: put_next_def upd_pbuf_def\<close>)
    have l4: "chain_len ?s4 (as @ [q]) = chain_len s as + ?r" by (rule K(2)) (use q(2) al in \<open>auto simp: put_next_def upd_pbuf_def\<close>)
    have fp: "first_ptr (as @ [q]) = ?p" using w(1) by (cases as) auto
    obtain s4 k s' where t: "(if pb_next (pbufs ?s3 q) \<noteq> NULL then pbuf_free (pb_next (pbufs ?s3 q)) ?s3 else Some (?s3, 0)) = Some (s4, k)"
      "upd_pbuf q (\<lambda>b. b\<lparr>pb_next := NULL\<rparr>) s4 = s'" "net_inv s' R" "net_frame ?s4 s'" "set (as @ [q]) \<subseteq> alive s'"
      using realloc_tail [OF h(2) P(3) p(2) k4 fp] by blast
    have "pbuf_realloc ?p n s = Some s'"
    proof -
      have a: "(q \<notin> alive (?s1\<lparr>heap := h\<rparr>)) = False" "(?p \<in> alive s) = True" "(n \<ge> tot_len (pbufs s ?p)) = False"
        using q(1) p False by simp_all
      have w': "pbuf_realloc_walk ?p n (usub 16 n (tot_len (pbufs s ?p))) s = Some (sub_tot as d s, q, ?r)"
        using w(4) d(1) p(3) by simp
      show ?thesis unfolding pbuf_realloc_def get_pbuf_def
        by (simp only: Let_def a if_True if_False option.case prod.case w' h(1) [unfolded Let_def] t(1,2))
    qed
    moreover have "packet s' (as @ [q]) = packet ?s4 (as @ [q])" "chain_len s' (as @ [q]) = chain_len ?s4 (as @ [q])"
      using net_frame_fields [OF t(4)] t(5) al f4(2) by (intro packet_to_cong; auto)+
    moreover have "payload (pbufs s' x) = payload (pbufs s x)" for x
      using net_frame_fields(2) [OF t(4), of x] by (simp add: f4)
    moreover have "pb_len (pbufs s' x) = pb_len (pbufs s x)" if "x \<in> set (butlast (as @ [q]))" for x
      using net_frame_fields(4) [OF t(4), of x] that q(2) by (auto simp: f4)
    moreover have "ram_bytes s' = ram_bytes s" using net_frameD(2) [OF t(4)] f4(3) by simp
    ultimately show ?thesis using k4 l4 t(3) w(1,2) False by (intro exI [of _ s'] exI [of _ "as @ [q]"]) simp
  qed
qed

end
