(* ===== verification/Pbuf_Safety.thy ===== *)
theory Pbuf_Safety
  imports Pbuf_Ops
begin

text \<open>
  The state after initialisation satisfies the ownership invariant, and the properties of the packet
  buffer module: freeing, allocating, chaining, splitting, resizing and moving headers one by one, and
  any run of a client over them.
\<close>

subsection \<open>After initialisation\<close>

definition pbuf_zero :: pbuf where
  "pbuf_zero = \<lparr>pb_next = NULL, payload = NULL, tot_len = 0, pb_len = 0, pb_type = PBUF_RAM, pb_flags = 0, pb_ref = 0\<rparr>"

definition net_start :: "ptr \<Rightarrow> ptr \<Rightarrow> (memp_t \<Rightarrow> nat) \<Rightarrow> net" where
  "net_start ram_heap memory struct_size =
     \<lparr>heap = mem_init ram_heap, pools = memp_init (memp_static memory struct_size), alive = {},
      pbufs = (\<lambda>_. pbuf_zero), frag_original = (\<lambda>_. NULL), ram_bytes = (\<lambda>_. 0), pbuf_free_ooseq_pending = False\<rparr>"

lemma memp_init_pools_static:
  "memp_memory (memp_init_pools ts m s) = memp_memory s" "memp_sizes (memp_init_pools ts m s) = memp_sizes s"
  by (induction ts m s rule: memp_init_pools.induct) (simp_all add: Let_def split: prod.split)

lemma net_start_inv:
  assumes "0 < r" "0 < m" "\<And>t. 0 < sz t" "r + 3 + MEM_SIZE_ALIGNED \<le> m"
  shows "net_inv (net_start r m sz) {#}"
proof -
  let ?s = "net_start r m sz"
  have p: "memp_inv (pools ?s)" "memp_live (pools ?s) = {}" using memp_static_init(1,2) [OF assms(2,3)] by (auto simp: net_start_def)
  have h: "mem_inv (heap ?s)" using mem_init_live [OF assms(1)] by (simp add: net_start_def)
  have stat: "memp_sizes (pools ?s) = memp_elem_size sz" "memp_memory (pools ?s) = m"
    by (simp_all add: net_start_def memp_static_def memp_init_def memp_init_pools_static)
  have "ram (heap ?s) + ram_end \<le> x" if "x \<in> memp_elems (pools ?s) t" for x t
  proof -
    have "mem_align_size m \<le> x" using pool_elems_bounds [OF that] stat(2) by (simp add: memp_base_def)
    then show ?thesis using assms(4) align_bounds(1) [of m] align_bounds(2) [of r] by (simp add: net_start_def mem_init_def)
  qed
  then have "store_inv ?s" unfolding store_inv_def separated_def using p h stat(1)
    by (auto simp: memp_elem_size_def, auto simp: net_start_def pbuf_zero_def is_custom_def)
  moreover have "refs_inv ?s {#}" by (simp add: refs_inv_def all_ptrs_def customs_def net_start_def)
  ultimately show ?thesis by (simp add: net_inv_def)
qed

text \<open>Two packets a freshly initialised system hands out: one from the heap, one from the pool.\<close>

lemma alloc_pool_short:
  assumes "memp_malloc MEMP_PBUF_POOL (pools s) = (pl, p)" "p \<noteq> NULL" "len \<le> 1643"
  shows "\<exists>s'. pbuf_alloc layer len PBUF_POOL s = Some (s', p) \<and> pb_next (pbufs s' p) = NULL \<and> pb_type (pbufs s' p) = PBUF_POOL"
proof -
  have "mem_align_size (pbuf_offset layer) \<le> 57" using align_bounds(2) [of "pbuf_offset layer"] offset_le [of layer] by linarith
  then have "len - min len (PBUF_POOL_BUFSIZE_ALIGNED - mem_align_size (pbuf_offset layer)) = 0" using assms(3) by simp
  then show ?thesis using assms(1,2) by (simp add: pbuf_alloc_def Let_def upd_pbuf_def claim_def)
qed

lemma fresh_alone:
  assumes "fresh_packet s p len s'" "pb_next (pbufs s' p) = NULL"
  shows "packet s' [p]" "pb_len (pbufs s' p) = len" "p \<notin> alive s" "p \<in> alive s'" "p \<noteq> NULL"
    "pb_ref (pbufs s' p) = 1" "\<not> is_custom (pbufs s' p)" "\<forall>x\<in>alive s. pbufs s' x = pbufs s x" "alive s' = insert p (alive s)"
proof -
  obtain qs where q: "qs \<noteq> []" "first_ptr qs = p" "packet s' qs" "chain_len s' qs = len" "set qs \<inter> alive s = {}" "alive s' = alive s \<union> set qs"
     "\<forall>x\<in>set qs. pb_ref (pbufs s' x) = 1 \<and> \<not> is_custom (pbufs s' x)" "\<forall>x\<in>alive s. pbufs s' x = pbufs s x"
    using assms(1) unfolding fresh_packet_def by blast
  have "qs = [p]" using q(1-3) assms(2) by (cases qs; cases "tl qs") auto
  then show "packet s' [p]" "pb_len (pbufs s' p) = len" "p \<notin> alive s" "p \<in> alive s'" "p \<noteq> NULL"
    "pb_ref (pbufs s' p) = 1" "\<not> is_custom (pbufs s' p)" "\<forall>x\<in>alive s. pbufs s' x = pbufs s x" "alive s' = insert p (alive s)"
    using q by auto
qed

lemma start_packets:
  defines "s0 \<equiv> net_start 1000 20000 (\<lambda>_. 20)"
  obtains s1 s2 q where
    "pbuf_alloc PBUF_RAW 100 PBUF_RAM s0 = Some (s1, 1008)" "net_inv s1 {#1008#}" "packet s1 [1008]"
    "pb_ref (pbufs s1 1008) = 1 \<and> \<not> is_custom (pbufs s1 1008)"
    "pbuf_alloc PBUF_RAW 50 PBUF_POOL s1 = Some (s2, q)" "net_inv s2 {#q, 1008#}" "packet s2 [1008]" "packet s2 [q]" "q \<noteq> 1008"
    "pb_len (pbufs s2 1008) = 100 \<and> pb_ref (pbufs s2 1008) = 1 \<and> \<not> is_custom (pbufs s2 1008) \<and> pb_type (pbufs s2 1008) = PBUF_RAM"
    "pb_len (pbufs s2 q) = 50 \<and> pb_ref (pbufs s2 q) = 1 \<and> \<not> is_custom (pbufs s2 q) \<and> pb_type (pbufs s2 q) = PBUF_POOL"
proof -
  have i0: "net_inv s0 {#}" unfolding s0_def by (rule net_start_inv) simp_all
  have n: "mem_align_size (SIZEOF_STRUCT_PBUF + pbuf_offset PBUF_RAW) + mem_align_size 100 = 116" "req_size 116 \<le> 8164"
    by (simp_all add: pbuf_offset_def mem_align_size_def req_size_def to_u16_def)
  obtain H where H: "mem_malloc 116 (heap s0) = Some (H, 1008)"
    using malloc_fresh [of 116] n(2) by (auto simp: s0_def net_start_def)
  obtain s1 where s1: "pbuf_alloc PBUF_RAW 100 PBUF_RAM s0 = Some (s1, 1008)" "pools s1 = pools s0"
      "pb_next (pbufs s1 1008) = NULL" "pb_type (pbufs s1 1008) = PBUF_RAM"
    using H unfolding pbuf_alloc_def Let_def pbuf_type.case n(1)
    by (simp add: to_u16_def upd_pbuf_def claim_def)
  then have S1: "net_inv s1 {#1008#}" "fresh_packet s0 1008 100 s1"
    using alloc_ram_spec [OF i0, of 100 PBUF_RAW] by auto
  note A = fresh_alone [OF S1(2) s1(3)]
  have st1: "store_inv s1" using S1(1) by (simp add: net_inv_def)
  have "length (memp_free_list (pools s1) MEMP_PBUF_POOL) = memp_num MEMP_PBUF_POOL"
    using memp_static_init(3) [of 20000 "\<lambda>_. 20" MEMP_PBUF_POOL] by (simp add: s1(2) s0_def net_start_def)
  then have "memp_free_list (pools s1) MEMP_PBUF_POOL \<noteq> []" by auto
  then obtain pl q where q: "memp_malloc MEMP_PBUF_POOL (pools s1) = (pl, q)" "q \<noteq> NULL"
    using memp_malloc_live [OF store_invD(2) [OF st1], of MEMP_PBUF_POOL] by auto
  then obtain s2 where s2: "pbuf_alloc PBUF_RAW 50 PBUF_POOL s1 = Some (s2, q)" "pb_next (pbufs s2 q) = NULL" "pb_type (pbufs s2 q) = PBUF_POOL"
    using alloc_pool_short [OF q, of 50 PBUF_RAW] by auto
  then have S2: "net_inv s2 {#q, 1008#}" "fresh_packet s1 q 50 s2"
    using alloc_pool_spec [OF S1(1), of 50 PBUF_RAW] q(2) by auto
  note B = fresh_alone [OF S2(2) s2(2)]
  have same: "pbufs s2 1008 = pbufs s1 1008" using B(8) A(4) by blast
  have nq: "q \<noteq> 1008" using A(4) B(3) by auto
  have "packet s2 [1008]" using A(1,4) same B(9) by simp
  then show thesis
    using A(2,6,7) B(2,6,7) s1(4) s2(3) by (intro that [OF s1(1) S1(1) A(1) _ s2(1) S2(1) _ B(1) nq]) (simp_all add: same)
qed

lemma net_inv_root: "net_inv s R \<Longrightarrow> q \<in># R \<Longrightarrow> q \<noteq> NULL \<Longrightarrow> q \<in> alive s"
  using refs_invD(6) [of s R q] by (auto simp: net_inv_def all_ptrs_def)

lemma fresh_head: "fresh_packet s p len s' \<Longrightarrow> p \<notin> alive s \<and> p \<in> alive s'"
  unfolding fresh_packet_def
proof (elim exE conjE)
  fix qs assume "qs \<noteq> []" "first_ptr qs = p" "set qs \<inter> alive s = {}" "alive s' = alive s \<union> set qs"
  then show ?thesis by (cases qs) auto
qed

subsection \<open>Properties\<close>

text \<open>
  C19: \<open>pbuf_free\<close> is safe on every state in which the counts are right: it always returns, gives up
  exactly the one reference it was called with, never frees a pbuf that somebody still holds, and
  touches neither the data nor any other field of the pbufs that stay.
\<close>

theorem pbuf_free_safe:
  assumes "net_inv s (add_mset p R)"
  shows "\<exists>s' n. pbuf_free p s = Some (s', n) \<and> net_inv s' R \<and> alive s' \<subseteq> alive s \<and> ram_bytes s' = ram_bytes s \<and>
    (\<forall>q. q \<in># R \<longrightarrow> q \<noteq> NULL \<longrightarrow> q \<in> alive s') \<and>
    (\<forall>q. (pbufs s' q)\<lparr>pb_ref := 0\<rparr> = (pbufs s q)\<lparr>pb_ref := 0\<rparr>)"
proof -
  obtain s' n where F: "pbuf_free p s = Some (s', n)" "net_inv s' R" "net_frame s s'"
    by (rule free_tail [OF assms]) blast
  show ?thesis using F(1,2) net_inv_root [OF F(2)] net_frameD(1,2,8) [OF F(3)] by blast
qed

theorem pbuf_free_safe_witness:
  "\<exists>s p q s' n. p \<noteq> q \<and> net_inv s {#p, q#} \<and> pbuf_free p s = Some (s', n) \<and> net_inv s' {#q#} \<and> q \<in> alive s'"
proof -
  obtain s2 q where s: "net_inv s2 {#q, 1008#}" "q \<noteq> 1008" by (rule start_packets) blast
  obtain s' n where F: "pbuf_free q s2 = Some (s', n)" "net_inv s' {#1008#}" "\<forall>x. x \<in># {#1008#} \<longrightarrow> x \<noteq> NULL \<longrightarrow> x \<in> alive s'"
    using pbuf_free_safe [OF s(1)] by blast
  then have "q \<noteq> 1008 \<and> net_inv s2 {#q, 1008#} \<and> pbuf_free q s2 = Some (s', n) \<and> net_inv s' {#1008#} \<and> 1008 \<in> alive s'"
    using s by auto
  then show ?thesis by blast
qed



text \<open>
  C21: \<open>pbuf_alloc\<close>, for every layer and type and every length that does not wrap the 16-bit size: it
  returns either NULL, with every pbuf it had taken so far given back, or a fresh packet: a chain of
  pbufs nobody else has, whose lengths add up to the request, with exactly one reference each. Pbufs
  that were in use before are not touched.
\<close>

theorem pbuf_alloc_correct:
  assumes "net_inv s R" "len \<le> 65456"
  shows "\<exists>s' p. pbuf_alloc layer len type s = Some (s', p) \<and>
    (if p = NULL then net_inv s' R \<and> alive s' = alive s \<and> (\<forall>x\<in>alive s. pbufs s' x = pbufs s x)
     else net_inv s' (add_mset p R) \<and> fresh_packet s p len s')"
proof (cases type)
  case PBUF_RAM
  then show ?thesis using alloc_ram_spec [OF assms] assms(1) by fastforce
next
  case PBUF_ROM
  then show ?thesis using alloc_ref_spec [OF assms(1), of PBUF_ROM layer len] assms(1) by fastforce
next
  case PBUF_REF
  then show ?thesis using alloc_ref_spec [OF assms(1), of PBUF_REF layer len] assms(1) by fastforce
next
  case PBUF_POOL
  then show ?thesis using alloc_pool_spec [OF assms(1), of len layer] assms(2) by (fastforce simp: gone_def)
qed

theorem pbuf_alloc_correct_witness:
  "\<exists>s' p. pbuf_alloc PBUF_TRANSPORT 3000 PBUF_POOL (net_start 1000 20000 (\<lambda>_. 20)) = Some (s', p) \<and>
     (if p = NULL then net_inv s' {#} else net_inv s' {#p#} \<and> fresh_packet (net_start 1000 20000 (\<lambda>_. 20)) p 3000 s')"
proof -
  have "net_inv (net_start 1000 20000 (\<lambda>_. 20)) {#}" by (rule net_start_inv) simp_all
  from pbuf_alloc_correct [OF this, of 3000 PBUF_TRANSPORT PBUF_POOL] show ?thesis by fastforce
qed

text \<open>
  C22: \<open>pbuf_cat\<close> and \<open>pbuf_chain\<close> put one packet behind another: the result is one packet with the
  pbufs of both and the sum of the lengths. The reference of the caller to the tail is taken over by
  \<open>pbuf_cat\<close> and kept by \<open>pbuf_chain\<close>.
\<close>

theorem pbuf_chain_correct:
  assumes "net_inv s (add_mset (first_ptr ts) R)" "packet s hs" "packet s ts" "hs \<noteq> []" "ts \<noteq> []"
    and "set hs \<inter> set ts = {}" "chain_len s hs + chain_len s ts < 65536" "pb_ref (pbufs s (first_ptr ts)) < 65535"
  shows "\<exists>s1 s2. pbuf_cat (first_ptr hs) (first_ptr ts) s = Some s1 \<and> net_inv s1 R \<and> packet s1 (hs @ ts) \<and>
    chain_len s1 (hs @ ts) = chain_len s hs + chain_len s ts \<and>
    pbuf_chain (first_ptr hs) (first_ptr ts) s = Some s2 \<and> net_inv s2 (add_mset (first_ptr ts) R) \<and> packet s2 (hs @ ts) \<and>
    pb_ref (pbufs s2 (first_ptr ts)) = pb_ref (pbufs s (first_ptr ts)) + 1"
proof -
  let ?t = "first_ptr ts"
  obtain s1 where C: "pbuf_cat (first_ptr hs) ?t s = Some s1" "net_inv s1 R" "packet s1 (hs @ ts)" "alive s1 = alive s"
    "\<forall>x. pb_len (pbufs s1 x) = pb_len (pbufs s x) \<and> payload (pbufs s1 x) = payload (pbufs s x) \<and> pb_ref (pbufs s1 x) = pb_ref (pbufs s x)"
    using pbuf_cat_spec [OF assms(1,2,4,3,5,6,7)] by blast
  have t: "?t \<in> alive s1" using assms(3,5) C(4) by (cases ts) auto
  have r: "pb_ref (pbufs s1 ?t) = pb_ref (pbufs s ?t)" using C(5) by blast
  let ?s2 = "upd_pbuf ?t (\<lambda>b. b\<lparr>pb_ref := pb_ref (pbufs s1 ?t) + 1\<rparr>) s1"
  have R: "pbuf_ref ?t s1 = Some ?s2" "net_inv ?s2 (add_mset ?t R)"
    using pbuf_ref_spec [OF C(2) t] r assms(8) by simp_all
  have "packet ?s2 (hs @ ts) = packet s1 (hs @ ts)" by (rule packet_to_cong) (auto simp: upd_pbuf_def)
  moreover have "chain_len s1 (hs @ ts) = chain_len s hs + chain_len s ts"
    using chain_len_cong [of "hs @ ts" s1 s] C(5) by simp
  moreover have "pb_ref (pbufs ?s2 ?t) = pb_ref (pbufs s ?t) + 1" using r by (simp add: upd_pbuf_def)
  ultimately show ?thesis using C(1-3) R by (simp add: pbuf_chain_def)
qed

theorem pbuf_chain_correct_witness:
  "\<exists>s p q s2. pbuf_chain p q s = Some s2 \<and> packet s2 [p, q] \<and> pb_ref (pbufs s q) = 1 \<and> pb_ref (pbufs s2 q) = 2"
proof -
  obtain s2 q where s: "net_inv s2 {#q, 1008#}" "packet s2 [1008]" "packet s2 [q]" "q \<noteq> 1008"
    "pb_len (pbufs s2 1008) = 100" "pb_len (pbufs s2 q) = 50" "pb_ref (pbufs s2 q) = 1"
    by (rule start_packets) blast
  obtain s3 where "pbuf_chain 1008 q s2 = Some s3" "packet s3 [1008, q]" "pb_ref (pbufs s3 q) = 2"
    using pbuf_chain_correct [of s2 "[q]" "{#1008#}" "[1008]"] s by auto
  then show ?thesis using s(7) by blast
qed

text \<open>
  C23: \<open>pbuf_dechain\<close> cuts a packet behind its first pbuf: the first pbuf becomes a packet of its own
  with its own length, the reference it had to the rest is given up, and the rest is returned exactly
  if somebody else still holds it (for fewer than 256 pbufs: the count of freed pbufs is 8 bits wide).
\<close>

theorem pbuf_dechain_correct:
  assumes "net_inv s R" "p \<in># R" "packet s (p # qs)" "qs \<noteq> []" "chain_len s (p # qs) < 65536" "length qs < 256"
    and "\<forall>q\<in>set qs. \<not> is_custom (pbufs s q)"
    and "(\<forall>q\<in>set qs. pb_ref (pbufs s q) = 1) \<or> 1 < pb_ref (pbufs s (first_ptr qs))"
  shows "\<exists>s' q. pbuf_dechain p s = Some (s', q) \<and> net_inv s' R \<and> packet s' [p] \<and> chain_len s' [p] = pb_len (pbufs s p) \<and>
    (if \<forall>q\<in>set qs. pb_ref (pbufs s q) = 1 then q = NULL \<and> alive s' = alive s - set qs
     else q = first_ptr qs \<and> alive s' = alive s \<and> packet s' qs)"
proof -
  let ?q = "first_ptr qs" and ?s2 = "upd_pbuf p (\<lambda>b. b\<lparr>pb_next := NULL, tot_len := pb_len b\<rparr>) s"
  note I = pbuf_dechain_spec(1) [OF assms(1-5)]
  obtain s' n where D: "pbuf_free ?q ?s2 = Some (s', n)" "pbuf_dechain p s = Some (s', if n > 0 then NULL else ?q)"
    "net_inv s' R" "net_frame ?s2 s'" "packet s' [p]" "chain_len s' [p] = chain_len s [p]"
    using pbuf_dechain_spec(2) [OF assms(1-5)] by blast
  have pk: "packet s qs" using assms(3) by simp
  have np: "p \<notin> set qs" using packet_distinct [OF assms(3)] by simp
  have same: "pbufs ?s2 x = pbufs s x" if "x \<noteq> p" for x using that by (simp add: upd_pbuf_def)
  have a2: "alive ?s2 = alive s" by (simp add: upd_pbuf_def)
  have sq: "pbufs ?s2 x = pbufs s x" if "x \<in> set qs" for x using np that by (intro same) auto
  have p2: "packet ?s2 qs = packet s qs" "chain_len ?s2 qs = chain_len s qs" using sq a2 by (intro packet_to_cong; simp)+
  have q: "?q \<noteq> NULL" "?q \<in> set qs" using pk assms(4) by (cases qs; simp)+
  have l: "pbuf_free_loop ?q 0 ?s2 = Some (s', n)" using D(1) q(1) by (simp add: pbuf_free_def)
  show ?thesis
  proof (cases "\<forall>q\<in>set qs. pb_ref (pbufs s q) = 1")
    case True
    then have "\<forall>x\<in>set qs. pb_ref (pbufs ?s2 x) = 1 \<and> \<not> is_custom (pbufs ?s2 x)" using assms(7) sq by simp
    from pbuf_free_prefix [of ?s2 qs NULL R 0 0, OF _ _ this] I pk p2 assms(4) l
    have "n = length qs mod 256 \<and> alive s' = alive s - set qs" by (simp add: a2)
    moreover have "length qs \<noteq> 0" using assms(4) by simp
    ultimately show ?thesis using D(2,3,5,6) True assms(6) by simp
  next
    case False
    then have "1 < pb_ref (pbufs ?s2 ?q)" using assms(8) sq [OF q(2)] by auto
    from pbuf_free_prefix [of ?s2 "[]" ?q R 0 0] this I l
    have n: "n = 0" "alive s' = alive s" by (simp_all add: a2)
    have "packet s' qs = packet ?s2 qs"
      using net_frame_fields [OF D(4)] n(2) a2 by (intro packet_to_cong) auto
    then show ?thesis unfolding if_not_P [OF False] using D(2,3,5,6) n pk p2(1) by simp
  qed
qed

theorem pbuf_dechain_correct_witness:
  "\<exists>s p q s'. packet s [p, q] \<and> pbuf_dechain p s = Some (s', NULL) \<and> net_inv s' {#p#} \<and> packet s' [p] \<and> q \<notin> alive s'"
proof -
  obtain s2 q where s: "net_inv s2 {#q, 1008#}" "packet s2 [1008]" "packet s2 [q]" "q \<noteq> 1008"
    "pb_len (pbufs s2 1008) = 100" "pb_len (pbufs s2 q) = 50" "pb_ref (pbufs s2 q) = 1" "\<not> is_custom (pbufs s2 q)"
    by (rule start_packets) blast
  obtain s3 where c: "net_inv s3 {#1008#}" "packet s3 [1008, q]" "pbufs s3 q = pbufs s2 q" "pb_len (pbufs s3 1008) = 100"
    using pbuf_cat_spec [of s2 "[q]" "{#1008#}" "[1008]"] s by auto
  obtain s' where "pbuf_dechain 1008 s3 = Some (s', NULL)" "net_inv s' {#1008#}" "packet s' [1008]" "alive s' = alive s3 - {q}"
    using pbuf_dechain_correct [of s3 "{#1008#}" 1008 "[q]"] c s(6-8) by auto
  then show ?thesis using c(2) by blast
qed



text \<open>
  C25: hiding a protocol header with \<open>pbuf_header\<close> and exposing it again gives back exactly the state
  before, in either order, for every packet with its payload in its own block; in between the
  ownership invariant holds, and a refused move changes nothing.
\<close>

theorem pbuf_header_roundtrip:
  assumes "net_inv s R" "p \<in> alive s" "\<not> is_custom (pbufs s p)" "tot_len (pbufs s p) < 65536"
    and "pb_type (pbufs s p) = PBUF_RAM \<or> pb_type (pbufs s p) = PBUF_POOL"
  shows "\<exists>s' e. pbuf_header p inc s = Some (s', e) \<and> net_inv s' R \<and>
    (e = 0 \<longrightarrow> pbuf_header p (- inc) s' = Some (s, 0)) \<and> (e \<noteq> 0 \<longrightarrow> s' = s)"
proof -
  obtain s' e where h: "pbuf_header p inc s = Some (s', e)" "net_inv s' R" "e = 0 \<or> e = 1 \<and> s' = s"
    using pbuf_header_inv [OF assms(1-3)] by blast
  show ?thesis using h pbuf_header_back [OF assms(1-3,5,4)] by auto
qed

theorem pbuf_header_roundtrip_witness:
  "\<exists>s p s'. pbuf_header p (- 20) s = Some (s', 0) \<and> s' \<noteq> s \<and> pbuf_header p 20 s' = Some (s, 0)"
proof -
  obtain s2 q where s: "net_inv s2 {#q, 1008#}" "packet s2 [1008]" "pb_len (pbufs s2 1008) = 100" "\<not> is_custom (pbufs s2 1008)"
    "pb_type (pbufs s2 1008) = PBUF_RAM"
    by (rule start_packets) blast
  have st: "store_inv s2" using s(1) by (simp add: net_inv_def)
  have po: "pool_of (pbufs s2 1008) = None" using s(4,5) by (simp add: pool_of_def)
  have "1008 + SIZEOF_STRUCT_PBUF \<le> payload (pbufs s2 1008)"
    using store_invD(5) [OF st, of 1008] s(2) po unfolding pbuf_placed_def by auto
  then have h: "pbuf_header 1008 (- 20) s2 = Some (move_header 1008 (- 20) s2, 0)"
    using pbuf_header_cases [of 1008 s2 "- 20"] s by simp
  then have "pbuf_header 1008 20 (move_header 1008 (- 20) s2) = Some (s2, 0)"
    using pbuf_header_roundtrip [OF s(1), of 1008 "- 20"] s by auto
  moreover have "move_header 1008 (- 20) s2 \<noteq> s2"
  proof
    assume "move_header 1008 (- 20) s2 = s2"
    then have "pb_len (pbufs (move_header 1008 (- 20) s2) 1008) = pb_len (pbufs s2 1008)" by simp
    then show False using s(3) by (simp add: add_s16_def)
  qed
  ultimately show ?thesis using h by blast
qed

subsection \<open>Runs of clients\<close>

text \<open>
  Everything a client can do with packets it holds: \<open>R\<close> are the references handed out. Each step is a
  call of the code; the side conditions are what the functions document.
\<close>

inductive net_step :: "net \<Rightarrow> ptr multiset \<Rightarrow> net \<Rightarrow> ptr multiset \<Rightarrow> bool" where
  alloc: "pbuf_alloc layer len type s = Some (s', p) \<Longrightarrow> len \<le> 65456 \<Longrightarrow> net_step s R s' (add_mset p R)"
| free: "pbuf_free p s = Some (s', n) \<Longrightarrow> net_step s (add_mset p R) s' R"
| ref: "p \<in># R \<Longrightarrow> pb_ref (pbufs s p) < 65535 \<Longrightarrow> pbuf_ref p s = Some s' \<Longrightarrow> net_step s R s' (add_mset p R)"
| header: "p \<in># R \<Longrightarrow> \<not> is_custom (pbufs s p) \<Longrightarrow> pbuf_header p inc s = Some (s', e) \<Longrightarrow> net_step s R s' R"
| cat: "packet s hs \<Longrightarrow> packet s ts \<Longrightarrow> hs \<noteq> [] \<Longrightarrow> ts \<noteq> [] \<Longrightarrow> set hs \<inter> set ts = {} \<Longrightarrow> chain_len s hs + chain_len s ts < 65536 \<Longrightarrow>
    pbuf_cat (first_ptr hs) (first_ptr ts) s = Some s' \<Longrightarrow> net_step s (add_mset (first_ptr ts) R) s' R"
| dechain: "p \<in># R \<Longrightarrow> packet s (p # qs) \<Longrightarrow> qs \<noteq> [] \<Longrightarrow> chain_len s (p # qs) < 65536 \<Longrightarrow>
    pbuf_dechain p s = Some (s', q) \<Longrightarrow> net_step s R s' R"
| realloc: "packet s qs \<Longrightarrow> qs \<noteq> [] \<Longrightarrow> first_ptr qs \<in># R \<Longrightarrow> chain_len s qs < 65536 \<Longrightarrow>
    \<forall>q\<in>set qs. pb_type (pbufs s q) = PBUF_RAM \<longrightarrow> \<not> is_custom (pbufs s q) \<Longrightarrow>
    pbuf_realloc (first_ptr qs) n s = Some s' \<Longrightarrow> net_step s R s' R"

inductive net_run :: "net \<Rightarrow> ptr multiset \<Rightarrow> net \<Rightarrow> ptr multiset \<Rightarrow> bool" where
  stop: "net_run s R s R"
| step: "net_run s R s1 R1 \<Longrightarrow> net_step s1 R1 s2 R2 \<Longrightarrow> net_run s R s2 R2"

lemma net_inv_NULL [simp]: "net_inv s (add_mset NULL R) = net_inv s R"
  by (simp add: net_inv_def)

lemma alloc_inv:
  assumes "net_inv s R" "len \<le> 65456" "pbuf_alloc layer len type s = Some (s', p)"
  shows "net_inv s' (add_mset p R)"
proof (cases type)
  case PBUF_RAM
  then show ?thesis using alloc_ram_spec [OF assms(1,2), of layer] assms(1,3) by auto
next
  case PBUF_ROM
  then show ?thesis using alloc_ref_spec [OF assms(1), of PBUF_ROM layer len] assms(1,3) by auto
next
  case PBUF_REF
  then show ?thesis using alloc_ref_spec [OF assms(1), of PBUF_REF layer len] assms(1,3) by auto
next
  case PBUF_POOL
  then show ?thesis using alloc_pool_spec [OF assms(1), of len layer] assms(2,3) by auto
qed

lemma net_step_inv: "net_step s R s' R' \<Longrightarrow> net_inv s R \<Longrightarrow> net_inv s' R'"
proof (induction rule: net_step.induct)
  case (alloc layer len type s s' p R)
  then show ?case using alloc_inv by blast
next
  case (free p s s' n R)
  obtain s2 k where "pbuf_free p s = Some (s2, k)" "net_inv s2 R" by (rule free_tail [OF free(2)]) blast
  then show ?case using free(1) by simp
next
  case (ref p R s s')
  show ?case
  proof (cases "p = NULL")
    case True
    then show ?thesis using ref by (simp add: pbuf_ref_def)
  next
    case False
    then have "p \<in> alive s" using net_inv_root [OF ref(4,1)] by simp
    then show ?thesis using pbuf_ref_spec [OF ref(4) _ ref(2)] ref(3) by simp
  qed
next
  case (header p R s inc s' e)
  show ?case
  proof (cases "p = NULL")
    case True
    then show ?thesis using header by (simp add: pbuf_header_def)
  next
    case False
    then have "p \<in> alive s" using net_inv_root [OF header(4,1)] by simp
    then show ?thesis using pbuf_header_inv [OF header(4) _ header(2), of inc] header(3) by auto
  qed
next
  case (cat s hs ts s' R)
  then show ?case using pbuf_cat_spec [OF cat(8,1,3,2,4,5,6)] by auto
next
  case (dechain p R s qs s' q)
  then show ?case using pbuf_dechain_spec(2) [OF dechain(6,1-4)] by auto
next
  case (realloc s qs R n s')
  then show ?case using pbuf_realloc_spec [OF realloc(7,1-5), of n] by auto
qed

text \<open>
  C1: in every state a client can reach from the initialised system by any interleaving of
  allocating, freeing, sharing, concatenating, splitting, resizing and moving headers, all reference
  counts are exact, no pointer dangles, every header lies in a live block of its allocator, and
  whatever the client still holds is alive.
\<close>

theorem net_run_safe:
  assumes "net_run (net_start ram_heap memory struct_size) {#} s R"
    and "0 < ram_heap" "ram_heap + 3 + MEM_SIZE_ALIGNED \<le> memory" "\<forall>t. 0 < struct_size t"
  shows "net_inv s R \<and> (\<forall>p. p \<in># R \<longrightarrow> p \<noteq> NULL \<longrightarrow> p \<in> alive s \<and> count R p \<le> pb_ref (pbufs s p))"
proof -
  have i: "net_inv s0 R0 \<Longrightarrow> net_run s0 R0 s R \<Longrightarrow> net_inv s R" for s0 R0
    by (rotate_tac, induction rule: net_run.induct) (auto dest: net_step_inv)
  have "net_inv (net_start ram_heap memory struct_size) {#}" using assms(2-4) by (intro net_start_inv) auto
  then have I: "net_inv s R" using i assms(1) by blast
  have "count R p \<le> pb_ref (pbufs s p)" if "p \<in> alive s" for p
  proof -
    have "pb_ref (pbufs s p) = count (all_ptrs s R) p" using refs_invD(5) I that by (auto simp: net_inv_def)
    then show ?thesis by (simp add: all_ptrs_def)
  qed
  then show ?thesis using I net_inv_root [OF I] by blast
qed

theorem net_run_safe_witness:
  "\<exists>s s' p n. net_run (net_start 1000 20000 (\<lambda>_. 20)) {#} s {#p#} \<and> p \<in> alive s \<and> pbuf_free p s = Some (s', n) \<and>
     net_run (net_start 1000 20000 (\<lambda>_. 20)) {#} s' {#} \<and> net_inv s' {#}"
proof -
  obtain s1 where s: "pbuf_alloc PBUF_RAW 100 PBUF_RAM (net_start 1000 20000 (\<lambda>_. 20)) = Some (s1, 1008)" "net_inv s1 {#1008#}"
    by (rule start_packets) blast
  have r1: "net_run (net_start 1000 20000 (\<lambda>_. 20)) {#} s1 {#1008#}"
    by (rule net_run.step [OF net_run.stop net_step.alloc [OF s(1)]]) simp
  obtain s' n where f: "pbuf_free 1008 s1 = Some (s', n)" by (rule free_tail [OF s(2)]) blast
  have r2: "net_run (net_start 1000 20000 (\<lambda>_. 20)) {#} s' {#}" by (rule net_run.step [OF r1 net_step.free [OF f]])
  show ?thesis using net_run_safe [OF r1] net_run_safe [OF r2] r1 r2 f by fastforce
qed

end
