(* ===== verification/Inet_Chksum.thy ===== *)
theory Inet_Chksum
  imports Pbuf_Safety
begin

text \<open>
  The byte-order helpers of \<^verbatim>\<open>core/def.c\<close> and the Internet checksum of
  \<^verbatim>\<open>core/ipv4/inet_chksum.c\<close>: the three versions of \<open>lwip_standard_chksum\<close> (this firmware is
  built with the third), the checksum of a block, of a packet-buffer chain, and of a chain under a pseudo header.
  A checksum is related to the one's complement sum of the bytes: \<open>internet_sum\<close>.  Shown: the three
  versions agree with it for every alignment and length; the checksum of a chain does not depend on how the bytes
  are cut into buffers; a block with its checksum stored verifies.
\<close>

unbundle bit_operations_syntax

subsection \<open>Byte order\<close>

definition lwip_htons :: "u16 \<Rightarrow> u16" where
  "lwip_htons n = push_bit 8 (n AND 0xff) OR drop_bit 8 (n AND 0xff00)"

definition lwip_ntohs :: "u16 \<Rightarrow> u16" where
  "lwip_ntohs n = push_bit 8 (n AND 0xff) OR drop_bit 8 (n AND 0xff00)"

definition lwip_htonl :: "u32 \<Rightarrow> u32" where
  "lwip_htonl n = push_bit 24 (n AND 0xff) OR push_bit 8 (n AND 0xff00) OR
     drop_bit 8 (n AND 0xff0000) OR drop_bit 24 (n AND 0xff000000)"

definition lwip_ntohl :: "u32 \<Rightarrow> u32" where
  "lwip_ntohl n = push_bit 24 (n AND 0xff) OR push_bit 8 (n AND 0xff00) OR
     drop_bit 8 (n AND 0xff0000) OR drop_bit 24 (n AND 0xff000000)"

definition FOLD_U32T :: "u32 \<Rightarrow> u32" where
  "FOLD_U32T u = drop_bit 16 u + (u AND 0xffff)"

definition SWAP_BYTES_IN_WORD :: "u32 \<Rightarrow> u32" where
  "SWAP_BYTES_IN_WORD w = push_bit 8 (w AND 0xff) OR drop_bit 8 (w AND 0xff00)"

definition ld16 :: "memory \<Rightarrow> ptr \<Rightarrow> u16" where
  "ld16 m a = word_of_nat (unat (m a) + 256 * unat (m (a + 1)))"

lemma FOLD_unat: "unat (FOLD_U32T u) = unat u div 65536 + unat u mod 65536"
proof -
  have "unat u < 4294967296" by simp
  then have "unat u div 65536 < 65536" by (simp add: less_mult_imp_div_less)
  moreover have "unat u mod 65536 < 65536" by simp
  ultimately have "unat u div 65536 + unat u mod 65536 < 4294967296" by linarith
  then show ?thesis unfolding FOLD_U32T_def masks
    by (simp add: unat_word_ariths unat_and_mask unat_drop)
qed

lemma SWAP_unat: "unat (SWAP_BYTES_IN_WORD w) = unat w mod 256 * 256 + unat w mod 65536 div 256"
proof -
  have h: "drop_bit 8 (w AND 0xff00) = drop_bit 8 (w AND mask 16)"
  proof (rule bit_word_eqI)
    fix n assume "n < LENGTH(32)"
    have f: "(0xff00::u32) = push_bit 8 (mask 8)" by (simp add: mask_eq_exp_minus_1 push_bit_eq_mult)
    show "bit (drop_bit 8 (w AND 0xff00)) n = bit (drop_bit 8 (w AND mask 16)) n"
      unfolding f by (auto simp: bit_simps)
  qed
  have d: "push_bit 8 (w AND mask 8) OR drop_bit 8 (w AND mask 16) = push_bit 8 (w AND mask 8) + drop_bit 8 (w AND mask 16)"
    by (rule or_as_add) (auto simp: bit_simps)
  have a: "unat (push_bit 8 (w AND mask 8)) = unat w mod 256 * 256"
    by (subst unat_push) (simp_all add: unat_and_mask)
  have b: "unat (drop_bit 8 (w AND mask 16)) = unat w mod 65536 div 256"
    unfolding unat_drop unat_and_mask by simp
  have "unat w mod 256 * 256 + unat w mod 65536 div 256 < 4294967296"
  proof -
    have "unat w mod 256 < 256" "unat w mod 65536 < 65536" by simp_all
    then have "unat w mod 65536 div 256 < 256" by (simp add: less_mult_imp_div_less)
    then show ?thesis using \<open>unat w mod 256 < 256\<close> by linarith
  qed
  then show ?thesis unfolding SWAP_BYTES_IN_WORD_def h masks d unat_word_ariths a b by simp
qed

lemma htons_ucast: "lwip_htons x = ucast (SWAP_BYTES_IN_WORD (ucast x))"
  unfolding lwip_htons_def SWAP_BYTES_IN_WORD_def
  by (rule bit_word_eqI) (auto simp: bit_simps)

lemma htons_unat: "unat (lwip_htons x) = unat x mod 256 * 256 + unat x div 256"
proof -
  have x: "unat x < 65536" by simp
  have u: "unat (ucast x :: u32) = unat x" using less_trans [OF x, of 4294967296] by (simp add: unsigned_ucast_eq take_bit_eq_mod)
  have "unat x mod 256 * 256 + unat x div 256 < 65536"
  proof -
    have "unat x div 256 < 256" using x by (simp add: less_mult_imp_div_less)
    moreover have "unat x mod 256 < 256" by simp
    ultimately show ?thesis by linarith
  qed
  then show ?thesis using x unfolding htons_ucast by (simp add: unsigned_ucast_eq take_bit_eq_mod SWAP_unat u)
qed

subsection \<open>The three checksum routines\<close>

text \<open>Version 1: bytes in pairs, most significant first.\<close>

fun chksum1_loop :: "nat \<Rightarrow> ptr \<Rightarrow> memory \<Rightarrow> u32 \<Rightarrow> u32" where
  "chksum1_loop len octetptr m acc =
     (if len > 1 then
        chksum1_loop (len - 2) (octetptr + 2) m
          (acc + ucast (push_bit 8 (ucast (m octetptr) :: u16) OR ucast (m (octetptr + 1))))
      else if len > 0 then acc + ucast (push_bit 8 (ucast (m octetptr) :: u16))
      else acc)"

definition lwip_standard_chksum1 :: "ptr \<Rightarrow> nat \<Rightarrow> memory \<Rightarrow> u16" where
  "lwip_standard_chksum1 dataptr len m =
     (let acc = chksum1_loop len dataptr m 0;
          acc = drop_bit 16 acc + (acc AND 0xffff);
          acc = (if acc AND 0xffff0000 \<noteq> 0 then drop_bit 16 acc + (acc AND 0xffff) else acc)
      in lwip_htons (ucast acc))"

text \<open>The loop over 16-bit words, shared by versions 2 and 3.\<close>

fun sum_words :: "nat \<Rightarrow> ptr \<Rightarrow> memory \<Rightarrow> u32 \<Rightarrow> u32 \<times> ptr \<times> nat" where
  "sum_words len ps m sm =
     (if len > 1 then sum_words (len - 2) (ps + 2) m (sm + ucast (ld16 m ps)) else (sm, ps, len))"

text \<open>The byte before the first aligned word, and the end of versions 2 and 3: the byte after the last
  word, the folds, and the exchange of the bytes after a start at an odd address.\<close>

definition chksum_start :: "ptr \<Rightarrow> nat \<Rightarrow> memory \<Rightarrow> u16 \<times> ptr \<times> nat" where
  "chksum_start dataptr len m =
     (if dataptr mod 2 = 1 \<and> len > 0 then (push_bit 8 (ucast (m dataptr)), dataptr + 1, len - 1)
      else (0, dataptr, len))"

definition chksum_end :: "ptr \<Rightarrow> u16 \<Rightarrow> u32 \<times> ptr \<times> nat \<Rightarrow> memory \<Rightarrow> u16" where
  "chksum_end dataptr t r m =
     (let (sm, ps, len) = r;
          t = (if len > 0 then t OR ucast (m ps) else t);
          sm = sm + ucast t;
          sm = FOLD_U32T sm;
          sm = FOLD_U32T sm;
          sm = (if dataptr mod 2 = 1 then SWAP_BYTES_IN_WORD sm else sm)
      in ucast sm)"

definition lwip_standard_chksum2 :: "ptr \<Rightarrow> nat \<Rightarrow> memory \<Rightarrow> u16" where
  "lwip_standard_chksum2 dataptr len m =
     (let (t, pb, len) = chksum_start dataptr len m
      in chksum_end dataptr t (sum_words len pb m 0) m)"

text \<open>Version 3: eight bytes at a time, carries added back.\<close>

definition add_carry :: "u32 \<Rightarrow> u32 \<Rightarrow> u32" where
  "add_carry sm w = (let tmp = sm + w in if tmp < sm then tmp + 1 else tmp)"

fun sum_longs :: "nat \<Rightarrow> ptr \<Rightarrow> memory \<Rightarrow> u32 \<Rightarrow> u32 \<times> ptr \<times> nat" where
  "sum_longs len pl m sm =
     (if len > 7 then sum_longs (len - 8) (pl + 8) m (add_carry (add_carry sm (ld32 m pl)) (ld32 m (pl + 4)))
      else (sm, pl, len))"

definition lwip_standard_chksum3 :: "ptr \<Rightarrow> nat \<Rightarrow> memory \<Rightarrow> u16" where
  "lwip_standard_chksum3 dataptr len m =
     (let (t, pb, len) = chksum_start dataptr len m;
          (sm, ps, len) = (if pb mod 4 \<noteq> 0 \<and> len > 1 then (ucast (ld16 m pb), pb + 2, len - 2) else (0, pb, len));
          (sm, pl, len) = sum_longs len ps m sm;
          sm = FOLD_U32T sm
      in chksum_end dataptr t (sum_words len pl m sm) m)"

declare chksum1_loop.simps [simp del] sum_words.simps [simp del] sum_longs.simps [simp del]

text \<open>The version this firmware is built with.\<close>

definition LWIP_CHKSUM :: "ptr \<Rightarrow> nat \<Rightarrow> memory \<Rightarrow> u16" where
  "LWIP_CHKSUM dataptr len m = lwip_standard_chksum3 dataptr len m"

definition inet_chksum :: "ptr \<Rightarrow> nat \<Rightarrow> memory \<Rightarrow> u16" where
  "inet_chksum dataptr len m = NOT (LWIP_CHKSUM dataptr len m)"

text \<open>The loop over a chain, shared by \<open>inet_chksum_pbuf\<close> and \<open>inet_chksum_pseudo\<close>.\<close>

partial_function (option) chksum_pbufs :: "ptr \<Rightarrow> u32 \<Rightarrow> bool \<Rightarrow> net \<Rightarrow> (u32 \<times> bool) option" where
  "chksum_pbufs q acc swapped s =
     (if q = NULL then Some (acc, swapped)
      else case get_pbuf q s of
        None \<Rightarrow> None
      | Some b \<Rightarrow>
          let acc = FOLD_U32T (acc + ucast (LWIP_CHKSUM (payload b) (pb_len b) (ram_bytes s)));
              (swapped, acc) = (if pb_len b mod 2 \<noteq> 0 then (\<not> swapped, SWAP_BYTES_IN_WORD acc) else (swapped, acc))
          in chksum_pbufs (pb_next b) acc swapped s)"

definition inet_chksum_pbuf :: "ptr \<Rightarrow> net \<Rightarrow> u16 option" where
  "inet_chksum_pbuf p s =
     (case chksum_pbufs p 0 False s of
        None \<Rightarrow> None
      | Some (acc, swapped) \<Rightarrow>
          let acc = (if swapped then SWAP_BYTES_IN_WORD acc else acc)
          in Some (ucast (NOT (acc AND 0xffff))))"

text \<open>The words of the pseudo header.\<close>

definition pseudo_sum :: "u32 \<Rightarrow> u32 \<Rightarrow> u8 \<Rightarrow> u16 \<Rightarrow> u32 \<Rightarrow> u32" where
  "pseudo_sum src dest proto proto_len acc =
     (let acc = acc + (src AND 0xffff);
          acc = acc + (drop_bit 16 src AND 0xffff);
          acc = acc + (dest AND 0xffff);
          acc = acc + (drop_bit 16 dest AND 0xffff);
          acc = acc + ucast (lwip_htons (ucast proto));
          acc = acc + ucast (lwip_htons proto_len)
      in acc)"

definition inet_chksum_pseudo :: "ptr \<Rightarrow> u32 \<Rightarrow> u32 \<Rightarrow> u8 \<Rightarrow> u16 \<Rightarrow> net \<Rightarrow> u16 option" where
  "inet_chksum_pseudo p src dest proto proto_len s =
     (case chksum_pbufs p 0 False s of
        None \<Rightarrow> None
      | Some (acc, swapped) \<Rightarrow>
          let acc = (if swapped then SWAP_BYTES_IN_WORD acc else acc);
              acc = pseudo_sum src dest proto proto_len acc;
              acc = FOLD_U32T acc;
              acc = FOLD_U32T acc
          in Some (ucast (NOT (acc AND 0xffff))))"

partial_function (option) chksum_pbufs_partial :: "ptr \<Rightarrow> nat \<Rightarrow> u32 \<Rightarrow> bool \<Rightarrow> net \<Rightarrow> (u32 \<times> bool) option" where
  "chksum_pbufs_partial q chksum_len acc swapped s =
     (if q = NULL \<or> chksum_len = 0 then Some (acc, swapped)
      else case get_pbuf q s of
        None \<Rightarrow> None
      | Some b \<Rightarrow>
          let chklen = (if pb_len b > chksum_len then chksum_len else pb_len b);
              acc = FOLD_U32T (acc + ucast (LWIP_CHKSUM (payload b) chklen (ram_bytes s)));
              (swapped, acc) = (if pb_len b mod 2 \<noteq> 0 then (\<not> swapped, SWAP_BYTES_IN_WORD acc) else (swapped, acc))
          in chksum_pbufs_partial (pb_next b) (chksum_len - chklen) acc swapped s)"

definition inet_chksum_pseudo_partial :: "ptr \<Rightarrow> u32 \<Rightarrow> u32 \<Rightarrow> u8 \<Rightarrow> u16 \<Rightarrow> nat \<Rightarrow> net \<Rightarrow> u16 option" where
  "inet_chksum_pseudo_partial p src dest proto proto_len chksum_len s =
     (case chksum_pbufs_partial p chksum_len 0 False s of
        None \<Rightarrow> None
      | Some (acc, swapped) \<Rightarrow>
          let acc = (if swapped then SWAP_BYTES_IN_WORD acc else acc);
              acc = pseudo_sum src dest proto proto_len acc;
              acc = FOLD_U32T acc;
              acc = FOLD_U32T acc
          in Some (ucast (NOT (acc AND 0xffff))))"

subsection \<open>The Internet sum\<close>

text \<open>One's complement sums as numbers: equal modulo 65535, and zero only together.\<close>

definition same_sum :: "nat \<Rightarrow> nat \<Rightarrow> bool" where
  "same_sum a b \<longleftrightarrow> a mod 65535 = b mod 65535 \<and> (a = 0 \<longleftrightarrow> b = 0)"

definition norm16 :: "nat \<Rightarrow> nat" where
  "norm16 n = (if n = 0 then 0 else (n - 1) mod 65535 + 1)"

text \<open>The reference: the bytes of a block as little-endian 16-bit words, summed.\<close>

fun le_sum :: "u8 list \<Rightarrow> nat" where
  "le_sum [] = 0"
| "le_sum [a] = unat a"
| "le_sum (a # b # bs) = unat a + 256 * unat b + le_sum bs"

definition internet_sum :: "u8 list \<Rightarrow> nat" where
  "internet_sum bs = norm16 (le_sum bs)"

lemma same_sum_refl [simp]: "same_sum a a"
  by (simp add: same_sum_def)

lemma same_sum_sym: "same_sum a b \<Longrightarrow> same_sum b a"
  by (simp add: same_sum_def)

lemma same_sum_trans [trans]: "same_sum a b \<Longrightarrow> same_sum b c \<Longrightarrow> same_sum a c"
  by (simp add: same_sum_def)

lemma same_sum_add: "same_sum a b \<Longrightarrow> same_sum c d \<Longrightarrow> same_sum (a + c) (b + d)"
proof -
  assume s: "same_sum a b" "same_sum c d"
  then have "(a + c) mod 65535 = (b + d) mod 65535" unfolding same_sum_def by (intro mod_add_cong) auto
  then show ?thesis using s by (auto simp: same_sum_def)
qed

lemma same_sum_mult: "same_sum a b \<Longrightarrow> same_sum (256 * a) (256 * b)"
  unfolding same_sum_def by (metis mod_mult_right_eq mult_eq_0_iff zero_neq_numeral)

lemma same_sum_plus: "b = a + 65535 * k \<Longrightarrow> (a = 0 \<Longrightarrow> k = 0) \<Longrightarrow> same_sum a b"
  by (auto simp: same_sum_def)

lemma norm16_unique:
  assumes "x \<le> 65535" "same_sum x n"
  shows "x = norm16 n"
proof (cases "n = 0")
  case True
  then show ?thesis using assms(2) by (simp add: same_sum_def norm16_def)
next
  case False
  then have x: "0 < x" "x mod 65535 = n mod 65535" using assms(2) by (auto simp: same_sum_def)
  have pred: "(a - 1) mod 65535 = (b - 1) mod 65535" if "a \<le> b" "0 < a" "a mod 65535 = b mod 65535" for a b :: nat
  proof -
    have "65535 dvd (b - 1) - (a - 1)" using that mod_eq_dvd_iff_nat [of a b 65535] by simp
    then show ?thesis using that(1) by (metis diff_le_mono mod_eq_dvd_iff_nat)
  qed
  have "(x - 1) mod 65535 = (n - 1) mod 65535"
  proof (cases "x \<le> n")
    case True
    then show ?thesis using x by (rule pred)
  next
    case le: False
    show ?thesis by (rule pred [symmetric]) (use le False x in auto)
  qed
  then show ?thesis using x(1) assms(1) False by (simp add: norm16_def)
qed


lemma le_sum_append: "even (length xs) \<Longrightarrow> le_sum (xs @ ys) = le_sum xs + le_sum ys"
  by (induction xs rule: le_sum.induct) auto

lemma le_sum_zero: "le_sum bs = 0 \<longleftrightarrow> (\<forall>b\<in>set bs. b = 0)"
  by (induction bs rule: le_sum.induct) (auto simp: unsigned_eq_0_iff)

lemma le_sum_Cons: "same_sum (le_sum (a # bs)) (unat a + 256 * le_sum bs)"
proof (induction bs arbitrary: a rule: le_sum.induct)
  case (2 b)
  then show ?case by (auto simp: same_sum_def)
next
  case (3 b c bs)
  have "same_sum (le_sum (a # b # c # bs)) (unat a + 256 * unat b + (unat c + 256 * le_sum bs))"
    using same_sum_add [OF same_sum_refl 3] by simp
  also have "same_sum \<dots> (unat a + 256 * (unat b + 256 * unat c + le_sum bs))"
  proof -
    show ?thesis by (rule same_sum_plus [of _ _ "unat c"]) auto
  qed
  finally show ?case by simp
qed simp

lemma FOLD_same: "same_sum (unat (FOLD_U32T u)) (unat u)"
proof -
  define q r where "q = unat u div 65536" and "r = unat u mod 65536"
  have u: "unat u = 65536 * q + r" by (simp add: q_def r_def)
  have "same_sum (q + r) (unat u)" unfolding u by (rule same_sum_plus [of _ _ q]) auto
  then show ?thesis unfolding FOLD_unat q_def r_def .
qed

lemma FOLD_le: "unat (FOLD_U32T u) \<le> 131070"
proof -
  have "unat u < 4294967296" by simp
  then have "unat u div 65536 < 65536" by (simp add: less_mult_imp_div_less)
  moreover have "unat u mod 65536 < 65536" by simp
  ultimately show ?thesis unfolding FOLD_unat by linarith
qed

lemma FOLD_small: "unat u \<le> 131070 \<Longrightarrow> unat (FOLD_U32T u) \<le> 65535"
proof -
  assume u: "unat u \<le> 131070"
  define q r where "q = unat u div 65536" and "r = unat u mod 65536"
  have e: "unat u = 65536 * q + r" "r < 65536" by (simp_all add: q_def r_def)
  then have "q = 0 \<or> q = 1" using u by linarith
  then show ?thesis using e u unfolding FOLD_unat q_def [symmetric] r_def [symmetric] by auto
qed

lemma FOLD_norm: "unat (FOLD_U32T (FOLD_U32T u)) = norm16 (unat u)"
  using norm16_unique [OF FOLD_small [OF FOLD_le] same_sum_trans [OF FOLD_same FOLD_same]] .

lemma SWAP_same: "unat w \<le> 65535 \<Longrightarrow> same_sum (unat (SWAP_BYTES_IN_WORD w)) (256 * unat w) \<and> unat (SWAP_BYTES_IN_WORD w) \<le> 65535"
proof -
  assume w: "unat w \<le> 65535"
  define q r where "q = unat w div 256" and "r = unat w mod 256"
  have e: "unat w = 256 * q + r" "r < 256" "q < 256" using w by (simp_all add: q_def r_def less_mult_imp_div_less)
  have s: "unat (SWAP_BYTES_IN_WORD w) = r * 256 + q" using w unfolding SWAP_unat q_def r_def by simp
  have "same_sum (r * 256 + q) (256 * unat w)" unfolding e(1) by (rule same_sum_plus [of _ _ q]) auto
  then show ?thesis using s e by simp
qed

lemma add_carry_same: "same_sum (unat (add_carry a b)) (unat a + unat b)"
proof (cases "unat a + unat b < 4294967296")
  case True
  then have "unat (a + b) = unat a + unat b" by (simp add: unat_word_ariths)
  then have "\<not> a + b < a" by (simp add: word_less_nat_alt)
  then show ?thesis using \<open>unat (a + b) = unat a + unat b\<close> by (simp add: add_carry_def Let_def)
next
  case False
  have l: "unat a < 4294967296" "unat b < 4294967296" by simp_all
  then have "unat a + unat b - 4294967296 < 4294967296" by linarith
  then have "(unat a + unat b) mod 4294967296 = unat a + unat b - 4294967296" using False by (simp add: le_mod_geq)
  then have u: "unat (a + b) = unat a + unat b - 4294967296" unfolding unat_word_ariths by simp
  then have "unat (a + b) < unat a" using l False by linarith
  then have "a + b < a" by (simp add: word_less_nat_alt)
  moreover have "unat (a + b) + 1 < 4294967296" using u l False by linarith
  then have "unat (a + b + 1) = unat a + unat b - 4294967296 + 1" using u by (simp add: unat_word_ariths(1) [of "a + b" 1])
  ultimately have v: "unat (add_carry a b) = unat a + unat b - 4294967295" using False by (simp add: add_carry_def Let_def)
  show ?thesis unfolding v by (rule same_sum_plus [of _ _ 65537]) (use False in auto)
qed

lemma unat_ld16: "unat (ld16 m a) = unat (m a) + 256 * unat (m (a + 1))"
proof -
  have "unat (m a) < 256" "unat (m (a + 1)) < 256" by simp_all
  then have "unat (m a) + 256 * unat (m (a + 1)) < 65536" by linarith
  then show ?thesis unfolding ld16_def by (rule unat_of_nat_u16)
qed

lemma unat_ld32: "unat (ld32 m a) = unat (ld16 m a) + 65536 * unat (ld16 m (a + 2))"
proof -
  have "unat (m a) < 256" "unat (m (a + 1)) < 256" "unat (m (a + 2)) < 256" "unat (m (a + 3)) < 256" by simp_all
  then have "unat (m a) + 256 * unat (m (a + 1)) + 65536 * unat (m (a + 2)) + 16777216 * unat (m (a + 3)) < 4294967296" by linarith
  then have "unat (ld32 m a) = unat (m a) + 256 * unat (m (a + 1)) + 65536 * unat (m (a + 2)) + 16777216 * unat (m (a + 3))"
    unfolding ld32_def by (rule unat_of_nat_u32)
  then show ?thesis unfolding unat_ld16 by (simp add: numeral_3_eq_3)
qed

lemma ld32_same: "same_sum (unat (ld32 m a)) (le_sum (bytes_at m a 4))"
proof -
  have "le_sum (bytes_at m a 4) = unat (ld16 m a) + unat (ld16 m (a + 2))"
    by (simp add: unat_ld16 numeral_eq_Suc bytes_at_Suc)
  moreover have "same_sum (unat (ld16 m a) + unat (ld16 m (a + 2))) (unat (ld32 m a))"
    by (rule same_sum_plus [of _ _ "unat (ld16 m (a + 2))"]) (simp_all add: unat_ld32)
  ultimately show ?thesis by (simp add: same_sum_sym)
qed

lemma unat_ucast16 [simp]: "unat (ucast (x :: u16) :: u32) = unat x"
  by (simp add: unsigned_ucast_eq take_bit_eq_mod less_trans [of _ 65536])

lemma sum_words_spec:
  "unat sm + 65535 * (len div 2) < 4294967296 \<Longrightarrow>
   \<exists>sm'. sum_words len ps m sm = (sm', ps + 2 * (len div 2), len mod 2) \<and>
     unat sm' = unat sm + le_sum (bytes_at m ps (2 * (len div 2)))"
proof (induction len ps m sm rule: sum_words.induct)
  case (1 len ps m sm)
  show ?case
  proof (cases "len > 1")
    case False
    then have "len div 2 = 0" "len mod 2 = len" by simp_all
    then show ?thesis using False by (simp add: sum_words.simps [of len])
  next
    case True
    define k where "k = (len - 2) div 2"
    have k: "len div 2 = Suc k" "(len - 2) mod 2 = len mod 2" using True by (simp_all add: k_def le_div_geq le_mod_geq)
    have w: "unat (ld16 m ps) \<le> 65535" using unat_u16_less [of "ld16 m ps"] by linarith
    have "unat (sm + ucast (ld16 m ps)) = unat sm + unat (ld16 m ps)"
      using 1(2) k(1) w by (simp add: unat_word_ariths)
    moreover from this have "unat (sm + ucast (ld16 m ps)) + 65535 * ((len - 2) div 2) < 4294967296"
      using 1(2) k(1) w k_def by simp
    from 1(1) [OF True this] obtain sm' where
      "sum_words (len - 2) (ps + 2) m (sm + ucast (ld16 m ps)) = (sm', ps + 2 + 2 * k, len mod 2)"
      "unat sm' = unat (sm + ucast (ld16 m ps)) + le_sum (bytes_at m (ps + 2) (2 * k))"
      using k k_def by auto
    moreover have "bytes_at m ps (2 * Suc k) = m ps # m (ps + 1) # bytes_at m (ps + 2) (2 * k)"
      by (simp add: bytes_at_Suc)
    ultimately show ?thesis using True k(1) by (simp add: unat_ld16 sum_words.simps [of len])
  qed
qed

lemma sum_longs_spec:
  "\<exists>sm'. sum_longs len pl m sm = (sm', pl + 8 * (len div 8), len mod 8) \<and>
     same_sum (unat sm') (unat sm + le_sum (bytes_at m pl (8 * (len div 8))))"
proof (induction len pl m sm rule: sum_longs.induct)
  case (1 len pl m sm)
  show ?case
  proof (cases "len > 7")
    case False
    then have "len div 8 = 0" "len mod 8 = len" by simp_all
    then show ?thesis using False by (simp add: sum_longs.simps [of len])
  next
    case True
    define k where "k = (len - 8) div 8"
    have k: "len div 8 = Suc k" "(len - 8) mod 8 = len mod 8" using True by (simp_all add: k_def le_div_geq le_mod_geq)
    let ?s = "add_carry (add_carry sm (ld32 m pl)) (ld32 m (pl + 4))"
    have "same_sum (unat ?s) (unat sm + le_sum (bytes_at m pl 4) + le_sum (bytes_at m (pl + 4) 4))"
      by (rule same_sum_trans [OF add_carry_same same_sum_add [OF same_sum_trans [OF add_carry_same same_sum_add [OF same_sum_refl ld32_same]] ld32_same]])
    then have c: "same_sum (unat ?s + le_sum (bytes_at m (pl + 8) (8 * k)))
        (unat sm + le_sum (bytes_at m pl 4) + le_sum (bytes_at m (pl + 4) 4) + le_sum (bytes_at m (pl + 8) (8 * k)))"
      by (rule same_sum_add) simp
    obtain sm' where s: "sum_longs (len - 8) (pl + 8) m ?s = (sm', pl + 8 + 8 * k, len mod 8)"
      "same_sum (unat sm') (unat ?s + le_sum (bytes_at m (pl + 8) (8 * k)))"
      using 1 [OF True] k k_def by auto
    have "bytes_at m pl (8 * Suc k) = bytes_at m pl 4 @ bytes_at m (pl + 4) 4 @ bytes_at m (pl + 8) (8 * k)"
      using bytes_at_add [of m pl 4 "4 + 8 * k"] bytes_at_add [of m "pl + 4" 4 "8 * k"] by (simp add: add.assoc)
    then have "same_sum (unat sm') (unat sm + le_sum (bytes_at m pl (8 * Suc k)))"
      using same_sum_trans [OF s(2) c] by (simp add: le_sum_append add.assoc)
    then show ?thesis using True k(1) s(1) by (simp add: sum_longs.simps [of len])
  qed
qed


subsection \<open>All versions compute the Internet sum\<close>

text \<open>The end bytes: the byte before the first word above the byte after the last.\<close>

definition end_bytes :: "nat \<Rightarrow> u16 \<Rightarrow> bool" where
  "end_bytes h t \<longleftrightarrow> (\<exists>b. h = unat b \<and> t = push_bit 8 (ucast (b :: u8)))"

lemma unat_ucast8 [simp]: "unat (ucast (x :: u8) :: u16) = unat x" "unat (ucast (x :: u8) :: u32) = unat x"
  by (simp_all add: unsigned_ucast_eq take_bit_eq_mod less_trans [of _ 256])

lemma end_bytes_0: "end_bytes 0 0"
  unfolding end_bytes_def by (rule exI [of _ 0]) simp

lemma end_bytes_1: "end_bytes (unat b) (push_bit 8 (ucast b))" for b :: u8
  unfolding end_bytes_def by blast

lemma less_65536: "x < 256 \<Longrightarrow> y < 256 \<Longrightarrow> 256 * x + y < (65536::nat)"
  by linarith

lemma end_bytes_unat:
  assumes "end_bytes h t"
  shows "unat t = 256 * h" "unat (t OR ucast (c :: u8)) = 256 * h + unat c" "h < 256"
proof -
  obtain b where b: "h = unat b" "t = push_bit 8 (ucast (b :: u8))" using assms by (auto simp: end_bytes_def)
  have l: "unat b < 256" "unat c < 256" by simp_all
  show "h < 256" using b l by simp
  have "unat (ucast b :: u16) * 2 ^ 8 < 2 ^ LENGTH(16)" using l by simp
  then show t: "unat t = 256 * h" unfolding b(2) by (subst unat_push) (simp_all add: b(1))
  have "t OR ucast c = t + ucast c" unfolding b(2) by (rule or_as_add) (auto simp: bit_simps dest!: bit_imp_le_length)
  then show "unat (t OR ucast c) = 256 * h + unat c" using t b(1) less_65536 [OF l] by (simp add: unat_word_ariths)
qed

lemma tail_sum:
  assumes t: "end_bytes h t" and s: "unat sm \<le> 131070" and n: "len < 65536"
  shows "\<exists>sm' ps' len'. sum_words len ps m sm = (sm', ps', len') \<and>
     unat (sm' + ucast (if len' > 0 then t OR ucast (m ps') else t)) = unat sm + 256 * h + le_sum (bytes_at m ps len)"
proof -
  have d: "len div 2 \<le> 32767" using n by simp
  obtain sm' where w: "sum_words len ps m sm = (sm', ps + 2 * (len div 2), len mod 2)"
    "unat sm' = unat sm + le_sum (bytes_at m ps (2 * (len div 2)))"
    using sum_words_spec [of sm len ps m] s d by auto
  let ?t = "if len mod 2 > 0 then t OR ucast (m (ps + 2 * (len div 2))) else t"
  have tt: "unat ?t = 256 * h + le_sum (bytes_at m (ps + 2 * (len div 2)) (len mod 2))"
    using end_bytes_unat [OF t] by (cases "len mod 2 = 0") (simp_all add: odd_iff_mod_2_eq_one [symmetric] bytes_at_Suc)
  have b: "bytes_at m ps len = bytes_at m ps (2 * (len div 2)) @ bytes_at m (ps + 2 * (len div 2)) (len mod 2)"
    using bytes_at_add [of m ps "2 * (len div 2)" "len mod 2"] by simp
  have le: "le_sum (bytes_at m ps (2 * j)) \<le> 65535 * j" for j ps
  proof (induction j arbitrary: ps)
    case (Suc j)
    have "unat (m ps) \<le> 255" "unat (m (ps + 1)) \<le> 255"
      using unat_u8_less [of "m ps"] unat_u8_less [of "m (ps + 1)"] by linarith+
    then show ?case using Suc [of "ps + 2"] by (simp add: bytes_at_Suc)
  qed simp
  have "unat sm' + unat ?t < 4294967296"
    using w(2) le [of ps "len div 2"] d s unat_u16_less [of ?t] by linarith
  then have "unat (sm' + ucast ?t) = unat sm' + unat ?t" by (simp add: unat_word_ariths)
  then show ?thesis using w tt b by (auto simp: le_sum_append)
qed

lemma finish_sum:
  assumes "same_sum (unat sm) n"
  shows "unat (ucast (FOLD_U32T (FOLD_U32T sm)) :: u16) = norm16 n"
    "unat (ucast (SWAP_BYTES_IN_WORD (FOLD_U32T (FOLD_U32T sm))) :: u16) = norm16 (256 * n)"
proof -
  let ?f = "FOLD_U32T (FOLD_U32T sm)"
  have f: "unat ?f \<le> 65535" "same_sum (unat ?f) n"
    using FOLD_small [OF FOLD_le] same_sum_trans [OF same_sum_trans [OF FOLD_same FOLD_same] assms] by auto
  have u: "unat x \<le> 65535 \<Longrightarrow> unat (ucast x :: u16) = unat x" for x :: u32
    by (simp add: unsigned_ucast_eq take_bit_eq_mod)
  show "unat (ucast ?f :: u16) = norm16 n" unfolding u [OF f(1)] by (rule norm16_unique [OF f])
  have g: "same_sum (unat (SWAP_BYTES_IN_WORD ?f)) (256 * n)" "unat (SWAP_BYTES_IN_WORD ?f) \<le> 65535"
    using SWAP_same [OF f(1)] same_sum_trans [OF _ same_sum_mult [OF f(2)]] by auto
  show "unat (ucast (SWAP_BYTES_IN_WORD ?f) :: u16) = norm16 (256 * n)" unfolding u [OF g(2)] by (rule norm16_unique [OF g(2,1)])
qed

lemma norm16_le: "norm16 n \<le> 65535"
proof -
  have "(n - 1) mod 65535 \<le> 65534" using mod_less_divisor [of 65535 "n - 1"] by linarith
  then show ?thesis unfolding norm16_def by (cases "n = 0") simp_all
qed

lemma norm16_same_sum: "same_sum (norm16 n) n"
proof (cases "n = 0")
  case False
  then have "((n - 1) mod 65535 + 1) mod 65535 = n mod 65535" by (simp add: mod_Suc_eq)
  then show ?thesis using False by (simp add: same_sum_def norm16_def)
qed (simp add: norm16_def)

lemma norm16_same: "same_sum a b \<Longrightarrow> norm16 a = norm16 b"
  by (rule norm16_unique [OF norm16_le same_sum_trans [OF norm16_same_sum]])

text \<open>Starting at an odd address, every byte counts in the other half of its word.\<close>

lemma odd_start:
  "same_sum (256 * (256 * unat (m p) + le_sum (bytes_at m (p + 1) n))) (le_sum (bytes_at m p (Suc n)))"
proof -
  have "same_sum (unat (m p) + 256 * le_sum (bytes_at m (p + 1) n)) (256 * (256 * unat (m p) + le_sum (bytes_at m (p + 1) n)))"
    by (rule same_sum_plus [of _ _ "unat (m p)"]) auto
  then show ?thesis unfolding bytes_at_Suc by (rule same_sum_trans [OF same_sum_sym same_sum_sym [OF le_sum_Cons]])
qed

lemma chksum_end_words:
  assumes "end_bytes h t" "unat sm \<le> 131070" "len < 65536"
    "same_sum ((if p mod 2 = 1 then 256 else 1) * (unat sm + 256 * h + le_sum (bytes_at m ps len))) n"
  shows "unat (chksum_end p t (sum_words len ps m sm) m) = norm16 n"
proof -
  obtain sm' ps' l where w: "sum_words len ps m sm = (sm', ps', l)"
     "unat (sm' + ucast (if l > 0 then t OR ucast (m ps') else t)) = unat sm + 256 * h + le_sum (bytes_at m ps len)"
    using tail_sum [OF assms(1-3)] by blast
  let ?s = "sm' + ucast (if l > 0 then t OR ucast (m ps') else t)"
  have s: "same_sum (unat ?s) (unat sm + 256 * h + le_sum (bytes_at m ps len))" unfolding w(2) by simp
  show ?thesis unfolding norm16_same [OF assms(4), symmetric] chksum_end_def w(1) Let_def prod.case
    using finish_sum [OF s] by (cases "p mod 2 = 1") simp_all
qed

lemma chksum_start_spec:
  assumes "chksum_start p len m = (t, pb, l)"
  obtains h where "end_bytes h t" "l \<le> len"
    "same_sum ((if p mod 2 = 1 then 256 else 1) * (256 * h + le_sum (bytes_at m pb l))) (le_sum (bytes_at m p len))"
proof (cases "p mod 2 = 1 \<and> len > 0")
  case True
  then have e: "t = push_bit 8 (ucast (m p))" "pb = p + 1" "len = Suc l"
    using assms by (auto simp: chksum_start_def)
  show thesis by (rule that [of "unat (m p)"]) (use True e odd_start [of m p l] end_bytes_1 in simp_all)
next
  case False
  then have e: "t = 0" "pb = p" "l = len" using assms by (auto simp: chksum_start_def)
  show thesis by (rule that [of 0]) (use False e end_bytes_0 in \<open>cases "len = 0"; simp\<close>)+
qed

lemma chksum2_sum: "len < 65536 \<Longrightarrow> unat (lwip_standard_chksum2 p len m) = internet_sum (bytes_at m p len)"
proof -
  assume n: "len < 65536"
  obtain t pb l where st: "chksum_start p len m = (t, pb, l)" by (cases "chksum_start p len m")
  obtain h where h: "end_bytes h t" "l \<le> len"
    "same_sum ((if p mod 2 = 1 then 256 else 1) * (256 * h + le_sum (bytes_at m pb l))) (le_sum (bytes_at m p len))"
    using chksum_start_spec [OF st] .
  show ?thesis unfolding lwip_standard_chksum2_def st Let_def prod.case internet_sum_def
    by (rule chksum_end_words [OF h(1)]) (use h(2,3) n in simp_all)
qed

lemma word_start:
  "1 < l \<Longrightarrow> unat (ucast (ld16 m pb) :: u32) + le_sum (bytes_at m (pb + 2) (l - 2)) = le_sum (bytes_at m pb l)"
  by (subst (2) le_add_diff_inverse [symmetric, of 2]) (simp_all add: bytes_at_Suc unat_ld16 numeral_2_eq_2)

lemma same_sum_times: "same_sum a b \<Longrightarrow> same_sum ((if c then 256 else 1) * a) ((if c then 256 else 1) * b)"
  using same_sum_mult by simp

lemma chksum3_sum: "len < 65536 \<Longrightarrow> unat (lwip_standard_chksum3 p len m) = internet_sum (bytes_at m p len)"
proof -
  assume n: "len < 65536"
  obtain t pb l where st: "chksum_start p len m = (t, pb, l)" by (cases "chksum_start p len m")
  obtain h where h: "end_bytes h t" "l \<le> len"
    "same_sum ((if p mod 2 = 1 then 256 else 1) * (256 * h + le_sum (bytes_at m pb l))) (le_sum (bytes_at m p len))"
    using chksum_start_spec [OF st] .
  obtain sm ps l1 where w: "(if pb mod 4 \<noteq> 0 \<and> l > 1 then (ucast (ld16 m pb) :: u32, pb + 2, l - 2) else (0, pb, l)) = (sm, ps, l1)"
    by (metis prod_cases3)
  have w': "unat sm + le_sum (bytes_at m ps l1) = le_sum (bytes_at m pb l)" "l1 \<le> l"
    using w word_start [of l m pb] by (auto split: if_splits)
  obtain sm' where x: "sum_longs l1 ps m sm = (sm', ps + 8 * (l1 div 8), l1 mod 8)"
     "same_sum (unat sm') (unat sm + le_sum (bytes_at m ps (8 * (l1 div 8))))" using sum_longs_spec by blast
  have b: "le_sum (bytes_at m ps (8 * (l1 div 8))) + le_sum (bytes_at m (ps + 8 * (l1 div 8)) (l1 mod 8)) = le_sum (bytes_at m ps l1)"
    using bytes_at_add [of m ps "8 * (l1 div 8)" "l1 mod 8"] by (simp add: le_sum_append)
  have "same_sum (unat (FOLD_U32T sm') + (256 * h + le_sum (bytes_at m (ps + 8 * (l1 div 8)) (l1 mod 8))))
      (unat sm + le_sum (bytes_at m ps (8 * (l1 div 8))) + (256 * h + le_sum (bytes_at m (ps + 8 * (l1 div 8)) (l1 mod 8))))"
    by (rule same_sum_add [OF same_sum_trans [OF FOLD_same x(2)] same_sum_refl])
  then have "same_sum (unat (FOLD_U32T sm') + 256 * h + le_sum (bytes_at m (ps + 8 * (l1 div 8)) (l1 mod 8))) (256 * h + le_sum (bytes_at m pb l))"
    unfolding w'(1) [symmetric] b [symmetric] by (simp add: algebra_simps)
  from same_sum_trans [OF same_sum_times [OF this] h(3)]
  show ?thesis unfolding lwip_standard_chksum3_def st Let_def prod.case w x(1) internet_sum_def
    by (intro chksum_end_words [OF h(1) FOLD_le]) simp_all
qed

lemma chksum1_loop_spec:
  "unat acc + 65535 * (len div 2 + 1) < 4294967296 \<Longrightarrow>
   same_sum (unat (chksum1_loop len ps m acc)) (unat acc + 256 * le_sum (bytes_at m ps len))"
proof (induction len ps m acc rule: chksum1_loop.induct)
  case (1 len ps m acc)
  have w: "unat (ucast (push_bit 8 (ucast a :: u16) OR ucast b) :: u32) = 256 * unat a + unat b"
      "unat (ucast (push_bit 8 (ucast a :: u16)) :: u32) = 256 * unat a" "256 * unat a + unat b \<le> 65535" for a b :: u8
    using end_bytes_unat [OF end_bytes_1 [of a]] less_65536 [OF unat_u8_less unat_u8_less, of a b] by (simp_all del: unat_u8_less)
  consider "len = 0" | "len = 1" | "len > 1" by linarith
  then show ?case
  proof cases
    case 2
    have "unat (acc + ucast (push_bit 8 (ucast (m ps) :: u16))) = unat acc + 256 * unat (m ps)"
      using 1(2) 2 w(3) [of "m ps" 0] unfolding unat_word_ariths w(2) by simp
    then show ?thesis using 2 by (simp add: chksum1_loop.simps [of 1, unfolded One_nat_def] bytes_at_Suc)
  next
    case 3
    let ?w = "ucast (push_bit 8 (ucast (m ps) :: u16) OR ucast (m (ps + 1))) :: u32"
    have k: "len div 2 = Suc ((len - 2) div 2)" "len = Suc (Suc (len - 2))" using 3 by (simp_all add: le_div_geq)
    have a: "unat (acc + ?w) = unat acc + unat ?w"
      using 1(2) k(1) w(3) [of "m ps" "m (ps + 1)"] unfolding unat_word_ariths w(1) by simp
    have "same_sum (unat (chksum1_loop (len - 2) (ps + 2) m (acc + ?w))) (unat (acc + ?w) + 256 * le_sum (bytes_at m (ps + 2) (len - 2)))"
      by (rule 1(1) [OF 3]) (use 1(2) k(1) w(3) [of "m ps" "m (ps + 1)"] in \<open>unfold a w(1), simp\<close>)
    also have "same_sum \<dots> (unat acc + 256 * le_sum (bytes_at m ps len))"
      by (rule same_sum_plus [of _ _ "unat (m (ps + 1))"], unfold a w(1), subst k(2)) (simp_all add: bytes_at_Suc)
    finally show ?thesis using 3 by (simp add: chksum1_loop.simps [of len])
  qed (simp add: chksum1_loop.simps [of 0])
qed

lemma FOLD_high: "x AND 0xffff0000 = 0 \<Longrightarrow> FOLD_U32T x = x"
proof -
  assume a: "x AND 0xffff0000 = 0"
  have m: "(0xffff0000 :: u32) = push_bit 16 (mask 16)" "(0xffff :: u32) = mask 16" by (simp_all add: mask_eq_exp_minus_1)
  have no: "\<not> bit x n" if "16 \<le> n" for n
    using that arg_cong [OF a, of "\<lambda>w. bit w n"] bit_imp_le_length [of x n] unfolding m(1) by (auto simp: bit_simps)
  have "drop_bit 16 x = 0" by (rule bit_word_eqI) (simp add: bit_simps no)
  moreover have "x AND 0xffff = x" unfolding m(2) by (rule bit_word_eqI) (use no not_less in \<open>auto simp: bit_simps\<close>)
  ultimately show ?thesis by (simp add: FOLD_U32T_def)
qed

lemma chksum1_sum: "len < 65536 \<Longrightarrow> unat (lwip_standard_chksum1 p len m) = internet_sum (bytes_at m p len)"
proof -
  assume n: "len < 65536"
  let ?a = "chksum1_loop len p m 0"
  let ?f = "FOLD_U32T ?a"
  have "len div 2 \<le> 32767" using n by simp
  then have a: "same_sum (unat ?a) (256 * le_sum (bytes_at m p len))" using chksum1_loop_spec [of 0 len p m] by simp
  have g: "(if ?f AND 0xffff0000 \<noteq> 0 then FOLD_U32T ?f else ?f) = FOLD_U32T ?f" by (simp add: FOLD_high)
  have l: "unat (FOLD_U32T ?f) \<le> 65535" by (rule FOLD_small [OF FOLD_le])
  have u: "unat (ucast (FOLD_U32T ?f) :: u16) = unat (FOLD_U32T ?f)" using l by (simp add: unsigned_ucast_eq take_bit_eq_mod)
  have h: "unat (lwip_htons (ucast (FOLD_U32T ?f))) = unat (SWAP_BYTES_IN_WORD (FOLD_U32T ?f))"
    using l unfolding htons_unat u by (simp add: SWAP_unat)
  have "same_sum (unat (SWAP_BYTES_IN_WORD (FOLD_U32T ?f))) (256 * unat (FOLD_U32T ?f))" using SWAP_same [OF l] by auto
  also have "same_sum \<dots> (256 * (256 * le_sum (bytes_at m p len)))"
    by (rule same_sum_mult [OF same_sum_trans [OF same_sum_trans [OF FOLD_same FOLD_same] a]])
  also have "same_sum \<dots> (le_sum (bytes_at m p len))" by (rule same_sum_sym, rule same_sum_plus [of _ _ "le_sum (bytes_at m p len)"]) auto
  finally show ?thesis
    unfolding lwip_standard_chksum1_def Let_def FOLD_U32T_def [symmetric] g h internet_sum_def
    using SWAP_same [OF l] by (intro norm16_unique) auto
qed


subsection \<open>Checksums of a chain\<close>

abbreviation flip :: "bool \<Rightarrow> nat" where "flip b \<equiv> if b then 256 else 1"

text \<open>The bytes of a packet, in the order the chain holds them.\<close>

definition packet_bytes :: "net \<Rightarrow> ptr list \<Rightarrow> u8 list" where
  "packet_bytes s qs = concat (map (\<lambda>q. bytes_at (ram_bytes s) (payload (pbufs s q)) (pb_len (pbufs s q))) qs)"

lemma packet_bytes_simps [simp]: "packet_bytes s [] = []"
  "packet_bytes s (q # qs) = bytes_at (ram_bytes s) (payload (pbufs s q)) (pb_len (pbufs s q)) @ packet_bytes s qs"
  by (simp_all add: packet_bytes_def)

lemma length_packet_bytes: "length (packet_bytes s qs) = chain_len s qs"
  by (induction qs) (simp_all add: chain_len_def)

lemma le_sum_append_any: "same_sum (le_sum (xs @ ys)) (le_sum xs + flip (odd (length xs)) * le_sum ys)"
proof (induction xs rule: le_sum.induct)
  case (2 a)
  then show ?case using le_sum_Cons [of a ys] by simp
next
  case (3 a b xs)
  from same_sum_add [OF same_sum_refl 3, of "unat a + 256 * unat b"] show ?case by (simp add: add.assoc)
qed simp

lemma flip_flip: "same_sum (flip (a \<noteq> b) * (flip b * n)) (flip a * n)"
  by (cases a; cases b) (auto intro!: same_sum_sym [OF same_sum_plus [of _ _ n]])

lemma add_chksum:
  fixes od :: bool
  assumes "unat acc \<le> 65535" "len < 65536" and b: "bs = bytes_at m p len"
  defines "acc1 \<equiv> FOLD_U32T (acc + ucast (LWIP_CHKSUM p len m))"
  defines "acc2 \<equiv> (if od then SWAP_BYTES_IN_WORD acc1 else acc1)"
  shows "unat acc2 \<le> 65535" "same_sum (unat acc2) (flip od * (unat acc + le_sum bs))"
proof -
  let ?c = "LWIP_CHKSUM p len m"
  have c: "unat ?c = internet_sum bs" unfolding LWIP_CHKSUM_def b by (rule chksum3_sum [OF assms(2)])
  have cs: "same_sum (unat ?c) (le_sum bs)" unfolding c internet_sum_def by (rule norm16_same_sum)
  have l: "unat acc + unat ?c \<le> 131070" using assms(1) unat_u16_less [of ?c] by linarith
  then have a: "unat (acc + ucast ?c) = unat acc + unat ?c" by (simp add: unat_word_ariths)
  have s1: "unat acc1 \<le> 65535" unfolding acc1_def by (rule FOLD_small) (use a l in simp)
  have s2: "same_sum (unat acc1) (unat acc + le_sum bs)"
    unfolding acc1_def by (rule same_sum_trans [OF FOLD_same]) (unfold a, rule same_sum_add [OF same_sum_refl cs])
  show "unat acc2 \<le> 65535" using s1 SWAP_same [OF s1] by (simp add: acc2_def)
  show "same_sum (unat acc2) (flip od * (unat acc + le_sum bs))"
    using s2 same_sum_trans [OF conjunct1 [OF SWAP_same [OF s1]] same_sum_mult [OF s2]] unfolding acc2_def by (cases od) simp_all
qed

text \<open>One step of the loops: the buffer's bytes enter the sum at the parity the chain has reached.\<close>

lemma join_sum:
  assumes "(od \<longleftrightarrow> odd (length bs)) \<or> cs = []" 
  shows "same_sum (flip od * (n + le_sum bs) + le_sum cs) (flip od * (n + le_sum (bs @ cs)))"
proof -
  have "same_sum (flip od * (n + le_sum (bs @ cs))) (flip od * (n + (le_sum bs + flip (odd (length bs)) * le_sum cs)))"
    by (rule same_sum_times [OF same_sum_add [OF same_sum_refl le_sum_append_any]])
  also have "same_sum \<dots> (flip od * (n + le_sum bs) + le_sum cs)"
  proof (cases "od \<and> cs \<noteq> []")
    case True
    then show ?thesis using assms by (intro same_sum_sym [OF same_sum_plus [of _ _ "le_sum cs"]]) auto
  next
    case False
    then show ?thesis using assms by (cases "cs = []") (simp_all add: add.assoc)
  qed
  finally show ?thesis by (rule same_sum_sym)
qed

lemma chain_sum_step:
  assumes "same_sum (unat acc2) (flip od * (unat acc + le_sum bs))" "(od \<longleftrightarrow> odd (length bs)) \<or> cs = []" 
    "same_sum r (flip (sw \<noteq> od) * (unat acc2 + le_sum cs))"
  shows "same_sum r (flip sw * (unat acc + le_sum (bs @ cs)))"
proof -
  have "same_sum (flip (sw \<noteq> od) * (unat acc2 + le_sum cs)) (flip (sw \<noteq> od) * (flip od * (unat acc + le_sum bs) + le_sum cs))"
    by (rule same_sum_times [OF same_sum_add [OF assms(1) same_sum_refl]])
  also have "same_sum \<dots> (flip (sw \<noteq> od) * (flip od * (unat acc + le_sum (bs @ cs))))"
    by (rule same_sum_times) (rule join_sum [OF assms(2)])
  also have "same_sum \<dots> (flip sw * (unat acc + le_sum (bs @ cs)))" by (rule flip_flip)
  finally show ?thesis by (rule same_sum_trans [OF assms(3)])
qed

lemma chksum_pbufs_spec:
  "packet s qs \<Longrightarrow> \<forall>q\<in>set qs. pb_len (pbufs s q) < 65536 \<Longrightarrow> unat acc \<le> 65535 \<Longrightarrow>
   \<exists>acc' sw'. chksum_pbufs (first_ptr qs) acc sw s = Some (acc', sw') \<and> unat acc' \<le> 65535 \<and>
     same_sum (flip sw' * unat acc') (flip sw * (unat acc + le_sum (packet_bytes s qs)))"
proof (induction qs arbitrary: acc sw)
  case Nil
  then show ?case by (auto simp: chksum_pbufs.simps [of NULL] first_ptr_def)
next
  case (Cons q qs)
  let ?b = "pbufs s q"
  let ?bs = "bytes_at (ram_bytes s) (payload ?b) (pb_len ?b)"
  let ?od = "pb_len ?b mod 2 \<noteq> 0"
  let ?a1 = "FOLD_U32T (acc + ucast (LWIP_CHKSUM (payload ?b) (pb_len ?b) (ram_bytes s)))"
  let ?a2 = "if ?od then SWAP_BYTES_IN_WORD ?a1 else ?a1"
  have q: "q \<noteq> NULL" "q \<in> alive s" "pb_next ?b = first_ptr qs" "packet s qs" "pb_len ?b < 65536"
    using Cons.prems by (auto split: if_splits simp: first_ptr_def)
  have ql: "\<forall>q\<in>set qs. pb_len (pbufs s q) < 65536" using Cons.prems(2) by simp
  note a = add_chksum [OF Cons.prems(3) q(5) refl, where m = "ram_bytes s" and p = "payload ?b" and od = ?od]
  obtain acc' sw' where r: "chksum_pbufs (first_ptr qs) ?a2 (sw \<noteq> ?od) s = Some (acc', sw')" "unat acc' \<le> 65535"
    "same_sum (flip sw' * unat acc') (flip (sw \<noteq> ?od) * (unat ?a2 + le_sum (packet_bytes s qs)))"
    using Cons.IH [OF q(4) ql a(1)] by blast
  have "same_sum (flip sw' * unat acc') (flip sw * (unat acc + le_sum (packet_bytes s (q # qs))))"
    unfolding packet_bytes_simps by (rule chain_sum_step [OF a(2) _ r(3)]) (simp add: odd_iff_mod_2_eq_one)
  moreover have "chksum_pbufs (first_ptr (q # qs)) acc sw s = chksum_pbufs (first_ptr qs) ?a2 (sw \<noteq> ?od) s"
    using q(1-3) by (cases ?od) (simp_all add: chksum_pbufs.simps [of q] first_ptr_def get_pbuf_def)
  ultimately show ?case using r by auto
qed

lemma chksum_pbufs_partial_spec:
  "packet s qs \<Longrightarrow> \<forall>q\<in>set qs. pb_len (pbufs s q) < 65536 \<Longrightarrow> unat acc \<le> 65535 \<Longrightarrow>
   \<exists>acc' sw'. chksum_pbufs_partial (first_ptr qs) n acc sw s = Some (acc', sw') \<and> unat acc' \<le> 65535 \<and>
     same_sum (flip sw' * unat acc') (flip sw * (unat acc + le_sum (take n (packet_bytes s qs))))"
proof (induction qs arbitrary: acc sw n)
  case Nil
  then show ?case by (auto simp: chksum_pbufs_partial.simps [of NULL] first_ptr_def)
next
  case (Cons q qs)
  let ?b = "pbufs s q"
  let ?n = "if pb_len ?b > n then n else pb_len ?b"
  let ?bs = "bytes_at (ram_bytes s) (payload ?b) ?n"
  let ?od = "pb_len ?b mod 2 \<noteq> 0"
  let ?a1 = "FOLD_U32T (acc + ucast (LWIP_CHKSUM (payload ?b) ?n (ram_bytes s)))"
  let ?a2 = "if ?od then SWAP_BYTES_IN_WORD ?a1 else ?a1"
  have q: "q \<noteq> NULL" "q \<in> alive s" "pb_next ?b = first_ptr qs" "packet s qs" "?n < 65536"
    using Cons.prems by (auto split: if_splits simp: first_ptr_def)
  have ql: "\<forall>q\<in>set qs. pb_len (pbufs s q) < 65536" using Cons.prems(2) by simp
  show ?case
  proof (cases "n = 0")
    case True
    then show ?thesis using Cons.prems(3) by (auto simp: chksum_pbufs_partial.simps [of _ 0])
  next
    case n: False
    note a = add_chksum [OF Cons.prems(3) q(5) refl, where m = "ram_bytes s" and p = "payload ?b" and od = ?od]
    obtain acc' sw' where r: "chksum_pbufs_partial (first_ptr qs) (n - ?n) ?a2 (sw \<noteq> ?od) s = Some (acc', sw')" "unat acc' \<le> 65535"
      "same_sum (flip sw' * unat acc') (flip (sw \<noteq> ?od) * (unat ?a2 + le_sum (take (n - ?n) (packet_bytes s qs))))"
      using Cons.IH [OF q(4) ql a(1)] by blast
    have "take n (packet_bytes s (q # qs)) = ?bs @ take (n - ?n) (packet_bytes s qs)" by (simp add: min_def)
    moreover have "same_sum (flip sw' * unat acc') (flip sw * (unat acc + le_sum (?bs @ take (n - ?n) (packet_bytes s qs))))"
      by (rule chain_sum_step [OF a(2) _ r(3)]) (simp add: odd_iff_mod_2_eq_one)
    moreover have "chksum_pbufs_partial (first_ptr (q # qs)) n acc sw s = chksum_pbufs_partial (first_ptr qs) (n - ?n) ?a2 (sw \<noteq> ?od) s"
      using q(1-3) n by (cases ?od) (simp_all add: chksum_pbufs_partial.simps [of q] first_ptr_def get_pbuf_def Let_def)
    ultimately show ?thesis using r by auto
  qed
qed

text \<open>The last lines: complement of the folded sum.\<close>

lemma low_not: "ucast (NOT (x AND 0xffff)) = (NOT (ucast x) :: u16)" for x :: u32
  by (rule bit_word_eqI) (auto simp: bit_simps mask_eq_exp_minus_1 [of 16, where 'a = u32, simplified, symmetric])

lemma unswap_sum:
  assumes "unat acc \<le> 65535" "same_sum (flip sw * unat acc) n"
  defines "acc' \<equiv> (if sw then SWAP_BYTES_IN_WORD acc else acc)"
  shows "unat acc' \<le> 65535" "same_sum (unat acc') n"
  using assms(1,2) SWAP_same [OF assms(1)] same_sum_trans [OF conjunct1 [OF SWAP_same [OF assms(1)]], of n]
  by (cases sw; simp add: acc'_def)+

lemma ucast_norm:
  assumes "unat (acc :: u32) \<le> 65535" "same_sum (unat acc) n"
  shows "(ucast acc :: u16) = word_of_nat (norm16 n)"
  unfolding norm16_unique [OF assms, symmetric] by simp

lemma chain_result:
  assumes "unat acc \<le> 65535" "same_sum (flip sw * unat acc) n"
  shows "ucast (NOT ((if sw then SWAP_BYTES_IN_WORD acc else acc) AND 0xffff)) = (NOT (word_of_nat (norm16 n)) :: u16)"
  unfolding low_not ucast_norm [OF unswap_sum [OF assms]] ..

text \<open>The bytes of the pseudo header, in network order; an address is held as it lies in memory.\<close>

definition addr_bytes :: "u32 \<Rightarrow> u8 list" where
  "addr_bytes a = [ucast a, ucast (drop_bit 8 a), ucast (drop_bit 16 a), ucast (drop_bit 24 a)]"

definition pseudo_header :: "u32 \<Rightarrow> u32 \<Rightarrow> u8 \<Rightarrow> u16 \<Rightarrow> u8 list" where
  "pseudo_header src dest proto proto_len =
     addr_bytes src @ addr_bytes dest @ [0, proto, ucast (drop_bit 8 proto_len), ucast proto_len]"

lemma low_half: "unat (w AND 0xffff) = unat w mod 65536" for w :: u32
  unfolding masks unat_and_mask by simp

lemma addr_words: "le_sum (addr_bytes a) = unat (a AND 0xffff) + unat (drop_bit 16 a AND 0xffff)"
proof -
  have c: "n mod 65536 = n mod 256 + 256 * (n div 256 mod 256)" for n :: nat
    using mod_mult2_eq [of n 256 256] by simp
  have "unat a div 65536 div 256 = unat a div 16777216" by (simp add: div_mult2_eq [symmetric])
  then show ?thesis using c [of "unat a"] c [of "unat a div 65536"]
    unfolding low_half addr_bytes_def le_sum.simps unat_low_byte unat_drop by simp
qed

lemma pseudo_words:
  "le_sum (pseudo_header src dest proto proto_len) =
   unat (src AND 0xffff) + unat (drop_bit 16 src AND 0xffff) + unat (dest AND 0xffff) + unat (drop_bit 16 dest AND 0xffff) +
   unat (lwip_htons (ucast proto)) + unat (lwip_htons proto_len)"
proof -
  have "even (length (addr_bytes x))" for x by (simp add: addr_bytes_def)
  moreover have "unat proto_len div 256 < 256" using unat_u16_less [of proto_len] by (simp add: less_mult_imp_div_less)
  then have "unat (ucast (drop_bit 8 proto_len) :: u8) = unat proto_len div 256" unfolding unat_low_byte unat_drop by simp
  moreover have "unat (lwip_htons (ucast proto)) = 256 * unat proto" unfolding htons_unat by (simp add: mod_less)
  ultimately show ?thesis
    by (simp add: pseudo_header_def le_sum_append addr_words htons_unat unat_low_byte)
qed

lemma pseudo_sum_unat:
  assumes "unat acc \<le> 65535"
  shows "unat (pseudo_sum src dest proto proto_len acc) = le_sum (pseudo_header src dest proto proto_len) + unat acc"
proof -
  have p: "unat (k + a + b + c + d + e + f) = unat a + unat b + unat c + unat d + unat e + unat f + unat k"
    if "unat k < 65536" "unat a < 65536" "unat b < 65536" "unat c < 65536" "unat d < 65536" "unat e < 65536" "unat f < 65536"
    for k a b c d e f :: u32 using that by (simp add: unat_word_ariths)
  have h: "unat (ucast z :: u32) = unat z" for z :: u16
    using unat_u16_less [of z] by (simp add: unsigned_ucast_eq take_bit_eq_mod)
  have b: "unat (w AND 0xffff) < 65536" for w :: u32 unfolding low_half by simp
  show ?thesis unfolding pseudo_sum_def Let_def pseudo_words
    by (subst p) (use assms in \<open>simp_all only: h b unat_u16_less\<close>, linarith?)
qed

text \<open>A checksum under a pseudo header, from the sum of the data.\<close>

lemma pseudo_result:
  assumes "unat acc \<le> 65535" "same_sum (flip sw * unat acc) (le_sum bs)"
    and x_def: "x = pseudo_sum src dest proto proto_len (if sw then SWAP_BYTES_IN_WORD acc else acc)"
  shows "ucast (NOT (FOLD_U32T (FOLD_U32T x) AND 0xffff)) =
    (NOT (word_of_nat (internet_sum (pseudo_header src dest proto proto_len @ bs))) :: u16)"
proof -
  note u = unswap_sum [OF assms(1,2)]
  have "even (length (pseudo_header src dest proto proto_len))" by (simp add: pseudo_header_def addr_bytes_def)
  then have "same_sum (unat x) (le_sum (pseudo_header src dest proto proto_len @ bs))"
    unfolding x_def pseudo_sum_unat [OF u(1)] using same_sum_add [OF same_sum_refl u(2)] by (simp add: le_sum_append)
  then have "same_sum (unat (FOLD_U32T (FOLD_U32T x))) (le_sum (pseudo_header src dest proto proto_len @ bs))"
    by (rule same_sum_trans [OF same_sum_trans [OF FOLD_same FOLD_same]])
  then show ?thesis unfolding low_not internet_sum_def by (subst ucast_norm) (auto intro: FOLD_small FOLD_le)
qed

text \<open>A 16-bit store, and what a checksum field stored in a block adds to its sum.\<close>

definition st16 :: "ptr \<Rightarrow> u16 \<Rightarrow> memory \<Rightarrow> memory" where
  "st16 a w m = m(a := ucast w, a + 1 := ucast (drop_bit 8 w))"

lemma le_sum_store:
  assumes "2 * k + 2 \<le> len" "m (p + 2 * k) = 0" "m (p + 2 * k + 1) = 0"
  shows "le_sum (bytes_at (st16 (p + 2 * k) w m) p len) = le_sum (bytes_at m p len) + unat w"
proof -
  let ?m = "st16 (p + 2 * k) w m"
  have l: "2 * k + Suc (Suc (len - 2 * k - 2)) = len" using assms(1) by simp
  have split: "bytes_at h p len = bytes_at h p (2 * k) @ h (p + 2 * k) # h (p + 2 * k + 1) # bytes_at h (p + 2 * k + 2) (len - 2 * k - 2)" for h
    using bytes_at_add [of h p "2 * k" "Suc (Suc (len - 2 * k - 2))"] unfolding l bytes_at_Suc by (simp add: add.assoc)
  have e: "bytes_at ?m p (2 * k) = bytes_at m p (2 * k)"
    "bytes_at ?m (p + 2 * k + 2) (len - 2 * k - 2) = bytes_at m (p + 2 * k + 2) (len - 2 * k - 2)"
    by (rule bytes_at_cong, simp add: st16_def)+
  have v: "?m (p + 2 * k) = ucast w" "?m (p + 2 * k + 1) = ucast (drop_bit 8 w)" by (simp_all add: st16_def)
  have "unat w div 256 < 256" using unat_u16_less [of w] by (simp add: less_mult_imp_div_less)
  then have "unat (ucast w :: u8) + 256 * unat (ucast (drop_bit 8 w) :: u8) = unat w"
    unfolding unat_low_byte unat_drop by simp
  then show ?thesis unfolding split [of ?m] split [of m] e v assms(2,3) by (simp add: le_sum_append)
qed

lemma inet_chksum_in_place:
  assumes "len < 65536" "2 * k + 2 \<le> len" "m (p + 2 * k) = 0" "m (p + 2 * k + 1) = 0"
  shows "inet_chksum p len (st16 (p + 2 * k) (inet_chksum p len m) m) = 0"
proof -
  let ?x = "LWIP_CHKSUM p len m" and ?m = "st16 (p + 2 * k) (inet_chksum p len m) m"
  have x: "unat ?x = internet_sum (bytes_at m p len)" unfolding LWIP_CHKSUM_def by (rule chksum3_sum [OF assms(1)])
  have n: "unat (NOT ?x) = 65535 - unat ?x" using unat_not [of ?x] by simp
  have "same_sum (unat ?x + unat (NOT ?x)) (le_sum (bytes_at ?m p len))"
    unfolding le_sum_store [OF assms(2-4)] inet_chksum_def x internet_sum_def
    by (rule same_sum_add [OF norm16_same_sum same_sum_refl])
  then have "same_sum 65535 (le_sum (bytes_at ?m p len))" using n unat_u16_less [of ?x] by simp
  then have "unat (LWIP_CHKSUM p len ?m) = 65535"
    unfolding LWIP_CHKSUM_def chksum3_sum [OF assms(1)] internet_sum_def by (intro norm16_unique [symmetric]) auto
  then show ?thesis unfolding inet_chksum_def using unat_not [of "LWIP_CHKSUM p len ?m"] by (simp add: inet_chksum_def unat_eq_0)
qed

subsection \<open>Properties\<close>

text \<open>C26: The three versions of \<open>lwip_standard_chksum\<close> that \<open>inet_chksum.c\<close> offers - bytes in pairs,
  16-bit words, and 32-bit words with the carries added back - are equivalent: on every block of less than 64
  Kbyte, at every alignment, each returns the one's complement sum of the block's bytes.\<close>

theorem lwip_standard_chksum_equiv:
  assumes "len < 65536"
  shows "lwip_standard_chksum1 p len m = word_of_nat (internet_sum (bytes_at m p len)) \<and>
    lwip_standard_chksum2 p len m = word_of_nat (internet_sum (bytes_at m p len)) \<and>
    lwip_standard_chksum3 p len m = word_of_nat (internet_sum (bytes_at m p len))"
  using chksum1_sum [OF assms] chksum2_sum [OF assms] chksum3_sum [OF assms] by (intro conjI word_ofI)

theorem lwip_standard_chksum_equiv_witness:
  "lwip_standard_chksum1 3 7 (\<lambda>a. word_of_nat a) = word_of_nat (internet_sum [3, 4, 5, 6, 7, 8, 9]) \<and>
   lwip_standard_chksum2 3 7 (\<lambda>a. word_of_nat a) = word_of_nat (internet_sum [3, 4, 5, 6, 7, 8, 9]) \<and>
   lwip_standard_chksum3 3 7 (\<lambda>a. word_of_nat a) = word_of_nat (internet_sum [3, 4, 5, 6, 7, 8, 9])"
  using lwip_standard_chksum_equiv [of 7 3 "\<lambda>a. word_of_nat a"] by (simp add: bytes_at_def upt_rec)

lemma chksum_chain:
  assumes "packet s qs" "\<forall>q\<in>set qs. pb_len (pbufs s q) < 65536"
  shows "inet_chksum_pbuf (first_ptr qs) s = Some (NOT (word_of_nat (internet_sum (packet_bytes s qs)))) \<and>
    inet_chksum_pseudo (first_ptr qs) src dest proto proto_len s =
      Some (NOT (word_of_nat (internet_sum (pseudo_header src dest proto proto_len @ packet_bytes s qs)))) \<and>
    inet_chksum_pseudo_partial (first_ptr qs) src dest proto proto_len chksum_len s =
      Some (NOT (word_of_nat (internet_sum (pseudo_header src dest proto proto_len @ take chksum_len (packet_bytes s qs)))))"
proof -
  obtain acc sw where a: "chksum_pbufs (first_ptr qs) 0 False s = Some (acc, sw)" "unat acc \<le> 65535"
     "same_sum (flip sw * unat acc) (le_sum (packet_bytes s qs))"
    using chksum_pbufs_spec [OF assms, of 0 False] by auto
  obtain acc' sw' where b: "chksum_pbufs_partial (first_ptr qs) chksum_len 0 False s = Some (acc', sw')" "unat acc' \<le> 65535"
     "same_sum (flip sw' * unat acc') (le_sum (take chksum_len (packet_bytes s qs)))"
    using chksum_pbufs_partial_spec [OF assms, of 0 chksum_len False] by auto
  show ?thesis using chain_result [OF a(2,3)] pseudo_result [OF a(2,3) refl] pseudo_result [OF b(2,3) refl]
    by (simp add: inet_chksum_pbuf_def inet_chksum_pseudo_def inet_chksum_pseudo_partial_def a(1) b(1) internet_sum_def Let_def)
qed

text \<open>C27: The checksum of a packet-buffer chain is the complement of the one's complement sum of the packet's
  bytes, however the packet is cut into buffers: a buffer of odd length shifts the bytes that follow into the other
  half of their words, and \<open>inet_chksum_pbuf\<close> makes up for it.  With a pseudo header, the sum is that of the twelve
  bytes of RFC 793 followed by the data, or by its first \<open>chksum_len\<close> bytes.\<close>

theorem inet_chksum_chain:
  assumes "packet s qs" "\<forall>q\<in>set qs. pb_len (pbufs s q) < 65536"
  shows "inet_chksum_pbuf (first_ptr qs) s = Some (NOT (word_of_nat (internet_sum (packet_bytes s qs)))) \<and>
    inet_chksum_pseudo (first_ptr qs) src dest proto proto_len s =
      Some (NOT (word_of_nat (internet_sum (pseudo_header src dest proto proto_len @ packet_bytes s qs)))) \<and>
    inet_chksum_pseudo_partial (first_ptr qs) src dest proto proto_len chksum_len s =
      Some (NOT (word_of_nat (internet_sum (pseudo_header src dest proto proto_len @ take chksum_len (packet_bytes s qs)))))"
  by (rule chksum_chain [OF assms])

theorem inet_chksum_chain_witness:
  "\<exists>s qs. packet s qs \<and> qs = [1008] \<and> chain_len s qs = 100 \<and>
    inet_chksum_pbuf 1008 s = Some (NOT (word_of_nat (internet_sum (packet_bytes s qs))))"
proof -
  obtain s where s: "packet s [1008]" "pb_len (pbufs s 1008) = 100" by (rule start_packets) blast
  have "inet_chksum_pbuf (first_ptr [1008]) s = Some (NOT (word_of_nat (internet_sum (packet_bytes s [1008]))))"
    using inet_chksum_chain [OF s(1)] s(2) by simp
  then show ?thesis using s by (intro exI [of _ s]) (simp add: first_ptr_def chain_len_def)
qed

text \<open>C28: A block with its checksum in place verifies: if the checksum field (at an even offset) is zero while
  \<open>inet_chksum\<close> is computed, and the result is stored there, \<open>inet_chksum\<close> over the block returns 0, which is
  what a receiver of the header tests.\<close>

theorem inet_chksum_verifies:
  assumes "len < 65536" "2 * k + 2 \<le> len" "m (p + 2 * k) = 0" "m (p + 2 * k + 1) = 0"
  shows "inet_chksum p len (st16 (p + 2 * k) (inet_chksum p len m) m) = 0"
  using assms by (rule inet_chksum_in_place)

theorem inet_chksum_verifies_witness:
  "inet_chksum 100 8 (st16 102 (inet_chksum 100 8 ((\<lambda>_. 7)(102 := 0, 103 := 0))) ((\<lambda>_. 7)(102 := 0, 103 := 0))) = 0"
  using inet_chksum_verifies [of 8 1 "(\<lambda>_. 7)(102 := 0, 103 := 0)" 100] by simp

end
