(* ===== verification/Ip_Addr.thy ===== *)
theory Ip_Addr
  imports Inet_Chksum
begin

text \<open>
  IPv4 addresses, \<^verbatim>\<open>core/ipv4/ip_addr.c\<close> and the macros of \<^verbatim>\<open>lwip/ip_addr.h\<close>.  An
  \<open>ip_addr_t\<close> is its one field: the 32-bit value in network order, held in a little-endian word.  Text is read from and
  written to the byte memory.  Shown: what is printed is read back as the same address; a netmask is accepted exactly
  if it is ones followed by zeros; and where the reader is laxer than it says.
\<close>

unbundle bit_operations_syntax

subsection \<open>Addresses\<close>

definition IPADDR_NONE :: u32 where "IPADDR_NONE = 0xffffffff"
definition IPADDR_ANY :: u32 where "IPADDR_ANY = 0"
definition IPADDR_BROADCAST :: u32 where "IPADDR_BROADCAST = 0xffffffff"

definition IP4_ADDR :: "u32 \<Rightarrow> u32 \<Rightarrow> u32 \<Rightarrow> u32 \<Rightarrow> u32" where
  "IP4_ADDR a b c d =
     push_bit 24 (d AND 0xff) OR push_bit 16 (c AND 0xff) OR push_bit 8 (b AND 0xff) OR (a AND 0xff)"

definition ip_addr_netcmp :: "u32 \<Rightarrow> u32 \<Rightarrow> u32 \<Rightarrow> bool" where
  "ip_addr_netcmp addr1 addr2 msk \<longleftrightarrow> addr1 AND msk = addr2 AND msk"

definition ip_addr_ismulticast :: "u32 \<Rightarrow> bool" where
  "ip_addr_ismulticast addr1 \<longleftrightarrow> addr1 AND lwip_htonl 0xf0000000 = lwip_htonl 0xe0000000"

definition ip_addr_islinklocal :: "u32 \<Rightarrow> bool" where
  "ip_addr_islinklocal addr1 \<longleftrightarrow> addr1 AND lwip_htonl 0xffff0000 = lwip_htonl 0xa9fe0000"

subsection \<open>Netmasks\<close>

function first_zero :: "u32 \<Rightarrow> u32 \<Rightarrow> u32" where
  "first_zero nm msk =
     (if msk = 0 then msk else if nm AND msk = 0 then msk else first_zero nm (drop_bit 1 msk))"
  by pat_completeness auto
termination
proof (relation "measure (\<lambda>(nm, msk). unat msk)")
  fix nm msk :: u32
  assume "msk \<noteq> 0"
  then have "unat msk > 0" by (simp add: unat_gt_0)
  then show "((nm, drop_bit 1 msk), nm, msk) \<in> measure (\<lambda>(nm, msk). unat msk)"
    using unat_drop [of 1 msk] by simp
qed simp

function no_one :: "u32 \<Rightarrow> u32 \<Rightarrow> bool" where
  "no_one nm msk = (if msk = 0 then True else if nm AND msk \<noteq> 0 then False else no_one nm (drop_bit 1 msk))"
  by pat_completeness auto
termination
proof (relation "measure (\<lambda>(nm, msk). unat msk)")
  fix nm msk :: u32
  assume "msk \<noteq> 0"
  then have "unat msk > 0" by (simp add: unat_gt_0)
  then show "((nm, drop_bit 1 msk), nm, msk) \<in> measure (\<lambda>(nm, msk). unat msk)"
    using unat_drop [of 1 msk] by simp
qed simp

declare first_zero.simps [simp del] no_one.simps [simp del]

definition ip4_addr_netmask_valid :: "u32 \<Rightarrow> bool" where
  "ip4_addr_netmask_valid netmask =
     (let nm_hostorder = lwip_htonl netmask;
          msk = first_zero nm_hostorder (push_bit 31 1)
      in no_one nm_hostorder msk)"

subsection \<open>Addresses as text\<close>

definition in_range :: "u8 \<Rightarrow> u8 \<Rightarrow> u8 \<Rightarrow> bool" where
  "in_range c lo up \<longleftrightarrow> lo \<le> c \<and> c \<le> up"

abbreviation isdigit :: "u8 \<Rightarrow> bool" where "isdigit c \<equiv> in_range c 0x30 0x39"
abbreviation isxdigit :: "u8 \<Rightarrow> bool" where "isxdigit c \<equiv> isdigit c \<or> in_range c 0x61 0x66 \<or> in_range c 0x41 0x46"
abbreviation islower :: "u8 \<Rightarrow> bool" where "islower c \<equiv> in_range c 0x61 0x7a"
definition isspace :: "u8 \<Rightarrow> bool" where
  "isspace c \<longleftrightarrow> c = 0x20 \<or> c = 0x0c \<or> c = 0x0a \<or> c = 0x0d \<or> c = 0x09 \<or> c = 0x0b"

partial_function (option) aton_digits :: "u32 \<Rightarrow> u32 \<Rightarrow> ptr \<Rightarrow> memory \<Rightarrow> (u32 \<times> ptr) option" where
  "aton_digits radix val cp m =
     (let c = m cp in
      if isdigit c then aton_digits radix (val * radix + (ucast c - 0x30)) (cp + 1) m
      else if radix = 16 \<and> isxdigit c then
        aton_digits radix (push_bit 4 val OR (ucast c + 10 - (if islower c then 0x61 else 0x41))) (cp + 1) m
      else Some (val, cp))"

definition aton_number :: "ptr \<Rightarrow> memory \<Rightarrow> (u32 \<times> ptr) option" where
  "aton_number cp m =
     (if m cp = 0x30 then
        if m (cp + 1) = 0x78 \<or> m (cp + 1) = 0x58 then aton_digits 16 0 (cp + 2) m
        else aton_digits 8 0 (cp + 1) m
      else aton_digits 10 0 cp m)"

text \<open>The outer loop: \<open>Some None\<close> is its \<open>return (0)\<close>; \<open>parts\<close> holds the numbers before the last.\<close>

partial_function (option) aton_loop :: "u32 list \<Rightarrow> ptr \<Rightarrow> memory \<Rightarrow> (u32 list \<times> u32 \<times> ptr) option option" where
  "aton_loop parts cp m =
     (if \<not> isdigit (m cp) then Some None
      else case aton_number cp m of
        None \<Rightarrow> None
      | Some (val, cp) \<Rightarrow>
          if m cp = 0x2e then
            if length parts \<ge> 3 then Some None else aton_loop (parts @ [val]) (cp + 1) m
          else Some (Some (parts, val, cp)))"

definition aton_combine :: "u32 list \<Rightarrow> u32 \<Rightarrow> u32 option" where
  "aton_combine parts val =
     (case parts of
        [] \<Rightarrow> Some val
      | [a] \<Rightarrow> if val > 0xffffff then None else Some (val OR push_bit 24 a)
      | [a, b] \<Rightarrow> if val > 0xffff then None else Some (val OR (push_bit 24 a OR push_bit 16 b))
      | [a, b, c] \<Rightarrow> if val > 0xff then None else Some (val OR (push_bit 24 a OR push_bit 16 b OR push_bit 8 c))
      | _ \<Rightarrow> Some val)"

definition ipaddr_aton :: "ptr \<Rightarrow> memory \<Rightarrow> u32 option option" where
  "ipaddr_aton cp m =
     (case aton_loop [] cp m of
        None \<Rightarrow> None
      | Some None \<Rightarrow> Some None
      | Some (Some (parts, val, cp)) \<Rightarrow>
          if m cp \<noteq> 0 \<and> \<not> isspace (m cp) then Some None
          else Some (map_option lwip_htonl (aton_combine parts val)))"

definition ipaddr_addr :: "ptr \<Rightarrow> memory \<Rightarrow> u32 option" where
  "ipaddr_addr cp m = map_option (\<lambda>r. case r of None \<Rightarrow> IPADDR_NONE | Some val \<Rightarrow> val) (ipaddr_aton cp m)"

text \<open>Printing.  The digits of an octet come out last first; every store is checked against \<open>buflen\<close>.\<close>

fun inv_digits :: "nat \<Rightarrow> u8 list" where
  "inv_digits n = (0x30 + word_of_nat (n mod 10)) # (if n div 10 = 0 then [] else inv_digits (n div 10))"

declare inv_digits.simps [simp del]

fun put_chars :: "u8 list \<Rightarrow> int \<Rightarrow> nat \<Rightarrow> ptr \<Rightarrow> memory \<Rightarrow> memory \<times> (nat \<times> ptr) option" where
  "put_chars [] buflen len rp m = (m, Some (len, rp))"
| "put_chars (c # cs) buflen len rp m =
     (if int len \<ge> buflen then (m, None) else put_chars cs buflen (len + 1) (rp + 1) (m(rp := c)))"

fun ntoa_octets :: "u8 list \<Rightarrow> int \<Rightarrow> nat \<Rightarrow> ptr \<Rightarrow> memory \<Rightarrow> memory \<times> (nat \<times> ptr) option" where
  "ntoa_octets [] buflen len rp m = (m, Some (len, rp))"
| "ntoa_octets (ap # aps) buflen len rp m =
     (case put_chars (rev (inv_digits (unat ap)) @ [0x2e]) buflen len rp m of
        (m, None) \<Rightarrow> (m, None)
      | (m, Some (len, rp)) \<Rightarrow> ntoa_octets aps buflen len rp m)"

definition ipaddr_ntoa_r :: "u32 \<Rightarrow> ptr \<Rightarrow> int \<Rightarrow> memory \<Rightarrow> memory \<times> ptr" where
  "ipaddr_ntoa_r addr buf buflen m =
     (case ntoa_octets (addr_bytes addr) buflen 0 buf m of
        (m, None) \<Rightarrow> (m, NULL)
      | (m, Some (len, rp)) \<Rightarrow> (m(rp - 1 := 0), buf))"

definition ipaddr_ntoa :: "ptr \<Rightarrow> u32 \<Rightarrow> memory \<Rightarrow> memory \<times> ptr" where
  "ipaddr_ntoa str addr m = ipaddr_ntoa_r addr str 16 m"

subsection \<open>What is printed\<close>

definition put_bytes :: "ptr \<Rightarrow> u8 list \<Rightarrow> memory \<Rightarrow> memory" where
  "put_bytes a cs m = (\<lambda>x. if a \<le> x \<and> x < a + length cs then cs ! (x - a) else m x)"

lemma put_bytes_Nil [simp]: "put_bytes a [] m = m"
  by (rule ext) (auto simp: put_bytes_def)

lemma put_bytes_Cons: "put_bytes (a + 1) cs (m(a := c)) = put_bytes a (c # cs) m"
  by (rule ext) (auto simp: put_bytes_def nth_Cons' not_less_eq_eq)

lemma put_bytes_append: "put_bytes (a + length cs) ds (put_bytes a cs m) = put_bytes a (cs @ ds) m"
  by (rule ext) (auto simp: put_bytes_def nth_append)

lemma bytes_at_put [simp]: "bytes_at (put_bytes a cs m) a (length cs) = cs"
  by (rule nth_equalityI) (auto simp: put_bytes_def)

lemma put_chars_fit:
  "int (len + length cs) \<le> buflen \<Longrightarrow>
   put_chars cs buflen len rp m = (put_bytes rp cs m, Some (len + length cs, rp + length cs))"
  by (induction cs arbitrary: len rp m) (auto simp: put_bytes_Cons [simplified])

definition octet_text :: "u8 \<Rightarrow> u8 list" where
  "octet_text ap = rev (inv_digits (unat ap)) @ [0x2e]"

lemma ntoa_octets_fit:
  "int (len + length (concat (map octet_text aps))) \<le> buflen \<Longrightarrow>
   ntoa_octets aps buflen len rp m =
     (put_bytes rp (concat (map octet_text aps)) m,
      Some (len + length (concat (map octet_text aps)), rp + length (concat (map octet_text aps))))"
  by (induction aps arbitrary: len rp m)
    (simp_all add: put_chars_fit octet_text_def [symmetric] put_bytes_append add.assoc)

lemma inv_digits_length: "n < 256 \<Longrightarrow> length (inv_digits n) \<le> 3"
proof -
  assume "n < 256"
  then have "n div 10 div 10 div 10 = 0" by (simp add: div_mult2_eq [symmetric])
  then show ?thesis
    by (simp add: inv_digits.simps [of n] inv_digits.simps [of "n div 10"] inv_digits.simps [of "n div 10 div 10"])
qed

lemma octet_text_length: "length (octet_text ap) \<le> 4"
  using inv_digits_length [of "unat ap"] by (simp add: octet_text_def)

lemma digit_range: "d < 10 \<Longrightarrow> isdigit (0x30 + word_of_nat d)"
proof -
  assume d: "d < 10"
  have "unat (0x30 + word_of_nat d :: u8) = 48 + d" using d by (simp add: unat_word_ariths unsigned_of_nat take_bit_nat_eq_self)
  then show ?thesis using d by (simp add: in_range_def word_le_nat_alt)
qed

lemma inv_digits_isdigit: "c \<in> set (inv_digits n) \<Longrightarrow> isdigit c"
proof (induction n rule: inv_digits.induct)
  case (1 n)
  then show ?case using digit_range [of "n mod 10"] by (auto simp: inv_digits.simps [of n] split: if_splits)
qed

text \<open>No leading zero, so the reader takes the number as decimal.\<close>

lemma inv_digits_last: "0 < n \<Longrightarrow> last (inv_digits n) \<noteq> 0x30"
proof (induction n rule: inv_digits.induct)
  case (1 n)
  show ?case
  proof (cases "n div 10 = 0")
    case True
    then have n: "n < 10" by (simp add: div_eq_0_iff)
    then have "(word_of_nat n :: u8) \<noteq> 0" using 1(2) unat_of_nat_u8 [of n] by auto
    then show ?thesis using True n by (simp add: inv_digits.simps [of n])
  next
    case False
    then show ?thesis using 1(1) by (simp add: inv_digits.simps [of n] inv_digits.simps [of "n div 10"])
  qed
qed

lemma inv_digits_Cons: "inv_digits n \<noteq> []"
  by (simp add: inv_digits.simps [of n])

definition digits_val :: "u32 \<Rightarrow> u32 \<Rightarrow> u8 list \<Rightarrow> u32" where
  "digits_val radix v ds = foldl (\<lambda>v d. v * radix + (ucast d - 0x30)) v ds"

lemma ucast_digit: "d < 10 \<Longrightarrow> (ucast (0x30 + word_of_nat d :: u8) :: u32) - 0x30 = word_of_nat d"
proof -
  assume d: "d < 10"
  have "unat (0x30 + word_of_nat d :: u8) = 48 + d" using d by (simp add: unat_word_ariths unsigned_of_nat take_bit_nat_eq_self)
  then have "unat (ucast (0x30 + word_of_nat d :: u8) :: u32) = 48 + d" by simp
  then have "(ucast (0x30 + word_of_nat d :: u8) :: u32) = word_of_nat (48 + d)" by (rule word_ofI)
  then show ?thesis by simp
qed

lemma digits_val_inv: "digits_val 10 0 (rev (inv_digits n)) = word_of_nat n"
proof (induction n rule: inv_digits.induct)
  case (1 n)
  have "word_of_nat (n div 10) * 10 + word_of_nat (n mod 10) = (word_of_nat n :: u32)"
    by (metis div_mult_mod_eq of_nat_add of_nat_mult of_nat_numeral)
  then show ?case using 1 ucast_digit [of "n mod 10"]
    by (cases "n div 10 = 0") (auto simp: inv_digits.simps [of n] digits_val_def div_eq_0_iff)
qed


subsection \<open>What is read\<close>

definition text_at :: "memory \<Rightarrow> ptr \<Rightarrow> u8 list \<Rightarrow> bool" where
  "text_at m a cs \<longleftrightarrow> bytes_at m a (length cs) = cs"

lemma text_at_append: "text_at m a (xs @ ys) \<longleftrightarrow> text_at m a xs \<and> text_at m (a + length xs) ys"
  by (simp add: text_at_def bytes_at_add)

lemma text_at_Cons: "text_at m a (x # xs) \<longleftrightarrow> m a = x \<and> text_at m (a + 1) xs"
  by (simp add: text_at_def bytes_at_Suc)

lemma aton_digits_run:
  "text_at m cp ds \<Longrightarrow> \<forall>d\<in>set ds. isdigit d \<Longrightarrow> \<not> isdigit (m (cp + length ds)) \<Longrightarrow> radix \<noteq> 16 \<Longrightarrow>
   aton_digits radix v cp m = Some (digits_val radix v ds, cp + length ds)"
proof (induction ds arbitrary: v cp)
  case Nil
  then show ?case by (simp add: aton_digits.simps [of _ _ cp] digits_val_def)
next
  case (Cons d ds)
  then show ?case using Cons.IH [of "cp + 1"]
    by (simp add: aton_digits.simps [of _ _ cp] digits_val_def text_at_Cons)
qed

lemma aton_octet:
  assumes "text_at m cp (rev (inv_digits n))" and e: "cp' = cp + length (inv_digits n)" "m cp' = 0x2e \<or> m cp' = 0"
  shows "isdigit (m cp)" "aton_number cp m = Some (word_of_nat n, cp')"
proof -
  have d: "\<forall>d\<in>set (rev (inv_digits n)). isdigit d" using inv_digits_isdigit by auto
  have nd: "\<not> isdigit (m cp')" using e(2) by (auto simp: in_range_def)
  obtain c cs where c: "rev (inv_digits n) = c # cs" using inv_digits_Cons [of n] by (cases "rev (inv_digits n)") auto
  have c1: "c = last (inv_digits n)" using c by (metis hd_rev list.sel(1))
  have mc: "m cp = c" using assms(1) unfolding c text_at_Cons by simp
  show "isdigit (m cp)" using d mc unfolding c by simp
  show "aton_number cp m = Some (word_of_nat n, cp')"
  proof (cases "n = 0")
    case True
    then have "inv_digits n = [0x30]" by (simp add: inv_digits.simps [of 0])
    moreover have "aton_digits 8 0 cp' m = Some (0, cp')" using nd by (simp add: aton_digits.simps [of _ _ cp'])
    ultimately show ?thesis using True e mc c by (auto simp: aton_number_def)
  next
    case False
    then have "m cp \<noteq> 0x30" using inv_digits_last [of n] mc c1 by simp
    then show ?thesis using aton_digits_run [OF assms(1) d, of 10 0] nd e(1) digits_val_inv [of n]
      by (simp add: aton_number_def)
  qed
qed

lemma byte_masks: "(0xff :: u32) = mask 8" "(0xff00 :: u32) = push_bit 8 (mask 8)"
  "(0xff0000 :: u32) = push_bit 16 (mask 8)" "(0xff000000 :: u32) = push_bit 24 (mask 8)"
  by (simp_all add: mask_eq_exp_minus_1 push_bit_eq_mult)

lemma bytes_of_addr:
  fixes a :: u32
  defines "b \<equiv> \<lambda>k. ucast (ucast (drop_bit k a) :: u8) :: u32"
  shows "lwip_htonl (b 24 OR (push_bit 24 (b 0) OR push_bit 16 (b 8) OR push_bit 8 (b 16))) = a"
proof (rule bit_word_eqI)
  fix i assume "i < LENGTH(32)"
  then have "i < 8 \<or> 8 \<le> i \<and> i < 16 \<or> 16 \<le> i \<and> i < 24 \<or> 24 \<le> i \<and> i < 32" by simp linarith
  then show "bit (lwip_htonl (b 24 OR (push_bit 24 (b 0) OR push_bit 16 (b 8) OR push_bit 8 (b 16)))) i = bit a i"
    unfolding lwip_htonl_def b_def byte_masks by (elim disjE) (auto simp: bit_simps)
qed

text \<open>Reading four octets written with dots between them.\<close>

lemma aton_loop_dot:
  assumes "text_at m cp (octet_text ap)" "length parts < 3"
  shows "aton_loop parts cp m = aton_loop (parts @ [ucast ap]) (cp + length (octet_text ap)) m"
proof -
  let ?cp = "cp + length (inv_digits (unat ap))"
  have t: "text_at m cp (rev (inv_digits (unat ap)))" "m ?cp = 0x2e"
    using assms(1) unfolding octet_text_def text_at_append text_at_Cons by simp_all
  have o: "isdigit (m cp)" "aton_number cp m = Some (word_of_nat (unat ap), ?cp)"
    using aton_octet [OF t(1) refl] t(2) by auto
  have u: "word_of_nat (unat ap) = (ucast ap :: u32)" by (rule word_ofI [symmetric]) simp
  show ?thesis using t(2) o assms(2) unfolding u
    by (subst aton_loop.simps) (simp add: octet_text_def)
qed

lemma aton_loop_end:
  fixes ap :: u8
  assumes "text_at m cp (rev (inv_digits (unat ap)))" "m (cp + length (inv_digits (unat ap))) = 0"
  shows "aton_loop parts cp m = Some (Some (parts, ucast ap, cp + length (inv_digits (unat ap))))"
proof -
  have u: "word_of_nat (unat ap) = (ucast ap :: u32)" by (rule word_ofI [symmetric]) simp
  show ?thesis using aton_octet [OF assms(1) refl] assms(2) unfolding u by (subst aton_loop.simps) auto
qed

lemma aton_text:
  fixes d :: u8
  assumes "text_at m cp (octet_text a @ octet_text b @ octet_text c @ rev (inv_digits (unat d)) @ [0])"
  shows "ipaddr_aton cp m = Some (Some (lwip_htonl (ucast d OR (push_bit 24 (ucast a) OR push_bit 16 (ucast b) OR push_bit 8 (ucast c)))))"
proof -
  let ?b = "cp + length (octet_text a)"
  let ?c = "?b + length (octet_text b)"
  let ?d = "?c + length (octet_text c)"
  have t: "text_at m cp (octet_text a)" "text_at m ?b (octet_text b)" "text_at m ?c (octet_text c)"
    "text_at m ?d (rev (inv_digits (unat d)))" "m (?d + length (inv_digits (unat d))) = 0"
    using assms unfolding text_at_append by (simp_all add: text_at_Cons)
  have l: "\<not> (ucast d :: u32) > 0xff" using unat_u8_less [of d] by (simp add: word_less_nat_alt del: unat_u8_less)
  have "aton_loop [] cp m = Some (Some ([ucast a, ucast b, ucast c], ucast d, ?d + length (inv_digits (unat d))))"
    using t by (simp add: aton_loop_dot aton_loop_end)
  then show ?thesis using t(5) l by (simp add: ipaddr_aton_def aton_combine_def)
qed

text \<open>C29: An address printed by \<open>ipaddr_ntoa_r\<close> and read back by \<open>ipaddr_aton\<close> is the same address, for every
  address and every buffer of at least 16 bytes; the text stays inside the buffer, and reading it returns.\<close>

theorem ipaddr_roundtrip:
  assumes "16 \<le> buflen"
  shows "\<exists>m'. ipaddr_ntoa_r addr buf buflen m = (m', buf) \<and> ipaddr_aton buf m' = Some (Some addr) \<and>
    (\<forall>x. x < buf \<or> buf + 16 \<le> x \<longrightarrow> m' x = m x)"
proof -
  let ?aps = "addr_bytes addr"
  let ?t = "concat (map octet_text ?aps)"
  obtain a b c d where o: "?aps = [a, b, c, d]" "a = ucast (drop_bit 0 addr)" "b = ucast (drop_bit 8 addr)"
    "c = ucast (drop_bit 16 addr)" "d = ucast (drop_bit 24 addr)" by (simp add: addr_bytes_def)
  have n: "length ?t \<le> 16"
    using octet_text_length [of a] octet_text_length [of b] octet_text_length [of c] octet_text_length [of d]
    unfolding o(1) by simp
  define t where "t = octet_text a @ octet_text b @ octet_text c @ rev (inv_digits (unat d))"
  have t: "?t = t @ [0x2e]" unfolding o(1) by (simp add: t_def octet_text_def)
  let ?m = "(put_bytes buf ?t m)(buf + length ?t - 1 := 0)"
  have p: "ipaddr_ntoa_r addr buf buflen m = (?m, buf)"
    using ntoa_octets_fit [of 0 ?aps buflen buf m] n assms by (simp add: ipaddr_ntoa_r_def)
  have "?m = put_bytes buf (t @ [0]) m"
    unfolding t by (rule ext) (auto simp: put_bytes_def nth_append)
  then have "text_at ?m buf (t @ [0])" by (simp add: text_at_def del: length_append)
  then have "ipaddr_aton buf ?m = Some (Some addr)"
    using aton_text [of ?m buf a b c d] bytes_of_addr [of addr] unfolding t_def append_assoc o(2-5) by simp
  moreover have "?m x = m x" if "x < buf \<or> buf + 16 \<le> x" for x
    using that n unfolding t by (auto simp: put_bytes_def)
  ultimately show ?thesis using p by blast
qed

theorem ipaddr_roundtrip_witness:
  "\<exists>m'. ipaddr_ntoa_r 0x0a01a8c0 1000 16 (\<lambda>_. 0) = (m', 1000) \<and> ipaddr_aton 1000 m' = Some (Some 0x0a01a8c0)"
  using ipaddr_roundtrip [of 16 "0x0a01a8c0" 1000 "\<lambda>_. 0"] by auto

subsection \<open>Netmasks are ones followed by zeros\<close>

lemma and_bit_zero: "nm AND push_bit k 1 = 0 \<longleftrightarrow> \<not> bit nm k" if "k < 32" for nm :: u32
  by (simp add: push_bit_eq_mult and_exp_eq_0_iff_not_bit)

lemma mask_shift: "drop_bit 1 (push_bit 0 1) = (0 :: u32)" "k < 31 \<Longrightarrow> drop_bit 1 (push_bit (Suc k) 1) = (push_bit k 1 :: u32)"
  "k < 32 \<Longrightarrow> push_bit k 1 \<noteq> (0 :: u32)"
proof -
  show "drop_bit 1 (push_bit 0 1) = (0 :: u32)" by (rule bit_word_eqI) (auto simp: bit_simps bit_1_iff)
  show "k < 31 \<Longrightarrow> drop_bit 1 (push_bit (Suc k) 1) = (push_bit k 1 :: u32)"
    by (rule bit_word_eqI) (auto simp: bit_simps bit_1_iff)
  show "k < 32 \<Longrightarrow> push_bit k 1 \<noteq> (0 :: u32)"
    using and_bit_zero [of k "-1"] by auto
qed

lemma no_one_bits: "k < 32 \<Longrightarrow> no_one nm (push_bit k 1) \<longleftrightarrow> (\<forall>i\<le>k. \<not> bit nm i)"
proof (induction k)
  case 0
  have "no_one nm (drop_bit 1 (push_bit 0 1))" unfolding mask_shift(1) by (simp add: no_one.simps [of _ 0])
  then show ?case using mask_shift(3) [of 0] and_bit_zero [of 0 nm] by (subst no_one.simps) auto
next
  case (Suc k)
  then show ?case using mask_shift(2) [of k] mask_shift(3) [of "Suc k"] and_bit_zero [of "Suc k" nm]
    by (subst no_one.simps) (auto simp: le_Suc_eq)
qed

lemma netmask_scan:
  "k < 32 \<Longrightarrow> no_one nm (first_zero nm (push_bit k 1)) \<longleftrightarrow> (\<exists>j. \<forall>i\<le>k. bit nm i \<longleftrightarrow> j \<le> i)"
proof (induction k)
  case 0
  have "no_one nm (first_zero nm (drop_bit 1 (push_bit 0 1)))" unfolding mask_shift(1)
    by (simp add: no_one.simps [of _ 0] first_zero.simps [of _ 0])
  then show ?case using mask_shift(3) [of 0] and_bit_zero [of 0 nm] no_one_bits [of 0 nm]
    by (subst first_zero.simps) auto
next
  case (Suc k)
  show ?case
  proof (cases "bit nm (Suc k)")
    case False
    have "(\<forall>i\<le>Suc k. \<not> bit nm i) \<longleftrightarrow> (\<exists>j. \<forall>i\<le>Suc k. bit nm i \<longleftrightarrow> j \<le> i)"
      using False by (meson not_less_eq_eq le_trans order_refl)
    then show ?thesis using False Suc.prems mask_shift(3) [of "Suc k"] and_bit_zero [of "Suc k" nm] no_one_bits [of "Suc k" nm]
      by (subst first_zero.simps) auto
  next
    case True
    have "(\<exists>j. \<forall>i\<le>k. bit nm i \<longleftrightarrow> j \<le> i) \<longleftrightarrow> (\<exists>j. \<forall>i\<le>Suc k. bit nm i \<longleftrightarrow> j \<le> i)"
    proof
      assume "\<exists>j. \<forall>i\<le>k. bit nm i \<longleftrightarrow> j \<le> i"
      then obtain j where "\<forall>i\<le>k. bit nm i \<longleftrightarrow> j \<le> i" ..
      then have "\<forall>i\<le>Suc k. bit nm i \<longleftrightarrow> min j (Suc k) \<le> i" using True by (auto simp: le_Suc_eq)
      then show "\<exists>j. \<forall>i\<le>Suc k. bit nm i \<longleftrightarrow> j \<le> i" ..
    qed auto
    then show ?thesis using True Suc mask_shift(2) [of k] mask_shift(3) [of "Suc k"] and_bit_zero [of "Suc k" nm]
      by (subst first_zero.simps) auto
  qed
qed

text \<open>C30: \<open>ip4_addr_netmask_valid\<close> accepts exactly the 33 netmasks that in host order are ones followed by
  zeros; both its loops end.\<close>

theorem ip4_addr_netmask_valid_iff:
  "ip4_addr_netmask_valid netmask \<longleftrightarrow> (\<exists>k\<le>32. lwip_htonl netmask = NOT (mask k))"
proof -
  let ?n = "lwip_htonl netmask"
  have b: "?n = NOT (mask k) \<longleftrightarrow> (\<forall>i\<le>31. bit ?n i \<longleftrightarrow> k \<le> i)" if "k \<le> 32" for k
  proof -
    have nb: "bit (NOT (mask k) :: u32) i \<longleftrightarrow> k \<le> i" if "i \<le> 31" for i using that by (auto simp: bit_simps)
    show ?thesis
    proof
      assume "\<forall>i\<le>31. bit ?n i \<longleftrightarrow> k \<le> i"
      then show "?n = NOT (mask k)" by (intro bit_word_eqI) (simp add: nb)
    qed (simp add: nb)
  qed
  have "(\<exists>j. \<forall>i\<le>31. bit ?n i \<longleftrightarrow> j \<le> i) \<longleftrightarrow> (\<exists>j\<le>32. \<forall>i\<le>31. bit ?n i \<longleftrightarrow> j \<le> i)"
  proof
    assume "\<exists>j. \<forall>i\<le>31. bit ?n i \<longleftrightarrow> j \<le> i"
    then obtain j where "\<forall>i\<le>31. bit ?n i \<longleftrightarrow> j \<le> i" ..
    then have "\<forall>i\<le>31. bit ?n i \<longleftrightarrow> min j 32 \<le> i" by auto
    then show "\<exists>j\<le>32. \<forall>i\<le>31. bit ?n i \<longleftrightarrow> j \<le> i" by (intro exI [of _ "min j 32"]) auto
  qed auto
  then show ?thesis using b netmask_scan [of 31 ?n] by (auto simp: ip4_addr_netmask_valid_def Let_def)
qed

theorem ip4_addr_netmask_valid_iff_witness:
  "ip4_addr_netmask_valid 0x00ffffff"
  unfolding ip4_addr_netmask_valid_iff by (rule exI [of _ 8]) (simp add: lwip_htonl_def mask_eq_exp_minus_1)

text \<open>C31: Overlong parts.  Of the dotted form only the last part is checked against its width; a first part of 256
  is accepted and its ninth bit lost, so "256.0.0.1" reads as 0.0.0.1 and not as an error.\<close>

theorem ipaddr_aton_overlong:
  assumes "text_at m cp [0x32, 0x35, 0x36, 0x2e, 0x30, 0x2e, 0x30, 0x2e, 0x31, 0]"
  shows "ipaddr_aton cp m = Some (Some (IP4_ADDR 0 0 0 1)) \<and> ipaddr_addr cp m = Some (IP4_ADDR 0 0 0 1)"
proof -
  note t = assms [unfolded text_at_Cons, simplified]
  have "aton_loop [] cp m = Some (Some ([256, 0, 0], 1, Suc (Suc (Suc (Suc (Suc (Suc (Suc (Suc (Suc cp))))))))))"
    using t by (simp add: aton_loop.simps aton_number_def aton_digits.simps in_range_def)
  then show ?thesis using t
    by (simp add: ipaddr_aton_def ipaddr_addr_def aton_combine_def IP4_ADDR_def lwip_htonl_def push_bit_eq_mult)
qed

theorem ipaddr_aton_overlong_witness:
  "\<exists>m. text_at m 100 [0x32, 0x35, 0x36, 0x2e, 0x30, 0x2e, 0x30, 0x2e, 0x31, 0] \<and>
    ipaddr_aton 100 m = Some (Some (IP4_ADDR 0 0 0 1))"
proof -
  let ?t = "[0x32, 0x35, 0x36, 0x2e, 0x30, 0x2e, 0x30, 0x2e, 0x31, 0]"
  have "text_at (put_bytes 100 ?t (\<lambda>_. 0)) 100 ?t" unfolding text_at_def by (rule bytes_at_put)
  then show ?thesis using ipaddr_aton_overlong by blast
qed

end
