(* ===== verification/Link.thy ===== *)
theory Link
  imports Ip_Addr
begin

text \<open>
  Network interfaces and the sending half of the Ethernet driver: \<open>struct netif\<close> and its flags
  (\<^verbatim>\<open>lwip/netif.h\<close>), the broadcast test of \<^verbatim>\<open>ip_addr.c\<close>, and
  \<open>low_level_output\<close> of \<^verbatim>\<open>netif/riscvnetif.c\<close>.  The state \<open>lwip\<close> holds the packet
  buffers, the interfaces and what the MAC was given to send; the protocol modules extend it with their own variables, so
  every operation is written for any extension of it.  The function pointers of an interface are always those
  \<open>ethernetif_init\<close> and \<open>main\<close> store (\<open>low_level_output\<close>, \<open>etharp_output\<close>, \<open>ethernet_input\<close>) and are called directly.
\<close>

unbundle bit_operations_syntax

subsection \<open>Interfaces\<close>

definition NETIF_FLAG_UP :: u8 where "NETIF_FLAG_UP = 0x01"
definition NETIF_FLAG_BROADCAST :: u8 where "NETIF_FLAG_BROADCAST = 0x02"
definition NETIF_FLAG_LINK_UP :: u8 where "NETIF_FLAG_LINK_UP = 0x10"
definition NETIF_FLAG_ETHARP :: u8 where "NETIF_FLAG_ETHARP = 0x20"

record netif =
  nf_next :: ptr
  ip_addr :: u32
  netmask :: u32
  gw :: u32
  nf_state :: ptr
  mtu :: nat
  hwaddr_len :: nat
  hwaddr :: "u8 list"
  nf_flags :: u8
  nf_name :: "u8 \<times> u8"
  nf_num :: u8

record lwip =
  nt :: net
  netifs :: "ptr \<Rightarrow> netif"
  netif_list :: ptr
  netif_default :: ptr
  netif_num :: u8
  tx_frames :: "u8 list list"
  tx_done :: "nat \<Rightarrow> bool"

text \<open>\<open>tx_frames\<close> lists the blocks handed to the MAC; \<open>tx_done n\<close> says whether the hardware ever reports the
  \<open>n\<close>-th of them as sent (clears \<open>tx_BD_sta\<close>).\<close>

definition ip4_addr_isbroadcast :: "u32 \<Rightarrow> netif \<Rightarrow> bool" where
  "ip4_addr_isbroadcast addr nf =
     (if NOT addr = IPADDR_ANY \<or> addr = IPADDR_ANY then True
      else if nf_flags nf AND NETIF_FLAG_BROADCAST = 0 then False
      else if addr = ip_addr nf then False
      else if ip_addr_netcmp addr (ip_addr nf) (netmask nf) \<and>
              addr AND NOT (netmask nf) = IPADDR_BROADCAST AND NOT (netmask nf) then True
      else False)"

subsection \<open>Sending a frame\<close>

text \<open>Each buffer of the chain is given to the transmitter as a block of its own, and the loop waits for it.\<close>

partial_function (option) low_level_output :: "ptr \<Rightarrow> 'a lwip_scheme \<Rightarrow> ('a lwip_scheme \<times> err_t) option" where
  "low_level_output q s =
     (if q = NULL then Some (s, ERR_OK)
      else case get_pbuf q (nt s) of
        None \<Rightarrow> None
      | Some b \<Rightarrow>
          let s' = s\<lparr>tx_frames := tx_frames s @ [bytes_at (ram_bytes (nt s)) (payload b) (pb_len b)]\<rparr>
          in if tx_done s (length (tx_frames s')) then low_level_output (pb_next b) s' else None)"

text \<open>The blocks a chain is sent as.\<close>

definition pbuf_data :: "net \<Rightarrow> ptr \<Rightarrow> u8 list" where
  "pbuf_data s q = bytes_at (ram_bytes s) (payload (pbufs s q)) (pb_len (pbufs s q))"

lemma packet_bytes_data: "packet_bytes s qs = concat (map (pbuf_data s) qs)"
  by (simp add: packet_bytes_def pbuf_data_def [abs_def])

lemma low_level_output_spec:
  "chained (nt s) qs \<Longrightarrow> \<forall>n. tx_done s n \<Longrightarrow>
   low_level_output (first_ptr qs) s = Some (s\<lparr>tx_frames := tx_frames s @ map (pbuf_data (nt s)) qs\<rparr>, ERR_OK)"
proof (induction qs arbitrary: s)
  case Nil
  then show ?case by (simp add: low_level_output.simps [of NULL] first_ptr_def)
next
  case (Cons q qs)
  let ?s = "s\<lparr>tx_frames := tx_frames s @ [pbuf_data (nt s) q]\<rparr>"
  have q: "q \<noteq> NULL" "q \<in> alive (nt s)" "pb_next (pbufs (nt s) q) = first_ptr qs" "chained (nt s) qs"
    using Cons.prems(1) by auto
  have "low_level_output (first_ptr (q # qs)) s = low_level_output (first_ptr qs) ?s"
    using q Cons.prems(2) by (simp add: low_level_output.simps [of q] first_ptr_def get_pbuf_def pbuf_data_def)
  also have "\<dots> = Some (?s\<lparr>tx_frames := tx_frames ?s @ map (pbuf_data (nt ?s)) qs\<rparr>, ERR_OK)"
    by (rule Cons.IH) (use q(4) Cons.prems(2) in simp_all)
  finally show ?case by simp
qed



end
