(* ===== verification/Pbuf_Data.thy ===== *)
theory Pbuf_Data
  imports Inet_Chksum
begin

text \<open>
  The bytes of packets: what \<open>pbuf_copy\<close>, \<open>pbuf_take\<close> and \<open>pbuf_copy_partial\<close> of
  \<^verbatim>\<open>core/pbuf.c\<close> move.  A packet is the list of the addresses its buffers cover; copying is
  described on address lists, so that the segmentation of source and target does not matter.  Shown: the loops end, and
  the target holds the bytes of the source with everything else unchanged.
\<close>

subsection \<open>Addresses of a packet's bytes\<close>

definition pbuf_addrs :: "net \<Rightarrow> ptr \<Rightarrow> ptr list" where
  "pbuf_addrs s q = [payload (pbufs s q) ..< payload (pbufs s q) + pb_len (pbufs s q)]"

definition packet_addrs :: "net \<Rightarrow> ptr list \<Rightarrow> ptr list" where
  "packet_addrs s qs = concat (map (pbuf_addrs s) qs)"

lemma packet_addrs_simps [simp]: "packet_addrs s [] = []" "packet_addrs s (q # qs) = pbuf_addrs s q @ packet_addrs s qs"
  by (simp_all add: packet_addrs_def)

lemma length_pbuf_addrs [simp]: "length (pbuf_addrs s q) = pb_len (pbufs s q)"
  by (simp add: pbuf_addrs_def)

lemma length_packet_addrs: "length (packet_addrs s qs) = chain_len s qs"
  by (induction qs) (simp_all add: chain_len_def)

lemma packet_bytes_addrs: "packet_bytes s qs = map (ram_bytes s) (packet_addrs s qs)"
proof (induction qs)
  case (Cons q qs)
  have "bytes_at m a n = map m [a ..< a + n]" for m a n
    by (rule nth_equalityI) simp_all
  then show ?case using Cons by (simp add: pbuf_addrs_def)
qed simp

lemma packet_addrs_mem [simp]: "packet_addrs (s\<lparr>ram_bytes := m\<rparr>) qs = packet_addrs s qs"
  by (induction qs) (simp_all add: pbuf_addrs_def)

lemma packet_to_mem [simp]: "packet_to (s\<lparr>ram_bytes := m\<rparr>) qs e n = packet_to s qs e n"
  by (rule packet_to_cong) simp_all

lemma chain_len_mem [simp]: "chain_len (s\<lparr>ram_bytes := m\<rparr>) qs = chain_len s qs"
  by (simp add: chain_len_def)

text \<open>What copying leaves: the bytes of \<open>B\<close> at the addresses \<open>A\<close>, and all other addresses as they were.\<close>

definition copied :: "memory \<Rightarrow> memory \<Rightarrow> ptr list \<Rightarrow> ptr list \<Rightarrow> bool" where
  "copied m m' A B \<longleftrightarrow> map m' (take (length B) A) = map m B \<and> (\<forall>x. x \<notin> set (take (length B) A) \<longrightarrow> m' x = m x)"

lemma copied_Nil [simp]: "copied m m' A [] \<longleftrightarrow> m' = m"
  by (auto simp: copied_def)

lemma copied_memcpy:
  assumes "set [a ..< a + n] \<inter> set [b ..< b + n] = {}"
  shows "copied m (memcpy n a b m) [a ..< a + n] [b ..< b + n]"
proof -
  have o: "a \<le> b \<or> b + n \<le> a"
  proof (rule ccontr)
    assume "\<not> (a \<le> b \<or> b + n \<le> a)"
    then have "a \<in> set [a ..< a + n] \<inter> set [b ..< b + n]" by auto
    then show False using assms by simp
  qed
  have "map (memcpy n a b m) [a ..< a + n] = map m [b ..< b + n]"
    by (rule nth_equalityI) (use o in \<open>simp_all add: memcpy_block\<close>)
  moreover have "x \<notin> set [a ..< a + n] \<Longrightarrow> memcpy n a b m x = m x" for x using o by (auto simp: memcpy_block)
  ultimately show ?thesis by (simp add: copied_def)
qed

lemma copied_append:
  assumes "copied m m1 A1 B1" "length A1 = length B1" "copied m1 m2 A2 B2"
    "distinct (A1 @ A2)" "set (A1 @ A2) \<inter> set (B1 @ B2) = {}"
  shows "copied m m2 (A1 @ A2) (B1 @ B2)"
proof -
  have d: "x \<notin> set (take (length B2) A2)" if "x \<in> set A1" for x
    using that assms(4) by (auto dest: in_set_takeD)
  have "map m2 A1 = map m B1" using assms(1-3) d by (auto simp: copied_def cong: map_cong)
  moreover have "map m1 B2 = map m B2" using assms(1,2,5) by (auto simp: copied_def)
  ultimately show ?thesis using assms(1-3) by (auto simp: copied_def)
qed

subsection \<open>Copying from chain to chain\<close>

definition filled :: "net \<Rightarrow> ptr list \<Rightarrow> bool" where
  "filled s qs \<longleftrightarrow> (\<forall>q\<in>set qs. 0 < pb_len (pbufs s q) \<and> pb_len (pbufs s q) < 65536)"

lemma filled_simps [simp]: "filled s []"
  "filled s (q # qs) \<longleftrightarrow> 0 < pb_len (pbufs s q) \<and> pb_len (pbufs s q) < 65536 \<and> filled s qs"
  "filled (s\<lparr>ram_bytes := m\<rparr>) qs = filled s qs"
  by (auto simp: filled_def)

lemma not_queue: "packet s (q # qs) \<Longrightarrow> filled s qs \<Longrightarrow> pb_len (pbufs s q) = tot_len (pbufs s q) \<Longrightarrow> pb_next (pbufs s q) = NULL"
  by (cases qs) (auto simp: chain_len_def)

definition copy_next :: "ptr \<Rightarrow> ptr \<Rightarrow> nat \<Rightarrow> nat \<Rightarrow> ptr list \<Rightarrow> ptr list \<Rightarrow> nat \<Rightarrow> nat \<Rightarrow> net \<Rightarrow> net \<Rightarrow> (net \<times> err_t) option" where
  "copy_next t f ot off ts fs lt lf s s1 =
    (let (of2, from2) = (if lf \<le> lt then (0, first_ptr fs) else (off + lt, f));
         (ot2, to2) = (if lt \<le> lf then (0, first_ptr ts) else (ot + lf, t))
     in if lt \<le> lf \<and> to2 = NULL \<and> from2 \<noteq> NULL then Some (s1, ERR_ARG)
        else if from2 \<noteq> NULL \<and> from2 \<notin> alive s then None
        else if from2 \<noteq> NULL \<and> pb_len (pbufs s from2) = tot_len (pbufs s from2) \<and> pb_next (pbufs s from2) \<noteq> NULL then Some (s1, ERR_VAL)
        else if to2 \<noteq> NULL \<and> to2 \<notin> alive s then None
        else if to2 \<noteq> NULL \<and> pb_len (pbufs s to2) = tot_len (pbufs s to2) \<and> pb_next (pbufs s to2) \<noteq> NULL then Some (s1, ERR_VAL)
        else if from2 \<noteq> NULL then pbuf_copy_loop to2 from2 ot2 of2 s1
        else Some (s1, ERR_OK))"

lemma copy_loop_unfold:
  fixes s t f ot off
  defines "lt \<equiv> pb_len (pbufs s t) - ot" and "lf \<equiv> pb_len (pbufs s f) - off"
  assumes p: "packet s (t # ts)" "packet s (f # fs)" and l: "pb_len (pbufs s t) < 65536" "pb_len (pbufs s f) < 65536"
    and o: "ot \<le> pb_len (pbufs s t)" "off \<le> pb_len (pbufs s f)"
  shows "pbuf_copy_loop t f ot off s = copy_next t f ot off ts fs lt lf s
     (s\<lparr>ram_bytes := memcpy (min lf lt) (payload (pbufs s t) + ot) (payload (pbufs s f) + off) (ram_bytes s)\<rparr>)"
proof -
  have al: "t \<in> alive s" "f \<in> alive s" using p by auto
  have nx: "pb_next (pbufs s t) = first_ptr ts" "pb_next (pbufs s f) = first_ptr fs"
    using p by (auto simp: first_ptr_def split: if_splits)
  have u: "usub 16 (pb_len (pbufs s t)) ot = lt" "usub 16 (pb_len (pbufs s f)) off = lf"
    using o l by (simp_all add: usub_le lt_def lf_def)
  define N where "N = min lf lt"
  have len: "(if int (pb_len (pbufs s f)) - int off \<le> int (pb_len (pbufs s t)) - int ot then lf else lt) = N"
    using o by (auto simp: lt_def lf_def N_def)
  have w: "to_u16 (ot + N) = ot + N" "to_u16 (off + N) = off + N" using l o by (auto simp: lt_def lf_def N_def)
  have e: "pb_len (pbufs s f) \<le> off + N \<longleftrightarrow> lf \<le> lt" "ot + N = pb_len (pbufs s t) \<longleftrightarrow> lt \<le> lf"
    using o by (auto simp: lt_def lf_def N_def)
  have n: "N = lt" if "\<not> lf \<le> lt" using that by (simp add: N_def)
  have n': "N = lf" if "\<not> lt \<le> lf" using that by (simp add: N_def)
  show ?thesis
    unfolding copy_next_def N_def [symmetric] pbuf_copy_loop.simps [of t f ot off s] get_pbuf_def if_P [OF al(1)] if_P [OF al(2)]
      prod.case option.case u len Let_def w e nx
    by (cases "lf \<le> lt"; cases "lt \<le> lf"; simp only: if_True if_False prod.case simp_thms n n') simp_all
qed

lemma first_alive: "packet s qs \<Longrightarrow> first_ptr qs \<noteq> NULL \<longleftrightarrow> qs \<noteq> []" "packet s qs \<Longrightarrow> qs \<noteq> [] \<Longrightarrow> first_ptr qs \<in> alive s"
  by (cases qs; simp add: first_ptr_def)+

lemma first_next: "packet s (q # qs) \<Longrightarrow> pb_next (pbufs s q) = first_ptr qs"
  by (auto simp: first_ptr_def split: if_splits)

lemma copy_loop_step:
  fixes s t f ot off
  defines "lt \<equiv> pb_len (pbufs s t) - ot" and "lf \<equiv> pb_len (pbufs s f) - off"
  defines "s1 \<equiv> s\<lparr>ram_bytes := memcpy (min lf lt) (payload (pbufs s t) + ot) (payload (pbufs s f) + off) (ram_bytes s)\<rparr>"
  assumes p: "packet s (t # ts)" "packet s (f # fs)" and l: "filled s (t # ts)" "filled s (f # fs)"
    and o: "ot < pb_len (pbufs s t)" "off < pb_len (pbufs s f)" and fit: "lf + chain_len s fs \<le> lt + chain_len s ts"
  shows "pbuf_copy_loop t f ot off s =
    (if lt < lf then pbuf_copy_loop (first_ptr ts) f 0 (off + lt) s1
     else if fs = [] then Some (s1, ERR_OK)
     else if lt = lf then pbuf_copy_loop (first_ptr ts) (first_ptr fs) 0 0 s1
     else pbuf_copy_loop t (first_ptr fs) (ot + lf) 0 s1)"
proof -
  have al: "t \<in> alive s" "f \<in> alive s" "t \<noteq> NULL" "f \<noteq> NULL" using p by auto
  have pt: "packet s ts" "packet s fs" using p by auto
  have nq: "pb_len (pbufs s (first_ptr qs)) = tot_len (pbufs s (first_ptr qs)) \<Longrightarrow> pb_next (pbufs s (first_ptr qs)) = NULL"
    if "packet s qs" "filled s qs" "qs \<noteq> []" for qs using that not_queue by (cases qs) (auto simp: first_ptr_def)
  have cl: "qs \<noteq> [] \<Longrightarrow> 0 < chain_len s qs" if "filled s qs" for qs using that by (cases qs) (auto simp: chain_len_def)
  have ne: "ts \<noteq> []" if "lt < lf \<or> lt = lf \<and> fs \<noteq> []"
  proof
    assume "ts = []"
    then have "lf + chain_len s fs \<le> lt" using fit by (simp add: chain_len_def)
    then show False using that cl [of fs] l by auto
  qed
  note pf = first_alive [OF pt(1)] first_alive [OF pt(2)] first_next [OF p(1)] first_next [OF p(2)]
  have q: "ts \<noteq> [] \<Longrightarrow> \<not> (pb_len (pbufs s (first_ptr ts)) = tot_len (pbufs s (first_ptr ts)) \<and> pb_next (pbufs s (first_ptr ts)) \<noteq> NULL)"
    "fs \<noteq> [] \<Longrightarrow> \<not> (pb_len (pbufs s (first_ptr fs)) = tot_len (pbufs s (first_ptr fs)) \<and> pb_next (pbufs s (first_ptr fs)) \<noteq> NULL)"
    "\<not> (pb_len (pbufs s t) = tot_len (pbufs s t) \<and> first_ptr ts \<noteq> NULL)" "\<not> (pb_len (pbufs s f) = tot_len (pbufs s f) \<and> first_ptr fs \<noteq> NULL)"
    using nq [OF pt(1)] nq [OF pt(2)] not_queue [OF p(1)] not_queue [OF p(2)] l pf(5,6) by auto
  have unf: "pbuf_copy_loop t f ot off s = copy_next t f ot off ts fs lt lf s s1"
    unfolding lt_def lf_def s1_def by (rule copy_loop_unfold [OF p]) (use l o in auto)
  consider "lt < lf" | "lf < lt" "fs = []" | "lt = lf" "fs = []" | "lt = lf" "fs \<noteq> []" | "lf < lt" "fs \<noteq> []" by linarith
  then show ?thesis
  proof cases
    case 1
    then show ?thesis using al pf(1,2,6) q(1,4) ne unfolding unf copy_next_def by auto
  next
    case 2
    then show ?thesis using al pf(3,5) q(3) unfolding unf copy_next_def by auto
  next
    case 3
    then show ?thesis using al pf(1-3) q(1) unfolding unf copy_next_def by (cases "ts = []") auto
  next
    case 4
    then show ?thesis using al pf(1-4) q(1,2) ne unfolding unf copy_next_def by auto
  next
    case 5
    then show ?thesis using al pf(3-5) q(2,3) unfolding unf copy_next_def by auto
  qed
qed

text \<open>With any packets the loop returns, and writes only payload bytes.\<close>

lemma copy_loop_returns:
  assumes "packet s (t # ts)" "packet s (f # fs)" "\<forall>q\<in>set (t # ts) \<union> set (f # fs). pb_len (pbufs s q) < 65536"
    "ot \<le> pb_len (pbufs s t)" "off \<le> pb_len (pbufs s f)"
  shows "\<exists>m' e. pbuf_copy_loop t f ot off s = Some (s\<lparr>ram_bytes := m'\<rparr>, e)"
  using assms
proof (induction "length ts + length fs" arbitrary: s t ts f fs ot off rule: less_induct)
  case less
  define lt lf where "lt = pb_len (pbufs s t) - ot" and "lf = pb_len (pbufs s f) - off"
  define s1 where "s1 = s\<lparr>ram_bytes := memcpy (min lf lt) (payload (pbufs s t) + ot) (payload (pbufs s f) + off) (ram_bytes s)\<rparr>"
  note p = less.prems
  have unf: "pbuf_copy_loop t f ot off s = copy_next t f ot off ts fs lt lf s s1"
    unfolding lt_def lf_def s1_def by (rule copy_loop_unfold [OF p(1,2)]) (use p in auto)
  have pt: "packet s ts" "packet s fs" using p by auto
  note pf = first_alive [OF pt(1)] first_alive [OF pt(2)]
  have al: "t \<in> alive s" "f \<in> alive s" "t \<noteq> NULL" "f \<noteq> NULL" using p by auto
  have base: ?case if "pbuf_copy_loop t f ot off s = Some (s1, e)" for e using that by (auto simp: s1_def)
  have go: ?case if "pbuf_copy_loop t f ot off s = pbuf_copy_loop t' f' ot' off' s1" "length ts' + length fs' < length ts + length fs"
     "packet s (t' # ts')" "packet s (f' # fs')" "set (t' # ts') \<subseteq> set (t # ts)" "set (f' # fs') \<subseteq> set (f # fs)"
     "ot' \<le> pb_len (pbufs s t')" "off' \<le> pb_len (pbufs s f')" for t' ts' f' fs' ot' off'
  proof -
    have "\<forall>q\<in>set (t' # ts') \<union> set (f' # fs'). pb_len (pbufs s q) < 65536" using that(5,6) p(3) by blast
    then have "\<exists>m' e. pbuf_copy_loop t' f' ot' off' s1 = Some (s1\<lparr>ram_bytes := m'\<rparr>, e)"
      using less.hyps [OF that(2), of s1 t' f' ot' off'] that(3-8) by (simp add: s1_def)
    then show ?thesis unfolding that(1) by (auto simp: s1_def)
  qed
  consider "lt < lf" | "lf < lt" | "lt = lf" by linarith
  then show ?case
  proof cases
    case 1
    show ?thesis
    proof (cases ts)
      case Nil
      then show ?thesis using 1 al by (intro base) (simp add: unf copy_next_def first_ptr_def)
    next
      case (Cons t' ts')
      let ?L = "pbuf_copy_loop t' f 0 (off + lt) s1"
      have "pbuf_copy_loop t f ot off s \<in> {Some (s1, ERR_VAL), ?L}"
        using 1 al Cons pf(1,2) by (auto simp: unf copy_next_def first_ptr_def)
      moreover have ?thesis if "pbuf_copy_loop t f ot off s = ?L"
        by (rule go [OF that, of ts' fs]) (use Cons p 1 in \<open>auto simp: lf_def\<close>)
      ultimately show ?thesis using base by blast
    qed
  next
    case 2
    show ?thesis
    proof (cases fs)
      case Nil
      have "pbuf_copy_loop t f ot off s \<in> {Some (s1, ERR_VAL), Some (s1, ERR_OK)}"
        using 2 al Nil by (auto simp: unf copy_next_def first_ptr_def)
      then show ?thesis using base by blast
    next
      case (Cons f' fs')
      have "pbuf_copy_loop t f ot off s \<in> {Some (s1, ERR_VAL), pbuf_copy_loop t f' (ot + lf) 0 s1}"
        using 2 al Cons pf(3,4) by (auto simp: unf copy_next_def first_ptr_def)
      moreover have ?thesis if "pbuf_copy_loop t f ot off s = pbuf_copy_loop t f' (ot + lf) 0 s1"
        by (rule go [OF that, of ts fs']) (use Cons p 2 in \<open>auto simp: lt_def\<close>)
      ultimately show ?thesis using base by blast
    qed
  next
    case 3
    show ?thesis
    proof (cases "ts = [] \<or> fs = []")
      case True
      then have "pbuf_copy_loop t f ot off s \<in> {Some (s1, ERR_VAL), Some (s1, ERR_OK), Some (s1, ERR_ARG)}"
        using 3 pf by (auto simp: unf copy_next_def first_ptr_def)
      then show ?thesis using base by blast
    next
      case False
      then obtain t' ts' f' fs' where c: "ts = t' # ts'" "fs = f' # fs'" by (meson neq_Nil_conv)
      have "pbuf_copy_loop t f ot off s \<in> {Some (s1, ERR_VAL), pbuf_copy_loop t' f' 0 0 s1}"
        using 3 c pf by (auto simp: unf copy_next_def first_ptr_def)
      moreover have ?thesis if "pbuf_copy_loop t f ot off s = pbuf_copy_loop t' f' 0 0 s1"
        by (rule go [OF that, of ts' fs']) (use c p in auto)
      ultimately show ?thesis using base by blast
    qed
  qed
qed

lemma copy_head:
  assumes "ot + n \<le> pb_len (pbufs s t)" "0 < n"
  shows "drop ot (packet_addrs s (t # ts)) =
    [payload (pbufs s t) + ot ..< payload (pbufs s t) + ot + n] @ drop (ot + n) (packet_addrs s (t # ts))"
proof -
  obtain r where r: "pb_len (pbufs s t) = ot + n + r" using assms(1) le_Suc_ex by blast
  have "[a + ot ..< a + (ot + n + r)] = [a + ot ..< a + ot + n] @ [a + (ot + n) ..< a + (ot + n + r)]" for a
    using upt_add_eq_append [of "a + ot" "a + ot + n" r] by (simp add: add.assoc)
  then show ?thesis using assms by (simp add: pbuf_addrs_def r)
qed

lemma copy_past: "drop (pb_len (pbufs s t)) (packet_addrs s (t # ts)) = packet_addrs s ts"
  by simp

lemma copy_loop_spec:
  assumes "packet s (t # ts)" "packet s (f # fs)" "filled s (t # ts)" "filled s (f # fs)"
    "ot < pb_len (pbufs s t)" "off < pb_len (pbufs s f)"
    "pb_len (pbufs s f) - off + chain_len s fs \<le> pb_len (pbufs s t) - ot + chain_len s ts"
    "distinct (drop ot (packet_addrs s (t # ts)))"
    "set (drop ot (packet_addrs s (t # ts))) \<inter> set (drop off (packet_addrs s (f # fs))) = {}"
  shows "\<exists>m'. pbuf_copy_loop t f ot off s = Some (s\<lparr>ram_bytes := m'\<rparr>, ERR_OK) \<and>
    copied (ram_bytes s) m' (drop ot (packet_addrs s (t # ts))) (drop off (packet_addrs s (f # fs)))"
  using assms
proof (induction "length ts + length fs" arbitrary: s t ts f fs ot off rule: less_induct)
  case less
  define lt lf n where "lt = pb_len (pbufs s t) - ot" and "lf = pb_len (pbufs s f) - off" and "n = min lf lt"
  define m1 where "m1 = memcpy n (payload (pbufs s t) + ot) (payload (pbufs s f) + off) (ram_bytes s)"
  let ?s1 = "s\<lparr>ram_bytes := m1\<rparr>"
  let ?A1 = "[payload (pbufs s t) + ot ..< payload (pbufs s t) + ot + n]"
  let ?B1 = "[payload (pbufs s f) + off ..< payload (pbufs s f) + off + n]"
  let ?A2 = "drop (ot + n) (packet_addrs s (t # ts))" and ?B2 = "drop (off + n) (packet_addrs s (f # fs))"
  have n: "0 < n" "ot + n \<le> pb_len (pbufs s t)" "off + n \<le> pb_len (pbufs s f)"
    using less.prems(5,6) by (auto simp: n_def lt_def lf_def)
  have A: "drop ot (packet_addrs s (t # ts)) = ?A1 @ ?A2" "drop off (packet_addrs s (f # fs)) = ?B1 @ ?B2"
    using copy_head n by metis+
  have d: "distinct (?A1 @ ?A2)" "set (?A1 @ ?A2) \<inter> set (?B1 @ ?B2) = {}" using less.prems(8,9) unfolding A by auto
  have c1: "copied (ram_bytes s) m1 ?A1 ?B1" unfolding m1_def by (rule copied_memcpy) (use d(2) in \<open>unfold set_append, blast\<close>)
  note step = copy_loop_step [OF less.prems(1-6), folded lt_def lf_def, folded n_def, folded m1_def, OF less.prems(7) [folded lt_def lf_def]]
  have fin: ?case if l: "pbuf_copy_loop t f ot off s = Some (s\<lparr>ram_bytes := m'\<rparr>, ERR_OK)" and c: "copied m1 m' ?A2 ?B2" for m'
  proof -
    have "copied (ram_bytes s) m' (?A1 @ ?A2) (?B1 @ ?B2)" by (rule copied_append [OF c1 _ c d]) simp
    then show ?thesis unfolding A using l by blast
  qed
  have cl: "chain_len ?s1 qs = chain_len s qs" for qs by (simp add: chain_len_def)
  have go: ?case if "pbuf_copy_loop t f ot off s = pbuf_copy_loop t' f' ot' off' ?s1"
      and sm: "length ts' + length fs' < length ts + length fs"
      and p': "packet s (t' # ts')" "packet s (f' # fs')" "filled s (t' # ts')" "filled s (f' # fs')"
        "ot' < pb_len (pbufs s t')" "off' < pb_len (pbufs s f')"
      and l': "pb_len (pbufs s f') - off' + chain_len s fs' \<le> pb_len (pbufs s t') - ot' + chain_len s ts'"
      and A': "?A2 = drop ot' (packet_addrs s (t' # ts'))" "?B2 = drop off' (packet_addrs s (f' # fs'))"
    for t' f' ot' off' ts' fs'
  proof -
    have dd: "distinct ?A2" "set ?A2 \<inter> set ?B2 = {}" using d by (unfold set_append distinct_append) blast+
    obtain m' where "pbuf_copy_loop t' f' ot' off' ?s1 = Some (?s1\<lparr>ram_bytes := m'\<rparr>, ERR_OK)" "copied m1 m' ?A2 ?B2"
      using less.hyps [OF sm, of ?s1 t' f' ot' off'] p' l' dd unfolding A' cl packet_addrs_mem packet_to_mem filled_simps(3) by auto
    then show ?thesis using fin that(1) by simp
  qed
  note P = less.prems(1-4)
  consider "lt < lf" | "lf \<le> lt" "fs = []" | "lt = lf" "fs \<noteq> []" | "lf < lt" "fs \<noteq> []" by linarith
  then show ?case
  proof cases
    case 1
    then have e: "n = lt" "ot + n = pb_len (pbufs s t)" using less.prems(5) by (simp_all add: n_def lt_def)
    obtain t' ts' where ts: "ts = t' # ts'" using 1 less.prems(7) by (cases ts) (auto simp: chain_len_def lt_def lf_def)
    show ?thesis
      by (rule go [of t' f 0 "off + n" ts' fs]) (use 1 e ts step P less.prems(7) in \<open>auto simp: first_ptr_def lt_def lf_def chain_len_def\<close>)
  next
    case 2
    then have "?B2 = []" using less.prems(6) by (simp add: n_def lt_def lf_def)
    then show ?thesis using step 2 fin [of m1] by simp
  next
    case 3
    then have e: "ot + n = pb_len (pbufs s t)" "off + n = pb_len (pbufs s f)" using less.prems(5,6) by (simp_all add: n_def lt_def lf_def)
    obtain f' fs' where fs: "fs = f' # fs'" using 3 by (cases fs) auto
    obtain t' ts' where ts: "ts = t' # ts'" using 3 fs P(4) less.prems(7) by (cases ts) (auto simp: chain_len_def lt_def lf_def)
    show ?thesis
      by (rule go [of t' f' 0 0 ts' fs']) (use 3 e ts fs step P less.prems(7) in \<open>auto simp: first_ptr_def lt_def lf_def chain_len_def\<close>)
  next
    case 4
    then have e: "n = lf" "off + n = pb_len (pbufs s f)" using less.prems(6) by (simp_all add: n_def lf_def)
    obtain f' fs' where fs: "fs = f' # fs'" using 4 by (cases fs) auto
    show ?thesis
      by (rule go [of t f' "ot + n" 0 ts fs']) (use 4 e fs step P less.prems(7) in \<open>auto simp: first_ptr_def lt_def lf_def chain_len_def\<close>)
  qed
qed

lemma pbuf_copy_returns:
  assumes "packet s ts" "packet s fs" "\<forall>q\<in>set ts \<union> set fs. pb_len (pbufs s q) < 65536"
  shows "\<exists>m' e. pbuf_copy (first_ptr ts) (first_ptr fs) s = Some (s\<lparr>ram_bytes := m'\<rparr>, e)"
proof (cases "ts = [] \<or> fs = []")
  case True
  then show ?thesis by (intro exI [of _ "ram_bytes s"]) (auto simp: pbuf_copy_def first_ptr_def)
next
  case False
  then obtain t ts' f fs' where c: "ts = t # ts'" "fs = f # fs'" by (meson neq_Nil_conv)
  have "\<exists>m' e. pbuf_copy_loop t f 0 0 s = Some (s\<lparr>ram_bytes := m'\<rparr>, e)"
    by (rule copy_loop_returns) (use assms c in auto)
  then show ?thesis using assms c
    by (cases "tot_len (pbufs s t) < tot_len (pbufs s f)")
      (auto simp: pbuf_copy_def first_ptr_def get_pbuf_def intro: exI [of _ "ram_bytes s"])
qed

lemma copied_bytes:
  assumes "copied (ram_bytes s) m' (packet_addrs s ts) B" "length B \<le> chain_len s ts" "distinct (packet_addrs s ts)"
  shows "packet_bytes (s\<lparr>ram_bytes := m'\<rparr>) ts = map (ram_bytes s) B @ drop (length B) (packet_bytes s ts)"
proof -
  let ?A = "packet_addrs s ts" and ?n = "length B"
  have "map m' (drop ?n ?A) = map (ram_bytes s) (drop ?n ?A)"
  proof (rule map_cong [OF refl])
    fix x assume x: "x \<in> set (drop ?n ?A)"
    have "distinct (take ?n ?A @ drop ?n ?A)" using assms(3) by simp
    then have "x \<notin> set (take ?n ?A)" using x unfolding distinct_append by blast
    then show "m' x = ram_bytes s x" using assms(1) by (simp add: copied_def)
  qed
  moreover have "map m' (take ?n ?A) = map (ram_bytes s) B" using assms(1) by (simp add: copied_def)
  moreover have "map m' ?A = map m' (take ?n ?A) @ map m' (drop ?n ?A)" by (simp add: map_append [symmetric] del: map_append)
  ultimately show ?thesis unfolding packet_bytes_addrs packet_addrs_mem by (simp add: drop_map)
qed

lemma copied_other:
  assumes "copied m m' A B" "set A \<inter> X = {}" "x \<in> X"
  shows "m' x = m x"
  using assms by (auto simp: copied_def dest: in_set_takeD)

subsection \<open>Copying between a chain and a block\<close>

lemma take_loop_spec:
  assumes "packet s qs" "\<forall>q\<in>set qs. pb_len (pbufs s q) < 65536" "n \<le> chain_len s qs" "ct + n < 65536"
    "distinct (packet_addrs s qs)" "set (packet_addrs s qs) \<inter> set [d + ct ..< d + ct + n] = {}"
  shows "\<exists>m'. pbuf_take_loop (first_ptr qs) d n ct s = Some (s\<lparr>ram_bytes := m'\<rparr>) \<and>
    copied (ram_bytes s) m' (packet_addrs s qs) [d + ct ..< d + ct + n]"
  using assms
proof (induction qs arbitrary: s n ct)
  case Nil
  then have "n = 0" by (simp add: chain_len_def)
  then show ?case by (intro exI [of _ "ram_bytes s"]) (simp add: pbuf_take_loop.simps)
next
  case (Cons q qs)
  show ?case
  proof (cases "n = 0")
    case True
    then show ?thesis by (intro exI [of _ "ram_bytes s"]) (simp add: pbuf_take_loop.simps)
  next
    case n0: False
    define k where "k = (if n > pb_len (pbufs s q) then pb_len (pbufs s q) else n)"
    define m1 where "m1 = memcpy k (payload (pbufs s q)) (d + ct) (ram_bytes s)"
    let ?s1 = "s\<lparr>ram_bytes := m1\<rparr>"
    have k: "k \<le> n" "k \<le> pb_len (pbufs s q)" "n - k \<le> chain_len s qs" "k < n \<Longrightarrow> k = pb_len (pbufs s q)"
      using Cons.prems(3) by (auto simp: k_def chain_len_def)
    have q: "q \<noteq> NULL" "q \<in> alive s" "pb_next (pbufs s q) = first_ptr qs" "packet s qs"
      using Cons.prems(1) first_next [OF Cons.prems(1)] by auto
    have step: "pbuf_take_loop (first_ptr (q # qs)) d n ct s = pbuf_take_loop (first_ptr qs) d (n - k) (ct + k) ?s1"
      using q(2,3) n0 k(1) Cons.prems(4) unfolding m1_def
      by (subst pbuf_take_loop.simps) (simp add: first_ptr_def get_pbuf_def k_def [symmetric])
    let ?A1 = "[payload (pbufs s q) ..< payload (pbufs s q) + k]"
    let ?B1 = "[d + ct ..< d + ct + k]" and ?B2 = "[d + ct + k ..< d + ct + k + (n - k)]"
    have A: "take k (packet_addrs s (q # qs)) = ?A1" using k(2) by (simp add: pbuf_addrs_def take_upt)
    have B: "[d + ct ..< d + ct + n] = ?B1 @ ?B2" using upt_add_eq_append [of "d + ct" "d + ct + k" "n - k"] k(1) by (simp add: add.assoc)
    have dis: "set (packet_addrs s (q # qs)) \<inter> set (?B1 @ ?B2) = {}" using Cons.prems(6) unfolding B .
    have A1: "set ?A1 \<subseteq> set (packet_addrs s (q # qs))" unfolding A [symmetric] by (rule set_take_subset)
    have c1: "copied (ram_bytes s) m1 ?A1 ?B1" unfolding m1_def
      by (rule copied_memcpy) (use A1 dis in \<open>unfold set_append, blast\<close>)
    have d: "distinct (pbuf_addrs s q @ packet_addrs s qs)" "distinct (packet_addrs s qs)"
      using Cons.prems(5) by simp_all
    have d2: "set (packet_addrs s qs) \<inter> set ?B2 = {}" using dis by (simp add: set_append) blast
    obtain m' where m: "pbuf_take_loop (first_ptr qs) d (n - k) (ct + k) ?s1 = Some (?s1\<lparr>ram_bytes := m'\<rparr>)"
       "copied m1 m' (packet_addrs s qs) ?B2"
      using Cons.IH [of ?s1 "n - k" "ct + k"] q(4) k Cons.prems(2,4) d(2) d2 by (auto simp: add.assoc)
    have "copied (ram_bytes s) m' (packet_addrs s (q # qs)) (?B1 @ ?B2)"
    proof (cases "k < n")
      case True
      then have A1e: "pbuf_addrs s q = ?A1" using k(4) by (simp add: pbuf_addrs_def)
      show ?thesis unfolding packet_addrs_simps A1e
        by (rule copied_append [OF c1 _ m(2)]) (use d(1) dis A1e in simp_all)
    next
      case False
      then have "m' = m1" and B2: "?B2 = []" using m(2) k(1) by auto
      then show ?thesis using c1 unfolding copied_def B2 append_Nil2 by (simp add: A del: packet_addrs_simps)
    qed
    then show ?thesis using m(1) step unfolding B by auto
  qed
qed

lemma copy_partial_loop_spec:
  fixes off
  assumes "packet s qs" "\<forall>q\<in>set qs. pb_len (pbufs s q) < 65536" "n < 65536" "lf + n < 65536"
    "set [d + lf ..< d + lf + n] \<inter> set (packet_addrs s qs) = {}"
  defines "B \<equiv> take n (drop off (packet_addrs s qs))"
  shows "\<exists>m'. pbuf_copy_partial_loop (first_ptr qs) d n off lf s = Some (s\<lparr>ram_bytes := m'\<rparr>, lf + length B) \<and>
    copied (ram_bytes s) m' [d + lf ..< d + lf + length B] B"
  using assms(1-5) unfolding B_def
proof (induction qs arbitrary: s n off lf)
  case Nil
  then show ?case by (intro exI [of _ "ram_bytes s"]) (simp add: pbuf_copy_partial_loop.simps first_ptr_def)
next
  case (Cons q qs)
  have q: "q \<noteq> NULL" "q \<in> alive s" "pb_next (pbufs s q) = first_ptr qs" "packet s qs" "pb_len (pbufs s q) < 65536"
    using Cons.prems(1,2) first_next [OF Cons.prems(1)] by auto
  have sub: "set [d + lf ..< d + lf + n] \<inter> set (packet_addrs s qs) = {}" using Cons.prems(5) by auto
  consider "n = 0" | "n \<noteq> 0" "off \<noteq> 0" "pb_len (pbufs s q) \<le> off" | "n \<noteq> 0" "off = 0 \<or> off < pb_len (pbufs s q)" by linarith
  then show ?case
  proof cases
    case 1
    then show ?thesis by (intro exI [of _ "ram_bytes s"]) (simp add: pbuf_copy_partial_loop.simps)
  next
    case 2
    have "pbuf_copy_partial_loop (first_ptr (q # qs)) d n off lf s = pbuf_copy_partial_loop (first_ptr qs) d n (off - pb_len (pbufs s q)) lf s"
      using 2 q by (subst pbuf_copy_partial_loop.simps) (simp add: first_ptr_def get_pbuf_def)
    then show ?thesis using Cons.IH [OF q(4) _ Cons.prems(3,4) sub, of "off - pb_len (pbufs s q)"] Cons.prems(2) 2 by simp
  next
    case 3
    define k where "k = (if pb_len (pbufs s q) - off > n then n else pb_len (pbufs s q) - off)"
    define m1 where "m1 = memcpy k (d + lf) (payload (pbufs s q) + off) (ram_bytes s)"
    let ?s1 = "s\<lparr>ram_bytes := m1\<rparr>"
    have o: "off \<le> pb_len (pbufs s q)" "usub 16 (pb_len (pbufs s q)) off = pb_len (pbufs s q) - off"
      using 3 q(5) by (auto simp: usub_le)
    have k: "k \<le> n" "off + k \<le> pb_len (pbufs s q)" "k < n \<Longrightarrow> off + k = pb_len (pbufs s q)" using o(1) by (auto simp: k_def)
    have step: "pbuf_copy_partial_loop (first_ptr (q # qs)) d n off lf s = pbuf_copy_partial_loop (first_ptr qs) d (n - k) 0 (lf + k) ?s1"
      using 3 q o k(1) Cons.prems(4) unfolding m1_def
      by (subst pbuf_copy_partial_loop.simps) (auto simp: first_ptr_def get_pbuf_def k_def Let_def)
    let ?A1 = "[d + lf ..< d + lf + k]" and ?B1 = "[payload (pbufs s q) + off ..< payload (pbufs s q) + off + k]"
    let ?B2 = "take (n - k) (packet_addrs s qs)"
    let ?A2 = "[d + lf + k ..< d + lf + k + length ?B2]"
    have B1: "take k (drop off (pbuf_addrs s q)) = ?B1" using k(2) by (simp add: pbuf_addrs_def take_upt)
    have B: "take n (drop off (packet_addrs s (q # qs))) = ?B1 @ ?B2"
    proof -
      have "min n (pb_len (pbufs s q) - off) = k" using k by (auto simp: k_def)
      then have "take n (drop off (pbuf_addrs s q)) = ?B1" using B1 by (metis length_drop length_pbuf_addrs min.commute take_take take_all_iff nle_le)
      then show ?thesis using k o by (cases "k < n") (auto simp: k_def)
    qed
    have A: "[d + lf ..< d + lf + length (?B1 @ ?B2)] = ?A1 @ ?A2"
      using upt_add_eq_append [of "d + lf" "d + lf + k" "length ?B2"] by (simp add: add.assoc)
    have A12: "set (?A1 @ ?A2) \<subseteq> set [d + lf ..< d + lf + n]" using k(1) by auto
    have Bsub: "set (?B1 @ ?B2) \<subseteq> set (packet_addrs s (q # qs))" unfolding B [symmetric] by (meson in_set_dropD in_set_takeD subsetI)
    have dis: "set (?A1 @ ?A2) \<inter> set (?B1 @ ?B2) = {}" using A12 Bsub Cons.prems(5) by blast
    have c1: "copied (ram_bytes s) m1 ?A1 ?B1" unfolding m1_def
      by (rule copied_memcpy) (use dis in \<open>unfold set_append, blast\<close>)
    have sub2: "set [d + (lf + k) ..< d + (lf + k) + (n - k)] \<inter> set (packet_addrs s qs) = {}"
      using sub k(1) by (auto simp: disjoint_iff)
    obtain m' where m: "pbuf_copy_partial_loop (first_ptr qs) d (n - k) 0 (lf + k) ?s1 = Some (?s1\<lparr>ram_bytes := m'\<rparr>, lf + k + length ?B2)"
       "copied m1 m' ?A2 ?B2"
      using Cons.IH [of ?s1 "n - k" "lf + k" 0] q(4) k(1) Cons.prems(2-4) sub2 by (auto simp: add.assoc)
    have "copied (ram_bytes s) m' (?A1 @ ?A2) (?B1 @ ?B2)"
      by (rule copied_append [OF c1 _ m(2) _ dis]) auto
    then show ?thesis unfolding B A step m(1) by (auto simp: add.assoc)
  qed
qed

subsection \<open>Properties\<close>

text \<open>Two one-buffer packets, for the examples.\<close>

definition two_packets :: net where
  "two_packets = (net_start 1000 20000 (\<lambda>_. 20))\<lparr>alive := {100, 200},
     pbufs := (\<lambda>_. pbuf_zero)(100 := pbuf_zero\<lparr>pb_ref := 1, pb_len := 10, tot_len := 10, payload := 5000\<rparr>,
                              200 := pbuf_zero\<lparr>pb_ref := 1, pb_len := 4, tot_len := 4, payload := 6000\<rparr>)\<rparr>"

lemma two_packets [simp]:
  "packet two_packets [100]" "packet two_packets [200]" "filled two_packets [100]" "filled two_packets [200]"
  "chain_len two_packets [100] = 10" "chain_len two_packets [200] = 4"
  "packet_addrs two_packets [100] = [5000 ..< 5010]" "packet_addrs two_packets [200] = [6000 ..< 6004]"
  by (simp_all add: two_packets_def pbuf_zero_def chain_len_def pbuf_addrs_def)

text \<open>C32: \<open>pbuf_copy\<close> returns for every pair of packets, whatever their segmentation.  If the target has room and no
  buffer is empty, it returns \<open>ERR_OK\<close> with the source's bytes at the front of the target; the rest of the target and
  the source are unchanged, and so is everything but payload bytes.\<close>

theorem pbuf_copy_correct:
  assumes "packet s ts" "packet s fs" "filled s ts" "filled s fs" "fs \<noteq> []" "chain_len s fs \<le> chain_len s ts"
    "distinct (packet_addrs s ts)" "set (packet_addrs s ts) \<inter> set (packet_addrs s fs) = {}"
  shows "\<exists>s'. pbuf_copy (first_ptr ts) (first_ptr fs) s = Some (s', ERR_OK) \<and> s' = s\<lparr>ram_bytes := ram_bytes s'\<rparr> \<and>
    packet_bytes s' ts = packet_bytes s fs @ drop (chain_len s fs) (packet_bytes s ts) \<and>
    packet_bytes s' fs = packet_bytes s fs \<and>
    (\<forall>x. x \<notin> set (packet_addrs s ts) \<longrightarrow> ram_bytes s' x = ram_bytes s x)"
proof -
  obtain f fs' where f: "fs = f # fs'" using assms(5) by (cases fs) auto
  obtain t ts' where t: "ts = t # ts'" using assms(4,6) f by (cases ts) (auto simp: chain_len_def)
  obtain m' where m: "pbuf_copy_loop t f 0 0 s = Some (s\<lparr>ram_bytes := m'\<rparr>, ERR_OK)"
     "copied (ram_bytes s) m' (packet_addrs s ts) (packet_addrs s fs)"
    using copy_loop_spec [of s t ts' f fs' 0 0] assms unfolding f t by (auto simp: chain_len_def)
  have tl: "tot_len (pbufs s t) = chain_len s ts" "tot_len (pbufs s f) = chain_len s fs" "t \<in> alive s" "f \<in> alive s" "t \<noteq> NULL" "f \<noteq> NULL"
    using assms(1,2) unfolding f t by (simp_all add: chain_len_def)
  have c: "pbuf_copy (first_ptr ts) (first_ptr fs) s = Some (s\<lparr>ram_bytes := m'\<rparr>, ERR_OK)"
    using m(1) tl assms(6) unfolding pbuf_copy_def f t by (simp add: first_ptr_def get_pbuf_def)
  have "packet_bytes (s\<lparr>ram_bytes := m'\<rparr>) ts = packet_bytes s fs @ drop (chain_len s fs) (packet_bytes s ts)"
    using copied_bytes [OF m(2) _ assms(7)] assms(6) by (simp add: packet_bytes_addrs length_packet_addrs)
  moreover have "packet_bytes (s\<lparr>ram_bytes := m'\<rparr>) fs = packet_bytes s fs"
    unfolding packet_bytes_addrs packet_addrs_mem using copied_other [OF m(2) assms(8)] by simp
  moreover have "m' x = ram_bytes s x" if "x \<notin> set (packet_addrs s ts)" for x
    using copied_other [OF m(2), of "- set (packet_addrs s ts)" x] that by simp
  ultimately show ?thesis using c by (intro exI [of _ "s\<lparr>ram_bytes := m'\<rparr>"]) simp
qed

theorem pbuf_copy_correct_witness:
  "\<exists>s'. pbuf_copy 100 200 two_packets = Some (s', ERR_OK) \<and> take 4 (packet_bytes s' [100]) = packet_bytes two_packets [200]"
proof -
  obtain s' where s: "pbuf_copy (first_ptr [100]) (first_ptr [200]) two_packets = Some (s', ERR_OK)"
     "packet_bytes s' [100] = packet_bytes two_packets [200] @ drop (chain_len two_packets [200]) (packet_bytes two_packets [100])"
    using pbuf_copy_correct [of two_packets "[100]" "[200]"] two_packets by (auto simp del: packet_bytes_simps packet_addrs_simps packet_to.simps)
  have "length (packet_bytes two_packets [200]) = 4" using length_packet_bytes [of two_packets "[200]", unfolded two_packets(6)] .
  then show ?thesis using s by (simp add: first_ptr_def del: packet_bytes_simps)
qed

text \<open>C33: What \<open>pbuf_take\<close> spreads over a chain, \<open>pbuf_copy_partial\<close> collects again: for every packet with room for
  \<open>len\<close> bytes both return, the second with the count \<open>len\<close>, and the block written is the block read.\<close>

theorem pbuf_take_roundtrip:
  assumes "packet s qs" "\<forall>q\<in>set qs. pb_len (pbufs s q) < 65536" "qs \<noteq> []" "len \<le> chain_len s qs" "len < 65536"
    "distinct (packet_addrs s qs)" "d \<noteq> NULL" "d' \<noteq> NULL"
    "set (packet_addrs s qs) \<inter> set [d ..< d + len] = {}" "set [d' ..< d' + len] \<inter> set (packet_addrs s qs) = {}"
  shows "\<exists>s1 s2. pbuf_take (first_ptr qs) d len s = Some (s1, ERR_OK) \<and>
    packet_bytes s1 qs = bytes_at (ram_bytes s) d len @ drop len (packet_bytes s qs) \<and>
    pbuf_copy_partial (first_ptr qs) d' len 0 s1 = Some (s2, len) \<and>
    bytes_at (ram_bytes s2) d' len = bytes_at (ram_bytes s) d len \<and> packet_bytes s2 qs = packet_bytes s1 qs"
proof -
  have p: "first_ptr qs \<noteq> NULL" "first_ptr qs \<in> alive s" "tot_len (pbufs s (first_ptr qs)) = chain_len s qs"
    using assms(1,3) by (cases qs; simp add: first_ptr_def chain_len_def)+
  have bm: "bytes_at m a n = map m [a ..< a + n]" for m a n by (rule nth_equalityI) simp_all
  obtain m1 where m1: "pbuf_take_loop (first_ptr qs) d len 0 s = Some (s\<lparr>ram_bytes := m1\<rparr>)"
     "copied (ram_bytes s) m1 (packet_addrs s qs) [d ..< d + len]"
    using take_loop_spec [OF assms(1,2,4), of 0 d] assms(5,6,9) by auto
  let ?s1 = "s\<lparr>ram_bytes := m1\<rparr>" and ?B = "take len (packet_addrs s qs)"
  have B: "length ?B = len" using assms(4) by (simp add: length_packet_addrs)
  have t: "pbuf_take (first_ptr qs) d len s = Some (?s1, ERR_OK)"
    using p assms(4,7) m1(1) by (simp add: pbuf_take_def get_pbuf_def)
  have b1: "packet_bytes ?s1 qs = bytes_at (ram_bytes s) d len @ drop len (packet_bytes s qs)"
    using copied_bytes [OF m1(2) _ assms(6)] assms(4) by (simp add: bm)
  obtain m2 where m2: "pbuf_copy_partial_loop (first_ptr qs) d' len 0 0 ?s1 = Some (?s1\<lparr>ram_bytes := m2\<rparr>, len)"
     "copied m1 m2 [d' ..< d' + len] ?B"
    using copy_partial_loop_spec [of ?s1 qs len 0 d' 0] assms(1,2,5,10) B by auto
  have "bytes_at m2 d' len = take len (packet_bytes ?s1 qs)"
    using m2(2) B unfolding bm packet_bytes_addrs by (simp add: copied_def take_map)
  then have "bytes_at m2 d' len = bytes_at (ram_bytes s) d len" unfolding b1 by simp
  moreover have "map m2 (packet_addrs s qs) = map m1 (packet_addrs s qs)"
    by (rule map_cong [OF refl]) (rule copied_other [OF m2(2) assms(10)])
  then have "packet_bytes (?s1\<lparr>ram_bytes := m2\<rparr>) qs = packet_bytes ?s1 qs" by (simp add: packet_bytes_addrs)
  moreover have "pbuf_copy_partial (first_ptr qs) d' len 0 ?s1 = Some (?s1\<lparr>ram_bytes := m2\<rparr>, len)"
    using m2(1) p(1) assms(8) by (simp add: pbuf_copy_partial_def)
  moreover have "ram_bytes (?s1\<lparr>ram_bytes := m2\<rparr>) = m2" by simp
  ultimately show ?thesis using t b1 by metis
qed

theorem pbuf_take_roundtrip_witness:
  "\<exists>s1 s2. pbuf_take 100 700 8 two_packets = Some (s1, ERR_OK) \<and> pbuf_copy_partial 100 800 8 0 s1 = Some (s2, 8) \<and>
    bytes_at (ram_bytes s2) 800 8 = bytes_at (ram_bytes two_packets) 700 8"
proof -
  have "\<forall>q\<in>set [100]. pb_len (pbufs two_packets q) < 65536" using two_packets(3) by (simp add: filled_def)
  then show ?thesis
    using pbuf_take_roundtrip [of two_packets "[100]" 8 700 800] two_packets
    by (auto simp: first_ptr_def simp del: packet_bytes_simps packet_addrs_simps packet_to.simps bytes_at_def)
qed

end
