(* ===== verification/Held.thy ===== *)
theory Held
  imports Pbuf_Data
begin

text \<open>
  What the protocol modules rely on: states in which the invariant of the packet buffers holds and every pointer held
  outside heads a packet (\<open>net_ok\<close>), lemmas that the operations of \<^verbatim>\<open>pbuf.c\<close> return in such states and
  keep them, and blocks of the pools that hold other structures (\<open>aux_block\<close>).
\<close>

subsection \<open>Pools of other structures\<close>

definition pbuf_pool :: "memp_t \<Rightarrow> bool" where
  "pbuf_pool t \<longleftrightarrow> t = MEMP_PBUF \<or> t = MEMP_PBUF_POOL \<or> t = MEMP_FRAG_PBUF"

definition aux_block :: "net \<Rightarrow> memp_t \<Rightarrow> ptr \<Rightarrow> bool" where
  "aux_block s t r \<longleftrightarrow> (\<exists>k. (r, t, k) \<in> memp_live (pools s))"

lemma store_inv_pools:
  assumes I: "store_inv s" and pl: "memp_inv pl" "memp_sizes pl = memp_sizes (pools s)" "memp_memory pl = memp_memory (pools s)"
    and live: "\<And>p t k. pbuf_pool t \<Longrightarrow> (p, t, k) \<in> memp_live pl \<longleftrightarrow> (p, t, k) \<in> memp_live (pools s)"
  shows "store_inv (s\<lparr>pools := pl\<rparr>)"
proof -
  let ?s = "s\<lparr>pools := pl\<rparr>"
  note D = store_invD [OF I]
  have po: "pool_of (pbufs s p) = Some t \<Longrightarrow> pbuf_pool t" for p t
    by (auto simp: pool_of_def pbuf_pool_def split: if_splits pbuf_type.splits)
  have bl: "pbuf_block ?s p k = pbuf_block s p k" for p k
    using live po by (auto simp: pbuf_block_def split: option.splits)
  then have plc: "pbuf_placed ?s p = pbuf_placed s p" for p by (simp add: pbuf_placed_def)
  have sep: "separated (heap s) pl" using D(3) separated_cong [of "heap s" "heap s" pl "pools s"] by (simp add: pl)
  have l2: "(p, t, k) \<in> memp_live pl \<Longrightarrow> t = MEMP_PBUF \<or> t = MEMP_PBUF_POOL \<Longrightarrow> p \<in> alive s \<and> pool_of (pbufs s p) = Some t" for p t k
    using D(6) [of p t k] live [of t p k] by (auto simp: pbuf_pool_def)
  show ?thesis unfolding store_inv_def
  proof (intro conjI ballI allI impI)
    fix p assume "p \<in> memp_elems (pools ?s) MEMP_PBUF_POOL"
    moreover have "memp_elems (pools ?s) MEMP_PBUF_POOL = memp_elems (pools s) MEMP_PBUF_POOL"
      by (rule memp_elems_cong) (simp_all add: pl)
    ultimately have "\<not> is_custom (pbufs s p)" using D(7) by blast
    then show "\<not> is_custom (pbufs ?s p)" by simp
  qed (use D(1,4,5) l2 pl sep plc in auto)
qed

lemma net_inv_pools:
  assumes "net_inv s R" "memp_inv pl" "memp_sizes pl = memp_sizes (pools s)" "memp_memory pl = memp_memory (pools s)"
    "\<And>p t k. pbuf_pool t \<Longrightarrow> (p, t, k) \<in> memp_live pl \<longleftrightarrow> (p, t, k) \<in> memp_live (pools s)"
  shows "net_inv (s\<lparr>pools := pl\<rparr>) R"
proof -
  have "refs_inv (s\<lparr>pools := pl\<rparr>) R = refs_inv s R" by (rule refs_inv_cong) simp_all
  then show ?thesis using assms store_inv_pools [of s pl] by (simp add: net_inv_def)
qed

text \<open>A block of another structure is no packet buffer.\<close>

lemma aux_not_pbuf:
  assumes I: "store_inv s" and r: "aux_block s t r" "\<not> pbuf_pool t"
  shows "r \<notin> alive s"
proof
  assume a: "r \<in> alive s"
  obtain k where k: "(r, t, k) \<in> memp_live (pools s)" using r(1) by (auto simp: aux_block_def)
  then have el: "r \<in> memp_elems (pools s) t" by (auto simp: memp_live_iff)
  note D = store_invD [OF I]
  obtain l where l: "pbuf_block s r l" using placed_block [OF D(5) [OF a]] by blast
  show False
  proof (cases "pool_of (pbufs s r)")
    case (Some u)
    then have "(r, u, l) \<in> memp_live (pools s)" "pbuf_pool u"
      using l by (auto simp: pbuf_block_def pool_of_def pbuf_pool_def split: if_splits pbuf_type.splits)
    then have "r \<in> memp_elems (pools s) u" "u \<noteq> t" using r(2) by (auto simp: memp_live_iff)
    then show False using memp_elems_unique [OF D(2) el] by metis
  next
    case None
    then have "(r, l) \<in> mem_live (heap s)" using l by (simp add: pbuf_block_def)
    then show False using pool_not_heap [OF I el] by blast
  qed
qed

subsection \<open>Held packets\<close>

text \<open>A pointer that heads a chain, one that heads a packet whose lengths fit, and states in which every held pointer heads a
  chain.\<close>

definition heads :: "net \<Rightarrow> ptr \<Rightarrow> bool" where
  "heads s p \<longleftrightarrow> p = NULL \<or> (\<exists>qs. chained s (p # qs))"

definition whole :: "net \<Rightarrow> ptr \<Rightarrow> bool" where
  "whole s p \<longleftrightarrow> (\<exists>qs. packet s (p # qs) \<and> chain_len s (p # qs) < 65536)"

definition net_ok :: "net \<Rightarrow> ptr multiset \<Rightarrow> bool" where
  "net_ok s R \<longleftrightarrow> net_inv s R \<and> (\<forall>p\<in>#R. heads s p)"

lemma net_okD: "net_ok s R \<Longrightarrow> net_inv s R" "net_ok s R \<Longrightarrow> p \<in># R \<Longrightarrow> heads s p"
  by (auto simp: net_ok_def)

lemma headsE:
  assumes "heads s p" "p \<noteq> NULL"
  obtains qs where "chained s (p # qs)" "p \<in> alive s"
  using assms by (auto simp: heads_def)

lemma wholeE:
  assumes "whole s p"
  obtains qs where "packet s (p # qs)" "chain_len s (p # qs) < 65536" "p \<in> alive s" "p \<noteq> NULL" "tot_len (pbufs s p) = chain_len s (p # qs)"
    "chained s (p # qs)"
  using assms packet_chained by (auto simp: whole_def chain_len_def)

lemma whole_heads: "whole s p \<Longrightarrow> heads s p"
  by (auto elim!: wholeE simp: heads_def)

lemma chained_kept:
  assumes r: "refs_inv s' R'" and f: "\<And>q. q \<in> alive s \<Longrightarrow> q \<in> alive s' \<Longrightarrow> pb_next (pbufs s' q) = pb_next (pbufs s q)"
  shows "chained s (q # qs) \<Longrightarrow> q \<in> alive s' \<Longrightarrow> chained s' (q # qs)"
proof (induction qs arbitrary: q)
  case Nil
  then show ?case using f [of q] by simp
next
  case (Cons x qs)
  have q: "q \<in> alive s" "pb_next (pbufs s q) = x" "x \<noteq> NULL" "chained s (x # qs)" using Cons.prems(1) by auto
  note fq = f [OF q(1) Cons.prems(2)]
  have "x \<in> alive s'" using refs_inv_next [OF r Cons.prems(2)] fq q(2,3) by auto
  then show ?case using Cons.IH q(4) Cons.prems fq by auto
qed

lemma heads_kept:
  assumes "heads s p" "refs_inv s' R'" "p \<noteq> NULL \<Longrightarrow> p \<in> alive s'"
    "\<And>q. q \<in> alive s \<Longrightarrow> q \<in> alive s' \<Longrightarrow> pb_next (pbufs s' q) = pb_next (pbufs s q)"
  shows "heads s' p"
  using chained_kept [OF assms(2,4)] assms(1,3) unfolding heads_def by fastforce

lemma held_alive: "net_inv s R \<Longrightarrow> p \<in># R \<Longrightarrow> p \<noteq> NULL \<Longrightarrow> p \<in> alive s"
  using refs_inv_root by (metis insert_DiffM net_inv_def)

lemma net_ok_keep:
  assumes "net_inv s' R" "\<And>p. p \<in># R \<Longrightarrow> heads s p"
    "\<And>q. q \<in> alive s \<Longrightarrow> q \<in> alive s' \<Longrightarrow> pb_next (pbufs s' q) = pb_next (pbufs s q)"
  shows "net_ok s' R"
  using assms(1) heads_kept [OF assms(2) _ held_alive assms(3)] unfolding net_ok_def net_inv_def by blast

text \<open>The chains held packets are made of, and the headers in them up to their counts, are as before.\<close>

definition held_same :: "ptr multiset \<Rightarrow> net \<Rightarrow> net \<Rightarrow> bool" where
  "held_same R n n' \<longleftrightarrow> (\<forall>p\<in>#R. p \<noteq> NULL \<longrightarrow> (\<forall>qs. chained n (p # qs) \<longrightarrow>
     chained n' (p # qs) \<and> (\<forall>x\<in>set (p # qs). (pbufs n' x)\<lparr>pb_ref := 0\<rparr> = (pbufs n x)\<lparr>pb_ref := 0\<rparr>)))"

lemma held_sameE:
  assumes "held_same R n n'" "p \<in># R" "chained n (p # qs)"
  shows "chained n' (p # qs)" "x \<in> set (p # qs) \<Longrightarrow> (pbufs n' x)\<lparr>pb_ref := 0\<rparr> = (pbufs n x)\<lparr>pb_ref := 0\<rparr>"
proof -
  have "p \<noteq> NULL" using assms(3) by simp
  then show "chained n' (p # qs)" "x \<in> set (p # qs) \<Longrightarrow> (pbufs n' x)\<lparr>pb_ref := 0\<rparr> = (pbufs n x)\<lparr>pb_ref := 0\<rparr>"
    using assms unfolding held_same_def by blast+
qed

lemma header_fields_same:
  assumes e: "b'\<lparr>pb_ref := 0\<rparr> = b\<lparr>pb_ref := 0\<rparr>"
  shows "pb_next b' = pb_next b" "payload b' = payload b" "pb_len b' = pb_len b" "tot_len b' = tot_len b" "pb_type b' = pb_type b" "pb_flags b' = pb_flags b"
  using arg_cong [OF e, of pb_next] arg_cong [OF e, of payload] arg_cong [OF e, of pb_len] arg_cong [OF e, of tot_len]
    arg_cong [OF e, of pb_type] arg_cong [OF e, of pb_flags] by simp_all

lemma packet_headers:
  assumes "packet n qs" "chained n' qs" "\<And>x. x \<in> set qs \<Longrightarrow> (pbufs n' x)\<lparr>pb_ref := 0\<rparr> = (pbufs n x)\<lparr>pb_ref := 0\<rparr>"
  shows "packet n' qs" "chain_len n' qs = chain_len n qs"
proof -
  have "packet_to n' qs NULL 0 = packet n qs" "chain_len n' qs = chain_len n qs"
    by (rule packet_to_cong, use packet_alive [OF assms(1)] chained_alive [OF assms(2)] header_fields_same [OF assms(3)] in auto)+
  then show "packet n' qs" "chain_len n' qs = chain_len n qs" using assms(1) by simp_all
qed

lemma held_same_packet:
  assumes "held_same R n n'" "p \<in># R" "packet n (p # qs)"
  shows "packet n' (p # qs)" "chain_len n' (p # qs) = chain_len n (p # qs)"
  using packet_headers [OF assms(3) held_sameE [OF assms(1,2) packet_chained [OF assms(3)]]] by simp_all

lemma held_same_whole: "held_same R n n' \<Longrightarrow> p \<in># R \<Longrightarrow> whole n p \<Longrightarrow> whole n' p"
  unfolding whole_def by (metis held_same_packet)

lemma held_sameD:
  assumes "held_same R n n'" "p \<in># R" "heads n p" "p \<noteq> NULL"
  shows "pb_next (pbufs n' p) = pb_next (pbufs n p)" "payload (pbufs n' p) = payload (pbufs n p)" "pb_len (pbufs n' p) = pb_len (pbufs n p)"
    "tot_len (pbufs n' p) = tot_len (pbufs n p)" "pb_type (pbufs n' p) = pb_type (pbufs n p)" "pb_flags (pbufs n' p) = pb_flags (pbufs n p)"
proof -
  obtain qs where "chained n (p # qs)" using headsE [OF assms(3,4)] by blast
  then have "(pbufs n' p)\<lparr>pb_ref := 0\<rparr> = (pbufs n p)\<lparr>pb_ref := 0\<rparr>" using held_sameE(2) [OF assms(1,2), of qs p] by simp
  then show "pb_next (pbufs n' p) = pb_next (pbufs n p)" "payload (pbufs n' p) = payload (pbufs n p)" "pb_len (pbufs n' p) = pb_len (pbufs n p)"
    "tot_len (pbufs n' p) = tot_len (pbufs n p)" "pb_type (pbufs n' p) = pb_type (pbufs n p)" "pb_flags (pbufs n' p) = pb_flags (pbufs n p)"
    by (rule header_fields_same)+
qed

lemma held_same_refl [simp]: "held_same R n n"
  by (simp add: held_same_def)

lemma held_same_trans: "held_same R n n' \<Longrightarrow> held_same R n' n'' \<Longrightarrow> held_same R n n''"
  unfolding held_same_def by metis

lemma chained_upd [simp]: "chained (n\<lparr>pools := pl\<rparr>) qs = chained n qs" "chained (n\<lparr>ram_bytes := m\<rparr>) qs = chained n qs"
  by (rule chained_cong; simp)+

lemma held_same_upd [simp]: "held_same R n (n'\<lparr>pools := pl\<rparr>) = held_same R n n'" "held_same R n (n'\<lparr>ram_bytes := m\<rparr>) = held_same R n n'"
  "held_same R (n\<lparr>pools := pl\<rparr>) n' = held_same R n n'" "held_same R (n\<lparr>ram_bytes := m\<rparr>) n' = held_same R n n'"
  by (simp_all add: held_same_def)

lemma held_same_less: "held_same (add_mset p R) n n' \<Longrightarrow> held_same R n n'"
  unfolding held_same_def by (metis union_iff add_mset_add_single)

lemma held_same_sub: "held_same R n n' \<Longrightarrow> (\<And>x. x \<in># R' \<Longrightarrow> x \<in># R) \<Longrightarrow> held_same R' n n'"
  unfolding held_same_def by metis

text \<open>Operations that leave the headers of live packets alone.\<close>

lemma held_same_keep:
  assumes "net_inv n' R'" "\<And>p. p \<in># R \<Longrightarrow> p \<in># R'" "\<And>x. x \<in> alive n \<Longrightarrow> (pbufs n' x)\<lparr>pb_ref := 0\<rparr> = (pbufs n x)\<lparr>pb_ref := 0\<rparr>"
  shows "held_same R n n'"
  unfolding held_same_def
proof (intro ballI impI allI)
  fix p qs assume p: "p \<in># R" "p \<noteq> NULL" "chained n (p # qs)"
  have "p \<in> alive n'" using held_alive [OF assms(1) assms(2) [OF p(1)] p(2)] .
  then have "chained n' (p # qs)"
    using chained_kept [of n' R' n p qs] assms(1) p(3) header_fields_same(1) [OF assms(3)] by (auto simp: net_inv_def)
  then show "chained n' (p # qs) \<and> (\<forall>x\<in>set (p # qs). (pbufs n' x)\<lparr>pb_ref := 0\<rparr> = (pbufs n x)\<lparr>pb_ref := 0\<rparr>)"
    using assms(3) chained_alive [OF p(3)] by blast
qed

lemma held_same_frame:
  assumes "net_frame n n'" "net_inv n' R'" "\<And>p. p \<in># R \<Longrightarrow> p \<in># R'"
  shows "held_same R n n'"
  by (rule held_same_keep [OF assms(2,3)]) (use net_frameD(8) [OF assms(1)] in auto)

subsection \<open>The operations keep held packets\<close>

lemma pbuf_free_ok:
  assumes "net_ok s (add_mset p R)" "p \<noteq> NULL"
  shows "\<exists>s' n. pbuf_free p s = Some (s', n) \<and> net_ok s' R \<and> net_frame s s'"
proof -
  obtain s' n where f: "pbuf_free_loop p 0 s = Some (s', n)" "net_inv s' R" "net_frame s s'"
    using frees_all [OF net_okD(1) [OF assms(1)], of 0] by (auto simp: frees_def)
  have "net_ok s' R"
    by (rule net_ok_keep [OF f(2)]) (use net_okD(2) [OF assms(1)] net_frame_fields [OF f(3)] in auto)
  then show ?thesis using f assms(2) by (auto simp: pbuf_free_def)
qed

lemma pbuf_alloc_ram_ok:
  assumes "net_ok s R" "len \<le> 65456"
  shows "\<exists>s' p. pbuf_alloc layer len PBUF_RAM s = Some (s', p) \<and> pools s' = pools s \<and> ram_bytes s' = ram_bytes s \<and>
    (p = NULL \<and> s' = s \<or> p \<noteq> NULL \<and> p \<notin> alive s \<and> net_ok s' (add_mset p R) \<and> packet s' [p] \<and> pb_len (pbufs s' p) = len \<and>
      alive s' = insert p (alive s) \<and> (\<forall>x\<in>alive s. pbufs s' x = pbufs s x))"
proof -
  have I: "net_inv s R" using net_okD(1) [OF assms(1)] .
  obtain s' p where a: "pbuf_alloc layer len PBUF_RAM s = Some (s', p)"
     "p = NULL \<and> s' = s \<or> p \<noteq> NULL \<and> net_inv s' (add_mset p R) \<and> fresh_packet s p len s'"
    using alloc_ram_spec [OF I assms(2)] by blast
  have pl: "pools s' = pools s" "p \<noteq> NULL \<Longrightarrow> pb_next (pbufs s' p) = NULL" using a(1) unfolding pbuf_alloc_def
    by (auto simp: Let_def upd_pbuf_def claim_def split: option.splits prod.splits if_splits)
  show ?thesis
  proof (cases "p = NULL")
    case True
    then show ?thesis using a pl by auto
  next
    case False
    then have n: "net_inv s' (add_mset p R)" "fresh_packet s p len s'" using a(2) by auto
    obtain qs where q: "qs \<noteq> []" "first_ptr qs = p" "packet s' qs" "chain_len s' qs = len" "set qs \<inter> alive s = {}"
        "alive s' = alive s \<union> set qs" "\<forall>x\<in>alive s. pbufs s' x = pbufs s x" "ram_bytes s' = ram_bytes s"
      using n(2) unfolding fresh_packet_def by blast
    have qs: "qs = [p]" using q(1-3) pl(2) False by (cases qs; cases "tl qs") (auto simp: first_ptr_def)
    have l: "pb_len (pbufs s' p) = len" using q(4) by (simp add: qs chain_len_def)
    have "heads s' p" unfolding heads_def using packet_chained [OF q(3)] qs by blast
    moreover have "heads s' x" if x: "x \<in># R" for x
    proof (rule heads_kept [OF net_okD(2) [OF assms(1) x]])
      show "refs_inv s' (add_mset p R)" using n(1) by (simp add: net_inv_def)
      show "x \<noteq> NULL \<Longrightarrow> x \<in> alive s'" using held_alive [OF I x] q(6) by blast
    qed (use q(7) in auto)
    ultimately have "net_ok s' (add_mset p R)" using n(1) by (auto simp: net_ok_def)
    then show ?thesis using a(1) pl False q qs l by auto
  qed
qed

lemma net_ok_cong:
  assumes "heap s' = heap s" "pools s' = pools s" "alive s' = alive s" "frag_original s' = frag_original s" "pbufs s' = pbufs s"
  shows "net_ok s' R = net_ok s R"
proof -
  have h: "heads s' p = heads s p" for p
    using chained_cong [of _ s' s] unfolding heads_def by (simp add: assms)
  have "net_inv s' R = net_inv s R" by (rule net_inv_cong) (simp_all add: assms)
  then show ?thesis by (simp add: net_ok_def h)
qed

lemma net_ok_ram [simp]: "net_ok (s\<lparr>ram_bytes := m\<rparr>) R = net_ok s R"
  by (rule net_ok_cong) simp_all

lemma net_ok_pools:
  assumes "net_ok s R" "memp_inv pl" "memp_sizes pl = memp_sizes (pools s)" "memp_memory pl = memp_memory (pools s)"
    "\<And>p t k. pbuf_pool t \<Longrightarrow> (p, t, k) \<in> memp_live pl \<longleftrightarrow> (p, t, k) \<in> memp_live (pools s)"
  shows "net_ok (s\<lparr>pools := pl\<rparr>) R"
  by (rule net_ok_keep [OF net_inv_pools [OF net_okD(1) [OF assms(1)] assms(2-5)]])
    (use net_okD(2) [OF assms(1)] in auto)

lemma aux_free_ok:
  assumes "net_ok s R" "aux_block s t r" "\<not> pbuf_pool t"
  shows "net_ok (s\<lparr>pools := memp_free t r (pools s)\<rparr>) R"
    "aux_block (s\<lparr>pools := memp_free t r (pools s)\<rparr>) u x \<longleftrightarrow> aux_block s u x \<and> \<not> (u = t \<and> x = r)"
proof -
  have mi: "memp_inv (pools s)" using net_okD(1) [OF assms(1)] store_invD(2) by (simp add: net_inv_def)
  obtain k where k: "(r, t, k) \<in> memp_live (pools s)" using assms(2) by (auto simp: aux_block_def)
  note F = memp_free_live [OF mi k]
  show "net_ok (s\<lparr>pools := memp_free t r (pools s)\<rparr>) R"
    by (rule net_ok_pools [OF assms(1) F(1,3)]) (use F(2) assms(3) in auto)
  have "l = k" if "(r, t, l) \<in> memp_live (pools s)" for l using that k by (auto simp: memp_live_iff)
  then show "aux_block (s\<lparr>pools := memp_free t r (pools s)\<rparr>) u x \<longleftrightarrow> aux_block s u x \<and> \<not> (u = t \<and> x = r)"
    using F(2) by (auto simp: aux_block_def)
qed

lemma aux_alloc_ok:
  assumes "net_ok s R" "\<not> pbuf_pool t" "memp_malloc t (pools s) = (pl, r)"
  shows "net_ok (s\<lparr>pools := pl\<rparr>) R" "r = NULL \<Longrightarrow> pl = pools s"
    "aux_block (s\<lparr>pools := pl\<rparr>) u x \<longleftrightarrow> aux_block s u x \<or> r \<noteq> NULL \<and> u = t \<and> x = r"
    "r \<noteq> NULL \<Longrightarrow> \<not> aux_block s t r"
proof -
  have mi: "memp_inv (pools s)" using net_okD(1) [OF assms(1)] store_invD(2) by (simp add: net_inv_def)
  have M: "memp_inv pl" "memp_sizes pl = memp_sizes (pools s)" "memp_memory pl = memp_memory (pools s)"
    "r = NULL \<and> pl = pools s \<or> r \<noteq> NULL \<and> (r, t, memp_sizes (pools s) t) \<notin> memp_live (pools s) \<and>
       memp_live pl = insert (r, t, memp_sizes (pools s) t) (memp_live (pools s))"
    using memp_malloc_live [OF mi, of t] memp_malloc_static [of t "pools s"] assms(3) by auto
  show "net_ok (s\<lparr>pools := pl\<rparr>) R" by (rule net_ok_pools [OF assms(1) M(1-3)]) (use M(4) assms(2) in auto)
  show "r = NULL \<Longrightarrow> pl = pools s" using M(4) by blast
  show "aux_block (s\<lparr>pools := pl\<rparr>) u x \<longleftrightarrow> aux_block s u x \<or> r \<noteq> NULL \<and> u = t \<and> x = r"
    using M(4) by (auto simp: aux_block_def)
  show "r \<noteq> NULL \<Longrightarrow> \<not> aux_block s t r" using M(4) by (auto simp: aux_block_def memp_live_iff)
qed

lemma aux_frame: "net_inv s R \<Longrightarrow> net_frame s s' \<Longrightarrow> \<not> pbuf_pool t \<Longrightarrow> aux_block s t r \<Longrightarrow> aux_block s' t r"
  using aux_not_pbuf net_frameD(10) unfolding aux_block_def net_inv_def by blast

lemma pbuf_ref_ok:
  assumes "net_ok s R" "heads s p" "p \<noteq> NULL" "pb_ref (pbufs s p) < 65535"
  shows "\<exists>s'. pbuf_ref p s = Some s' \<and> net_ok s' (add_mset p R) \<and> pools s' = pools s \<and> ram_bytes s' = ram_bytes s \<and>
    (\<forall>x. (pbufs s' x)\<lparr>pb_ref := 0\<rparr> = (pbufs s x)\<lparr>pb_ref := 0\<rparr>)"
proof -
  have p: "p \<in> alive s" using assms(2,3) by (auto elim: headsE)
  note r = pbuf_ref_spec [OF net_okD(1) [OF assms(1)] p assms(4)]
  have "net_ok (upd_pbuf p (\<lambda>b. b\<lparr>pb_ref := pb_ref (pbufs s p) + 1\<rparr>) s) (add_mset p R)"
    by (rule net_ok_keep [OF r(2)]) (use net_okD(2) [OF assms(1)] assms(2) in \<open>auto simp: upd_pbuf_def\<close>)
  then show ?thesis using r(1) by (auto simp: upd_pbuf_def)
qed

lemma pbuf_copy_ok:
  assumes "whole s p" "whole s q"
  shows "\<exists>m' e. pbuf_copy p q s = Some (s\<lparr>ram_bytes := m'\<rparr>, e)"
proof -
  have l: "q \<in> set qs \<Longrightarrow> pb_len (pbufs s q) \<le> chain_len s qs" for q qs
    by (induction qs) (auto simp: chain_len_def)
  obtain ts fs where t: "packet s (p # ts)" "chain_len s (p # ts) < 65536" "packet s (q # fs)" "chain_len s (q # fs) < 65536"
    using assms unfolding whole_def by blast
  have "pb_len (pbufs s x) < 65536" if "x \<in> set (p # ts) \<union> set (q # fs)" for x
    using that l [of x "p # ts"] l [of x "q # fs"] t(2,4) by auto
  then show ?thesis using pbuf_copy_returns [OF t(1,3)] by simp
qed

subsection \<open>Moving the header of a held packet\<close>

text \<open>No other buffer points to the packet, so it is not in the middle of a chain.\<close>

definition unlinked :: "net \<Rightarrow> ptr \<Rightarrow> bool" where
  "unlinked s p \<longleftrightarrow> (\<forall>x\<in>alive s. pb_next (pbufs s x) \<noteq> p)"

lemma unlinked_tail: "unlinked s p \<Longrightarrow> chained s (x # qs) \<Longrightarrow> p \<notin> set qs"
proof (induction qs arbitrary: x)
  case (Cons y qs)
  then have "x \<in> alive s" "pb_next (pbufs s x) = y" "chained s (y # qs)" by auto
  then show ?case using Cons.IH [of y] Cons.prems(1) by (auto simp: unlinked_def)
qed simp

lemma pbuf_header_ok:
  assumes ok: "net_ok s R" and p: "whole s p" "unlinked s p" "\<not> is_custom (pbufs s p)"
    and t: "int (tot_len (pbufs s p)) + inc < 65536"
  shows "\<exists>s' e. pbuf_header p inc s = Some (s', e) \<and> net_ok s' R \<and> whole s' p \<and> unlinked s' p \<and> pools s' = pools s \<and> ram_bytes s' = ram_bytes s \<and> alive s' = alive s \<and>
    held_same {#x \<in># R. x \<noteq> p#} s s' \<and>
    (e = 1 \<and> s' = s \<or> e = 0 \<and> int (pb_len (pbufs s' p)) = int (pb_len (pbufs s p)) + inc \<and>
      int (tot_len (pbufs s' p)) = int (tot_len (pbufs s p)) + inc \<and> int (payload (pbufs s' p)) = int (payload (pbufs s p)) - inc \<and>
      (\<forall>q. q \<noteq> p \<longrightarrow> pbufs s' q = pbufs s q) \<and>
      s' = s\<lparr>pbufs := pbufs s'\<rparr> \<and> pb_next (pbufs s' p) = pb_next (pbufs s p) \<and> pb_type (pbufs s' p) = pb_type (pbufs s p) \<and> pb_ref (pbufs s' p) = pb_ref (pbufs s p) \<and>
      pb_flags (pbufs s' p) = pb_flags (pbufs s p))"
proof (cases "inc = 0")
  case True
  then have "pbuf_header p inc s = Some (s, 0)" by (simp add: pbuf_header_def)
  then show ?thesis using True ok p by (intro exI [of _ s] exI [of _ 0]) simp
next
  case False
  obtain qs where pk: "packet s (p # qs)" and al: "p \<in> alive s" and p0: "p \<noteq> NULL" and tl: "tot_len (pbufs s p) = pb_len (pbufs s p) + chain_len s qs"
    using wholeE [OF p(1)] by (metis chain_len_simps(2))
  obtain s' e where h: "pbuf_header p inc s = Some (s', e)" "net_inv s' R" "e = 0 \<and> s' = move_header p inc s \<or> e = 1 \<and> s' = s"
    using pbuf_header_inv [OF net_okD(1) [OF ok] al p(3), of inc] False by auto
  show ?thesis
  proof (cases "e = 1")
    case True
    then have "s' = s" using h(3) by auto
    then show ?thesis using True h(1) ok p by (intro exI [of _ s] exI [of _ 1]) simp
  next
    case e0: False
    then have s': "s' = move_header p inc s" "e = 0" using h(3) by auto
    have g: "inc < 0 \<longrightarrow> nat (- inc) \<le> pb_len (pbufs s p)"
      "if pb_type (pbufs s p) = PBUF_RAM \<or> pb_type (pbufs s p) = PBUF_POOL
         then int (p + SIZEOF_STRUCT_PBUF) \<le> int (payload (pbufs s p)) - inc else inc < 0"
      using h(1) s' unfolding pbuf_header_cases [OF al p0 False] by (auto split: if_splits)
    have f: "int (pb_len (pbufs s' p)) = int (pb_len (pbufs s p)) + inc" "int (tot_len (pbufs s' p)) = int (tot_len (pbufs s p)) + inc"
      "int (payload (pbufs s' p)) = int (payload (pbufs s p)) - inc"
      using g t tl unfolding s' by (auto simp: add_s16_id split: if_splits)
    have same: "alive s' = alive s" "\<And>q. q \<noteq> p \<Longrightarrow> pbufs s' q = pbufs s q" "pb_next (pbufs s' p) = pb_next (pbufs s p)"
      "pb_type (pbufs s' p) = pb_type (pbufs s p)" "pb_ref (pbufs s' p) = pb_ref (pbufs s p)" "pools s' = pools s" "ram_bytes s' = ram_bytes s"
      "s' = s\<lparr>pbufs := pbufs s'\<rparr>" "pb_flags (pbufs s' p) = pb_flags (pbufs s p)"
      by (simp_all add: s') (simp_all add: move_header_def upd_pbuf_def)
    have nxt: "pb_next (pbufs s' q) = pb_next (pbufs s q)" for q using same(2,3) by (cases "q = p") auto
    have lk: "chained s' xs = chained s xs" for xs by (rule chained_cong) (simp add: nxt same(1))
    have qs: "p \<notin> set qs" by (rule unlinked_tail [OF p(2) packet_chained [OF pk]])
    have "pbufs s' q = pbufs s q" if "q \<in> set qs" for q using same(2) qs that by metis
    then have c: "packet_to s' qs NULL 0 = packet s qs" "chain_len s' qs = chain_len s qs"
      using packet_to_cong [of qs s' s] same(1) by simp_all
    have tl': "tot_len (pbufs s' p) = pb_len (pbufs s' p) + chain_len s' qs" "pb_len (pbufs s' p) + chain_len s' qs < 65536"
      using f t tl c(2) by linarith+
    then have wp: "whole s' p" unfolding whole_def
      using pk same(1) nxt c(1) by (intro exI [of _ qs]) simp
    have hd: "heads s' x" if xR: "x \<in># R" for x using net_okD(2) [OF ok xR] unfolding heads_def lk .
    have hs: "held_same {#x \<in># R. x \<noteq> p#} s s'" unfolding held_same_def
    proof (intro ballI impI allI)
      fix x xs assume "x \<in># {#x \<in># R. x \<noteq> p#}" and x: "chained s (x # xs)"
      then have "p \<notin> set (x # xs)" using unlinked_tail [OF p(2) x] by auto
      then have "pbufs s' y = pbufs s y" if "y \<in> set (x # xs)" for y using same(2) that by metis
      then show "chained s' (x # xs) \<and> (\<forall>y\<in>set (x # xs). (pbufs s' y)\<lparr>pb_ref := 0\<rparr> = (pbufs s y)\<lparr>pb_ref := 0\<rparr>)" using x unfolding lk by metis
    qed
    have "unlinked s' p" using p(2) nxt same(1) by (simp add: unlinked_def)
    then show ?thesis using h(1,2) s'(2) wp hd hs f same by (intro exI [of _ s'] exI [of _ 0]) (auto simp: net_ok_def)
  qed
qed

end
