(* ===== verification/Etharp.thy ===== *)
theory Etharp
  imports Link Held "HOL-Library.Monad_Syntax"
begin

text \<open>
  Address resolution, \<^verbatim>\<open>netif/etharp.c\<close>: the ARP table with its queues of waiting packets, search and
  recycling of entries, ageing, the ARP messages sent and received, and output of IP packets on Ethernet.  Built without
  static entries, VLAN support, AutoIP and trust in the addresses of IP packets, as configured.
\<close>

unbundle bit_operations_syntax

subsection \<open>The table\<close>

definition ARP_TABLE_SIZE :: nat where "ARP_TABLE_SIZE = 10"
definition ARP_MAXAGE :: nat where "ARP_MAXAGE = 240"
definition ARP_AGE_REREQUEST_USED :: nat where "ARP_AGE_REREQUEST_USED = ARP_MAXAGE - 12"
definition ARP_MAXPENDING :: nat where "ARP_MAXPENDING = 2"

datatype etharp_state =
  ETHARP_STATE_EMPTY | ETHARP_STATE_PENDING | ETHARP_STATE_STABLE | ETHARP_STATE_STABLE_REREQUESTING

text \<open>The states are compared by their number in the enumeration.\<close>

fun state_num :: "etharp_state \<Rightarrow> nat" where
  "state_num ETHARP_STATE_EMPTY = 0"
| "state_num ETHARP_STATE_PENDING = 1"
| "state_num ETHARP_STATE_STABLE = 2"
| "state_num ETHARP_STATE_STABLE_REREQUESTING = 3"

lemma state_num_inj: "state_num a = state_num b \<longleftrightarrow> a = b"
  by (cases a; cases b; simp)

instantiation etharp_state :: linorder
begin

definition less_eq_etharp_state :: "etharp_state \<Rightarrow> etharp_state \<Rightarrow> bool" where
  "less_eq_etharp_state a b \<longleftrightarrow> state_num a \<le> state_num b"

definition less_etharp_state :: "etharp_state \<Rightarrow> etharp_state \<Rightarrow> bool" where
  "less_etharp_state a b \<longleftrightarrow> state_num a < state_num b"

instance
  by standard (auto simp: less_eq_etharp_state_def less_etharp_state_def state_num_inj [symmetric])

end

lemma stable_iff: "ETHARP_STATE_STABLE \<le> a \<longleftrightarrow> a = ETHARP_STATE_STABLE \<or> a = ETHARP_STATE_STABLE_REREQUESTING"
  by (cases a) (simp_all add: less_eq_etharp_state_def)

text \<open>\<open>arp_q\<close> is the linked list of \<open>struct etharp_q_entry\<close> as a list: the entry's address and the packet it holds.\<close>

record etharp_entry =
  arp_q :: "(ptr \<times> ptr) list"
  arp_ip :: u32
  arp_netif :: ptr
  arp_eth :: "u8 list"
  arp_state :: etharp_state
  arp_ctime :: nat

record arp = lwip +
  arp_table :: "etharp_entry list"
  etharp_cached_entry :: nat

definition ETHARP_FLAG_TRY_HARD :: u8 where "ETHARP_FLAG_TRY_HARD = 1"
definition ETHARP_FLAG_FIND_ONLY :: u8 where "ETHARP_FLAG_FIND_ONLY = 2"

definition ethbroadcast :: "u8 list" where "ethbroadcast = [0xff, 0xff, 0xff, 0xff, 0xff, 0xff]"
definition ethzero :: "u8 list" where "ethzero = [0, 0, 0, 0, 0, 0]"

definition SIZEOF_ETH_HDR :: nat where "SIZEOF_ETH_HDR = 14"
definition SIZEOF_ETHARP_HDR :: nat where "SIZEOF_ETHARP_HDR = 28"
definition SIZEOF_ETHARP_PACKET :: nat where "SIZEOF_ETHARP_PACKET = SIZEOF_ETH_HDR + SIZEOF_ETHARP_HDR"

definition ETHTYPE_ARP :: u16 where "ETHTYPE_ARP = 0x0806"
definition ETHTYPE_IP :: u16 where "ETHTYPE_IP = 0x0800"
definition HWTYPE_ETHERNET :: u16 where "HWTYPE_ETHERNET = 1"
definition ARP_REQUEST :: u16 where "ARP_REQUEST = 1"
definition ARP_REPLY :: u16 where "ARP_REPLY = 2"

text \<open>Offsets of the fields of \<open>struct eth_hdr\<close>, and of \<open>struct etharp_hdr\<close> behind it.\<close>

abbreviation (input) "ETH_DEST \<equiv> 0 :: nat"
abbreviation (input) "ETH_SRC \<equiv> 6 :: nat"
abbreviation (input) "ETH_TYPE \<equiv> 12 :: nat"
abbreviation (input) "ARP_HWTYPE \<equiv> 14 :: nat"
abbreviation (input) "ARP_PROTO \<equiv> 16 :: nat"
abbreviation (input) "ARP_HWLEN \<equiv> 18 :: nat"
abbreviation (input) "ARP_PROTOLEN \<equiv> 19 :: nat"
abbreviation (input) "ARP_OPCODE \<equiv> 20 :: nat"
abbreviation (input) "ARP_SHWADDR \<equiv> 22 :: nat"
abbreviation (input) "ARP_SIPADDR \<equiv> 28 :: nat"
abbreviation (input) "ARP_DHWADDR \<equiv> 32 :: nat"
abbreviation (input) "ARP_DIPADDR \<equiv> 38 :: nat"

subsection \<open>Access to the state\<close>

definition on_net :: "(net \<Rightarrow> (net \<times> 'b) option) \<Rightarrow> 'a lwip_scheme \<Rightarrow> ('a lwip_scheme \<times> 'b) option" where
  "on_net f s = (case f (nt s) of None \<Rightarrow> None | Some (n, r) \<Rightarrow> Some (s\<lparr>nt := n\<rparr>, r))"

definition upd_ram :: "(memory \<Rightarrow> memory) \<Rightarrow> 'a lwip_scheme \<Rightarrow> 'a lwip_scheme" where
  "upd_ram f s = s\<lparr>nt := (nt s)\<lparr>ram_bytes := f (ram_bytes (nt s))\<rparr>\<rparr>"

definition upd_pools :: "(memp_state \<Rightarrow> memp_state) \<Rightarrow> 'a lwip_scheme \<Rightarrow> 'a lwip_scheme" where
  "upd_pools f s = s\<lparr>nt := (nt s)\<lparr>pools := f (pools (nt s))\<rparr>\<rparr>"

definition upd_entry :: "nat \<Rightarrow> (etharp_entry \<Rightarrow> etharp_entry) \<Rightarrow> 'a arp_scheme \<Rightarrow> 'a arp_scheme" where
  "upd_entry i f s = s\<lparr>arp_table := (arp_table s)[i := f (arp_table s ! i)]\<rparr>"

fun for_entries :: "(nat \<Rightarrow> 'a arp_scheme \<Rightarrow> 'a arp_scheme option) \<Rightarrow> nat list \<Rightarrow> 'a arp_scheme \<Rightarrow> 'a arp_scheme option" where
  "for_entries f [] s = Some s"
| "for_entries f (i # is) s = do { s \<leftarrow> f i s; for_entries f is s }"

subsection \<open>Freeing and ageing entries\<close>

fun free_etharp_q :: "(ptr \<times> ptr) list \<Rightarrow> net \<Rightarrow> net option" where
  "free_etharp_q [] s = Some s"
| "free_etharp_q ((r, p) # q) s =
     do { (s, _) \<leftarrow> pbuf_free p s; free_etharp_q q (s\<lparr>pools := memp_free MEMP_ARP_QUEUE r (pools s)\<rparr>) }"

definition etharp_free_entry :: "nat \<Rightarrow> 'a arp_scheme \<Rightarrow> 'a arp_scheme option" where
  "etharp_free_entry i s =
     do { s \<leftarrow> (if arp_q (arp_table s ! i) \<noteq> []
                then do { n \<leftarrow> free_etharp_q (arp_q (arp_table s ! i)) (nt s);
                          Some (upd_entry i (\<lambda>e. e\<lparr>arp_q := []\<rparr>) (s\<lparr>nt := n\<rparr>)) }
                else Some s);
          Some (upd_entry i (\<lambda>e. e\<lparr>arp_state := ETHARP_STATE_EMPTY, arp_ctime := 0, arp_netif := NULL,
                                    arp_ip := 0, arp_eth := ethzero\<rparr>) s) }"

definition etharp_tmr_entry :: "nat \<Rightarrow> 'a arp_scheme \<Rightarrow> 'a arp_scheme option" where
  "etharp_tmr_entry i s =
     (if arp_state (arp_table s ! i) \<noteq> ETHARP_STATE_EMPTY
      then let s = upd_entry i (\<lambda>e. e\<lparr>arp_ctime := to_u8 (arp_ctime e + 1)\<rparr>) s;
               e = arp_table s ! i
           in if arp_ctime e \<ge> ARP_MAXAGE \<or> arp_state e = ETHARP_STATE_PENDING \<and> arp_ctime e \<ge> ARP_MAXPENDING
              then etharp_free_entry i s
              else if arp_state e = ETHARP_STATE_STABLE_REREQUESTING
              then Some (upd_entry i (\<lambda>e. e\<lparr>arp_state := ETHARP_STATE_STABLE\<rparr>) s)
              else Some s
      else Some s)"

definition etharp_tmr :: "'a arp_scheme \<Rightarrow> 'a arp_scheme option" where
  "etharp_tmr s = for_entries etharp_tmr_entry [0..<ARP_TABLE_SIZE] s"

definition etharp_cleanup_netif :: "ptr \<Rightarrow> 'a arp_scheme \<Rightarrow> 'a arp_scheme option" where
  "etharp_cleanup_netif nf s =
     for_entries (\<lambda>i s. if arp_state (arp_table s ! i) \<noteq> ETHARP_STATE_EMPTY \<and> arp_netif (arp_table s ! i) = nf
                        then etharp_free_entry i s else Some s) [0..<ARP_TABLE_SIZE] s"

subsection \<open>Searching the table\<close>

text \<open>The candidates the search remembers; \<open>ARP_TABLE_SIZE\<close> stands for none.\<close>

record arp_cand =
  old_pending :: nat
  old_stable :: nat
  empty_slot :: nat
  age_pending :: nat
  age_stable :: nat
  old_queue :: nat
  age_queue :: nat

definition arp_cand0 :: arp_cand where
  "arp_cand0 = \<lparr>old_pending = ARP_TABLE_SIZE, old_stable = ARP_TABLE_SIZE, empty_slot = ARP_TABLE_SIZE,
     age_pending = 0, age_stable = 0, old_queue = ARP_TABLE_SIZE, age_queue = 0\<rparr>"

fun find_loop :: "u32 option \<Rightarrow> nat \<Rightarrow> etharp_entry list \<Rightarrow> arp_cand \<Rightarrow> nat + arp_cand" where
  "find_loop ipaddr i [] c = Inr c"
| "find_loop ipaddr i (e # es) c =
     (if empty_slot c = ARP_TABLE_SIZE \<and> arp_state e = ETHARP_STATE_EMPTY
      then find_loop ipaddr (i + 1) es (c\<lparr>empty_slot := i\<rparr>)
      else if arp_state e \<noteq> ETHARP_STATE_EMPTY
      then if ipaddr = Some (arp_ip e) then Inl i
           else find_loop ipaddr (i + 1) es
             (if arp_state e = ETHARP_STATE_PENDING
              then if arp_q e \<noteq> []
                   then if arp_ctime e \<ge> age_queue c then c\<lparr>old_queue := i, age_queue := arp_ctime e\<rparr> else c
                   else if arp_ctime e \<ge> age_pending c then c\<lparr>old_pending := i, age_pending := arp_ctime e\<rparr> else c
              else if arp_state e \<ge> ETHARP_STATE_STABLE
              then if arp_ctime e \<ge> age_stable c then c\<lparr>old_stable := i, age_stable := arp_ctime e\<rparr> else c
              else c)
      else find_loop ipaddr (i + 1) es c)"

definition recycle_slot :: "arp_cand \<Rightarrow> nat option" where
  "recycle_slot c =
     (if old_stable c < ARP_TABLE_SIZE then Some (old_stable c)
      else if old_pending c < ARP_TABLE_SIZE then Some (old_pending c)
      else if old_queue c < ARP_TABLE_SIZE then Some (old_queue c)
      else None)"

definition init_entry :: "nat \<Rightarrow> u32 option \<Rightarrow> 'a arp_scheme \<Rightarrow> 'a arp_scheme" where
  "init_entry i ipaddr s =
     upd_entry i (\<lambda>e. (case ipaddr of None \<Rightarrow> e | Some a \<Rightarrow> e\<lparr>arp_ip := a\<rparr>)\<lparr>arp_ctime := 0\<rparr>) s"

definition etharp_find_entry :: "u32 option \<Rightarrow> u8 \<Rightarrow> 'a arp_scheme \<Rightarrow> ('a arp_scheme \<times> (err_t + nat)) option" where
  "etharp_find_entry ipaddr flags s =
     (case find_loop ipaddr 0 (arp_table s) arp_cand0 of
        Inl i \<Rightarrow> Some (s, Inr i)
      | Inr c \<Rightarrow>
          if flags AND ETHARP_FLAG_FIND_ONLY \<noteq> 0 \<or>
             empty_slot c = ARP_TABLE_SIZE \<and> flags AND ETHARP_FLAG_TRY_HARD = 0
          then Some (s, Inl ERR_MEM)
          else if empty_slot c < ARP_TABLE_SIZE
          then Some (init_entry (empty_slot c) ipaddr s, Inr (empty_slot c))
          else case recycle_slot c of
            None \<Rightarrow> Some (s, Inl ERR_MEM)
          | Some i \<Rightarrow> do { s \<leftarrow> etharp_free_entry i s; Some (init_entry i ipaddr s, Inr i) })"

definition etharp_find_addr :: "u32 \<Rightarrow> 'a arp_scheme \<Rightarrow> ('a arp_scheme \<times> (nat \<times> u8 list \<times> u32) option) option" where
  "etharp_find_addr ipaddr s =
     do { (s, r) \<leftarrow> etharp_find_entry (Some ipaddr) ETHARP_FLAG_FIND_ONLY s;
          case r of
            Inl _ \<Rightarrow> Some (s, None)
          | Inr i \<Rightarrow> if arp_state (arp_table s ! i) \<ge> ETHARP_STATE_STABLE
                     then Some (s, Some (i, arp_eth (arp_table s ! i), arp_ip (arp_table s ! i)))
                     else Some (s, None) }"

subsection \<open>Sending\<close>

definition etharp_send_ip :: "ptr \<Rightarrow> ptr \<Rightarrow> u8 list \<Rightarrow> u8 list \<Rightarrow> 'a lwip_scheme \<Rightarrow> ('a lwip_scheme \<times> err_t) option" where
  "etharp_send_ip nf p src dst s =
     do { b \<leftarrow> get_pbuf p (nt s);
          let ethhdr = payload b;
          let s = upd_ram (put_bytes (ethhdr + ETH_DEST) dst) s;
          let s = upd_ram (put_bytes (ethhdr + ETH_SRC) src) s;
          let s = upd_ram (st16 (ethhdr + ETH_TYPE) (lwip_htons ETHTYPE_IP)) s;
          low_level_output p s }"

text \<open>The loop that sends what was queued on an entry.\<close>

fun send_queued :: "ptr \<Rightarrow> nat \<Rightarrow> u8 list \<Rightarrow> (ptr \<times> ptr) list \<Rightarrow> 'a arp_scheme \<Rightarrow> 'a arp_scheme option" where
  "send_queued nf i ethaddr [] s = Some s"
| "send_queued nf i ethaddr ((q, p) # qs) s =
     do { let s = upd_entry i (\<lambda>e. e\<lparr>arp_q := qs\<rparr>) s;
          let s = upd_pools (memp_free MEMP_ARP_QUEUE q) s;
          (s, _) \<leftarrow> etharp_send_ip nf p (hwaddr (netifs s nf)) ethaddr s;
          (s, _) \<leftarrow> on_net (pbuf_free p) s;
          send_queued nf i ethaddr qs s }"

definition etharp_update_arp_entry ::
    "ptr \<Rightarrow> u32 \<Rightarrow> u8 list \<Rightarrow> u8 \<Rightarrow> 'a arp_scheme \<Rightarrow> ('a arp_scheme \<times> err_t) option" where
  "etharp_update_arp_entry nf ipaddr ethaddr flags s =
     (if ipaddr = IPADDR_ANY \<or> ip4_addr_isbroadcast ipaddr (netifs s nf) \<or> ip_addr_ismulticast ipaddr
      then Some (s, ERR_ARG)
      else do {
        (s, r) \<leftarrow> etharp_find_entry (Some ipaddr) flags s;
        case r of
          Inl e \<Rightarrow> Some (s, e)
        | Inr i \<Rightarrow> do {
            let s = upd_entry i (\<lambda>e. e\<lparr>arp_state := ETHARP_STATE_STABLE, arp_netif := nf,
                                       arp_eth := ethaddr, arp_ctime := 0\<rparr>) s;
            s \<leftarrow> send_queued nf i ethaddr (arp_q (arp_table s ! i)) s;
            Some (s, ERR_OK) } })"

definition arp_packet :: "ptr \<Rightarrow> u8 list \<Rightarrow> u8 list \<Rightarrow> u8 list \<Rightarrow> u32 \<Rightarrow> u8 list \<Rightarrow> u32 \<Rightarrow> u16 \<Rightarrow> memory \<Rightarrow> memory" where
  "arp_packet ethhdr ethsrc ethdst hwsrc ipsrc hwdst ipdst opcode m =
     (let m = st16 (ethhdr + ARP_OPCODE) (lwip_htons opcode) m;
          m = put_bytes (ethhdr + ARP_SHWADDR) hwsrc m;
          m = put_bytes (ethhdr + ARP_DHWADDR) hwdst m;
          m = put_bytes (ethhdr + ETH_DEST) ethdst m;
          m = put_bytes (ethhdr + ETH_SRC) ethsrc m;
          m = put_bytes (ethhdr + ARP_SIPADDR) (addr_bytes ipsrc) m;
          m = put_bytes (ethhdr + ARP_DIPADDR) (addr_bytes ipdst) m;
          m = st16 (ethhdr + ARP_HWTYPE) (lwip_htons HWTYPE_ETHERNET) m;
          m = st16 (ethhdr + ARP_PROTO) (lwip_htons ETHTYPE_IP) m;
          m = m(ethhdr + ARP_HWLEN := 6);
          m = m(ethhdr + ARP_PROTOLEN := 4)
      in st16 (ethhdr + ETH_TYPE) (lwip_htons ETHTYPE_ARP) m)"

definition etharp_raw ::
    "ptr \<Rightarrow> u8 list \<Rightarrow> u8 list \<Rightarrow> u8 list \<Rightarrow> u32 \<Rightarrow> u8 list \<Rightarrow> u32 \<Rightarrow> u16 \<Rightarrow> 'a lwip_scheme \<Rightarrow> ('a lwip_scheme \<times> err_t) option" where
  "etharp_raw nf ethsrc_addr ethdst_addr hwsrc_addr ipsrc_addr hwdst_addr ipdst_addr opcode s =
     do { (s, p) \<leftarrow> on_net (pbuf_alloc PBUF_RAW SIZEOF_ETHARP_PACKET PBUF_RAM) s;
          if p = NULL then Some (s, ERR_MEM)
          else do {
            b \<leftarrow> get_pbuf p (nt s);
            let s = upd_ram (arp_packet (payload b) ethsrc_addr ethdst_addr hwsrc_addr ipsrc_addr hwdst_addr ipdst_addr opcode) s;
            (s, result) \<leftarrow> low_level_output p s;
            (s, _) \<leftarrow> on_net (pbuf_free p) s;
            Some (s, result) } }"

definition etharp_request :: "ptr \<Rightarrow> u32 \<Rightarrow> 'a lwip_scheme \<Rightarrow> ('a lwip_scheme \<times> err_t) option" where
  "etharp_request nf ipaddr s =
     etharp_raw nf (hwaddr (netifs s nf)) ethbroadcast (hwaddr (netifs s nf)) (ip_addr (netifs s nf)) ethzero ipaddr ARP_REQUEST s"

definition etharp_gratuitous :: "ptr \<Rightarrow> 'a lwip_scheme \<Rightarrow> ('a lwip_scheme \<times> err_t) option" where
  "etharp_gratuitous nf s = etharp_request nf (ip_addr (netifs s nf)) s"

subsection \<open>Queueing a packet\<close>

text \<open>The first buffer that is not ROM, \<open>NULL\<close> if there is none.\<close>

partial_function (option) copy_from :: "ptr \<Rightarrow> net \<Rightarrow> ptr option" where
  "copy_from p s =
     (if p = NULL then Some NULL
      else case get_pbuf p s of
        None \<Rightarrow> None
      | Some b \<Rightarrow> if pb_type b \<noteq> PBUF_ROM then Some p else copy_from (pb_next b) s)"

text \<open>The packet to queue: a copy, or the packet itself with one more reference.\<close>

definition packet_to_queue :: "ptr \<Rightarrow> net \<Rightarrow> (net \<times> ptr) option" where
  "packet_to_queue q s =
     do { p \<leftarrow> copy_from q s;
          if p \<noteq> NULL
          then do {
            b \<leftarrow> get_pbuf p s;
            (s, p) \<leftarrow> pbuf_alloc PBUF_RAW (tot_len b) PBUF_RAM s;
            if p \<noteq> NULL
            then do {
              (s, e) \<leftarrow> pbuf_copy p q s;
              if e \<noteq> ERR_OK then do { (s, _) \<leftarrow> pbuf_free p s; Some (s, NULL) } else Some (s, p) }
            else Some (s, p) }
          else do { s \<leftarrow> pbuf_ref q s; Some (s, q) } }"

definition queue_packet :: "nat \<Rightarrow> ptr \<Rightarrow> 'a arp_scheme \<Rightarrow> ('a arp_scheme \<times> err_t) option" where
  "queue_packet i q s =
     do { (s, p) \<leftarrow> on_net (packet_to_queue q) s;
          if p \<noteq> NULL
          then let (pl, new_entry) = memp_malloc MEMP_ARP_QUEUE (pools (nt s)); s = upd_pools (\<lambda>_. pl) s
               in if new_entry \<noteq> NULL
                  then Some (upd_entry i (\<lambda>e. e\<lparr>arp_q := arp_q e @ [(new_entry, p)]\<rparr>) s, ERR_OK)
                  else do { (s, _) \<leftarrow> on_net (pbuf_free p) s; Some (s, ERR_MEM) }
          else Some (s, ERR_MEM) }"

definition etharp_query :: "ptr \<Rightarrow> u32 \<Rightarrow> ptr \<Rightarrow> 'a arp_scheme \<Rightarrow> ('a arp_scheme \<times> err_t) option" where
  "etharp_query nf ipaddr q s =
     (if ip4_addr_isbroadcast ipaddr (netifs s nf) \<or> ip_addr_ismulticast ipaddr \<or> ipaddr = IPADDR_ANY
      then Some (s, ERR_ARG)
      else do {
        (s, r) \<leftarrow> etharp_find_entry (Some ipaddr) ETHARP_FLAG_TRY_HARD s;
        case r of
          Inl e \<Rightarrow> Some (s, e)
        | Inr i \<Rightarrow> do {
            let s = (if arp_state (arp_table s ! i) = ETHARP_STATE_EMPTY
                     then upd_entry i (\<lambda>e. e\<lparr>arp_state := ETHARP_STATE_PENDING\<rparr>) s else s);
            (s, result) \<leftarrow> (if arp_state (arp_table s ! i) = ETHARP_STATE_PENDING \<or> q = NULL
                            then etharp_request nf ipaddr s else Some (s, ERR_MEM));
            if q = NULL then Some (s, result)
            else if arp_state (arp_table s ! i) \<ge> ETHARP_STATE_STABLE
            then etharp_send_ip nf q (hwaddr (netifs s nf)) (arp_eth (arp_table s ! i)) (s\<lparr>etharp_cached_entry := i\<rparr>)
            else if arp_state (arp_table s ! i) = ETHARP_STATE_PENDING then queue_packet i q s
            else Some (s, result) } })"

subsection \<open>Output\<close>

definition etharp_output_to_arp_index :: "ptr \<Rightarrow> ptr \<Rightarrow> nat \<Rightarrow> 'a arp_scheme \<Rightarrow> ('a arp_scheme \<times> err_t) option" where
  "etharp_output_to_arp_index nf q arp_idx s =
     do { s \<leftarrow> (if arp_state (arp_table s ! arp_idx) = ETHARP_STATE_STABLE \<and>
                    arp_ctime (arp_table s ! arp_idx) \<ge> ARP_AGE_REREQUEST_USED
                then do { (s, e) \<leftarrow> etharp_request nf (arp_ip (arp_table s ! arp_idx)) s;
                          Some (if e = ERR_OK
                                then upd_entry arp_idx (\<lambda>e. e\<lparr>arp_state := ETHARP_STATE_STABLE_REREQUESTING\<rparr>) s else s) }
                else Some s);
          etharp_send_ip nf q (hwaddr (netifs s nf)) (arp_eth (arp_table s ! arp_idx)) s }"

fun find_stable :: "u32 \<Rightarrow> nat \<Rightarrow> etharp_entry list \<Rightarrow> nat option" where
  "find_stable dst_addr i [] = None"
| "find_stable dst_addr i (e # es) =
     (if arp_state e \<ge> ETHARP_STATE_STABLE \<and> dst_addr = arp_ip e then Some i else find_stable dst_addr (i + 1) es)"

definition mcast_eth :: "u32 \<Rightarrow> u8 list" where
  "mcast_eth ipaddr = [0x01, 0x00, 0x5e, addr_bytes ipaddr ! 1 AND 0x7f, addr_bytes ipaddr ! 2, addr_bytes ipaddr ! 3]"

definition etharp_output :: "ptr \<Rightarrow> ptr \<Rightarrow> u32 \<Rightarrow> 'a arp_scheme \<Rightarrow> ('a arp_scheme \<times> err_t) option" where
  "etharp_output nf q ipaddr s =
     do { (s, r) \<leftarrow> on_net (pbuf_header q (int SIZEOF_ETH_HDR)) s;
          if r \<noteq> 0 then Some (s, ERR_BUF)
          else if ip4_addr_isbroadcast ipaddr (netifs s nf)
          then etharp_send_ip nf q (hwaddr (netifs s nf)) ethbroadcast s
          else if ip_addr_ismulticast ipaddr
          then etharp_send_ip nf q (hwaddr (netifs s nf)) (mcast_eth ipaddr) s
          else
            let local = (ip_addr_netcmp ipaddr (ip_addr (netifs s nf)) (netmask (netifs s nf)) \<or> ip_addr_islinklocal ipaddr)
            in if \<not> local \<and> gw (netifs s nf) = IPADDR_ANY then Some (s, ERR_RTE)
               else
                 let dst_addr = (if local then ipaddr else gw (netifs s nf));
                     c = arp_table s ! etharp_cached_entry s
                 in if arp_state c \<ge> ETHARP_STATE_STABLE \<and> dst_addr = arp_ip c
                    then etharp_output_to_arp_index nf q (etharp_cached_entry s) s
                    else case find_stable dst_addr 0 (arp_table s) of
                      Some i \<Rightarrow> etharp_output_to_arp_index nf q i (s\<lparr>etharp_cached_entry := i\<rparr>)
                    | None \<Rightarrow> etharp_query nf dst_addr q s }"

subsection \<open>Input\<close>

text \<open>The answer to a request, written over it; fields in the order of the assignments.\<close>

definition arp_answer :: "ptr \<Rightarrow> u32 \<Rightarrow> u8 list \<Rightarrow> memory \<Rightarrow> memory" where
  "arp_answer ethhdr ip ethaddr m =
     (let m = st16 (ethhdr + ARP_OPCODE) (lwip_htons ARP_REPLY) m;
          m = put_bytes (ethhdr + ARP_DIPADDR) (bytes_at m (ethhdr + ARP_SIPADDR) 4) m;
          m = put_bytes (ethhdr + ARP_SIPADDR) (addr_bytes ip) m;
          m = put_bytes (ethhdr + ARP_DHWADDR) (bytes_at m (ethhdr + ARP_SHWADDR) 6) m;
          m = put_bytes (ethhdr + ETH_DEST) (bytes_at m (ethhdr + ARP_SHWADDR) 6) m;
          m = put_bytes (ethhdr + ARP_SHWADDR) ethaddr m
      in put_bytes (ethhdr + ETH_SRC) ethaddr m)"

definition etharp_arp_input :: "ptr \<Rightarrow> u8 list \<Rightarrow> ptr \<Rightarrow> 'a arp_scheme \<Rightarrow> 'a arp_scheme option" where
  "etharp_arp_input nf ethaddr p s =
     (if nf = NULL then Some s
      else do {
        b \<leftarrow> get_pbuf p (nt s);
        if pb_len b < SIZEOF_ETHARP_PACKET then do { (s, _) \<leftarrow> on_net (pbuf_free p) s; Some s }
        else
          let e = payload b; m = ram_bytes (nt s) in
          if ld16 m (e + ARP_HWTYPE) \<noteq> lwip_htons HWTYPE_ETHERNET \<or> m (e + ARP_HWLEN) \<noteq> 6 \<or>
             m (e + ARP_PROTOLEN) \<noteq> 4 \<or> ld16 m (e + ARP_PROTO) \<noteq> lwip_htons ETHTYPE_IP
          then do { (s, _) \<leftarrow> on_net (pbuf_free p) s; Some s }
          else
            let sipaddr = ld32 m (e + ARP_SIPADDR);
                dipaddr = ld32 m (e + ARP_DIPADDR);
                for_us = (ip_addr (netifs s nf) \<noteq> IPADDR_ANY \<and> dipaddr = ip_addr (netifs s nf))
            in do {
              (s, _) \<leftarrow> etharp_update_arp_entry nf sipaddr (bytes_at m (e + ARP_SHWADDR) 6)
                          (if for_us then ETHARP_FLAG_TRY_HARD else ETHARP_FLAG_FIND_ONLY) s;
              s \<leftarrow> (if ld16 (ram_bytes (nt s)) (e + ARP_OPCODE) = lwip_htons ARP_REQUEST \<and> for_us
                    then do { (s, _) \<leftarrow> low_level_output p (upd_ram (arp_answer e (ip_addr (netifs s nf)) ethaddr) s); Some s }
                    else Some s);
              (s, _) \<leftarrow> on_net (pbuf_free p) s;
              Some s } })"

end
