(* ===== verification/Etharp_Inv.thy ===== *)
theory Etharp_Inv
  imports Etharp
begin

text \<open>
  The ARP table keeps its packets: the entries of the queues are distinct blocks of their pool, every queued packet is held
  by its queue entry alone, entries that are not pending have no queue, no two entries are for the same address and
  all ages are below their limits.  Freeing, ageing and searching return and keep this, whatever the allocators answer.
\<close>

unbundle bit_operations_syntax

subsection \<open>Queued packets\<close>

text \<open>\<open>L\<close> lists the queue entries of the table, \<open>R\<close> the pointers to packets held by others.\<close>

definition queued :: "net \<Rightarrow> (ptr \<times> ptr) list \<Rightarrow> ptr multiset \<Rightarrow> bool" where
  "queued n L R \<longleftrightarrow> net_ok n (mset (map snd L) + R) \<and> distinct (map fst L) \<and>
     (\<forall>x\<in>set L. snd x \<noteq> NULL \<and> aux_block n MEMP_ARP_QUEUE (fst x))"

lemma queuedD:
  assumes "queued n L R"
  shows "net_ok n (mset (map snd L) + R)" "distinct (map fst L)" "(r, p) \<in> set L \<Longrightarrow> p \<noteq> NULL"
    "(r, p) \<in> set L \<Longrightarrow> aux_block n MEMP_ARP_QUEUE r" "p \<in># R \<Longrightarrow> heads n p"
  using assms by (auto simp: queued_def net_ok_def)

text \<open>The bytes in memory and the held packets are as before.\<close>

definition still :: "ptr multiset \<Rightarrow> net \<Rightarrow> net \<Rightarrow> bool" where
  "still R n n' \<longleftrightarrow> ram_bytes n' = ram_bytes n \<and> held_same R n n'"

lemma still_refl [simp]: "still R n n"
  by (simp add: still_def)

lemma still_trans: "still R n n' \<Longrightarrow> still R n' n'' \<Longrightarrow> still R n n''"
  using held_same_trans by (auto simp: still_def)

lemma still_pools [simp]: "still R n (n'\<lparr>pools := pl\<rparr>) = still R n n'" "still R (n\<lparr>pools := pl\<rparr>) n' = still R n n'"
  by (simp_all add: still_def)

lemma still_frame:
  assumes "net_frame n n'" "net_ok n' (M + R)"
  shows "still R n n'"
  using held_same_frame [OF assms(1) net_okD(1) [OF assms(2)], of R] net_frameD(2) [OF assms(1)] by (simp add: still_def)

lemma queued_perm: "mset L = mset L' \<Longrightarrow> queued n L R = queued n L' R"
proof -
  assume e: "mset L = mset L'"
  have m: "mset (map f L) = mset (map f L')" for f :: "ptr \<times> ptr \<Rightarrow> ptr" using e by simp
  have "mset (map snd L) = mset (map snd L')" "distinct (map fst L) = distinct (map fst L')"
    using m mset_eq_imp_distinct_iff [OF m] by blast+
  moreover have "set L = set L'" using e by (rule mset_eq_setD)
  ultimately show ?thesis by (simp add: queued_def)
qed

lemma not_pool [simp]: "\<not> pbuf_pool MEMP_ARP_QUEUE"
  by (simp add: pbuf_pool_def)

lemma queued_ram [simp]: "queued (n\<lparr>ram_bytes := m\<rparr>) L R = queued n L R"
  by (simp add: queued_def aux_block_def)

lemma queued_frame:
  assumes "queued n L R" "net_ok n' (mset (map snd L) + R')" "net_frame n n'"
  shows "queued n' L R'"
  using assms aux_frame [OF net_okD(1) [OF queuedD(1) [OF assms(1)]] assms(3) not_pool] by (auto simp: queued_def)

lemma queued_free:
  assumes "queued n L (add_mset p R)" "p \<noteq> NULL"
  shows "\<exists>n' k. pbuf_free p n = Some (n', k) \<and> queued n' L R \<and> still R n n'"
proof -
  have "net_ok n (add_mset p (mset (map snd L) + R))" using queuedD(1) [OF assms(1)] by simp
  from pbuf_free_ok [OF this assms(2)] obtain n' k where
    f: "pbuf_free p n = Some (n', k)" "net_ok n' (mset (map snd L) + R)" "net_frame n n'" by blast
  then show ?thesis using queued_frame [OF assms(1) f(2,3)] still_frame [OF f(3,2)] by blast
qed

lemma queued_pop:
  assumes "queued n ((r, p) # L) R"
  shows "queued (n\<lparr>pools := memp_free MEMP_ARP_QUEUE r (pools n)\<rparr>) L (add_mset p R)"
proof -
  have b: "aux_block n MEMP_ARP_QUEUE r" "net_ok n (mset (map snd L) + add_mset p R)"
    using queuedD(1) [OF assms] queuedD(4) [OF assms, of r p] by (simp_all add: add.commute)
  note F = aux_free_ok [OF b(2,1) not_pool]
  show ?thesis using assms F by (auto simp: queued_def)
qed

lemma queued_drop:
  assumes "queued n ((r, p) # L) R"
  shows "\<exists>n' k. pbuf_free p n = Some (n', k) \<and> queued (n'\<lparr>pools := memp_free MEMP_ARP_QUEUE r (pools n')\<rparr>) L R \<and> still R n n'"
proof -
  have "net_ok n (add_mset p (mset (map snd L) + R))" "p \<noteq> NULL" using assms by (auto simp: queued_def)
  from pbuf_free_ok [OF this] obtain n' k where
    f: "pbuf_free p n = Some (n', k)" "net_ok n' (mset (map snd L) + R)" "net_frame n n'" by blast
  have b: "aux_block n' MEMP_ARP_QUEUE x" if "(x, y) \<in> set ((r, p) # L)" for x y
    using aux_frame [OF net_okD(1) [OF queuedD(1) [OF assms]] f(3) not_pool queuedD(4) [OF assms that]] .
  have br: "aux_block n' MEMP_ARP_QUEUE r" using b [of r p] by simp
  have bl: "aux_block n' MEMP_ARP_QUEUE (fst x)" if "x \<in> set L" for x using b [of "fst x" "snd x"] that by simp
  note F = aux_free_ok [OF f(2) br not_pool]
  have "queued (n'\<lparr>pools := memp_free MEMP_ARP_QUEUE r (pools n')\<rparr>) L R"
    using assms F bl by (auto simp: queued_def)
  then show ?thesis using f(1) still_frame [OF f(3,2)] by blast
qed

lemma queued_push:
  assumes "queued n L (add_mset p R)" "p \<noteq> NULL" "memp_malloc MEMP_ARP_QUEUE (pools n) = (pl, r)" "r \<noteq> NULL"
  shows "queued (n\<lparr>pools := pl\<rparr>) (L @ [(r, p)]) R"
proof -
  note M = aux_alloc_ok [OF queuedD(1) [OF assms(1)] not_pool assms(3)]
  have "r \<notin> fst ` set L" using M(4) assms(4) queuedD(4) [OF assms(1)] by auto
  then show ?thesis using M(1,3) assms by (auto simp: queued_def)
qed

lemma queued_malloc_fail:
  assumes "queued n L R" "memp_malloc MEMP_ARP_QUEUE (pools n) = (pl, NULL)"
  shows "n\<lparr>pools := pl\<rparr> = n"
  using aux_alloc_ok(2) [OF queuedD(1) [OF assms(1)] not_pool assms(2)] by simp

lemma queued_alloc:
  assumes "queued n L R" "len \<le> 65456"
  shows "\<exists>n' p. pbuf_alloc layer len PBUF_RAM n = Some (n', p) \<and> still R n n' \<and>
    (p = NULL \<and> n' = n \<or> p \<noteq> NULL \<and> queued n' L (add_mset p R) \<and> packet n' [p] \<and> pb_len (pbufs n' p) = len \<and>
      p \<notin> alive n \<and> (\<forall>x\<in>alive n. pbufs n' x = pbufs n x \<and> x \<in> alive n'))"
proof -
  obtain n' p where a: "pbuf_alloc layer len PBUF_RAM n = Some (n', p)" "pools n' = pools n" "ram_bytes n' = ram_bytes n"
    "p = NULL \<and> n' = n \<or> p \<noteq> NULL \<and> p \<notin> alive n \<and> net_ok n' (add_mset p (mset (map snd L) + R)) \<and> packet n' [p] \<and>
      pb_len (pbufs n' p) = len \<and> alive n' = insert p (alive n) \<and> (\<forall>x\<in>alive n. pbufs n' x = pbufs n x)"
    using pbuf_alloc_ram_ok [OF queuedD(1) [OF assms(1)] assms(2), of layer] by blast
  have "queued n' L (add_mset p R)" if "p \<noteq> NULL" using that a(2,4) assms(1) by (auto simp: queued_def aux_block_def)
  moreover have "held_same R n n'"
  proof (cases "p = NULL")
    case False
    then have n: "net_inv n' (add_mset p (mset (map snd L) + R))" "\<forall>x\<in>alive n. pbufs n' x = pbufs n x" using a(4) by (auto simp: net_ok_def)
    show ?thesis by (rule held_same_keep [OF n(1)]) (use n(2) in auto)
  qed (use a(4) in simp)
  ultimately show ?thesis using a unfolding still_def by blast
qed

lemma free_etharp_q_ok:
  "queued n (qs @ L) R \<Longrightarrow> \<exists>n'. free_etharp_q qs n = Some n' \<and> queued n' L R \<and> still R n n'"
proof (induction qs arbitrary: n)
  case (Cons x qs)
  obtain r p where x: "x = (r, p)" by (cases x)
  obtain n' k where f: "pbuf_free p n = Some (n', k)" "queued (n'\<lparr>pools := memp_free MEMP_ARP_QUEUE r (pools n')\<rparr>) (qs @ L) R" "still R n n'"
    using queued_drop [of n r p "qs @ L" R] Cons.prems x by auto
  from Cons.IH [OF f(2)] show ?case using f(1) still_trans [OF f(3)] by (auto simp: x)
qed auto

subsection \<open>The table\<close>

definition entry_ok :: "etharp_entry \<Rightarrow> bool" where
  "entry_ok e \<longleftrightarrow> length (arp_eth e) = 6 \<and> (arp_state e \<noteq> ETHARP_STATE_PENDING \<longrightarrow> arp_q e = []) \<and> arp_ctime e < ARP_MAXAGE \<and>
     (arp_state e = ETHARP_STATE_PENDING \<longrightarrow> arp_ctime e < ARP_MAXPENDING)"

text \<open>Entry \<open>i\<close> does not share its address with another used entry.\<close>

definition own_ip :: "nat \<Rightarrow> u32 \<Rightarrow> etharp_entry list \<Rightarrow> bool" where
  "own_ip i a T \<longleftrightarrow> (\<forall>j<length T. j \<noteq> i \<longrightarrow> arp_state (T ! j) \<noteq> ETHARP_STATE_EMPTY \<longrightarrow> arp_ip (T ! j) \<noteq> a)"

text \<open>The table is in order except, possibly, for entry \<open>i\<close>.\<close>

definition rest_ok :: "nat \<Rightarrow> etharp_entry list \<Rightarrow> bool" where
  "rest_ok i T \<longleftrightarrow> length T = ARP_TABLE_SIZE \<and> (\<forall>j<ARP_TABLE_SIZE. j \<noteq> i \<longrightarrow> entry_ok (T ! j)) \<and>
     (\<forall>j<ARP_TABLE_SIZE. \<forall>k<ARP_TABLE_SIZE. j \<noteq> i \<longrightarrow> k \<noteq> i \<longrightarrow> j \<noteq> k \<longrightarrow> arp_state (T ! j) \<noteq> ETHARP_STATE_EMPTY \<longrightarrow>
        arp_state (T ! k) \<noteq> ETHARP_STATE_EMPTY \<longrightarrow> arp_ip (T ! j) \<noteq> arp_ip (T ! k))"

definition table_ok :: "etharp_entry list \<Rightarrow> bool" where
  "table_ok T \<longleftrightarrow> rest_ok ARP_TABLE_SIZE T"

definition others :: "etharp_entry list \<Rightarrow> nat \<Rightarrow> (ptr \<times> ptr) list" where
  "others T i = concat (map arp_q (take i T)) @ concat (map arp_q (drop (Suc i) T))"

lemma rest_okD: "rest_ok i T \<Longrightarrow> length T = ARP_TABLE_SIZE"
  "rest_ok i T \<Longrightarrow> j < ARP_TABLE_SIZE \<Longrightarrow> j \<noteq> i \<Longrightarrow> entry_ok (T ! j)"
  by (auto simp: rest_ok_def)

lemma table_okD: "table_ok T \<Longrightarrow> length T = ARP_TABLE_SIZE"
  "table_ok T \<Longrightarrow> j < ARP_TABLE_SIZE \<Longrightarrow> entry_ok (T ! j)"
  by (auto simp: rest_ok_def table_ok_def)

lemma table_ok_own:
  "table_ok T \<Longrightarrow> i < ARP_TABLE_SIZE \<Longrightarrow> arp_state (T ! i) \<noteq> ETHARP_STATE_EMPTY \<Longrightarrow> own_ip i (arp_ip (T ! i)) T"
  by (auto simp: rest_ok_def table_ok_def own_ip_def)

lemma rest_ok_upd [simp]: "rest_ok i (T[i := e]) = rest_ok i T"
  by (auto simp: rest_ok_def nth_list_update)

lemma table_rest: "table_ok T \<Longrightarrow> rest_ok i T"
  by (auto simp: rest_ok_def table_ok_def)

lemma own_ip_upd [simp]: "own_ip i a (T[i := e]) = own_ip i a T"
  by (auto simp: own_ip_def nth_list_update)

lemma rest_table:
  assumes "rest_ok i T" "entry_ok (T ! i)" "arp_state (T ! i) \<noteq> ETHARP_STATE_EMPTY \<Longrightarrow> own_ip i (arp_ip (T ! i)) T"
  shows "table_ok T"
  unfolding table_ok_def rest_ok_def
proof (intro conjI allI impI)
  show "length T = ARP_TABLE_SIZE" using assms(1) by (rule rest_okD)
  show "entry_ok (T ! j)" if "j < ARP_TABLE_SIZE" for j using assms(1,2) that by (cases "j = i") (auto simp: rest_okD)
  show "arp_ip (T ! j) \<noteq> arp_ip (T ! k)"
    if "j < ARP_TABLE_SIZE" "k < ARP_TABLE_SIZE" "j \<noteq> k" "arp_state (T ! j) \<noteq> ETHARP_STATE_EMPTY" "arp_state (T ! k) \<noteq> ETHARP_STATE_EMPTY" for j k
  proof (cases "j = i \<or> k = i")
    case True
    then show ?thesis using assms(3) rest_okD(1) [OF assms(1)] that unfolding own_ip_def by metis
  next
    case False
    then show ?thesis using assms(1) that unfolding rest_ok_def by blast
  qed
qed

lemma rest_table_upd:
  assumes "rest_ok i T" "i < ARP_TABLE_SIZE" "entry_ok e" "arp_state e \<noteq> ETHARP_STATE_EMPTY \<Longrightarrow> own_ip i (arp_ip e) T"
  shows "table_ok (T[i := e])"
  by (rule rest_table [of i]) (use assms rest_okD(1) [OF assms(1)] in simp_all)

lemma others_upd [simp]: "others (T[i := e]) i = others T i"
  by (simp add: others_def)

lemma queued_split:
  assumes "i < length T"
  shows "queued n (concat (map arp_q T)) R = queued n (arp_q (T ! i) @ others T i) R"
proof (rule queued_perm)
  have "map arp_q T = map arp_q (take i T) @ arp_q (T ! i) # map arp_q (drop (Suc i) T)"
    by (subst id_take_nth_drop [OF assms]) simp
  then show "mset (concat (map arp_q T)) = mset (arp_q (T ! i) @ others T i)" by (simp add: others_def)
qed

text \<open>The invariant of the module; \<open>R\<close> are the references to packets others hold.\<close>

definition arp_rest :: "nat \<Rightarrow> 'a arp_scheme \<Rightarrow> ptr multiset \<Rightarrow> bool" where
  "arp_rest i s R \<longleftrightarrow> queued (nt s) (arp_q (arp_table s ! i) @ others (arp_table s) i) R \<and> rest_ok i (arp_table s) \<and>
     etharp_cached_entry s < ARP_TABLE_SIZE"

definition arp_ok :: "'a arp_scheme \<Rightarrow> ptr multiset \<Rightarrow> bool" where
  "arp_ok s R \<longleftrightarrow> queued (nt s) (concat (map arp_q (arp_table s))) R \<and> table_ok (arp_table s) \<and>
     etharp_cached_entry s < ARP_TABLE_SIZE"

lemma arp_okD: "arp_ok s R \<Longrightarrow> queued (nt s) (concat (map arp_q (arp_table s))) R"
  "arp_ok s R \<Longrightarrow> table_ok (arp_table s)" "arp_ok s R \<Longrightarrow> length (arp_table s) = ARP_TABLE_SIZE"
  "arp_ok s R \<Longrightarrow> etharp_cached_entry s < ARP_TABLE_SIZE"
  "arp_ok s R \<Longrightarrow> i < ARP_TABLE_SIZE \<Longrightarrow> entry_ok (arp_table s ! i)"
  by (auto simp: arp_ok_def dest: table_okD)

lemma arp_ok_rest: "arp_ok s R \<Longrightarrow> i < ARP_TABLE_SIZE \<Longrightarrow> arp_rest i s R"
  using queued_split [of i "arp_table s" "nt s" R] table_rest [of "arp_table s" i] arp_okD(3) [of s R]
  by (simp add: arp_ok_def arp_rest_def)

lemma arp_rest_ok:
  assumes "arp_rest i s R" "i < ARP_TABLE_SIZE" "entry_ok (arp_table s ! i)"
    "arp_state (arp_table s ! i) \<noteq> ETHARP_STATE_EMPTY \<Longrightarrow> own_ip i (arp_ip (arp_table s ! i)) (arp_table s)"
  shows "arp_ok s R"
proof -
  have r: "queued (nt s) (arp_q (arp_table s ! i) @ others (arp_table s) i) R" "rest_ok i (arp_table s)" "etharp_cached_entry s < ARP_TABLE_SIZE"
    using assms(1) by (simp_all add: arp_rest_def)
  then show ?thesis using rest_table [OF r(2) assms(3,4)] queued_split [of i "arp_table s" "nt s" R] rest_okD(1) [OF r(2)] assms(2)
    by (simp add: arp_ok_def)
qed

text \<open>The entry is replaced and the net has changed: what to show.\<close>

lemma arp_rest_entry:
  assumes "arp_rest i s R" "i < ARP_TABLE_SIZE" "queued n (arp_q e @ others (arp_table s) i) R'" "entry_ok e"
    "arp_state e \<noteq> ETHARP_STATE_EMPTY \<Longrightarrow> own_ip i (arp_ip e) (arp_table s)"
  shows "arp_ok (s\<lparr>nt := n, arp_table := (arp_table s)[i := e]\<rparr>) R'"
proof -
  have l: "length (arp_table s) = ARP_TABLE_SIZE" "rest_ok i (arp_table s)" "etharp_cached_entry s < ARP_TABLE_SIZE"
    using assms(1) by (auto simp: arp_rest_def rest_okD)
  then have "arp_rest i (s\<lparr>nt := n, arp_table := (arp_table s)[i := e]\<rparr>) R'"
    using assms(2,3) by (simp add: arp_rest_def)
  then show ?thesis by (rule arp_rest_ok) (use assms l in simp_all)
qed

definition empty_entry :: etharp_entry where
  "empty_entry = \<lparr>arp_q = [], arp_ip = 0, arp_netif = NULL, arp_eth = ethzero, arp_state = ETHARP_STATE_EMPTY, arp_ctime = 0\<rparr>"

lemma empty_entry_ok [simp]: "entry_ok empty_entry" "arp_q empty_entry = []" "arp_state empty_entry = ETHARP_STATE_EMPTY"
  by (simp_all add: empty_entry_def entry_ok_def ethzero_def ARP_MAXAGE_def)

subsection \<open>Freeing and ageing\<close>

lemma etharp_free_entry_ok:
  assumes "arp_rest i s R" "i < ARP_TABLE_SIZE"
  shows "\<exists>n. etharp_free_entry i s = Some (s\<lparr>nt := n, arp_table := (arp_table s)[i := empty_entry]\<rparr>) \<and>
    arp_ok (s\<lparr>nt := n, arp_table := (arp_table s)[i := empty_entry]\<rparr>) R \<and> still R (nt s) n"
proof -
  have q: "queued (nt s) (arp_q (arp_table s ! i) @ others (arp_table s) i) R" and l: "length (arp_table s) = ARP_TABLE_SIZE"
    using assms(1) by (auto simp: arp_rest_def rest_okD)
  obtain n where n: "free_etharp_q (arp_q (arp_table s ! i)) (nt s) = Some n" "queued n (others (arp_table s) i) R" "still R (nt s) n"
    using free_etharp_q_ok [OF q] by blast
  have e: "(arp_table s ! i)\<lparr>arp_q := [], arp_state := ETHARP_STATE_EMPTY, arp_ctime := 0, arp_netif := NULL, arp_ip := 0, arp_eth := ethzero\<rparr> = empty_entry"
    by (simp add: empty_entry_def)
  have "etharp_free_entry i s = Some (s\<lparr>nt := n, arp_table := (arp_table s)[i := empty_entry]\<rparr>)"
  proof (cases "arp_q (arp_table s ! i) = []")
    case True
    then have "(arp_table s ! i)\<lparr>arp_state := ETHARP_STATE_EMPTY, arp_ctime := 0, arp_netif := NULL, arp_ip := 0, arp_eth := ethzero\<rparr> = empty_entry"
      by (cases "arp_table s ! i") (simp add: empty_entry_def)
    moreover have "n = nt s" using True n(1) by simp
    ultimately show ?thesis using True by (simp add: etharp_free_entry_def upd_entry_def)
  next
    case False
    then show ?thesis using n(1) e l assms(2) by (simp add: etharp_free_entry_def upd_entry_def)
  qed
  then show ?thesis using arp_rest_entry [OF assms, of n empty_entry R] n by auto
qed

text \<open>What one call of the timer does to an entry.\<close>

definition tick :: "etharp_entry \<Rightarrow> etharp_entry" where
  "tick e =
     (if arp_state e = ETHARP_STATE_EMPTY then e
      else if arp_ctime e + 1 \<ge> ARP_MAXAGE \<or> arp_state e = ETHARP_STATE_PENDING \<and> arp_ctime e + 1 \<ge> ARP_MAXPENDING then empty_entry
      else e\<lparr>arp_ctime := arp_ctime e + 1,
              arp_state := (if arp_state e = ETHARP_STATE_STABLE_REREQUESTING then ETHARP_STATE_STABLE else arp_state e)\<rparr>)"

lemma etharp_tmr_entry_ok:
  assumes ok: "arp_ok s R" and i: "i < ARP_TABLE_SIZE"
  shows "\<exists>n. etharp_tmr_entry i s = Some (s\<lparr>nt := n, arp_table := (arp_table s)[i := tick (arp_table s ! i)]\<rparr>) \<and>
    arp_ok (s\<lparr>nt := n, arp_table := (arp_table s)[i := tick (arp_table s ! i)]\<rparr>) R \<and> still R (nt s) n"
proof -
  let ?e = "arp_table s ! i"
  let ?e1 = "?e\<lparr>arp_ctime := arp_ctime ?e + 1\<rparr>"
  let ?s1 = "s\<lparr>arp_table := (arp_table s)[i := ?e1]\<rparr>"
  have l: "length (arp_table s) = ARP_TABLE_SIZE" and eo: "entry_ok ?e" using arp_okD [OF ok] i by blast+
  have u: "to_u8 (arp_ctime ?e + 1) = arp_ctime ?e + 1" using eo by (simp add: entry_ok_def ARP_MAXAGE_def to_u8_def)
  have r: "arp_rest i s R" using ok i by (rule arp_ok_rest)
  have r1: "arp_rest i ?s1 R" using r l i by (simp add: arp_rest_def)
  consider (empty) "arp_state ?e = ETHARP_STATE_EMPTY"
    | (old) "arp_state ?e \<noteq> ETHARP_STATE_EMPTY" "arp_ctime ?e + 1 \<ge> ARP_MAXAGE \<or> arp_state ?e = ETHARP_STATE_PENDING \<and> arp_ctime ?e + 1 \<ge> ARP_MAXPENDING"
    | (aged) "arp_state ?e \<noteq> ETHARP_STATE_EMPTY" "\<not> (arp_ctime ?e + 1 \<ge> ARP_MAXAGE \<or> arp_state ?e = ETHARP_STATE_PENDING \<and> arp_ctime ?e + 1 \<ge> ARP_MAXPENDING)"
    by blast
  then show ?thesis
  proof cases
    case empty
    then show ?thesis using ok by (intro exI [of _ "nt s"]) (simp add: etharp_tmr_entry_def tick_def)
  next
    case old
    obtain n where n: "etharp_free_entry i ?s1 = Some (?s1\<lparr>nt := n, arp_table := (arp_table ?s1)[i := empty_entry]\<rparr>)"
      "arp_ok (?s1\<lparr>nt := n, arp_table := (arp_table ?s1)[i := empty_entry]\<rparr>) R" "still R (nt ?s1) n"
      using etharp_free_entry_ok [OF r1 i] by blast
    have t: "tick ?e = empty_entry" using old by (simp add: tick_def)
    show ?thesis using old n l i u unfolding t
      by (intro exI [of _ n]) (simp add: etharp_tmr_entry_def upd_entry_def)
  next
    case aged
    let ?t = "tick ?e"
    have t: "?t = ?e1\<lparr>arp_state := (if arp_state ?e = ETHARP_STATE_STABLE_REREQUESTING then ETHARP_STATE_STABLE else arp_state ?e)\<rparr>"
      using aged by (auto simp: tick_def)
    have "etharp_tmr_entry i s = Some (s\<lparr>nt := nt s, arp_table := (arp_table s)[i := ?t]\<rparr>)"
      using aged l i u t by (auto simp: etharp_tmr_entry_def upd_entry_def Let_def)
    moreover have "arp_ok (s\<lparr>nt := nt s, arp_table := (arp_table s)[i := ?t]\<rparr>) R"
    proof (rule arp_rest_entry [OF r i])
      show "queued (nt s) (arp_q ?t @ others (arp_table s) i) R" using r t by (simp add: arp_rest_def)
      show "entry_ok ?t" using eo aged t by (auto simp: entry_ok_def)
      show "own_ip i (arp_ip ?t) (arp_table s)" using table_ok_own [OF arp_okD(2) [OF ok] i aged(1)] t by simp
    qed
    ultimately show ?thesis by (intro exI [of _ "nt s"]) simp
  qed
qed

lemma for_entries_ok:
  assumes f: "\<And>i s. i < ARP_TABLE_SIZE \<Longrightarrow> arp_ok s R \<Longrightarrow>
      \<exists>n. f i s = Some (s\<lparr>nt := n, arp_table := (arp_table s)[i := g (arp_table s ! i)]\<rparr>) \<and>
        arp_ok (s\<lparr>nt := n, arp_table := (arp_table s)[i := g (arp_table s ! i)]\<rparr>) R \<and> still R (nt s) n"
  shows "k \<le> ARP_TABLE_SIZE \<Longrightarrow> arp_ok s R \<Longrightarrow>
    \<exists>n. for_entries f [k..<ARP_TABLE_SIZE] s = Some (s\<lparr>nt := n, arp_table := take k (arp_table s) @ map g (drop k (arp_table s))\<rparr>) \<and>
      arp_ok (s\<lparr>nt := n, arp_table := take k (arp_table s) @ map g (drop k (arp_table s))\<rparr>) R \<and> still R (nt s) n"
proof (induction "ARP_TABLE_SIZE - k" arbitrary: k s)
  case 0
  then have "k = ARP_TABLE_SIZE" by simp
  then show ?case using 0 arp_okD(3) [OF 0(3)] by (intro exI [of _ "nt s"]) simp
next
  case (Suc m)
  let ?T = "arp_table s"
  have k: "k < ARP_TABLE_SIZE" "m = ARP_TABLE_SIZE - Suc k" "Suc k \<le> ARP_TABLE_SIZE" using Suc.hyps(2) by simp_all
  have l: "length ?T = ARP_TABLE_SIZE" using Suc.prems(2) by (rule arp_okD)
  obtain n where n: "f k s = Some (s\<lparr>nt := n, arp_table := ?T[k := g (?T ! k)]\<rparr>)"
    "arp_ok (s\<lparr>nt := n, arp_table := ?T[k := g (?T ! k)]\<rparr>) R" "still R (nt s) n"
    using f [OF k(1) Suc.prems(2)] by blast
  have t: "take (Suc k) (?T[k := g (?T ! k)]) @ map g (drop (Suc k) (?T[k := g (?T ! k)])) = take k ?T @ map g (drop k ?T)"
    using k(1) l by (simp add: take_Suc_conv_app_nth Cons_nth_drop_Suc [symmetric])
  from Suc.hyps(1) [OF k(2,3) n(2)] obtain n' where n':
    "for_entries f [Suc k..<ARP_TABLE_SIZE] (s\<lparr>nt := n, arp_table := ?T[k := g (?T ! k)]\<rparr>) = Some (s\<lparr>nt := n', arp_table := take k ?T @ map g (drop k ?T)\<rparr>)"
    "arp_ok (s\<lparr>nt := n', arp_table := take k ?T @ map g (drop k ?T)\<rparr>) R" "still R n n'"
    using t by auto
  have "for_entries f [k..<ARP_TABLE_SIZE] s = Some (s\<lparr>nt := n', arp_table := take k ?T @ map g (drop k ?T)\<rparr>)"
    using n(1) n'(1) by (simp add: upt_conv_Cons [OF k(1)])
  then show ?case using n'(2) still_trans [OF n(3) n'(3)] by auto
qed

lemma etharp_tmr_ok:
  assumes "arp_ok s R"
  shows "\<exists>n. etharp_tmr s = Some (s\<lparr>nt := n, arp_table := map tick (arp_table s)\<rparr>) \<and>
    arp_ok (s\<lparr>nt := n, arp_table := map tick (arp_table s)\<rparr>) R \<and> still R (nt s) n"
  using for_entries_ok [of R etharp_tmr_entry tick 0 s, OF etharp_tmr_entry_ok _ assms] by (simp add: etharp_tmr_def)

definition unlink_entry :: "ptr \<Rightarrow> etharp_entry \<Rightarrow> etharp_entry" where
  "unlink_entry nf e = (if arp_state e \<noteq> ETHARP_STATE_EMPTY \<and> arp_netif e = nf then empty_entry else e)"

lemma etharp_cleanup_netif_ok:
  assumes "arp_ok s R"
  shows "\<exists>n. etharp_cleanup_netif nf s = Some (s\<lparr>nt := n, arp_table := map (unlink_entry nf) (arp_table s)\<rparr>) \<and>
    arp_ok (s\<lparr>nt := n, arp_table := map (unlink_entry nf) (arp_table s)\<rparr>) R \<and> still R (nt s) n"
proof -
  let ?f = "\<lambda>i s. if arp_state (arp_table s ! i) \<noteq> ETHARP_STATE_EMPTY \<and> arp_netif (arp_table s ! i) = nf
                  then etharp_free_entry i s else Some s"
  have "\<exists>n. ?f i s = Some (s\<lparr>nt := n, arp_table := (arp_table s)[i := unlink_entry nf (arp_table s ! i)]\<rparr>) \<and>
        arp_ok (s\<lparr>nt := n, arp_table := (arp_table s)[i := unlink_entry nf (arp_table s ! i)]\<rparr>) R \<and> still R (nt s) n"
    if "i < ARP_TABLE_SIZE" "arp_ok s R" for i and s :: "'a arp_scheme"
  proof (cases "arp_state (arp_table s ! i) \<noteq> ETHARP_STATE_EMPTY \<and> arp_netif (arp_table s ! i) = nf")
    case True
    then show ?thesis using etharp_free_entry_ok [OF arp_ok_rest [OF that(2,1)] that(1)] by (simp add: unlink_entry_def)
  next
    case False
    then have "unlink_entry nf (arp_table s ! i) = arp_table s ! i" by (auto simp: unlink_entry_def)
    then show ?thesis using False that by (intro exI [of _ "nt s"]) auto
  qed
  from for_entries_ok [of R ?f "unlink_entry nf" 0 s, OF this _ assms] show ?thesis by (simp add: etharp_cleanup_netif_def)
qed

text \<open>The timer called \<open>k\<close> times.\<close>

fun etharp_tmrs :: "nat \<Rightarrow> 'a arp_scheme \<Rightarrow> 'a arp_scheme option" where
  "etharp_tmrs 0 s = Some s"
| "etharp_tmrs (Suc k) s = do { s \<leftarrow> etharp_tmr s; etharp_tmrs k s }"

lemma etharp_tmrs_ok:
  "arp_ok s R \<Longrightarrow> \<exists>n. etharp_tmrs k s = Some (s\<lparr>nt := n, arp_table := map (tick ^^ k) (arp_table s)\<rparr>) \<and>
    arp_ok (s\<lparr>nt := n, arp_table := map (tick ^^ k) (arp_table s)\<rparr>) R"
proof (induction k arbitrary: s)
  case 0
  then show ?case by (intro exI [of _ "nt s"]) simp
next
  case (Suc k)
  obtain n where n: "etharp_tmr s = Some (s\<lparr>nt := n, arp_table := map tick (arp_table s)\<rparr>)"
    "arp_ok (s\<lparr>nt := n, arp_table := map tick (arp_table s)\<rparr>) R" using etharp_tmr_ok [OF Suc.prems] by blast
  have m: "map (tick ^^ k) (map tick T) = map (tick ^^ Suc k) T" for T by (simp only: funpow_Suc_right map_map)
  show ?case using Suc.IH [OF n(2)] n(1) m by (auto simp del: funpow.simps map_map)
qed

lemma tick_empty [simp]: "arp_state e = ETHARP_STATE_EMPTY \<Longrightarrow> tick e = e"
  by (simp add: tick_def)

lemma ticks_empty: "arp_state e = ETHARP_STATE_EMPTY \<Longrightarrow> (tick ^^ k) e = e"
  by (induction k) simp_all

lemma ticks_age:
  "arp_state e \<noteq> ETHARP_STATE_EMPTY \<Longrightarrow> arp_ctime e + k < (if arp_state e = ETHARP_STATE_PENDING then ARP_MAXPENDING else ARP_MAXAGE) \<Longrightarrow>
   arp_state ((tick ^^ k) e) \<noteq> ETHARP_STATE_EMPTY \<and> arp_ctime ((tick ^^ k) e) = arp_ctime e + k \<and>
   (arp_state ((tick ^^ k) e) = ETHARP_STATE_PENDING \<longleftrightarrow> arp_state e = ETHARP_STATE_PENDING) \<and>
   arp_ip ((tick ^^ k) e) = arp_ip e \<and> arp_eth ((tick ^^ k) e) = arp_eth e"
proof (induction k)
  case (Suc k)
  let ?e = "(tick ^^ k) e"
  have I: "arp_state ?e \<noteq> ETHARP_STATE_EMPTY" "arp_ctime ?e = arp_ctime e + k"
    "arp_state ?e = ETHARP_STATE_PENDING \<longleftrightarrow> arp_state e = ETHARP_STATE_PENDING" "arp_ip ?e = arp_ip e" "arp_eth ?e = arp_eth e"
    using Suc by (auto split: if_splits)
  have "\<not> (arp_ctime ?e + 1 \<ge> ARP_MAXAGE \<or> arp_state ?e = ETHARP_STATE_PENDING \<and> arp_ctime ?e + 1 \<ge> ARP_MAXPENDING)"
    using Suc.prems(2) I by (auto simp: ARP_MAXAGE_def ARP_MAXPENDING_def split: if_splits)
  then have "(tick ^^ Suc k) e = ?e\<lparr>arp_ctime := arp_ctime ?e + 1,
     arp_state := (if arp_state ?e = ETHARP_STATE_STABLE_REREQUESTING then ETHARP_STATE_STABLE else arp_state ?e)\<rparr>"
    using I(1) by (auto simp: tick_def)
  then show ?case using I by (cases "arp_state ?e") auto
qed simp

lemma ticks_expire:
  assumes "entry_ok e" "(if arp_state e = ETHARP_STATE_PENDING then ARP_MAXPENDING else ARP_MAXAGE) \<le> arp_ctime e + k"
  shows "arp_state ((tick ^^ k) e) = ETHARP_STATE_EMPTY"
proof (cases "arp_state e = ETHARP_STATE_EMPTY")
  case False
  define lim where "lim = (if arp_state e = ETHARP_STATE_PENDING then ARP_MAXPENDING else ARP_MAXAGE)"
  define j where "j = lim - arp_ctime e - 1"
  have j: "arp_ctime e + j + 1 = lim" using assms(1) unfolding j_def lim_def entry_ok_def by (auto simp: ARP_MAXAGE_def ARP_MAXPENDING_def)
  have k: "k = (k - Suc j) + Suc j" using assms(2) j by (simp add: lim_def [symmetric])
  let ?e = "(tick ^^ j) e"
  have "arp_ctime ?e + 1 = lim" "arp_state ?e = ETHARP_STATE_PENDING \<longleftrightarrow> arp_state e = ETHARP_STATE_PENDING" "arp_state ?e \<noteq> ETHARP_STATE_EMPTY"
    using ticks_age [of e j] False j lim_def by auto
  then have "tick ?e = empty_entry" by (auto simp: tick_def lim_def split: if_splits)
  then have "(tick ^^ Suc j) e = empty_entry" by simp
  then show ?thesis by (subst k, subst funpow_add) (simp add: ticks_empty)
qed (simp add: ticks_empty)

subsection \<open>Searching\<close>

text \<open>\<open>k\<close> is the oldest of the first \<open>i\<close> entries with property \<open>P\<close>, the last of them if several are as old, and
  \<open>age\<close> its age; the size of the table if there is none.\<close>

definition oldest :: "(etharp_entry \<Rightarrow> bool) \<Rightarrow> etharp_entry list \<Rightarrow> nat \<Rightarrow> nat \<Rightarrow> nat \<Rightarrow> bool" where
  "oldest P T i k age \<longleftrightarrow>
     k = ARP_TABLE_SIZE \<and> age = 0 \<and> (\<forall>j<i. \<not> P (T ! j)) \<or>
     k < i \<and> P (T ! k) \<and> age = arp_ctime (T ! k) \<and> (\<forall>j<i. P (T ! j) \<longrightarrow> arp_ctime (T ! j) \<le> age)"

abbreviation is_stable :: "etharp_entry \<Rightarrow> bool" where
  "is_stable e \<equiv> arp_state e \<ge> ETHARP_STATE_STABLE"

abbreviation is_pending :: "etharp_entry \<Rightarrow> bool" where
  "is_pending e \<equiv> arp_state e = ETHARP_STATE_PENDING \<and> arp_q e = []"

abbreviation is_waiting :: "etharp_entry \<Rightarrow> bool" where
  "is_waiting e \<equiv> arp_state e = ETHARP_STATE_PENDING \<and> arp_q e \<noteq> []"

lemma oldest_step:
  assumes "oldest P T i k age"
  shows "oldest P T (Suc i) (if P (T ! i) \<and> age \<le> arp_ctime (T ! i) then i else k)
     (if P (T ! i) \<and> age \<le> arp_ctime (T ! i) then arp_ctime (T ! i) else age)"
  using assms by (auto simp: oldest_def less_Suc_eq)

definition cand_ok :: "etharp_entry list \<Rightarrow> nat \<Rightarrow> arp_cand \<Rightarrow> bool" where
  "cand_ok T i c \<longleftrightarrow> oldest is_stable T i (old_stable c) (age_stable c) \<and> oldest is_pending T i (old_pending c) (age_pending c) \<and>
     oldest is_waiting T i (old_queue c) (age_queue c) \<and>
     (empty_slot c = ARP_TABLE_SIZE \<and> (\<forall>j<i. arp_state (T ! j) \<noteq> ETHARP_STATE_EMPTY) \<or>
      empty_slot c < i \<and> arp_state (T ! empty_slot c) = ETHARP_STATE_EMPTY)"

lemma cand_ok0: "cand_ok T 0 arp_cand0"
  by (simp add: cand_ok_def oldest_def arp_cand0_def)

text \<open>The candidates after one more entry.\<close>

definition cand_step :: "nat \<Rightarrow> etharp_entry \<Rightarrow> arp_cand \<Rightarrow> arp_cand" where
  "cand_step i e c =
     (if arp_state e = ETHARP_STATE_EMPTY then (if empty_slot c = ARP_TABLE_SIZE then c\<lparr>empty_slot := i\<rparr> else c)
      else if is_waiting e then (if arp_ctime e \<ge> age_queue c then c\<lparr>old_queue := i, age_queue := arp_ctime e\<rparr> else c)
      else if is_pending e then (if arp_ctime e \<ge> age_pending c then c\<lparr>old_pending := i, age_pending := arp_ctime e\<rparr> else c)
      else (if arp_ctime e \<ge> age_stable c then c\<lparr>old_stable := i, age_stable := arp_ctime e\<rparr> else c))"

lemma find_loop_step:
  "find_loop ip i (e # es) c =
     (if arp_state e \<noteq> ETHARP_STATE_EMPTY \<and> ip = Some (arp_ip e) then Inl i else find_loop ip (Suc i) es (cand_step i e c))"
  by (cases "arp_state e") (auto simp: cand_step_def stable_iff)

lemma cand_step_fields:
  "old_stable (cand_step i e c) = (if is_stable e \<and> age_stable c \<le> arp_ctime e then i else old_stable c)"
  "age_stable (cand_step i e c) = (if is_stable e \<and> age_stable c \<le> arp_ctime e then arp_ctime e else age_stable c)"
  "old_pending (cand_step i e c) = (if is_pending e \<and> age_pending c \<le> arp_ctime e then i else old_pending c)"
  "age_pending (cand_step i e c) = (if is_pending e \<and> age_pending c \<le> arp_ctime e then arp_ctime e else age_pending c)"
  "old_queue (cand_step i e c) = (if is_waiting e \<and> age_queue c \<le> arp_ctime e then i else old_queue c)"
  "age_queue (cand_step i e c) = (if is_waiting e \<and> age_queue c \<le> arp_ctime e then arp_ctime e else age_queue c)"
  "empty_slot (cand_step i e c) = (if arp_state e = ETHARP_STATE_EMPTY \<and> empty_slot c = ARP_TABLE_SIZE then i else empty_slot c)"
  by (cases "arp_state e"; simp add: cand_step_def stable_iff)+

lemma cand_ok_step:
  assumes "cand_ok T i c" "i < ARP_TABLE_SIZE"
  shows "cand_ok T (Suc i) (cand_step i (T ! i) c)"
proof -
  have o: "oldest is_stable T i (old_stable c) (age_stable c)" "oldest is_pending T i (old_pending c) (age_pending c)"
    "oldest is_waiting T i (old_queue c) (age_queue c)" and
    e: "empty_slot c = ARP_TABLE_SIZE \<and> (\<forall>j<i. arp_state (T ! j) \<noteq> ETHARP_STATE_EMPTY) \<or>
      empty_slot c < i \<and> arp_state (T ! empty_slot c) = ETHARP_STATE_EMPTY"
    using assms(1) unfolding cand_ok_def by blast+
  show ?thesis unfolding cand_ok_def cand_step_fields
    by (intro conjI oldest_step [OF o(1)] oldest_step [OF o(2)] oldest_step [OF o(3)]) (use e assms(2) in \<open>auto simp: less_Suc_eq\<close>)
qed

lemma find_loop_spec:
  "length T = ARP_TABLE_SIZE \<Longrightarrow> i \<le> length T \<Longrightarrow> cand_ok T i c \<Longrightarrow>
   (case find_loop ip i (drop i T) c of
      Inl k \<Rightarrow> k < length T \<and> arp_state (T ! k) \<noteq> ETHARP_STATE_EMPTY \<and> ip = Some (arp_ip (T ! k))
    | Inr c' \<Rightarrow> cand_ok T (length T) c' \<and>
        (\<forall>j. i \<le> j \<longrightarrow> j < length T \<longrightarrow> arp_state (T ! j) \<noteq> ETHARP_STATE_EMPTY \<longrightarrow> ip \<noteq> Some (arp_ip (T ! j))))"
proof (induction "length T - i" arbitrary: i c)
  case 0
  then show ?case by simp
next
  case (Suc m)
  then have i: "i < length T" "Suc i \<le> length T" "m = length T - Suc i" by simp_all
  note d = Cons_nth_drop_Suc [OF i(1), symmetric]
  show ?case
  proof (cases "arp_state (T ! i) \<noteq> ETHARP_STATE_EMPTY \<and> ip = Some (arp_ip (T ! i))")
    case True
    then show ?thesis using i(1) by (simp add: d find_loop_step del: find_loop.simps)
  next
    case False
    have "cand_ok T (Suc i) (cand_step i (T ! i) c)" using cand_ok_step [OF Suc.prems(3)] i(1) Suc.prems(1) by simp
    note IH = Suc.hyps(1) [OF i(3) Suc.prems(1) i(2) this]
    have e: "find_loop ip i (drop i T) c = find_loop ip (Suc i) (drop (Suc i) T) (cand_step i (T ! i) c)"
      unfolding d find_loop_step using False by (rule if_not_P)
    show ?thesis
    proof (cases "find_loop ip i (drop i T) c")
      case (Inr c')
      have "ip \<noteq> Some (arp_ip (T ! j))" if "i \<le> j" "j < length T" "arp_state (T ! j) \<noteq> ETHARP_STATE_EMPTY" for j
        using that IH False Inr unfolding e by (cases "j = i") auto
      then show ?thesis using IH Inr unfolding e by simp
    qed (use IH e in simp)
  qed
qed

lemma find_loop_found:
  assumes "length T = ARP_TABLE_SIZE" "find_loop ip 0 T arp_cand0 = Inl k"
  shows "k < ARP_TABLE_SIZE" "arp_state (T ! k) \<noteq> ETHARP_STATE_EMPTY" "ip = Some (arp_ip (T ! k))"
  using find_loop_spec [OF assms(1) _ cand_ok0, of ip] assms by simp_all

lemma find_loop_none:
  assumes "length T = ARP_TABLE_SIZE" "find_loop ip 0 T arp_cand0 = Inr c"
  shows "cand_ok T ARP_TABLE_SIZE c"
    "j < ARP_TABLE_SIZE \<Longrightarrow> arp_state (T ! j) \<noteq> ETHARP_STATE_EMPTY \<Longrightarrow> ip \<noteq> Some (arp_ip (T ! j))"
  using find_loop_spec [OF assms(1) _ cand_ok0, of ip] assms by simp_all

text \<open>The entry given up if none is empty: the oldest stable one, else the oldest pending one, one without waiting packets
  before one with.\<close>

definition least_important :: "etharp_entry list \<Rightarrow> nat \<Rightarrow> bool" where
  "least_important T k \<longleftrightarrow> k < length T \<and>
     (if \<exists>e\<in>set T. is_stable e then is_stable (T ! k) \<and> (\<forall>e\<in>set T. is_stable e \<longrightarrow> arp_ctime e \<le> arp_ctime (T ! k))
      else if \<exists>e\<in>set T. is_pending e then is_pending (T ! k) \<and> (\<forall>e\<in>set T. is_pending e \<longrightarrow> arp_ctime e \<le> arp_ctime (T ! k))
      else is_waiting (T ! k) \<and> (\<forall>e\<in>set T. arp_ctime e \<le> arp_ctime (T ! k)))"

lemma oldest_full:
  assumes "length T = ARP_TABLE_SIZE" "oldest P T ARP_TABLE_SIZE k age"
  shows "k < ARP_TABLE_SIZE \<longleftrightarrow> (\<exists>e\<in>set T. P e)"
    "k < ARP_TABLE_SIZE \<Longrightarrow> P (T ! k) \<and> (\<forall>e\<in>set T. P e \<longrightarrow> arp_ctime e \<le> arp_ctime (T ! k))"
  using assms by (fastforce simp: oldest_def in_set_conv_nth)+

lemma recycle_slot_spec:
  assumes l: "length T = ARP_TABLE_SIZE" and c: "cand_ok T ARP_TABLE_SIZE c" "empty_slot c = ARP_TABLE_SIZE"
  shows "\<exists>k. recycle_slot c = Some k \<and> least_important T k"
proof -
  have o: "oldest is_stable T ARP_TABLE_SIZE (old_stable c) (age_stable c)" "oldest is_pending T ARP_TABLE_SIZE (old_pending c) (age_pending c)"
    "oldest is_waiting T ARP_TABLE_SIZE (old_queue c) (age_queue c)" using c(1) by (simp_all add: cand_ok_def)
  note O = oldest_full [OF l o(1)] oldest_full [OF l o(2)] oldest_full [OF l o(3)]
  have ne: "arp_state e \<noteq> ETHARP_STATE_EMPTY" if "e \<in> set T" for e
    using that c l by (auto simp: cand_ok_def in_set_conv_nth)
  have st: "is_stable e \<or> is_pending e \<or> is_waiting e" if "e \<in> set T" for e
    using ne [OF that] by (cases "arp_state e") (auto simp: stable_iff)
  have "\<exists>e. e \<in> set T" using l by (cases T) (auto simp: ARP_TABLE_SIZE_def)
  then consider (stable) "\<exists>e\<in>set T. is_stable e" | (pending) "\<not> (\<exists>e\<in>set T. is_stable e)" "\<exists>e\<in>set T. is_pending e"
    | (waiting) "\<not> (\<exists>e\<in>set T. is_stable e)" "\<not> (\<exists>e\<in>set T. is_pending e)" "\<exists>e\<in>set T. is_waiting e" using st by blast
  then show ?thesis
  proof cases
    case stable
    then have "old_stable c < ARP_TABLE_SIZE" using O(1) by blast
    then show ?thesis using O(2) stable l by (simp add: recycle_slot_def least_important_def)
  next
    case pending
    then have k: "\<not> old_stable c < ARP_TABLE_SIZE" "old_pending c < ARP_TABLE_SIZE" using O(1,3) by blast+
    have "least_important T (old_pending c)"
      unfolding least_important_def if_not_P [OF pending(1)] if_P [OF pending(2)] using O(4) [OF k(2)] k(2) l by simp
    then show ?thesis using k by (simp add: recycle_slot_def)
  next
    case waiting
    then have k: "\<not> old_stable c < ARP_TABLE_SIZE" "\<not> old_pending c < ARP_TABLE_SIZE" "old_queue c < ARP_TABLE_SIZE" using O(1,3,5) by blast+
    have "is_waiting e" if "e \<in> set T" for e using st [OF that] waiting(1,2) that by blast
    then have "least_important T (old_queue c)"
      unfolding least_important_def if_not_P [OF waiting(1)] if_not_P [OF waiting(2)] using O(6) [OF k(3)] k(3) l by simp
    then show ?thesis using k by (simp add: recycle_slot_def)
  qed
qed

subsection \<open>Finding an entry\<close>

text \<open>Everything the module never touches is kept, and frames are only added.\<close>

definition arp_frame :: "'a arp_scheme \<Rightarrow> 'a arp_scheme \<Rightarrow> bool" where
  "arp_frame s s' \<longleftrightarrow> netifs s' = netifs s \<and> netif_list s' = netif_list s \<and> netif_default s' = netif_default s \<and>
     netif_num s' = netif_num s \<and> tx_done s' = tx_done s \<and> arp.more s' = arp.more s \<and> (\<exists>fs. tx_frames s' = tx_frames s @ fs)"

lemma arp_frame_refl [simp]: "arp_frame s s"
  by (simp add: arp_frame_def)

lemma arp_frame_trans: "arp_frame s s' \<Longrightarrow> arp_frame s' s'' \<Longrightarrow> arp_frame s s''"
  by (auto simp: arp_frame_def)

lemma arp_frame_upd [simp]:
  "arp_frame s (s'\<lparr>nt := n\<rparr>) = arp_frame s s'" "arp_frame s (s'\<lparr>arp_table := T\<rparr>) = arp_frame s s'"
  "arp_frame s (s'\<lparr>etharp_cached_entry := c\<rparr>) = arp_frame s s'" "arp_frame s (s\<lparr>tx_frames := tx_frames s @ fs\<rparr>)"
  by (simp_all add: arp_frame_def)

text \<open>No used entry has the address.\<close>

abbreviation no_ip :: "u32 \<Rightarrow> etharp_entry list \<Rightarrow> bool" where
  "no_ip a T \<equiv> \<forall>e\<in>set T. arp_state e \<noteq> ETHARP_STATE_EMPTY \<longrightarrow> arp_ip e \<noteq> a"

abbreviation all_used :: "etharp_entry list \<Rightarrow> bool" where
  "all_used T \<equiv> \<forall>e\<in>set T. arp_state e \<noteq> ETHARP_STATE_EMPTY"

text \<open>The search neither finds nor may make an entry.\<close>

abbreviation refused :: "u32 \<Rightarrow> u8 \<Rightarrow> etharp_entry list \<Rightarrow> bool" where
  "refused a flags T \<equiv>
     no_ip a T \<and> (flags AND ETHARP_FLAG_FIND_ONLY \<noteq> 0 \<or> all_used T \<and> flags AND ETHARP_FLAG_TRY_HARD = 0)"

lemma no_ip_own: "no_ip a T \<Longrightarrow> own_ip i a T"
  by (simp add: own_ip_def)

text \<open>The three answers of the search: a used entry for the address, an entry made for it, or none.\<close>

definition entry_found :: "u32 \<Rightarrow> 'a arp_scheme \<Rightarrow> nat \<Rightarrow> 'a arp_scheme \<Rightarrow> bool" where
  "entry_found a s i s' \<longleftrightarrow> s' = s \<and> arp_state (arp_table s ! i) \<noteq> ETHARP_STATE_EMPTY"

definition entry_made :: "u32 \<Rightarrow> 'a arp_scheme \<Rightarrow> nat \<Rightarrow> 'a arp_scheme \<Rightarrow> bool" where
  "entry_made a s i s' \<longleftrightarrow> no_ip a (arp_table s) \<and> arp_table s' = (arp_table s)[i := arp_table s' ! i] \<and>
     arp_state (arp_table s' ! i) = ETHARP_STATE_EMPTY \<and> arp_ctime (arp_table s' ! i) = 0 \<and>
     (arp_state (arp_table s ! i) = ETHARP_STATE_EMPTY \<or> all_used (arp_table s) \<and> least_important (arp_table s) i)"

definition entry_for :: "u32 \<Rightarrow> 'a arp_scheme \<Rightarrow> nat \<Rightarrow> 'a arp_scheme \<Rightarrow> bool" where
  "entry_for a s i s' \<longleftrightarrow> i < ARP_TABLE_SIZE \<and> arp_ip (arp_table s' ! i) = a \<and> own_ip i a (arp_table s') \<and>
     (entry_found a s i s' \<or> entry_made a s i s')"

lemma init_entry_ok:
  assumes ok: "arp_ok s R" and i: "i < ARP_TABLE_SIZE" "arp_state (arp_table s ! i) = ETHARP_STATE_EMPTY"
  shows "arp_ok (init_entry i (Some a) s) R"
proof -
  let ?e = "(arp_table s ! i)\<lparr>arp_ip := a, arp_ctime := 0\<rparr>"
  have r: "arp_rest i s R" using ok i(1) by (rule arp_ok_rest)
  have e: "entry_ok ?e" using arp_okD(5) [OF ok i(1)] by (simp add: entry_ok_def ARP_MAXAGE_def ARP_MAXPENDING_def)
  have "arp_ok (s\<lparr>nt := nt s, arp_table := (arp_table s)[i := ?e]\<rparr>) R"
    by (rule arp_rest_entry [OF r i(1) _ e]) (use r i(2) in \<open>simp_all add: arp_rest_def\<close>)
  then show ?thesis by (simp add: init_entry_def upd_entry_def)
qed

lemma init_entry_made:
  assumes ok: "arp_ok s R" and ok1: "arp_ok s1 R" and T: "arp_table s1 = (arp_table s)[i := arp_table s1 ! i]"
    and i: "i < ARP_TABLE_SIZE" "arp_state (arp_table s1 ! i) = ETHARP_STATE_EMPTY" "no_ip a (arp_table s)"
    "arp_state (arp_table s ! i) = ETHARP_STATE_EMPTY \<or> all_used (arp_table s) \<and> least_important (arp_table s) i"
  shows "entry_for a s i (init_entry i (Some a) s1)"
proof -
  have l: "length (arp_table s1) = ARP_TABLE_SIZE" "length (arp_table s) = ARP_TABLE_SIZE" using ok1 ok by (auto dest: arp_okD)
  let ?e = "(arp_table s1 ! i)\<lparr>arp_ip := a, arp_ctime := 0\<rparr>"
  have t: "arp_table (init_entry i (Some a) s1) = (arp_table s)[i := ?e]"
    by (simp add: init_entry_def upd_entry_def) (subst T, simp)
  show ?thesis unfolding entry_for_def entry_made_def t using i l no_ip_own [OF i(3)] by simp
qed

lemma etharp_find_entry_ok:
  assumes ok: "arp_ok s R"
  shows "\<exists>s' r. etharp_find_entry (Some a) flags s = Some (s', r) \<and> arp_ok s' R \<and> arp_frame s s' \<and> still R (nt s) (nt s') \<and>
    (case r of
       Inr i \<Rightarrow> entry_for a s i s' \<and> \<not> refused a flags (arp_table s) \<and> tx_frames s' = tx_frames s
     | Inl e \<Rightarrow> e = ERR_MEM \<and> s' = s \<and> refused a flags (arp_table s))"
proof (cases "find_loop (Some a) 0 (arp_table s) arp_cand0")
  case (Inl k)
  note l = arp_okD(3) [OF ok]
  note f = find_loop_found [OF l Inl]
  have "entry_for a s k s" "entry_found a s k s"
    using f table_ok_own [OF arp_okD(2) [OF ok] f(1,2)] by (simp_all add: entry_for_def entry_found_def)
  moreover have "\<not> no_ip a (arp_table s)" using f l nth_mem [of k "arp_table s"] by auto
  ultimately show ?thesis using Inl ok by (intro exI [of _ s] exI [of _ "Inr k"]) (simp add: etharp_find_entry_def)
next
  case (Inr c)
  note l = arp_okD(3) [OF ok]
  note f = find_loop_none [OF l Inr]
  have n: "no_ip a (arp_table s)" using f(2) l by (fastforce simp: in_set_conv_nth)
  have es: "empty_slot c < ARP_TABLE_SIZE \<and> arp_state (arp_table s ! empty_slot c) = ETHARP_STATE_EMPTY \<or>
      empty_slot c = ARP_TABLE_SIZE \<and> all_used (arp_table s)"
    using f(1) l by (auto simp: cand_ok_def in_set_conv_nth)
  consider (refuse) "flags AND ETHARP_FLAG_FIND_ONLY \<noteq> 0 \<or> empty_slot c = ARP_TABLE_SIZE \<and> flags AND ETHARP_FLAG_TRY_HARD = 0"
    | (take) "\<not> (flags AND ETHARP_FLAG_FIND_ONLY \<noteq> 0 \<or> empty_slot c = ARP_TABLE_SIZE \<and> flags AND ETHARP_FLAG_TRY_HARD = 0)" "empty_slot c < ARP_TABLE_SIZE"
    | (recycle) "\<not> (flags AND ETHARP_FLAG_FIND_ONLY \<noteq> 0 \<or> empty_slot c = ARP_TABLE_SIZE \<and> flags AND ETHARP_FLAG_TRY_HARD = 0)" "\<not> empty_slot c < ARP_TABLE_SIZE"
    by blast
  then show ?thesis
  proof cases
    case refuse
    then have "etharp_find_entry (Some a) flags s = Some (s, Inl ERR_MEM)" by (simp add: etharp_find_entry_def Inr)
    then show ?thesis using refuse es n ok by auto
  next
    case take
    let ?k = "empty_slot c" and ?s = "init_entry (empty_slot c) (Some a) s"
    have e: "etharp_find_entry (Some a) flags s = Some (?s, Inr ?k)" using take by (simp add: etharp_find_entry_def Inr)
    have "entry_for a s ?k ?s" by (rule init_entry_made [OF ok ok]) (use es take n in simp_all)
    moreover have "arp_ok ?s R" by (rule init_entry_ok [OF ok take(2)]) (use es take in simp)
    moreover have "\<not> refused a flags (arp_table s)" using take es l nth_mem [of ?k "arp_table s"] by auto
    ultimately show ?thesis using e by (simp add: init_entry_def upd_entry_def)
  next
    case recycle
    then have ac: "empty_slot c = ARP_TABLE_SIZE" "all_used (arp_table s)" using es by auto
    obtain k where k: "recycle_slot c = Some k" "least_important (arp_table s) k" using recycle_slot_spec [OF l f(1) ac(1)] by blast
    have kl: "k < ARP_TABLE_SIZE" using k(2) l by (simp add: least_important_def)
    obtain n' where n': "etharp_free_entry k s = Some (s\<lparr>nt := n', arp_table := (arp_table s)[k := empty_entry]\<rparr>)"
      "arp_ok (s\<lparr>nt := n', arp_table := (arp_table s)[k := empty_entry]\<rparr>) R" "still R (nt s) n'"
      using etharp_free_entry_ok [OF arp_ok_rest [OF ok kl] kl] by blast
    let ?s1 = "s\<lparr>nt := n', arp_table := (arp_table s)[k := empty_entry]\<rparr>" and ?s = "init_entry k (Some a) (s\<lparr>nt := n', arp_table := (arp_table s)[k := empty_entry]\<rparr>)"
    have e: "etharp_find_entry (Some a) flags s = Some (?s, Inr k)" using recycle k(1) n'(1) by (simp add: etharp_find_entry_def Inr)
    have "entry_for a s k ?s" by (rule init_entry_made [OF ok n'(2)]) (use kl l n k(2) ac in simp_all)
    moreover have "arp_ok ?s R" by (rule init_entry_ok [OF n'(2) kl]) (use kl l in simp)
    moreover have "\<not> refused a flags (arp_table s)" using recycle ac by blast
    ultimately show ?thesis using e n'(3) by (simp add: init_entry_def upd_entry_def)
  qed
qed

end
