(* ===== verification/Etharp_Ops.thy ===== *)
theory Etharp_Ops
  imports Etharp_Inv
begin

text \<open>
  Learning addresses, requests, queueing, output and input of the ARP module on top of the table: every operation returns and
  keeps the invariant, with the frames it sends.
\<close>

unbundle bit_operations_syntax

subsection \<open>Sending\<close>

text \<open>Updates of the state in one order.\<close>

lemma arp_order [simp]:
  "s\<lparr>arp_table := T, nt := n\<rparr> = s\<lparr>nt := n, arp_table := T\<rparr>"
  "s\<lparr>arp_table := T, tx_frames := f\<rparr> = s\<lparr>tx_frames := f, arp_table := T\<rparr>"
  "s\<lparr>etharp_cached_entry := c, nt := n\<rparr> = s\<lparr>nt := n, etharp_cached_entry := c\<rparr>"
  "s\<lparr>etharp_cached_entry := c, tx_frames := f\<rparr> = s\<lparr>tx_frames := f, etharp_cached_entry := c\<rparr>"
  "s\<lparr>etharp_cached_entry := c, arp_table := T\<rparr> = s\<lparr>arp_table := T, etharp_cached_entry := c\<rparr>"
  by simp_all

lemma lwip_order [simp]: "s\<lparr>tx_frames := f, nt := n\<rparr> = s\<lparr>nt := n, tx_frames := f\<rparr>"
  by simp

abbreviation tx_ok :: "'a lwip_scheme \<Rightarrow> bool" where
  "tx_ok s \<equiv> \<forall>n. tx_done s n"

lemma st16_put: "st16 a v m = put_bytes a [ucast v, ucast (drop_bit 8 v)] m"
  by (rule ext) (auto simp: st16_def put_bytes_def less_Suc_eq numeral_2_eq_2)

lemma bytes_at_put_front:
  assumes "length xs \<le> n"
  shows "bytes_at (put_bytes a xs m) a n = xs @ drop (length xs) (bytes_at m a n)"
  by (rule nth_equalityI) (use assms in \<open>auto simp: bytes_at_def put_bytes_def nth_append\<close>)

definition eth_header :: "u8 list \<Rightarrow> u8 list \<Rightarrow> u16 \<Rightarrow> u8 list" where
  "eth_header dst src type = dst @ src @ [ucast (drop_bit 8 type), ucast type]"

lemma length_eth_header [simp]: "length dst = 6 \<Longrightarrow> length src = 6 \<Longrightarrow> length (eth_header dst src type) = 14"
  by (simp add: eth_header_def)

lemma htons_bytes: "[ucast (lwip_htons ETHTYPE_IP), ucast (drop_bit 8 (lwip_htons ETHTYPE_IP))] = [8 :: u8, 0]"
  "[ucast (drop_bit 8 ETHTYPE_IP), ucast ETHTYPE_IP] = [8 :: u8, 0]"
  by (simp_all add: lwip_htons_def ETHTYPE_IP_def)

text \<open>The first frame of a packet begins with the header, as far as it goes.\<close>

definition framed :: "u8 list \<Rightarrow> u8 list list \<Rightarrow> bool" where
  "framed hdr fs \<longleftrightarrow> fs \<noteq> [] \<and> take (length hdr) (hd fs) = take (length (hd fs)) hdr"

lemma take_bytes_at_put: "take (length xs) (bytes_at (put_bytes a xs m) a n) = take n xs"
  by (rule nth_equalityI) (auto simp: bytes_at_def put_bytes_def)

lemma etharp_send_ip_ok:
  assumes h: "heads (nt s) p" "p \<noteq> NULL" and tx: "tx_ok s" and l: "length src = 6" "length dst = 6"
  shows "\<exists>m fs. etharp_send_ip nf p src dst s = Some (s\<lparr>nt := (nt s)\<lparr>ram_bytes := m\<rparr>, tx_frames := tx_frames s @ fs\<rparr>, ERR_OK) \<and>
    framed (eth_header dst src ETHTYPE_IP) fs \<and> (14 \<le> pb_len (pbufs (nt s) p) \<longrightarrow> hd fs = eth_header dst src ETHTYPE_IP @ drop 14 (pbuf_data (nt s) p)) \<and>
    (pb_next (pbufs (nt s) p) = NULL \<longrightarrow> length fs = 1)"
proof -
  obtain qs where pk: "chained (nt s) (p # qs)" and al: "p \<in> alive (nt s)" using headsE [OF h] by blast
  let ?e = "payload (pbufs (nt s) p)"
  let ?m = "put_bytes ?e (eth_header dst src ETHTYPE_IP) (ram_bytes (nt s))"
  let ?s = "s\<lparr>nt := (nt s)\<lparr>ram_bytes := ?m\<rparr>\<rparr>"
  have a: "?e + 12 = ?e + 6 + length src" "?e + 6 = ?e + length dst" using l by simp_all
  have m: "st16 (?e + 12) (lwip_htons ETHTYPE_IP) (put_bytes (?e + 6) src (put_bytes (?e + 0) dst (ram_bytes (nt s)))) = ?m"
    unfolding st16_put htons_bytes eth_header_def a put_bytes_append by (simp add: put_bytes_append add.assoc flip: length_append)
  have pk': "chained (nt ?s) (p # qs)" using pk by simp
  have "low_level_output p ?s = Some (?s\<lparr>tx_frames := tx_frames ?s @ map (pbuf_data (nt ?s)) (p # qs)\<rparr>, ERR_OK)"
    using low_level_output_spec [OF pk'] tx by simp
  then have "etharp_send_ip nf p src dst s = Some (s\<lparr>nt := (nt s)\<lparr>ram_bytes := ?m\<rparr>, tx_frames := tx_frames s @ map (pbuf_data (nt ?s)) (p # qs)\<rparr>, ERR_OK)"
    using al m by (simp add: etharp_send_ip_def get_pbuf_def upd_ram_def Let_def)
  moreover have "pbuf_data (nt ?s) p = eth_header dst src ETHTYPE_IP @ drop 14 (pbuf_data (nt s) p)" if "14 \<le> pb_len (pbufs (nt s) p)"
    using bytes_at_put_front [of "eth_header dst src ETHTYPE_IP" "pb_len (pbufs (nt s) p)" ?e "ram_bytes (nt s)"] that l by (simp add: pbuf_data_def)
  moreover have "qs = []" if "pb_next (pbufs (nt s) p) = NULL" using pk that by (cases qs) auto
  moreover have "framed (eth_header dst src ETHTYPE_IP) (map (pbuf_data (nt ?s)) (p # qs))"
    by (simp add: framed_def pbuf_data_def take_bytes_at_put del: take_bytes_at)
  ultimately show ?thesis by (intro exI [of _ ?m] exI [of _ "map (pbuf_data (nt ?s)) (p # qs)"]) auto
qed

lemma queued_head: "queued n ((r, p) # L) R \<Longrightarrow> heads n p" "queued n L (add_mset p R) \<Longrightarrow> heads n p"
  by (auto simp: queued_def net_ok_def)

lemma send_queued_ok:
  assumes "length ethaddr = 6" "length (hwaddr (netifs s nf)) = 6" "tx_ok s" "i < length (arp_table s)"
    and "queued (nt s) (qs @ L) R" "arp_q (arp_table s ! i) = qs"
  shows "\<exists>n fss. send_queued nf i ethaddr qs s =
      Some (s\<lparr>nt := n, arp_table := (arp_table s)[i := (arp_table s ! i)\<lparr>arp_q := []\<rparr>], tx_frames := tx_frames s @ concat fss\<rparr>) \<and>
    queued n L R \<and> held_same R (nt s) n \<and> length fss = length qs \<and> (\<forall>f\<in>set fss. framed (eth_header ethaddr (hwaddr (netifs s nf)) ETHTYPE_IP) f)"
  using assms
proof (induction qs arbitrary: s)
  case Nil
  have "arp_table s ! i = (arp_table s ! i)\<lparr>arp_q := []\<rparr>" using Nil.prems(6) by (cases "arp_table s ! i") simp
  then have "(arp_table s)[i := (arp_table s ! i)\<lparr>arp_q := []\<rparr>] = arp_table s" by (metis list_update_id)
  then show ?case using Nil.prems by (intro exI [of _ "nt s"] exI [of _ "[]"]) simp
next
  case (Cons x qs)
  obtain q p where x: "x = (q, p)" by (cases x)
  let ?n1 = "(nt s)\<lparr>pools := memp_free MEMP_ARP_QUEUE q (pools (nt s))\<rparr>"
  let ?T = "(arp_table s)[i := (arp_table s ! i)\<lparr>arp_q := qs\<rparr>]"
  let ?s1 = "s\<lparr>nt := ?n1, arp_table := ?T\<rparr>"
  have q1: "queued ?n1 (qs @ L) (add_mset p R)" using queued_pop [of "nt s" q p "qs @ L" R] Cons.prems(5) x by simp
  have p0: "p \<noteq> NULL" using queuedD(3) [OF Cons.prems(5), of q p] x by simp
  obtain m fs where sip: "etharp_send_ip nf p (hwaddr (netifs s nf)) ethaddr ?s1 =
      Some (?s1\<lparr>nt := ?n1\<lparr>ram_bytes := m\<rparr>, tx_frames := tx_frames s @ fs\<rparr>, ERR_OK)"
    "framed (eth_header ethaddr (hwaddr (netifs s nf)) ETHTYPE_IP) fs"
    using etharp_send_ip_ok [of ?s1 p "hwaddr (netifs s nf)" ethaddr nf] queued_head(2) [OF q1] p0 Cons.prems by auto
  have "queued (?n1\<lparr>ram_bytes := m\<rparr>) (qs @ L) (add_mset p R)" using q1 by simp
  from queued_free [OF this p0] obtain n2 k where f: "pbuf_free p (?n1\<lparr>ram_bytes := m\<rparr>) = Some (n2, k)" "queued n2 (qs @ L) R" "held_same R (nt s) n2"
    by (auto simp: still_def)
  let ?s2 = "?s1\<lparr>nt := n2, tx_frames := tx_frames s @ fs\<rparr>"
  have "\<exists>n fss. send_queued nf i ethaddr qs ?s2 =
      Some (?s2\<lparr>nt := n, arp_table := (arp_table ?s2)[i := (arp_table ?s2 ! i)\<lparr>arp_q := []\<rparr>], tx_frames := tx_frames ?s2 @ concat fss\<rparr>) \<and>
    queued n L R \<and> held_same R (nt ?s2) n \<and> length fss = length qs \<and> (\<forall>f\<in>set fss. framed (eth_header ethaddr (hwaddr (netifs ?s2 nf)) ETHTYPE_IP) f)"
    by (rule Cons.IH) (use Cons.prems f(2) in simp_all)
  then obtain n fss where r: "send_queued nf i ethaddr qs ?s2 =
      Some (s\<lparr>nt := n, arp_table := (arp_table s)[i := (arp_table s ! i)\<lparr>arp_q := []\<rparr>], tx_frames := tx_frames s @ fs @ concat fss\<rparr>)"
    "queued n L R" "held_same R n2 n" "length fss = length qs" "\<forall>f\<in>set fss. framed (eth_header ethaddr (hwaddr (netifs s nf)) ETHTYPE_IP) f" using Cons.prems(4) by auto
  have "send_queued nf i ethaddr (x # qs) s = send_queued nf i ethaddr qs ?s2"
    using sip(1) f(1) unfolding x send_queued.simps by (simp add: upd_entry_def upd_pools_def on_net_def Let_def)
  then show ?case using r sip(2) held_same_trans [OF f(3) r(3)] by (intro exI [of _ n] exI [of _ "fs # fss"]) simp
qed

subsection \<open>Learning an address\<close>

abbreviation unicast :: "u32 \<Rightarrow> netif \<Rightarrow> bool" where
  "unicast a nf \<equiv> \<not> (a = IPADDR_ANY \<or> ip4_addr_isbroadcast a nf \<or> ip_addr_ismulticast a)"

definition resolved :: "ptr \<Rightarrow> u32 \<Rightarrow> u8 list \<Rightarrow> etharp_entry" where
  "resolved nf a eth = \<lparr>arp_q = [], arp_ip = a, arp_netif = nf, arp_eth = eth, arp_state = ETHARP_STATE_STABLE, arp_ctime = 0\<rparr>"

lemma resolved_ok [simp]: "entry_ok (resolved nf a eth) \<longleftrightarrow> length eth = 6" "arp_q (resolved nf a eth) = []"
  "arp_ip (resolved nf a eth) = a" "arp_eth (resolved nf a eth) = eth" "arp_state (resolved nf a eth) = ETHARP_STATE_STABLE"
  by (simp_all add: entry_ok_def resolved_def ARP_MAXAGE_def)

definition learned :: "ptr \<Rightarrow> u32 \<Rightarrow> u8 list \<Rightarrow> 'a arp_scheme \<Rightarrow> 'a arp_scheme \<Rightarrow> bool" where
  "learned nf a eth s s' \<longleftrightarrow>
     (\<exists>i fss. i < ARP_TABLE_SIZE \<and> arp_table s' = (arp_table s)[i := resolved nf a eth] \<and> own_ip i a (arp_table s) \<and>
        (if no_ip a (arp_table s)
         then fss = [] \<and> (arp_state (arp_table s ! i) = ETHARP_STATE_EMPTY \<or> all_used (arp_table s) \<and> least_important (arp_table s) i)
         else arp_state (arp_table s ! i) \<noteq> ETHARP_STATE_EMPTY \<and> arp_ip (arp_table s ! i) = a \<and>
           length fss = length (arp_q (arp_table s ! i)) \<and>
           (\<forall>f\<in>set fss. framed (eth_header eth (hwaddr (netifs s nf)) ETHTYPE_IP) f)) \<and>
        tx_frames s' = tx_frames s @ concat fss)"

text \<open>The step after the search: the entry is filled in and its queue is sent.\<close>

lemma resolve_ok:
  assumes ok: "arp_ok s R" and ef: "i < ARP_TABLE_SIZE" "arp_ip (arp_table s ! i) = a" "own_ip i a (arp_table s)"
    and tx: "tx_ok s" and l: "length eth = 6" "length (hwaddr (netifs s nf)) = 6"
  shows "\<exists>n fss. (let s = upd_entry i (\<lambda>e. e\<lparr>arp_state := ETHARP_STATE_STABLE, arp_netif := nf, arp_eth := eth, arp_ctime := 0\<rparr>) s
      in send_queued nf i eth (arp_q (arp_table s ! i)) s) =
      Some (s\<lparr>nt := n, arp_table := (arp_table s)[i := resolved nf a eth], tx_frames := tx_frames s @ concat fss\<rparr>) \<and>
    arp_ok (s\<lparr>nt := n, arp_table := (arp_table s)[i := resolved nf a eth], tx_frames := tx_frames s @ concat fss\<rparr>) R \<and>
    held_same R (nt s) n \<and> (arp_q (arp_table s ! i) = [] \<longrightarrow> n = nt s) \<and>
    length fss = length (arp_q (arp_table s ! i)) \<and> (\<forall>f\<in>set fss. framed (eth_header eth (hwaddr (netifs s nf)) ETHTYPE_IP) f)"
proof -
  let ?e = "(arp_table s ! i)\<lparr>arp_state := ETHARP_STATE_STABLE, arp_netif := nf, arp_eth := eth, arp_ctime := 0\<rparr>"
  let ?s1 = "s\<lparr>arp_table := (arp_table s)[i := ?e]\<rparr>"
  have r: "arp_rest i s R" using ok ef(1) by (rule arp_ok_rest)
  have len: "length (arp_table s) = ARP_TABLE_SIZE" using ok by (rule arp_okD)
  have q: "queued (nt ?s1) (arp_q (arp_table s ! i) @ others (arp_table s) i) R" using r by (simp add: arp_rest_def)
  obtain n fss where S: "send_queued nf i eth (arp_q (arp_table s ! i)) ?s1 =
      Some (?s1\<lparr>nt := n, arp_table := (arp_table ?s1)[i := (arp_table ?s1 ! i)\<lparr>arp_q := []\<rparr>], tx_frames := tx_frames ?s1 @ concat fss\<rparr>)"
    "queued n (others (arp_table s) i) R" "held_same R (nt s) n" "length fss = length (arp_q (arp_table s ! i))"
    "\<forall>f\<in>set fss. framed (eth_header eth (hwaddr (netifs s nf)) ETHTYPE_IP) f"
    using send_queued_ok [OF l(1) _ _ _ q, of nf i] l(2) tx len ef(1) by auto
  have e: "?e\<lparr>arp_q := []\<rparr> = resolved nf a eth" using ef(2) by (cases "arp_table s ! i") (simp add: resolved_def)
  have "arp_ok (s\<lparr>nt := n, arp_table := (arp_table s)[i := resolved nf a eth]\<rparr>) R"
    by (rule arp_rest_entry [OF r ef(1)]) (use S(2) ef l in simp_all)
  then have "arp_ok (s\<lparr>nt := n, arp_table := (arp_table s)[i := resolved nf a eth], tx_frames := tx_frames s @ concat fss\<rparr>) R"
    by (simp add: arp_ok_def)
  moreover have "(let s = upd_entry i (\<lambda>e. e\<lparr>arp_state := ETHARP_STATE_STABLE, arp_netif := nf, arp_eth := eth, arp_ctime := 0\<rparr>) s
      in send_queued nf i eth (arp_q (arp_table s ! i)) s) =
      Some (s\<lparr>nt := n, arp_table := (arp_table s)[i := resolved nf a eth], tx_frames := tx_frames s @ concat fss\<rparr>)"
    using S(1) e len ef(1) by (simp add: upd_entry_def Let_def)
  moreover have "n = nt s" if "arp_q (arp_table s ! i) = []"
  proof -
    from arg_cong [OF S(1) [unfolded that send_queued.simps], of "map_option nt"] show ?thesis by simp
  qed
  ultimately show ?thesis using S(3-5) by blast
qed

lemma etharp_update_arp_entry_ok:
  assumes ok: "arp_ok s R" and tx: "tx_ok s" and l: "length eth = 6" "length (hwaddr (netifs s nf)) = 6"
  shows "\<exists>s' e. etharp_update_arp_entry nf a eth flags s = Some (s', e) \<and> arp_ok s' R \<and> arp_frame s s' \<and> held_same R (nt s) (nt s') \<and>
    ((\<forall>e\<in>set (arp_table s). arp_ip e = a \<longrightarrow> arp_q e = []) \<longrightarrow> ram_bytes (nt s') = ram_bytes (nt s)) \<and>
    (if \<not> unicast a (netifs s nf) then e = ERR_ARG \<and> s' = s
     else if refused a flags (arp_table s) then e = ERR_MEM \<and> s' = s
     else e = ERR_OK \<and> learned nf a eth s s')"
proof (cases "unicast a (netifs s nf)")
  case False
  then have "etharp_update_arp_entry nf a eth flags s = Some (s, ERR_ARG)" by (auto simp: etharp_update_arp_entry_def)
  then show ?thesis using False ok by simp
next
  case True
  obtain s1 r where f: "etharp_find_entry (Some a) flags s = Some (s1, r)" "arp_ok s1 R" "arp_frame s s1" "still R (nt s) (nt s1)"
    "case r of
       Inr i \<Rightarrow> entry_for a s i s1 \<and> \<not> refused a flags (arp_table s) \<and> tx_frames s1 = tx_frames s
     | Inl e \<Rightarrow> e = ERR_MEM \<and> s1 = s \<and> refused a flags (arp_table s)"
    using etharp_find_entry_ok [OF ok, of a flags] by blast
  show ?thesis
  proof (cases r)
    case (Inl e)
    then have "etharp_update_arp_entry nf a eth flags s = Some (s, ERR_MEM)" using True f by (simp add: etharp_update_arp_entry_def)
    then show ?thesis using True f(5) Inl ok by simp
  next
    case (Inr i)
    have ef: "entry_for a s i s1" "\<not> refused a flags (arp_table s)" "tx_frames s1 = tx_frames s" using f(5) Inr by simp_all
    then have e: "i < ARP_TABLE_SIZE" "arp_ip (arp_table s1 ! i) = a" "own_ip i a (arp_table s1)" by (simp_all add: entry_for_def)
    have same: "tx_done s1 = tx_done s" "netifs s1 = netifs s" using f(3) by (simp_all add: arp_frame_def)
    obtain n fss where S: "(let s = upd_entry i (\<lambda>e. e\<lparr>arp_state := ETHARP_STATE_STABLE, arp_netif := nf, arp_eth := eth, arp_ctime := 0\<rparr>) s1
      in send_queued nf i eth (arp_q (arp_table s ! i)) s) =
      Some (s1\<lparr>nt := n, arp_table := (arp_table s1)[i := resolved nf a eth], tx_frames := tx_frames s1 @ concat fss\<rparr>)"
      "arp_ok (s1\<lparr>nt := n, arp_table := (arp_table s1)[i := resolved nf a eth], tx_frames := tx_frames s1 @ concat fss\<rparr>) R"
      "held_same R (nt s1) n" "arp_q (arp_table s1 ! i) = [] \<Longrightarrow> n = nt s1" "length fss = length (arp_q (arp_table s1 ! i))" "\<forall>f\<in>set fss. framed (eth_header eth (hwaddr (netifs s nf)) ETHTYPE_IP) f"
      using resolve_ok [OF f(2) e, of eth nf] tx l same by auto
    let ?s = "s1\<lparr>nt := n, arp_table := (arp_table s1)[i := resolved nf a eth], tx_frames := tx_frames s1 @ concat fss\<rparr>"
    have up: "etharp_update_arp_entry nf a eth flags s = Some (?s, ERR_OK)"
      using True f(1) Inr S(1) by (simp add: etharp_update_arp_entry_def Let_def)
    have fr: "arp_frame s ?s" using f(3) by (rule arp_frame_trans) (simp add: arp_frame_def)
    have lrn: "learned nf a eth s ?s"
    proof (cases "entry_found a s i s1")
      case True
      then show ?thesis using e S(5,6) arp_okD(3) [OF ok] unfolding learned_def entry_found_def
        by (intro exI [of _ i] exI [of _ fss]) auto
    next
      case False
      then have m: "entry_made a s i s1" using ef(1) by (simp add: entry_for_def)
      then have "arp_table s1 = (arp_table s)[i := arp_table s1 ! i]" by (simp add: entry_made_def)
      then have T: "(arp_table s1)[i := x] = (arp_table s)[i := x]" for x by (metis list_update_overwrite)
      have q0: "arp_q (arp_table s1 ! i) = []" using m arp_okD(5) [OF f(2) e(1)] by (simp add: entry_made_def entry_ok_def)
      show ?thesis using e S(5) q0 m T ef(3) no_ip_own unfolding learned_def entry_made_def
        by (intro exI [of _ i] exI [of _ fss]) auto
    qed
    have hs: "held_same R (nt s) (nt ?s)" using held_same_trans [of R "nt s" "nt s1" n] f(4) S(3) by (simp add: still_def)
    have rm: "(\<forall>e\<in>set (arp_table s). arp_ip e = a \<longrightarrow> arp_q e = []) \<longrightarrow> ram_bytes (nt ?s) = ram_bytes (nt s)"
    proof
      assume that: "\<forall>e\<in>set (arp_table s). arp_ip e = a \<longrightarrow> arp_q e = []"
      have "arp_q (arp_table s1 ! i) = []"
        using ef(1) that e arp_okD(5) [OF f(2) e(1)] arp_okD(3) [OF ok] nth_mem [of i "arp_table s"]
        by (auto simp: entry_for_def entry_found_def entry_made_def entry_ok_def)
      then show "ram_bytes (nt ?s) = ram_bytes (nt s)" using S(4) f(4) by (simp add: still_def)
    qed
    show ?thesis using up S(2) fr hs rm lrn ef(2) True by (intro exI [of _ ?s] exI [of _ ERR_OK]) (simp only: simp_thms if_True if_False)
  qed
qed

subsection \<open>Requests\<close>

lemma bytes_at_put_other:
  "b + k \<le> a \<or> a + length xs \<le> b \<Longrightarrow> bytes_at (put_bytes a xs m) b k = bytes_at m b k"
  by (rule bytes_at_cong) (auto simp: put_bytes_def)

lemma bytes_at_put_at: "length xs = k \<Longrightarrow> bytes_at (put_bytes a xs m) a k = xs"
  using bytes_at_put by auto

lemma upd_put: "m(a := v) = put_bytes a [v] m"
  by (rule ext) (auto simp: put_bytes_def)

lemma length_addr_bytes [simp]: "length (addr_bytes a) = 4"
  by (simp add: addr_bytes_def)

text \<open>A block as the sequence of its fields, given by their lengths.\<close>

fun field_offsets :: "nat \<Rightarrow> nat list \<Rightarrow> (nat \<times> nat) list" where
  "field_offsets o' [] = []"
| "field_offsets o' (k # ks) = (o', k) # field_offsets (o' + k) ks"

lemma bytes_at_fields: "bytes_at m a (sum_list ks) = concat (map (\<lambda>(i, k). bytes_at m (a + i) k) (field_offsets 0 ks))"
proof -
  have "bytes_at m (a + o') (sum_list ks) = concat (map (\<lambda>(i, k). bytes_at m (a + i) k) (field_offsets o' ks))" for o'
    by (induction ks arbitrary: o') (simp_all add: bytes_at_add add.assoc)
  from this [of 0] show ?thesis by simp
qed

definition arp_message :: "u8 list \<Rightarrow> u8 list \<Rightarrow> u8 list \<Rightarrow> u32 \<Rightarrow> u8 list \<Rightarrow> u32 \<Rightarrow> u16 \<Rightarrow> u8 list" where
  "arp_message ethsrc ethdst hwsrc ipsrc hwdst ipdst opcode =
     eth_header ethdst ethsrc ETHTYPE_ARP @ [0, 1] @ [8, 0] @ [6] @ [4] @ [ucast (drop_bit 8 opcode), ucast opcode] @
     hwsrc @ addr_bytes ipsrc @ hwdst @ addr_bytes ipdst"

lemma htons_fields:
  "[ucast (lwip_htons v), ucast (drop_bit 8 (lwip_htons v))] = [ucast (drop_bit 8 v) :: u8, ucast v]"
proof -
  have "ucast (lwip_htons v) = (ucast (drop_bit 8 v) :: u8)" "ucast (drop_bit 8 (lwip_htons v)) = (ucast v :: u8)"
    by (rule bit_word_eqI; auto simp: lwip_htons_def masks bit_simps)+
  then show ?thesis by simp
qed

lemma arp_packet_bytes:
  assumes l: "length ethsrc = 6" "length ethdst = 6" "length hwsrc = 6" "length hwdst = 6"
  shows "bytes_at (arp_packet e ethsrc ethdst hwsrc ipsrc hwdst ipdst opcode m) e 42 =
    arp_message ethsrc ethdst hwsrc ipsrc hwdst ipdst opcode"
proof -
  let ?m = "arp_packet e ethsrc ethdst hwsrc ipsrc hwdst ipdst opcode m"
  have s: "bytes_at ?m e 42 = bytes_at ?m e 6 @ bytes_at ?m (e + 6) 6 @ bytes_at ?m (e + 12) 2 @ bytes_at ?m (e + 14) 2 @ bytes_at ?m (e + 16) 2 @
      bytes_at ?m (e + 18) 1 @ bytes_at ?m (e + 19) 1 @ bytes_at ?m (e + 20) 2 @ bytes_at ?m (e + 22) 6 @ bytes_at ?m (e + 28) 4 @
      bytes_at ?m (e + 32) 6 @ bytes_at ?m (e + 38) 4"
    using bytes_at_fields [of ?m e "[6, 6, 2, 2, 2, 1, 1, 2, 6, 4, 6, 4]"] by simp
  note P = arp_packet_def Let_def st16_put upd_put htons_fields
  have f: "bytes_at ?m e 6 = ethdst" "bytes_at ?m (e + 6) 6 = ethsrc" "bytes_at ?m (e + 12) 2 = [8, 6]" "bytes_at ?m (e + 14) 2 = [0, 1]"
    "bytes_at ?m (e + 16) 2 = [8, 0]" "bytes_at ?m (e + 18) 1 = [6]" "bytes_at ?m (e + 19) 1 = [4]"
    "bytes_at ?m (e + 20) 2 = [ucast (drop_bit 8 opcode), ucast opcode]" "bytes_at ?m (e + 22) 6 = hwsrc"
    "bytes_at ?m (e + 28) 4 = addr_bytes ipsrc" "bytes_at ?m (e + 32) 6 = hwdst" "bytes_at ?m (e + 38) 4 = addr_bytes ipdst"
    unfolding P by (simp_all add: l bytes_at_put_other bytes_at_put_at ETHTYPE_ARP_def ETHTYPE_IP_def HWTYPE_ETHERNET_def)
  show ?thesis unfolding s f arp_message_def eth_header_def by (simp add: ETHTYPE_ARP_def)
qed

lemma etharp_raw_ok:
  assumes q: "queued (nt s) L R" and tx: "tx_ok s"
    and l: "length ethsrc = 6" "length ethdst = 6" "length hwsrc = 6" "length hwdst = 6"
  shows "\<exists>n e fs. etharp_raw nf ethsrc ethdst hwsrc ipsrc hwdst ipdst opcode s = Some (s\<lparr>nt := n, tx_frames := tx_frames s @ fs\<rparr>, e) \<and>
    queued n L R \<and> held_same R (nt s) n \<and> (e = ERR_MEM \<and> fs = [] \<and> n = nt s \<or> e = ERR_OK \<and> fs = [arp_message ethsrc ethdst hwsrc ipsrc hwdst ipdst opcode])"
proof -
  have k: "SIZEOF_ETHARP_PACKET = 42" by (simp add: SIZEOF_ETHARP_PACKET_def SIZEOF_ETH_HDR_def SIZEOF_ETHARP_HDR_def)
  obtain n p where a: "pbuf_alloc PBUF_RAW 42 PBUF_RAM (nt s) = Some (n, p)"
    "held_same R (nt s) n" "p = NULL \<and> n = nt s \<or> p \<noteq> NULL \<and> queued n L (add_mset p R) \<and> packet n [p] \<and> pb_len (pbufs n p) = 42"
    using queued_alloc [OF q, of 42 PBUF_RAW] unfolding still_def by auto
  show ?thesis
  proof (cases "p = NULL")
    case True
    then have "etharp_raw nf ethsrc ethdst hwsrc ipsrc hwdst ipdst opcode s = Some (s, ERR_MEM)"
      using a by (simp add: etharp_raw_def on_net_def k)
    then show ?thesis using q by (intro exI [of _ "nt s"] exI [of _ ERR_MEM] exI [of _ "[]"]) simp
  next
    case False
    then have p: "queued n L (add_mset p R)" "packet n [p]" "pb_len (pbufs n p) = 42" "p \<in> alive n" using a(3) by auto
    let ?m = "arp_packet (payload (pbufs n p)) ethsrc ethdst hwsrc ipsrc hwdst ipdst opcode (ram_bytes n)"
    let ?n = "n\<lparr>ram_bytes := ?m\<rparr>"
    let ?msg = "arp_message ethsrc ethdst hwsrc ipsrc hwdst ipdst opcode"
    have pk: "packet (nt (s\<lparr>nt := ?n\<rparr>)) [p]" using p(2) by simp
    have o: "low_level_output p (s\<lparr>nt := ?n\<rparr>) = Some (s\<lparr>nt := ?n, tx_frames := tx_frames s @ [?msg]\<rparr>, ERR_OK)"
      using low_level_output_spec [OF packet_chained [OF pk]] tx p(3) by (simp add: pbuf_data_def arp_packet_bytes [OF l])
    have "queued ?n L (add_mset p R)" using p(1) by simp
    from queued_free [OF this False] obtain n' k' where f: "pbuf_free p ?n = Some (n', k')" "queued n' L R" "held_same R n n'"
      by (auto simp: still_def)
    have "etharp_raw nf ethsrc ethdst hwsrc ipsrc hwdst ipdst opcode s = Some (s\<lparr>nt := n', tx_frames := tx_frames s @ [?msg]\<rparr>, ERR_OK)"
      using a(1) False o f(1) p(4) by (simp add: etharp_raw_def on_net_def k get_pbuf_def upd_ram_def)
    then show ?thesis using f(2) held_same_trans [OF a(2) f(3)] by (intro exI [of _ n'] exI [of _ ERR_OK] exI [of _ "[?msg]"]) simp
  qed
qed

definition request_frame :: "netif \<Rightarrow> u32 \<Rightarrow> u8 list" where
  "request_frame nf a = arp_message (hwaddr nf) ethbroadcast (hwaddr nf) (ip_addr nf) ethzero a ARP_REQUEST"

lemma etharp_request_ok:
  assumes "queued (nt s) L R" "tx_ok s" "length (hwaddr (netifs s nf)) = 6"
  shows "\<exists>n e fs. etharp_request nf a s = Some (s\<lparr>nt := n, tx_frames := tx_frames s @ fs\<rparr>, e) \<and> queued n L R \<and> held_same R (nt s) n \<and>
    (e = ERR_MEM \<and> fs = [] \<and> n = nt s \<or> e = ERR_OK \<and> fs = [request_frame (netifs s nf) a])"
  using etharp_raw_ok [OF assms(1,2,3) _ assms(3)] unfolding etharp_request_def request_frame_def
  by (simp add: ethbroadcast_def ethzero_def)

subsection \<open>Queueing\<close>

lemma copy_from_ok:
  "packet s qs \<Longrightarrow> \<exists>x. copy_from (first_ptr qs) s = Some x \<and>
    (if \<exists>q\<in>set qs. pb_type (pbufs s q) \<noteq> PBUF_ROM
     then x \<noteq> NULL \<and> x \<in> alive s \<and> tot_len (pbufs s x) \<le> chain_len s qs \<and>
       (pb_type (pbufs s (first_ptr qs)) \<noteq> PBUF_ROM \<longrightarrow> x = first_ptr qs)
     else x = NULL)"
proof (induction qs)
  case Nil
  then show ?case by (simp add: copy_from.simps [of NULL] first_ptr_def)
next
  case (Cons q qs)
  have q: "q \<noteq> NULL" "q \<in> alive s" "pb_next (pbufs s q) = first_ptr qs" "packet s qs" "tot_len (pbufs s q) = chain_len s (q # qs)"
    using Cons.prems by (auto simp: first_ptr_def split: if_splits)
  from Cons.IH [OF q(4)] q show ?case
    by (auto simp: copy_from.simps [of q] get_pbuf_def split: if_splits)
qed

lemma packet_to_queue_ok:
  assumes Q: "queued n L R" and h: "whole n q" and t: "tot_len (pbufs n q) \<le> 65456" "pb_type (pbufs n q) \<noteq> PBUF_ROM \<or> pb_ref (pbufs n q) < 65535"
  shows "\<exists>n' p. packet_to_queue q n = Some (n', p) \<and> held_same R n n' \<and>
    (if p = NULL then queued n' L R else queued n' L (add_mset p R))"
proof -
  obtain qs where pk: "packet n (q # qs)" "q \<in> alive n" "tot_len (pbufs n q) = chain_len n (q # qs)" "q \<noteq> NULL" using wholeE [OF h] by blast
  obtain x where x: "copy_from q n = Some x" "x \<noteq> NULL \<Longrightarrow> x \<in> alive n \<and> tot_len (pbufs n x) \<le> chain_len n (q # qs)"
      "x = NULL \<Longrightarrow> pb_type (pbufs n q) = PBUF_ROM"
    using copy_from_ok [OF pk(1)] by (auto split: if_splits)
  show ?thesis
  proof (cases "x = NULL")
    case True
    obtain n' where r: "pbuf_ref q n = Some n'" "net_ok n' (add_mset q (mset (map snd L) + R))" "pools n' = pools n"
      "\<forall>x. (pbufs n' x)\<lparr>pb_ref := 0\<rparr> = (pbufs n x)\<lparr>pb_ref := 0\<rparr>"
      using pbuf_ref_ok [OF queuedD(1) [OF Q] whole_heads [OF h] pk(4)] t(2) x(3) [OF True] by blast
    have hs: "held_same R n n'" by (rule held_same_keep [OF net_okD(1) [OF r(2)]]) (use r(4) in auto)
    have "queued n' L (add_mset q R)" using Q r(2,3) by (auto simp: queued_def aux_block_def)
    then show ?thesis using True x(1) r(1) hs pk(4) by (simp add: packet_to_queue_def)
  next
    case False
    then have xa: "x \<in> alive n" "tot_len (pbufs n x) \<le> 65456" using x(2) t(1) pk(3) by auto
    obtain n1 p where a: "pbuf_alloc PBUF_RAW (tot_len (pbufs n x)) PBUF_RAM n = Some (n1, p)" "held_same R n n1"
      "p = NULL \<and> n1 = n \<or> p \<noteq> NULL \<and> queued n1 L (add_mset p R) \<and> (\<forall>y\<in>alive n. pbufs n1 y = pbufs n y \<and> y \<in> alive n1) \<and> whole n1 p"
      using queued_alloc [OF Q xa(2), of PBUF_RAW] xa(2) unfolding still_def whole_def by (fastforce simp: chain_len_def)
    show ?thesis
    proof (cases "p = NULL")
      case True
      then show ?thesis using a Q x(1) xa(1) \<open>x \<noteq> NULL\<close> by (simp add: packet_to_queue_def get_pbuf_def)
    next
      case p0: False
      then have p: "queued n1 L (add_mset p R)" "\<forall>y\<in>alive n. pbufs n1 y = pbufs n y \<and> y \<in> alive n1" "whole n1 p" using a(3) by auto
      have "packet n1 (q # qs)" "chain_len n1 (q # qs) = chain_len n (q # qs)"
        using pk(1) packet_to_cong [of "q # qs" n1 n] packet_alive [OF pk(1)] p(2) by (metis (no_types, lifting))+
      then have hq: "whole n1 q" using pk(3) t(1) unfolding whole_def by (intro exI [of _ qs]) simp
      obtain m e where c: "pbuf_copy p q n1 = Some (n1\<lparr>ram_bytes := m\<rparr>, e)"
        using pbuf_copy_ok [OF p(3) hq] by blast
      have q1: "queued (n1\<lparr>ram_bytes := m\<rparr>) L (add_mset p R)" using p(1) by simp
      obtain n2 k where f: "pbuf_free p (n1\<lparr>ram_bytes := m\<rparr>) = Some (n2, k)" "queued n2 L R" "held_same R n1 n2"
        using queued_free [OF q1 p0] by (auto simp: still_def)
      show ?thesis using x(1) xa(1) a(1,2) held_same_trans [OF a(2) f(3)] c f q1 p0 \<open>x \<noteq> NULL\<close> by (auto simp: packet_to_queue_def get_pbuf_def)
    qed
  qed
qed

lemma queued_swap: "queued n (L @ [x] @ M) R = queued n (L @ M @ [x]) R"
  by (rule queued_perm) simp

lemma queue_packet_ok:
  assumes ok: "arp_ok s R" and i: "i < ARP_TABLE_SIZE" "arp_state (arp_table s ! i) = ETHARP_STATE_PENDING"
    and h: "whole (nt s) q" and t: "tot_len (pbufs (nt s) q) \<le> 65456" "pb_type (pbufs (nt s) q) \<noteq> PBUF_ROM \<or> pb_ref (pbufs (nt s) q) < 65535"
  shows "\<exists>n qs e. queue_packet i q s = Some (s\<lparr>nt := n, arp_table := (arp_table s)[i := (arp_table s ! i)\<lparr>arp_q := arp_q (arp_table s ! i) @ qs\<rparr>]\<rparr>, e) \<and>
    arp_ok (s\<lparr>nt := n, arp_table := (arp_table s)[i := (arp_table s ! i)\<lparr>arp_q := arp_q (arp_table s ! i) @ qs\<rparr>]\<rparr>) R \<and> held_same R (nt s) n \<and>
    (e = ERR_OK \<and> length qs = 1 \<or> e = ERR_MEM \<and> qs = [])"
proof -
  let ?e = "arp_table s ! i"
  have r: "arp_rest i s R" using ok i(1) by (rule arp_ok_rest)
  then have Q: "queued (nt s) (arp_q ?e @ others (arp_table s) i) R" by (simp add: arp_rest_def)
  have goal: "arp_ok (s\<lparr>nt := n, arp_table := (arp_table s)[i := ?e\<lparr>arp_q := arp_q ?e @ qs\<rparr>]\<rparr>) R"
    if "queued n ((arp_q ?e @ qs) @ others (arp_table s) i) R" for n qs
  proof (rule arp_rest_entry [OF r i(1)])
    show "entry_ok (?e\<lparr>arp_q := arp_q ?e @ qs\<rparr>)" using arp_okD(5) [OF ok i(1)] i(2) by (simp add: entry_ok_def)
    show "own_ip i (arp_ip (?e\<lparr>arp_q := arp_q ?e @ qs\<rparr>)) (arp_table s)" using table_ok_own [OF arp_okD(2) [OF ok] i(1)] i(2) by simp
  qed (use that in simp)
  have id: "(arp_table s)[i := ?e\<lparr>arp_q := arp_q ?e @ []\<rparr>] = arp_table s"
    by simp
  obtain n1 p where p: "packet_to_queue q (nt s) = Some (n1, p)" "held_same R (nt s) n1"
    "if p = NULL then queued n1 (arp_q ?e @ others (arp_table s) i) R else queued n1 (arp_q ?e @ others (arp_table s) i) (add_mset p R)"
    using packet_to_queue_ok [OF Q h t] by blast
  show ?thesis
  proof (cases "p = NULL")
    case True
    have "queue_packet i q s = Some (s\<lparr>nt := n1\<rparr>, ERR_MEM)" using p(1) True by (simp add: queue_packet_def on_net_def)
    then show ?thesis using goal [of n1 "[]"] p(2,3) True id by (intro exI [of _ n1] exI [of _ "[]"] exI [of _ ERR_MEM]) auto
  next
    case p0: False
    then have q1: "queued n1 (arp_q ?e @ others (arp_table s) i) (add_mset p R)" using p(3) by simp
    obtain pl x where m: "memp_malloc MEMP_ARP_QUEUE (pools n1) = (pl, x)" by fastforce
    show ?thesis
    proof (cases "x = NULL")
      case True
      have n: "n1\<lparr>pools := pl\<rparr> = n1" using queued_malloc_fail [OF q1] m True by simp
      obtain n2 k where f: "pbuf_free p n1 = Some (n2, k)" "queued n2 (arp_q ?e @ others (arp_table s) i) R" "held_same R n1 n2"
        using queued_free [OF q1 p0] by (auto simp: still_def)
      have "queue_packet i q s = Some (s\<lparr>nt := n2\<rparr>, ERR_MEM)"
        using p(1) p0 m n True f(1) by (simp add: queue_packet_def on_net_def upd_pools_def Let_def)
      then show ?thesis using goal [of n2 "[]"] f(2) held_same_trans [OF p(2) f(3)] id by (intro exI [of _ n2] exI [of _ "[]"] exI [of _ ERR_MEM]) auto
    next
      case False
      have "queued (n1\<lparr>pools := pl\<rparr>) ((arp_q ?e @ [(x, p)]) @ others (arp_table s) i) R"
        using queued_push [OF q1 p0 m False] queued_swap [of "n1\<lparr>pools := pl\<rparr>" "arp_q ?e" "(x, p)" "others (arp_table s) i" R] by simp
      moreover have "queue_packet i q s = Some (s\<lparr>nt := n1\<lparr>pools := pl\<rparr>, arp_table := (arp_table s)[i := ?e\<lparr>arp_q := arp_q ?e @ [(x, p)]\<rparr>]\<rparr>, ERR_OK)"
        using p(1) p0 m False by (simp add: queue_packet_def on_net_def upd_pools_def upd_entry_def Let_def)
      ultimately show ?thesis using goal p(2) by (intro exI [of _ "n1\<lparr>pools := pl\<rparr>"] exI [of _ "[(x, p)]"] exI [of _ ERR_OK]) auto
    qed
  qed
qed

subsection \<open>Resolving and sending\<close>

lemma arp_ok_tx [simp]: "arp_ok (s\<lparr>tx_frames := f\<rparr>) R = arp_ok s R"
  by (simp add: arp_ok_def)

lemma arp_ok_cached: "arp_ok s R \<Longrightarrow> i < ARP_TABLE_SIZE \<Longrightarrow> arp_ok (s\<lparr>etharp_cached_entry := i\<rparr>) R"
  by (simp add: arp_ok_def)

lemma arp_ok_nt: "arp_ok s R \<Longrightarrow> queued n (concat (map arp_q (arp_table s))) R' \<Longrightarrow> arp_ok (s\<lparr>nt := n\<rparr>) R'"
  by (simp add: arp_ok_def)

lemma arp_ok_ram [simp]: "arp_ok (s\<lparr>nt := (nt s)\<lparr>ram_bytes := m\<rparr>\<rparr>) R = arp_ok s R"
  by (simp add: arp_ok_def)

lemma arp_held: "arp_ok s R \<Longrightarrow> p \<in># R \<Longrightarrow> heads (nt s) p"
  by (rule queuedD(5) [OF arp_okD(1)])

lemma try_hard_never_refused [simp]: "\<not> refused a ETHARP_FLAG_TRY_HARD T"
  by (simp add: ETHARP_FLAG_TRY_HARD_def ETHARP_FLAG_FIND_ONLY_def)

lemma arp_ok_request:
  assumes "arp_ok s R" "tx_ok s" "length (hwaddr (netifs s nf)) = 6"
  shows "\<exists>s' e. etharp_request nf a s = Some (s', e) \<and> arp_ok s' R \<and> arp_frame s s' \<and> held_same R (nt s) (nt s') \<and>
    arp_table s' = arp_table s \<and> etharp_cached_entry s' = etharp_cached_entry s \<and>
    (e = ERR_MEM \<and> s' = s \<or> e = ERR_OK \<and> tx_frames s' = tx_frames s @ [request_frame (netifs s nf) a])"
proof -
  obtain n e fs where r: "etharp_request nf a s = Some (s\<lparr>nt := n, tx_frames := tx_frames s @ fs\<rparr>, e)"
    "queued n (concat (map arp_q (arp_table s))) R" "held_same R (nt s) n"
    "e = ERR_MEM \<and> fs = [] \<and> n = nt s \<or> e = ERR_OK \<and> fs = [request_frame (netifs s nf) a]"
    using etharp_request_ok [OF arp_okD(1) [OF assms(1)] assms(2,3)] by blast
  show ?thesis using r arp_ok_nt [OF assms(1) r(2)] by (intro exI [of _ "s\<lparr>nt := n, tx_frames := tx_frames s @ fs\<rparr>"] exI [of _ e]) (auto simp: arp_frame_def)
qed

lemma arp_ok_send:
  assumes "arp_ok s R" "heads (nt s) q" "q \<noteq> NULL" "tx_ok s" "length src = 6" "length dst = 6"
  shows "\<exists>s' fs. etharp_send_ip nf q src dst s = Some (s', ERR_OK) \<and> arp_ok s' R \<and> arp_frame s s' \<and> held_same R (nt s) (nt s') \<and>
    arp_table s' = arp_table s \<and> tx_frames s' = tx_frames s @ fs \<and> framed (eth_header dst src ETHTYPE_IP) fs \<and>
    (14 \<le> pb_len (pbufs (nt s) q) \<longrightarrow> pb_next (pbufs (nt s) q) = NULL \<longrightarrow> fs = [eth_header dst src ETHTYPE_IP @ drop 14 (pbuf_data (nt s) q)])"
proof -
  obtain m fs where e: "etharp_send_ip nf q src dst s = Some (s\<lparr>nt := (nt s)\<lparr>ram_bytes := m\<rparr>, tx_frames := tx_frames s @ fs\<rparr>, ERR_OK)"
    "framed (eth_header dst src ETHTYPE_IP) fs"
    "14 \<le> pb_len (pbufs (nt s) q) \<longrightarrow> hd fs = eth_header dst src ETHTYPE_IP @ drop 14 (pbuf_data (nt s) q)"
    "pb_next (pbufs (nt s) q) = NULL \<longrightarrow> length fs = 1"
    using etharp_send_ip_ok [OF assms(2-6), of nf] by (elim exE conjE) (rule that)
  have "fs = [hd fs]" if "length fs = 1" using that by (auto simp: length_Suc_conv)
  then show ?thesis using assms(1) e
    by (intro exI [of _ "s\<lparr>nt := (nt s)\<lparr>ram_bytes := m\<rparr>, tx_frames := tx_frames s @ fs\<rparr>"] exI [of _ fs]) (auto simp: arp_frame_def)
qed

definition known :: "u32 \<Rightarrow> etharp_entry list \<Rightarrow> bool" where
  "known a T \<longleftrightarrow> (\<exists>e\<in>set T. arp_state e \<noteq> ETHARP_STATE_EMPTY \<and> arp_ip e = a)"

text \<open>The entry the search returns, marked pending if it is new.\<close>

lemma query_entry_ok:
  assumes ok: "arp_ok s R"
  shows "\<exists>s1 i. etharp_find_entry (Some a) ETHARP_FLAG_TRY_HARD s = Some (s1, Inr i) \<and> i < ARP_TABLE_SIZE \<and>
    (let s2 = (if arp_state (arp_table s1 ! i) = ETHARP_STATE_EMPTY then upd_entry i (\<lambda>e. e\<lparr>arp_state := ETHARP_STATE_PENDING\<rparr>) s1 else s1)
     in arp_ok s2 R \<and> arp_frame s s2 \<and> held_same R (nt s) (nt s2) \<and> arp_state (arp_table s2 ! i) \<noteq> ETHARP_STATE_EMPTY \<and>
        arp_ip (arp_table s2 ! i) = a \<and> tx_frames s2 = tx_frames s \<and>
        (arp_state (arp_table s2 ! i) \<ge> ETHARP_STATE_STABLE \<longrightarrow> arp_table s2 = arp_table s))"
proof -
  obtain s1 r where f: "etharp_find_entry (Some a) ETHARP_FLAG_TRY_HARD s = Some (s1, r)" "arp_ok s1 R" "arp_frame s s1" "still R (nt s) (nt s1)"
    "case r of Inr i \<Rightarrow> entry_for a s i s1 \<and> \<not> refused a ETHARP_FLAG_TRY_HARD (arp_table s) \<and> tx_frames s1 = tx_frames s
     | Inl e \<Rightarrow> e = ERR_MEM \<and> s1 = s \<and> refused a ETHARP_FLAG_TRY_HARD (arp_table s)"
    using etharp_find_entry_ok [OF ok] by blast
  obtain i where i: "r = Inr i" "entry_for a s i s1" "tx_frames s1 = tx_frames s"
    using f(5) try_hard_never_refused [of "arp_table s" a] by (cases r) auto
  have e: "i < ARP_TABLE_SIZE" "arp_ip (arp_table s1 ! i) = a" "own_ip i a (arp_table s1)" using i(2) by (simp_all add: entry_for_def)
  show ?thesis
  proof (cases "arp_state (arp_table s1 ! i) = ETHARP_STATE_EMPTY")
    case False
    then have "s1 = s" using i(2) by (auto simp: entry_for_def entry_found_def entry_made_def)
    then show ?thesis using False f(1,2,3,4) i e by (intro exI [of _ s1] exI [of _ i]) (simp add: still_def Let_def)
  next
    case True
    let ?e = "(arp_table s1 ! i)\<lparr>arp_state := ETHARP_STATE_PENDING\<rparr>"
    let ?s2 = "s1\<lparr>arp_table := (arp_table s1)[i := ?e]\<rparr>"
    have m: "entry_made a s i s1" using i(2) True by (auto simp: entry_for_def entry_found_def)
    have r: "arp_rest i s1 R" using f(2) e(1) by (rule arp_ok_rest)
    have "entry_ok ?e" using m arp_okD(5) [OF f(2) e(1)] by (simp add: entry_made_def entry_ok_def ARP_MAXPENDING_def)
    then have "arp_ok (s1\<lparr>nt := nt s1, arp_table := (arp_table s1)[i := ?e]\<rparr>) R"
      by (rule arp_rest_entry [OF r e(1), rotated]) (use r e in \<open>simp_all add: arp_rest_def\<close>)
    then have "arp_ok ?s2 R" by simp
    moreover have "upd_entry i (\<lambda>e. e\<lparr>arp_state := ETHARP_STATE_PENDING\<rparr>) s1 = ?s2" by (simp add: upd_entry_def)
    ultimately show ?thesis using True f(1,3,4) i e arp_okD(3) [OF f(2)]
      by (intro exI [of _ s1] exI [of _ i]) (simp add: still_def Let_def stable_iff)
  qed
qed

lemma known_nth: "arp_ok s R \<Longrightarrow> i < ARP_TABLE_SIZE \<Longrightarrow> arp_state (arp_table s ! i) \<noteq> ETHARP_STATE_EMPTY \<Longrightarrow> known (arp_ip (arp_table s ! i)) (arp_table s)"
  using arp_okD(3) [of s R] by (auto simp: known_def)

lemma known_list_update: "known a T \<Longrightarrow> arp_state e = arp_state (T ! i) \<Longrightarrow> arp_ip e = arp_ip (T ! i) \<Longrightarrow> known a (T[i := e])"
proof -
  assume a: "known a T" "arp_state e = arp_state (T ! i)" "arp_ip e = arp_ip (T ! i)"
  obtain j where "j < length T" "arp_state (T ! j) \<noteq> ETHARP_STATE_EMPTY" "arp_ip (T ! j) = a"
    using a(1) by (auto simp: known_def in_set_conv_nth)
  then have "j < length (T[i := e]) \<and> arp_state (T[i := e] ! j) \<noteq> ETHARP_STATE_EMPTY \<and> arp_ip (T[i := e] ! j) = a"
    using a(2,3) by (cases "i = j") simp_all
  then show ?thesis unfolding known_def using nth_mem by blast
qed

lemma etharp_query_ok:
  assumes ok: "arp_ok s R" and q: "q \<noteq> NULL \<Longrightarrow> q \<in># R \<and> whole (nt s) q \<and> tot_len (pbufs (nt s) q) \<le> 65456 \<and> pb_type (pbufs (nt s) q) \<noteq> PBUF_ROM"
    and tx: "tx_ok s" and l: "length (hwaddr (netifs s nf)) = 6"
  shows "\<exists>s' e. etharp_query nf a q s = Some (s', e) \<and> arp_ok s' R \<and> arp_frame s s' \<and> held_same R (nt s) (nt s') \<and>
    (if unicast a (netifs s nf) then known a (arp_table s') \<and> (e = ERR_OK \<or> e = ERR_MEM) else e = ERR_ARG \<and> s' = s)"
proof (cases "unicast a (netifs s nf)")
  case False
  then have "etharp_query nf a q s = Some (s, ERR_ARG)" by (auto simp: etharp_query_def)
  then show ?thesis using False ok by simp
next
  case uni: True
  obtain s1 i where f: "etharp_find_entry (Some a) ETHARP_FLAG_TRY_HARD s = Some (s1, Inr i)" "i < ARP_TABLE_SIZE"
    "let s2 = (if arp_state (arp_table s1 ! i) = ETHARP_STATE_EMPTY then upd_entry i (\<lambda>e. e\<lparr>arp_state := ETHARP_STATE_PENDING\<rparr>) s1 else s1)
     in arp_ok s2 R \<and> arp_frame s s2 \<and> held_same R (nt s) (nt s2) \<and> arp_state (arp_table s2 ! i) \<noteq> ETHARP_STATE_EMPTY \<and>
        arp_ip (arp_table s2 ! i) = a \<and> tx_frames s2 = tx_frames s \<and>
        (arp_state (arp_table s2 ! i) \<ge> ETHARP_STATE_STABLE \<longrightarrow> arp_table s2 = arp_table s)"
    using query_entry_ok [OF ok] by blast
  define s2 where "s2 = (if arp_state (arp_table s1 ! i) = ETHARP_STATE_EMPTY then upd_entry i (\<lambda>e. e\<lparr>arp_state := ETHARP_STATE_PENDING\<rparr>) s1 else s1)"
  have s2: "arp_ok s2 R" "arp_frame s s2" "held_same R (nt s) (nt s2)" "arp_state (arp_table s2 ! i) \<noteq> ETHARP_STATE_EMPTY"
    "arp_ip (arp_table s2 ! i) = a" using f(3) by (simp_all add: s2_def [symmetric] Let_def)
  have n2: "netifs s2 = netifs s" "tx_done s2 = tx_done s" using s2(2) by (simp_all add: arp_frame_def)
  let ?req = "arp_state (arp_table s2 ! i) = ETHARP_STATE_PENDING \<or> q = NULL"
  obtain s3 e3 where s3: "(if ?req then etharp_request nf a s2 else Some (s2, ERR_MEM)) = Some (s3, e3)" "arp_ok s3 R" "arp_frame s2 s3"
    "held_same R (nt s2) (nt s3)" "arp_table s3 = arp_table s2" "e3 = ERR_OK \<or> e3 = ERR_MEM"
  proof (cases ?req)
    case True
    show ?thesis using arp_ok_request [OF s2(1), of nf a] tx l n2 True that by auto
  qed (use s2 that in auto)
  have E: "etharp_query nf a q s = (if q = NULL then Some (s3, e3)
      else if arp_state (arp_table s3 ! i) \<ge> ETHARP_STATE_STABLE
      then etharp_send_ip nf q (hwaddr (netifs s3 nf)) (arp_eth (arp_table s3 ! i)) (s3\<lparr>etharp_cached_entry := i\<rparr>)
      else if arp_state (arp_table s3 ! i) = ETHARP_STATE_PENDING then queue_packet i q s3
      else Some (s3, e3))"
  proof -
    have g: "\<not> (ip4_addr_isbroadcast a (netifs s nf) \<or> ip_addr_ismulticast a \<or> a = IPADDR_ANY)" using uni by blast
    show ?thesis unfolding etharp_query_def if_not_P [OF g] f(1)
      by (simp only: bind.simps prod.case sum.case Let_def s2_def [symmetric] s3(1))
  qed
  have fr: "arp_frame s s3" "held_same R (nt s) (nt s3)" using arp_frame_trans [OF s2(2) s3(3)] held_same_trans [OF s2(3) s3(4)] by auto
  have k: "known a (arp_table s3)" using known_nth [OF s2(1) f(2) s2(4)] s2(5) s3(5) by simp
  have n3: "netifs s3 = netifs s" "tx_done s3 = tx_done s" using fr(1) by (simp_all add: arp_frame_def)
  show ?thesis
  proof (cases "q = NULL")
    case True
    then show ?thesis using E s3(2,6) fr k uni by simp
  next
    case False
    note qh = q [OF False]
    have w: "whole (nt s3) q" using held_same_whole [OF fr(2)] qh by blast
    note h = whole_heads [OF w]
    note hs = held_sameD [OF fr(2) conjunct1 [OF qh] whole_heads False]
    show ?thesis
    proof (cases "arp_state (arp_table s3 ! i) \<ge> ETHARP_STATE_STABLE")
      case True
      let ?s = "s3\<lparr>etharp_cached_entry := i\<rparr>"
      have ok': "arp_ok ?s R" using s3(2) f(2) by (rule arp_ok_cached)
      obtain s' fs where S: "etharp_send_ip nf q (hwaddr (netifs s3 nf)) (arp_eth (arp_table s3 ! i)) ?s = Some (s', ERR_OK)"
        "arp_ok s' R" "arp_frame ?s s'" "held_same R (nt ?s) (nt s')" "arp_table s' = arp_table ?s"
        using arp_ok_send [OF ok', of q "hwaddr (netifs s3 nf)" "arp_eth (arp_table s3 ! i)" nf] h False tx n3 l arp_okD(5) [OF s3(2) f(2)]
        by (auto simp: entry_ok_def)
      have "arp_frame s ?s" using fr(1) by simp
      from arp_frame_trans [OF this S(3)] held_same_trans [OF fr(2), of "nt s'"] show ?thesis
        using E False True S k uni by simp
    next
      case ns: False
      then have pend: "arp_state (arp_table s3 ! i) = ETHARP_STATE_PENDING" using s2(4) s3(5) by (cases "arp_state (arp_table s3 ! i)") (auto simp: stable_iff)
      obtain n qs e where Q: "queue_packet i q s3 = Some (s3\<lparr>nt := n, arp_table := (arp_table s3)[i := (arp_table s3 ! i)\<lparr>arp_q := arp_q (arp_table s3 ! i) @ qs\<rparr>]\<rparr>, e)"
        "arp_ok (s3\<lparr>nt := n, arp_table := (arp_table s3)[i := (arp_table s3 ! i)\<lparr>arp_q := arp_q (arp_table s3 ! i) @ qs\<rparr>]\<rparr>) R"
        "held_same R (nt s3) n" "e = ERR_OK \<and> length qs = 1 \<or> e = ERR_MEM \<and> qs = []"
        using queue_packet_ok [OF s3(2) f(2) pend w] qh hs by auto
      show ?thesis using E False ns pend Q k uni fr(1) held_same_trans [OF fr(2) Q(3)] known_list_update [OF k] by auto
    qed
  qed
qed

lemma find_stable_spec:
  "case find_stable d i T of
     Some k \<Rightarrow> i \<le> k \<and> k - i < length T \<and> is_stable (T ! (k - i)) \<and> arp_ip (T ! (k - i)) = d
   | None \<Rightarrow> \<forall>e\<in>set T. is_stable e \<longrightarrow> arp_ip e \<noteq> d"
proof (induction T arbitrary: i)
  case (Cons e T)
  show ?case
  proof (cases "find_stable d (i + 1) T")
    case (Some k)
    then have "i + 1 \<le> k" "k - (i + 1) < length T" "is_stable (T ! (k - (i + 1)))" "arp_ip (T ! (k - (i + 1))) = d"
      using Cons.IH [of "i + 1"] by simp_all
    moreover from this have "k - i = Suc (k - (i + 1))" by simp
    ultimately show ?thesis using Some by auto
  qed (use Cons.IH [of "i + 1"] in auto)
qed simp

lemma find_stable_found:
  "find_stable d 0 T = Some k \<Longrightarrow> k < length T \<and> is_stable (T ! k) \<and> arp_ip (T ! k) = d"
  "find_stable d 0 T = None \<Longrightarrow> e \<in> set T \<Longrightarrow> is_stable e \<Longrightarrow> arp_ip e \<noteq> d"
  using find_stable_spec [where d = d and i = 0 and T = T] by simp_all

lemma etharp_output_to_arp_index_ok:
  assumes ok: "arp_ok s R" and i: "i < ARP_TABLE_SIZE" "is_stable (arp_table s ! i)" and q: "q \<in># R" "q \<noteq> NULL"
    and tx: "tx_ok s" and l: "length (hwaddr (netifs s nf)) = 6"
  shows "\<exists>s' rs fs. etharp_output_to_arp_index nf q i s = Some (s', ERR_OK) \<and> arp_ok s' R \<and> arp_frame s s' \<and> held_same R (nt s) (nt s') \<and>
    tx_frames s' = tx_frames s @ rs @ fs \<and> (rs = [] \<or> rs = [request_frame (netifs s nf) (arp_ip (arp_table s ! i))]) \<and>
    framed (eth_header (arp_eth (arp_table s ! i)) (hwaddr (netifs s nf)) ETHTYPE_IP) fs \<and>
    (arp_ctime (arp_table s ! i) < ARP_AGE_REREQUEST_USED \<longrightarrow> rs = [] \<and>
      (14 \<le> pb_len (pbufs (nt s) q) \<longrightarrow> pb_next (pbufs (nt s) q) = NULL \<longrightarrow>
        fs = [eth_header (arp_eth (arp_table s ! i)) (hwaddr (netifs s nf)) ETHTYPE_IP @ drop 14 (pbuf_data (nt s) q)]))"
proof -
  let ?e = "arp_table s ! i"
  have eo: "entry_ok ?e" and len: "length (arp_table s) = ARP_TABLE_SIZE" using arp_okD [OF ok] i(1) by blast+
  let ?re = "arp_state ?e = ETHARP_STATE_STABLE \<and> arp_ctime ?e \<ge> ARP_AGE_REREQUEST_USED"
  let ?step = "if ?re then do { (s, e) \<leftarrow> etharp_request nf (arp_ip ?e) s;
                          Some (if e = ERR_OK then upd_entry i (\<lambda>e. e\<lparr>arp_state := ETHARP_STATE_STABLE_REREQUESTING\<rparr>) s else s) } else Some s"
  obtain s1 rs where s1: "?step = Some s1" "arp_ok s1 R" "arp_frame s s1" "held_same R (nt s) (nt s1)" "arp_eth (arp_table s1 ! i) = arp_eth ?e"
    "tx_frames s1 = tx_frames s @ rs" "rs = [] \<or> rs = [request_frame (netifs s nf) (arp_ip ?e)]" "\<not> ?re \<Longrightarrow> s1 = s \<and> rs = []"
  proof (cases ?re)
    case False
    show ?thesis by (rule that [of s "[]"]) (use False ok in auto)
  next
    case True
    obtain s2 e where r: "etharp_request nf (arp_ip ?e) s = Some (s2, e)" "arp_ok s2 R" "arp_frame s s2" "held_same R (nt s) (nt s2)"
      "arp_table s2 = arp_table s" "e = ERR_MEM \<and> s2 = s \<or> e = ERR_OK \<and> tx_frames s2 = tx_frames s @ [request_frame (netifs s nf) (arp_ip ?e)]"
      using arp_ok_request [OF ok tx l, of "arp_ip ?e"] by blast
    show ?thesis
    proof (cases "e = ERR_OK")
      case False
      then have "s2 = s" using r(6) by blast
      show ?thesis by (rule that [of s "[]"]) (use True False r \<open>s2 = s\<close> in auto)
    next
      case eok: True
      let ?e' = "?e\<lparr>arp_state := ETHARP_STATE_STABLE_REREQUESTING\<rparr>"
      let ?s = "s2\<lparr>arp_table := (arp_table s)[i := ?e']\<rparr>"
      have r2: "arp_rest i s2 R" using r(2) i(1) by (rule arp_ok_rest)
      have "arp_ok (s2\<lparr>nt := nt s2, arp_table := (arp_table s2)[i := ?e']\<rparr>) R"
      proof (rule arp_rest_entry [OF r2 i(1)])
        show "queued (nt s2) (arp_q ?e' @ others (arp_table s2) i) R" using r2 r(5) by (simp add: arp_rest_def)
        show "entry_ok ?e'" using eo True by (simp add: entry_ok_def)
        show "own_ip i (arp_ip ?e') (arp_table s2)" using table_ok_own [OF arp_okD(2) [OF ok] i(1)] True r(5) by simp
      qed
      then have ok': "arp_ok ?s R" using r(5) by simp
      have st: "?step = Some ?s" using True r(1,5) eok by (simp add: upd_entry_def)
      show ?thesis by (rule that [of ?s "[request_frame (netifs s nf) (arp_ip ?e)]"]) (use st ok' r True eok i(1) len in auto)
    qed
  qed
  have n1: "netifs s1 = netifs s" "tx_done s1 = tx_done s" using s1(3) by (simp_all add: arp_frame_def)
  have l6: "length (arp_eth ?e) = 6" and tx1: "tx_ok s1" using eo tx n1 by (simp_all add: entry_ok_def)
  obtain s' fs where S: "etharp_send_ip nf q (hwaddr (netifs s nf)) (arp_eth ?e) s1 = Some (s', ERR_OK)" "arp_ok s' R" "arp_frame s1 s'"
    "held_same R (nt s1) (nt s')" "tx_frames s' = tx_frames s1 @ fs" "framed (eth_header (arp_eth ?e) (hwaddr (netifs s nf)) ETHTYPE_IP) fs"
    "14 \<le> pb_len (pbufs (nt s1) q) \<longrightarrow> pb_next (pbufs (nt s1) q) = NULL \<longrightarrow> fs = [eth_header (arp_eth ?e) (hwaddr (netifs s nf)) ETHTYPE_IP @ drop 14 (pbuf_data (nt s1) q)]"
    using arp_ok_send [OF s1(2) arp_held [OF s1(2) q(1)] q(2) tx1 l l6, of nf] by (elim exE conjE) (rule that)
  have "etharp_output_to_arp_index nf q i s = Some (s', ERR_OK)"
    unfolding etharp_output_to_arp_index_def s1(1) by (simp add: n1 s1(5) S(1))
  then show ?thesis using S s1 arp_frame_trans [OF s1(3) S(3)] held_same_trans [OF s1(4) S(4)] by (intro exI [of _ s'] exI [of _ rs] exI [of _ fs]) auto
qed

text \<open>A packet that can be given to the link: held by the caller, not inside another chain, no ROM in front, and short enough
  for a copy with the Ethernet header.\<close>

definition sendable :: "net \<Rightarrow> ptr multiset \<Rightarrow> ptr \<Rightarrow> bool" where
  "sendable n R q \<longleftrightarrow> q \<in># R \<and> whole n q \<and> unlinked n q \<and> \<not> is_custom (pbufs n q) \<and> pb_type (pbufs n q) \<noteq> PBUF_ROM \<and>
     tot_len (pbufs n q) + 14 \<le> 65456"

definition headroom :: "net \<Rightarrow> ptr \<Rightarrow> nat \<Rightarrow> bool" where
  "headroom n q k \<longleftrightarrow> (pb_type (pbufs n q) = PBUF_RAM \<or> pb_type (pbufs n q) = PBUF_POOL) \<and> q + SIZEOF_STRUCT_PBUF + k \<le> payload (pbufs n q)"

lemma queued_header:
  assumes "queued n L R" "whole n q" "unlinked n q" "\<not> is_custom (pbufs n q)" "int (tot_len (pbufs n q)) + inc < 65536"
  shows "\<exists>n' e. pbuf_header q inc n = Some (n', e) \<and> queued n' L R \<and> whole n' q \<and> unlinked n' q \<and> ram_bytes n' = ram_bytes n \<and> alive n' = alive n \<and>
    held_same {#x \<in># R. x \<noteq> q#} n n' \<and>
    (e = 1 \<and> n' = n \<or> e = 0 \<and> int (pb_len (pbufs n' q)) = int (pb_len (pbufs n q)) + inc \<and>
      int (tot_len (pbufs n' q)) = int (tot_len (pbufs n q)) + inc \<and> int (payload (pbufs n' q)) = int (payload (pbufs n q)) - inc \<and>
      (\<forall>x. x \<noteq> q \<longrightarrow> pbufs n' x = pbufs n x) \<and>
      n' = n\<lparr>pbufs := pbufs n'\<rparr> \<and> pb_next (pbufs n' q) = pb_next (pbufs n q) \<and> pb_type (pbufs n' q) = pb_type (pbufs n q) \<and> pb_ref (pbufs n' q) = pb_ref (pbufs n q) \<and>
      pb_flags (pbufs n' q) = pb_flags (pbufs n q))"
proof -
  obtain n' e where E: "pbuf_header q inc n = Some (n', e)" "net_ok n' (mset (map snd L) + R)" "whole n' q" "unlinked n' q" "pools n' = pools n"
    "ram_bytes n' = ram_bytes n" "alive n' = alive n" "held_same {#x \<in># mset (map snd L) + R. x \<noteq> q#} n n'"
    "e = 1 \<and> n' = n \<or> e = 0 \<and> int (pb_len (pbufs n' q)) = int (pb_len (pbufs n q)) + inc \<and>
      int (tot_len (pbufs n' q)) = int (tot_len (pbufs n q)) + inc \<and> int (payload (pbufs n' q)) = int (payload (pbufs n q)) - inc \<and>
      (\<forall>x. x \<noteq> q \<longrightarrow> pbufs n' x = pbufs n x) \<and>
      n' = n\<lparr>pbufs := pbufs n'\<rparr> \<and> pb_next (pbufs n' q) = pb_next (pbufs n q) \<and> pb_type (pbufs n' q) = pb_type (pbufs n q) \<and> pb_ref (pbufs n' q) = pb_ref (pbufs n q) \<and>
      pb_flags (pbufs n' q) = pb_flags (pbufs n q)"
    using pbuf_header_ok [OF queuedD(1) [OF assms(1)] assms(2-5)] by (elim exE conjE) (rule that)
  have "queued n' L R" using assms(1) E(2,5) by (auto simp: queued_def aux_block_def)
  moreover have "held_same {#x \<in># R. x \<noteq> q#} n n'" by (rule held_same_sub [OF E(8)]) auto
  ultimately show ?thesis using E by blast
qed

definition next_hop :: "netif \<Rightarrow> u32 \<Rightarrow> u32 option" where
  "next_hop nf a =
     (if ip_addr_netcmp a (ip_addr nf) (netmask nf) \<or> ip_addr_islinklocal a then Some a
      else if gw nf = IPADDR_ANY then None else Some (gw nf))"

text \<open>The choice of the destination once there is room for the header.\<close>

definition arp_dispatch :: "ptr \<Rightarrow> ptr \<Rightarrow> u32 \<Rightarrow> 'a arp_scheme \<Rightarrow> ('a arp_scheme \<times> err_t) option" where
  "arp_dispatch nf q a s =
     (if ip4_addr_isbroadcast a (netifs s nf) then etharp_send_ip nf q (hwaddr (netifs s nf)) ethbroadcast s
      else if ip_addr_ismulticast a then etharp_send_ip nf q (hwaddr (netifs s nf)) (mcast_eth a) s
      else case next_hop (netifs s nf) a of
        None \<Rightarrow> Some (s, ERR_RTE)
      | Some d \<Rightarrow>
          if is_stable (arp_table s ! etharp_cached_entry s) \<and> d = arp_ip (arp_table s ! etharp_cached_entry s)
          then etharp_output_to_arp_index nf q (etharp_cached_entry s) s
          else case find_stable d 0 (arp_table s) of
            Some i \<Rightarrow> etharp_output_to_arp_index nf q i (s\<lparr>etharp_cached_entry := i\<rparr>)
          | None \<Rightarrow> etharp_query nf d q s)"

lemma etharp_output_dispatch:
  "etharp_output nf q a s =
     do { (s, r) \<leftarrow> on_net (pbuf_header q (int SIZEOF_ETH_HDR)) s; if r \<noteq> 0 then Some (s, ERR_BUF) else arp_dispatch nf q a s }"
proof -
  have "(if ip4_addr_isbroadcast a (netifs s nf) then etharp_send_ip nf q (hwaddr (netifs s nf)) ethbroadcast s
          else if ip_addr_ismulticast a then etharp_send_ip nf q (hwaddr (netifs s nf)) (mcast_eth a) s
          else
            let local = (ip_addr_netcmp a (ip_addr (netifs s nf)) (netmask (netifs s nf)) \<or> ip_addr_islinklocal a)
            in if \<not> local \<and> gw (netifs s nf) = IPADDR_ANY then Some (s, ERR_RTE)
               else
                 let dst_addr = (if local then a else gw (netifs s nf));
                     c = arp_table s ! etharp_cached_entry s
                 in if arp_state c \<ge> ETHARP_STATE_STABLE \<and> dst_addr = arp_ip c
                    then etharp_output_to_arp_index nf q (etharp_cached_entry s) s
                    else case find_stable dst_addr 0 (arp_table s) of
                      Some i \<Rightarrow> etharp_output_to_arp_index nf q i (s\<lparr>etharp_cached_entry := i\<rparr>)
                    | None \<Rightarrow> etharp_query nf dst_addr q s) = arp_dispatch nf q a s" for s :: "'a arp_scheme"
  proof -
    define l where "l = (ip_addr_netcmp a (ip_addr (netifs s nf)) (netmask (netifs s nf)) \<or> ip_addr_islinklocal a)"
    show ?thesis unfolding arp_dispatch_def next_hop_def l_def [symmetric] Let_def
      by (cases l; cases "gw (netifs s nf) = IPADDR_ANY") simp_all
  qed
  note D = this
  show ?thesis unfolding etharp_output_def D ..
qed

lemma length_mcast_eth [simp]: "length (mcast_eth a) = 6" and length_ethbroadcast [simp]: "length ethbroadcast = 6"
  by (simp_all add: mcast_eth_def ethbroadcast_def)

text \<open>What the caller gets to see on the wire: the frame, or a packet waiting for an answer, or nothing.\<close>

lemma arp_dispatch_ok:
  assumes ok: "arp_ok s R" and q: "q \<in># R" "whole (nt s) q" "tot_len (pbufs (nt s) q) \<le> 65456" "pb_type (pbufs (nt s) q) \<noteq> PBUF_ROM"
    and tx: "tx_ok s" and l: "length (hwaddr (netifs s nf)) = 6"
  shows "\<exists>s' e. arp_dispatch nf q a s = Some (s', e) \<and> arp_ok s' R \<and> arp_frame s s' \<and> held_same R (nt s) (nt s') \<and>
    (if \<not> ip4_addr_isbroadcast a (netifs s nf) \<and> \<not> ip_addr_ismulticast a \<and> next_hop (netifs s nf) a = None then e = ERR_RTE \<and> s' = s
     else e = ERR_OK \<or> e = ERR_MEM \<or> e = ERR_ARG)"
proof -
  note h = whole_heads [OF q(2)]
  have q0: "q \<noteq> NULL" using q(2) by (rule wholeE)
  note S = arp_ok_send [OF ok h q0 tx l]
  have cs: "\<exists>s' e. etharp_output_to_arp_index nf q i s1 = Some (s', e) \<and> arp_ok s' R \<and> arp_frame s s' \<and> held_same R (nt s) (nt s') \<and>
      (e = ERR_OK \<or> e = ERR_MEM \<or> e = ERR_ARG)"
    if "arp_ok s1 R" "arp_frame s s1" "nt s1 = nt s" "i < ARP_TABLE_SIZE" "is_stable (arp_table s1 ! i)" for s1 i
  proof -
    have "tx_ok s1" "length (hwaddr (netifs s1 nf)) = 6" using that(2) tx l by (simp_all add: arp_frame_def)
    from etharp_output_to_arp_index_ok [OF that(1,4,5) q(1) q0 this] arp_frame_trans [OF that(2)] that(3) show ?thesis by fastforce
  qed
  note len = arp_okD(3) [OF ok] and ca = arp_okD(4) [OF ok]
  consider (bcast) "ip4_addr_isbroadcast a (netifs s nf)" | (mcast) "\<not> ip4_addr_isbroadcast a (netifs s nf)" "ip_addr_ismulticast a"
    | (rte) "\<not> ip4_addr_isbroadcast a (netifs s nf)" "\<not> ip_addr_ismulticast a" "next_hop (netifs s nf) a = None"
    | (hop) d where "\<not> ip4_addr_isbroadcast a (netifs s nf)" "\<not> ip_addr_ismulticast a" "next_hop (netifs s nf) a = Some d" by fastforce
  then show ?thesis
  proof cases
    case bcast
    then show ?thesis using S [of ethbroadcast nf] unfolding arp_dispatch_def by fastforce
  next
    case mcast
    then show ?thesis using S [of "mcast_eth a" nf] unfolding arp_dispatch_def by fastforce
  next
    case rte
    then show ?thesis using ok by (simp add: arp_dispatch_def)
  next
    case hop
    show ?thesis
    proof (cases "is_stable (arp_table s ! etharp_cached_entry s) \<and> d = arp_ip (arp_table s ! etharp_cached_entry s)")
      case True
      then show ?thesis using cs [OF ok arp_frame_refl refl ca] hop by (simp add: arp_dispatch_def)
    next
      case nc: False
      show ?thesis
      proof (cases "find_stable d 0 (arp_table s)")
        case None
        obtain s' e where Q: "etharp_query nf d q s = Some (s', e)" "arp_ok s' R" "arp_frame s s'" "held_same R (nt s) (nt s')"
          "if unicast d (netifs s nf) then known d (arp_table s') \<and> (e = ERR_OK \<or> e = ERR_MEM) else e = ERR_ARG \<and> s' = s"
          using etharp_query_ok [OF ok _ tx l, of q d] q by blast
        show ?thesis unfolding arp_dispatch_def using hop nc None Q by (intro exI [of _ s'] exI [of _ e]) (auto split: if_splits)
      next
        case (Some i)
        have i: "i < ARP_TABLE_SIZE" "is_stable (arp_table s ! i)" using find_stable_found(1) [OF Some] len by auto
        have "arp_ok (s\<lparr>etharp_cached_entry := i\<rparr>) R" using ok i(1) by (rule arp_ok_cached)
        from cs [OF this _ _ i(1)] i(2) show ?thesis using hop nc Some by (auto simp: arp_dispatch_def)
      qed
    qed
  qed
qed

lemma etharp_output_ok:
  assumes ok: "arp_ok s R" and q: "sendable (nt s) R q" and tx: "tx_ok s" and l: "length (hwaddr (netifs s nf)) = 6"
  shows "\<exists>s' e. etharp_output nf q a s = Some (s', e) \<and> arp_ok s' R \<and> arp_frame s s' \<and> held_same {#x \<in># R. x \<noteq> q#} (nt s) (nt s') \<and>
    whole (nt s') q \<and> (e = ERR_BUF \<and> s' = s \<or> e = ERR_RTE \<or> e = ERR_OK \<or> e = ERR_MEM \<or> e = ERR_ARG)"
proof -
  have Q: "q \<in># R" "whole (nt s) q" "unlinked (nt s) q" "\<not> is_custom (pbufs (nt s) q)" "pb_type (pbufs (nt s) q) \<noteq> PBUF_ROM" "tot_len (pbufs (nt s) q) + 14 \<le> 65456"
    using q by (auto simp: sendable_def)
  obtain n e where H: "pbuf_header q 14 (nt s) = Some (n, e)" "queued n (concat (map arp_q (arp_table s))) R" "whole n q" "held_same {#x \<in># R. x \<noteq> q#} (nt s) n"
    "e = 1 \<and> n = nt s \<or> e = 0 \<and> int (tot_len (pbufs n q)) = int (tot_len (pbufs (nt s) q)) + 14 \<and> pb_type (pbufs n q) = pb_type (pbufs (nt s) q)"
    using queued_header [OF arp_okD(1) [OF ok] Q(2-4), of 14] Q(6) by fastforce
  show ?thesis
  proof (cases "e = 0")
    case False
    then have "etharp_output nf q a s = Some (s, ERR_BUF)" using H(1,5) by (simp add: etharp_output_def on_net_def SIZEOF_ETH_HDR_def)
    then show ?thesis using ok Q(2) by simp
  next
    case True
    let ?s = "s\<lparr>nt := n\<rparr>"
    have t: "int (tot_len (pbufs n q)) = int (tot_len (pbufs (nt s) q)) + 14" "pb_type (pbufs n q) = pb_type (pbufs (nt s) q)"
      using H(5) True by auto
    have ok': "arp_ok ?s R" using ok H(2) by (rule arp_ok_nt)
    obtain s' e' where D: "arp_dispatch nf q a ?s = Some (s', e')" "arp_ok s' R" "arp_frame ?s s'" "held_same R n (nt s')"
      "e' = ERR_RTE \<or> e' = ERR_OK \<or> e' = ERR_MEM \<or> e' = ERR_ARG"
      using arp_dispatch_ok [OF ok' Q(1), of nf a] H(3) t Q(5,6) tx l by (auto split: if_splits)
    have "arp_frame s ?s" by simp
    then have f: "arp_frame s s'" using D(3) by (rule arp_frame_trans)
    have "held_same {#x \<in># R. x \<noteq> q#} n (nt s')" by (rule held_same_sub [OF D(4)]) auto
    then have "held_same {#x \<in># R. x \<noteq> q#} (nt s) (nt s')" by (rule held_same_trans [OF H(4)])
    then show ?thesis using H(1) True D f held_same_whole [OF D(4) Q(1) H(3)] by (simp add: etharp_output_dispatch on_net_def SIZEOF_ETH_HDR_def)
  qed
qed

subsection \<open>Input\<close>

lemma arp_ok_free:
  assumes "arp_ok s (add_mset p R)" "p \<noteq> NULL"
  shows "\<exists>n k. on_net (pbuf_free p) s = Some (s\<lparr>nt := n\<rparr>, k) \<and> arp_ok (s\<lparr>nt := n\<rparr>) R \<and> still R (nt s) n"
proof -
  obtain n k where f: "pbuf_free p (nt s) = Some (n, k)" "queued n (concat (map arp_q (arp_table s))) R" "still R (nt s) n"
    using queued_free [OF arp_okD(1) [OF assms(1)] assms(2)] by blast
  have "on_net (pbuf_free p) s = Some (s\<lparr>nt := n\<rparr>, k)" using f(1) by (simp add: on_net_def)
  then show ?thesis using arp_ok_nt [OF assms(1) f(2)] f(3) by blast
qed

lemma heads_ram [simp]: "heads (n\<lparr>ram_bytes := m\<rparr>) p = heads n p"
  by (simp add: heads_def)

lemma arp_ok_output:
  assumes "arp_ok s R" "p \<in># R" "p \<noteq> NULL" "tx_ok s"
  shows "\<exists>fs. low_level_output p s = Some (s\<lparr>tx_frames := tx_frames s @ fs\<rparr>, ERR_OK) \<and>
    (pb_next (pbufs (nt s) p) = NULL \<longrightarrow> fs = [pbuf_data (nt s) p])"
proof -
  obtain qs where pk: "chained (nt s) (p # qs)" using headsE [OF arp_held [OF assms(1,2)] assms(3)] by blast
  have "qs = []" if "pb_next (pbufs (nt s) p) = NULL" using pk that by (cases qs) auto
  then show ?thesis using low_level_output_spec [OF pk assms(4)] by auto
qed

lemma etharp_arp_input_ok:
  assumes ok: "arp_ok s (add_mset p R)" and p: "p \<noteq> NULL" and nf: "nf \<noteq> NULL" and tx: "tx_ok s" and l: "length (hwaddr (netifs s nf)) = 6"
  shows "\<exists>s'. etharp_arp_input nf eth p s = Some s' \<and> arp_ok s' R \<and> arp_frame s s' \<and> held_same R (nt s) (nt s')"
proof -
  have h: "heads (nt s) p" by (rule arp_held [OF ok]) simp
  then have al: "p \<in> alive (nt s)" using p by (auto elim: headsE)
  let ?b = "pbufs (nt s) p" and ?m = "ram_bytes (nt s)"
  let ?e = "payload ?b"
  let ?bad = "pb_len ?b < SIZEOF_ETHARP_PACKET"
  let ?wrong = "ld16 ?m (?e + 14) \<noteq> lwip_htons HWTYPE_ETHERNET \<or> ?m (?e + 18) \<noteq> 6 \<or> ?m (?e + 19) \<noteq> 4 \<or> ld16 ?m (?e + 16) \<noteq> lwip_htons ETHTYPE_IP"
  obtain n k where f: "on_net (pbuf_free p) s = Some (s\<lparr>nt := n\<rparr>, k)" "arp_ok (s\<lparr>nt := n\<rparr>) R" "still R (nt s) n"
    using arp_ok_free [OF ok p] by blast
  show ?thesis
  proof (cases "?bad \<or> ?wrong")
    case True
    then have "etharp_arp_input nf eth p s = Some (s\<lparr>nt := n\<rparr>)"
      using nf al f(1) by (cases ?bad) (simp_all add: etharp_arp_input_def get_pbuf_def)
    then show ?thesis using f by (auto simp: still_def)
  next
    case False
    define for_us where "for_us = (ip_addr (netifs s nf) \<noteq> IPADDR_ANY \<and> ld32 ?m (?e + 38) = ip_addr (netifs s nf))"
    obtain s1 r where u: "etharp_update_arp_entry nf (ld32 ?m (?e + 28)) (bytes_at ?m (?e + 22) 6)
        (if for_us then ETHARP_FLAG_TRY_HARD else ETHARP_FLAG_FIND_ONLY) s = Some (s1, r)"
      "arp_ok s1 (add_mset p R)" "arp_frame s s1" "held_same (add_mset p R) (nt s) (nt s1)"
      using etharp_update_arp_entry_ok [OF ok tx length_bytes_at l] by blast
    have n1: "tx_ok s1" "netifs s1 = netifs s" using u(3) tx by (simp_all add: arp_frame_def)
    let ?ans = "ld16 (ram_bytes (nt s1)) (?e + 20) = lwip_htons ARP_REQUEST \<and> for_us"
    let ?up = "upd_ram (arp_answer ?e (ip_addr (netifs s nf)) eth) s1"
    obtain s2 where s2: "(if ?ans then do { (s, _) \<leftarrow> low_level_output p ?up; Some s } else Some s1) = Some s2"
      "arp_ok s2 (add_mset p R)" "arp_frame s1 s2" "held_same (add_mset p R) (nt s1) (nt s2)"
    proof (cases ?ans)
      case True
      have up: "arp_ok ?up (add_mset p R)" using u(2) by (simp add: upd_ram_def)
      obtain fs where o: "low_level_output p ?up = Some (?up\<lparr>tx_frames := tx_frames ?up @ fs\<rparr>, ERR_OK)"
        using arp_ok_output [OF up _ p] n1 by (auto simp: upd_ram_def)
      show ?thesis by (rule that [of "?up\<lparr>tx_frames := tx_frames ?up @ fs\<rparr>"]) (use True o up in \<open>auto simp: upd_ram_def arp_frame_def\<close>)
    qed (use u(2) that in auto)
    obtain n2 k2 where f2: "on_net (pbuf_free p) s2 = Some (s2\<lparr>nt := n2\<rparr>, k2)" "arp_ok (s2\<lparr>nt := n2\<rparr>) R" "still R (nt s2) n2"
      using arp_ok_free [OF s2(2) p] by blast
    have "etharp_arp_input nf eth p s = Some (s2\<lparr>nt := n2\<rparr>)"
    proof -
      have c: "\<not> pb_len ?b < SIZEOF_ETHARP_PACKET" "\<not> ?wrong" using False by blast+
      show ?thesis unfolding etharp_arp_input_def if_not_P [OF nf]
        by (simp only: get_pbuf_def al if_True bind.simps if_not_P [OF c(1)] Let_def if_not_P [OF c(2)] for_us_def [symmetric] u(1) prod.case n1(2) s2(1) f2(1))
    qed
    moreover have "held_same R (nt s) n2"
      using held_same_trans [OF held_same_less [OF held_same_trans [OF u(4) s2(4)]], of n2] f2(3) by (simp add: still_def)
    ultimately show ?thesis using f2(2) arp_frame_trans [OF u(3) s2(3)] by auto
  qed
qed

end
