(* ===== verification/Etharp_Spec.thy ===== *)
theory Etharp_Spec
  imports Etharp_Ops
begin

text \<open>
  What the ARP module promises: the table is a partial map from addresses to hardware addresses, entries live as long as the
  timer says, a resolved packet leaves at once in one frame, requests are answered, and every call returns in every state
  that can be reached.
\<close>

unbundle bit_operations_syntax

subsection \<open>The table as a map\<close>

definition arp_map :: "etharp_entry list \<Rightarrow> u32 \<Rightarrow> u8 list option" where
  "arp_map T a = map_option arp_eth (find (\<lambda>e. is_stable e \<and> arp_ip e = a) T)"

lemma arp_map_nth:
  assumes "table_ok T" "i < ARP_TABLE_SIZE" "is_stable (T ! i)"
  shows "arp_map T (arp_ip (T ! i)) = Some (arp_eth (T ! i))"
proof -
  have l: "i < length T" using assms(1,2) table_okD(1) by simp
  have st: "arp_state (T ! i) \<noteq> ETHARP_STATE_EMPTY" using assms(3) by (auto simp: stable_iff)
  have u: "j = i" if "j < length T" "is_stable (T ! j)" "arp_ip (T ! j) = arp_ip (T ! i)" for j
    using table_ok_own [OF assms(1,2) st] that unfolding own_ip_def by (metis stable_iff etharp_state.distinct(3,5))
  have "find (\<lambda>e. is_stable e \<and> arp_ip e = arp_ip (T ! i)) T = Some (T ! i)"
    unfolding find_Some_iff
  proof (intro exI [of _ i] conjI allI impI)
    show "\<not> (is_stable (T ! j) \<and> arp_ip (T ! j) = arp_ip (T ! i))" if "j < i" for j using u [of j] that l by auto
  qed (use l assms(3) in simp_all)
  then show ?thesis by (simp add: arp_map_def)
qed

lemma arp_map_None: "arp_map T a = None \<longleftrightarrow> (\<forall>e\<in>set T. \<not> (is_stable e \<and> arp_ip e = a))"
  by (auto simp: arp_map_def find_None_iff)

lemma arp_map_iff:
  assumes "table_ok T"
  shows "arp_map T a = Some h \<longleftrightarrow> (\<exists>i<ARP_TABLE_SIZE. is_stable (T ! i) \<and> arp_ip (T ! i) = a \<and> arp_eth (T ! i) = h)"
proof
  assume "arp_map T a = Some h"
  then show "\<exists>i<ARP_TABLE_SIZE. is_stable (T ! i) \<and> arp_ip (T ! i) = a \<and> arp_eth (T ! i) = h"
    using table_okD(1) [OF assms] by (auto simp: arp_map_def find_Some_iff)
qed (use arp_map_nth [OF assms] in auto)

text \<open>Searching for a stable entry is reading the map.\<close>

lemma etharp_find_addr_map:
  assumes ok: "arp_ok s R"
  shows "\<exists>r. etharp_find_addr a s = Some (s, r) \<and> map_option (\<lambda>(i, h, b). h) r = arp_map (arp_table s) a"
proof -
  let ?T = "arp_table s"
  have t: "table_ok ?T" "length ?T = ARP_TABLE_SIZE" using ok by (auto dest: arp_okD)
  obtain s' r where f: "etharp_find_entry (Some a) ETHARP_FLAG_FIND_ONLY s = Some (s', r)"
    "case r of Inr i \<Rightarrow> entry_for a s i s' \<and> \<not> refused a ETHARP_FLAG_FIND_ONLY ?T \<and> tx_frames s' = tx_frames s
     | Inl e \<Rightarrow> e = ERR_MEM \<and> s' = s \<and> refused a ETHARP_FLAG_FIND_ONLY ?T"
    using etharp_find_entry_ok [OF ok] by blast
  have fo: "refused a ETHARP_FLAG_FIND_ONLY ?T = no_ip a ?T" by (simp add: ETHARP_FLAG_FIND_ONLY_def)
  show ?thesis
  proof (cases r)
    case (Inl e)
    then have "s' = s" "no_ip a ?T" using f(2) fo by simp_all
    then have "arp_map ?T a = None" by (auto simp: arp_map_None stable_iff)
    then show ?thesis using f(1) Inl \<open>s' = s\<close> by (simp add: etharp_find_addr_def)
  next
    case (Inr i)
    have e: "entry_for a s i s'" "\<not> no_ip a ?T" using f(2) unfolding Inr sum.case fo by blast+
    then have i: "s' = s" "i < ARP_TABLE_SIZE" "arp_ip (?T ! i) = a" "own_ip i a ?T"
      by (auto simp: entry_for_def entry_found_def entry_made_def)
    have E: "etharp_find_addr a s = Some (s, if is_stable (?T ! i) then Some (i, arp_eth (?T ! i), a) else None)"
      using f(1) Inr i(1,3) by (simp add: etharp_find_addr_def)
    show ?thesis
    proof (cases "is_stable (?T ! i)")
      case True
      then show ?thesis using E arp_map_nth [OF t(1) i(2)] i(3) by simp
    next
      case False
      have "arp_map ?T a = None" unfolding arp_map_None
      proof
        fix x assume "x \<in> set ?T"
        then obtain j where "j < length ?T" "x = ?T ! j" by (auto simp: in_set_conv_nth)
        then show "\<not> (is_stable x \<and> arp_ip x = a)" using i(4) False by (cases "j = i") (auto simp: own_ip_def stable_iff)
      qed
      then show ?thesis using E False by simp
    qed
  qed
qed

text \<open>Filling in an entry changes the map at its new address, and at the address the entry had before.\<close>

lemma arp_map_update:
  assumes t: "table_ok T" "table_ok (T[i := resolved nf a h])" and i: "i < ARP_TABLE_SIZE"
  shows "arp_map (T[i := resolved nf a h]) =
    (if is_stable (T ! i) then (arp_map T)(arp_ip (T ! i) := None) else arp_map T)(a \<mapsto> h)"
proof
  fix b
  let ?T = "T[i := resolved nf a h]"
  have l: "length T = ARP_TABLE_SIZE" using t(1) by (rule table_okD)
  have at: "?T ! j = (if j = i then resolved nf a h else T ! j)" if "j < ARP_TABLE_SIZE" for j using that l by (simp add: nth_list_update)
  have rs: "is_stable (resolved nf a h)" by (simp add: stable_iff)
  show "arp_map ?T b = ((if is_stable (T ! i) then (arp_map T)(arp_ip (T ! i) := None) else arp_map T)(a \<mapsto> h)) b"
  proof (cases "b = a")
    case True
    then show ?thesis using arp_map_nth [OF t(2) i] at [OF i] rs by simp
  next
    case False
    have "arp_map ?T b = Some x \<longleftrightarrow> arp_map T b = Some x \<and> \<not> (is_stable (T ! i) \<and> arp_ip (T ! i) = b)" for x
    proof -
      have "(\<exists>j<ARP_TABLE_SIZE. is_stable (?T ! j) \<and> arp_ip (?T ! j) = b \<and> arp_eth (?T ! j) = x) \<longleftrightarrow>
        (\<exists>j<ARP_TABLE_SIZE. j \<noteq> i \<and> is_stable (T ! j) \<and> arp_ip (T ! j) = b \<and> arp_eth (T ! j) = x)"
        using at False by (metis resolved_ok(3))
      also have "\<dots> \<longleftrightarrow> arp_map T b = Some x \<and> \<not> (is_stable (T ! i) \<and> arp_ip (T ! i) = b)"
      proof (cases "is_stable (T ! i) \<and> arp_ip (T ! i) = b")
        case True
        have "own_ip i b T" using table_ok_own [OF t(1) i] True by (auto simp: stable_iff)
        then have "\<not> (j \<noteq> i \<and> is_stable (T ! j) \<and> arp_ip (T ! j) = b)" if "j < ARP_TABLE_SIZE" for j
          using that l by (auto simp: own_ip_def stable_iff)
        then show ?thesis using True by blast
      next
        case False
        then show ?thesis unfolding arp_map_iff [OF t(1)] by metis
      qed
      finally show ?thesis unfolding arp_map_iff [OF t(2)] .
    qed
    then have "arp_map ?T b = (if is_stable (T ! i) \<and> arp_ip (T ! i) = b then None else arp_map T b)"
      by (metis not_None_eq)
    then show ?thesis using False by (simp add: fun_upd_def)
  qed
qed

subsection \<open>All histories\<close>

text \<open>The state at start: the table is zeroed.\<close>

definition arp_start :: "net \<Rightarrow> (ptr \<Rightarrow> netif) \<Rightarrow> (nat \<Rightarrow> bool) \<Rightarrow> arp" where
  "arp_start n nfs done = \<lparr>nt = n, netifs = nfs, netif_list = NULL, netif_default = NULL, netif_num = 0, tx_frames = [], tx_done = done,
     arp_table = replicate ARP_TABLE_SIZE empty_entry, etharp_cached_entry = 0\<rparr>"

lemma arp_start_ok: "net_ok n R \<Longrightarrow> arp_ok (arp_start n nfs d) R"
  by (simp add: arp_ok_def arp_start_def queued_def table_ok_def rest_ok_def ARP_TABLE_SIZE_def map_replicate_const concat_replicate_trivial)

text \<open>The states reached by calls of the module and of the allocator in any order, with the packets the callers hold.  A
  packet is given to the module only by its holder; input takes it over, the others borrow it.\<close>

inductive arp_reach :: "arp \<Rightarrow> ptr multiset \<Rightarrow> bool" where
  start: "net_inv n {#} \<Longrightarrow> (\<forall>nf. length (hwaddr (nfs nf)) = 6) \<Longrightarrow> arp_reach (arp_start n nfs (\<lambda>_. True)) {#}"
| alloc: "arp_reach s R \<Longrightarrow> len \<le> 65456 \<Longrightarrow> on_net (pbuf_alloc layer len PBUF_RAM) s = Some (s', p) \<Longrightarrow>
    arp_reach s' (if p = NULL then R else add_mset p R)"
| store: "arp_reach s R \<Longrightarrow> arp_reach (upd_ram f s) R"
| free: "arp_reach s (add_mset p R) \<Longrightarrow> p \<noteq> NULL \<Longrightarrow> on_net (pbuf_free p) s = Some (s', k) \<Longrightarrow> arp_reach s' R"
| tmr: "arp_reach s R \<Longrightarrow> etharp_tmr s = Some s' \<Longrightarrow> arp_reach s' R"
| cleanup: "arp_reach s R \<Longrightarrow> etharp_cleanup_netif nf s = Some s' \<Longrightarrow> arp_reach s' R"
| find: "arp_reach s R \<Longrightarrow> etharp_find_addr a s = Some (s', r) \<Longrightarrow> arp_reach s' R"
| request: "arp_reach s R \<Longrightarrow> etharp_request nf a s = Some (s', e) \<Longrightarrow> arp_reach s' R"
| query: "arp_reach s R \<Longrightarrow> q = NULL \<or> sendable (nt s) R q \<Longrightarrow> etharp_query nf a q s = Some (s', e) \<Longrightarrow> arp_reach s' R"
| send: "arp_reach s R \<Longrightarrow> sendable (nt s) R q \<Longrightarrow> etharp_output nf q a s = Some (s', e) \<Longrightarrow> arp_reach s' R"
| receive: "arp_reach s (add_mset p R) \<Longrightarrow> p \<noteq> NULL \<Longrightarrow> nf \<noteq> NULL \<Longrightarrow> etharp_arp_input nf (hwaddr (netifs s nf)) p s = Some s' \<Longrightarrow>
    arp_reach s' R"

definition arp_ready :: "'a arp_scheme \<Rightarrow> ptr multiset \<Rightarrow> bool" where
  "arp_ready s R \<longleftrightarrow> arp_ok s R \<and> tx_ok s \<and> (\<forall>nf. length (hwaddr (netifs s nf)) = 6)"

lemma arp_ready_frame: "arp_ready s R \<Longrightarrow> arp_ok s' R' \<Longrightarrow> arp_frame s s' \<Longrightarrow> arp_ready s' R'"
  by (simp add: arp_ready_def arp_frame_def)

lemma arp_readyD: "arp_ready s R \<Longrightarrow> arp_ok s R" "arp_ready s R \<Longrightarrow> tx_ok s" "arp_ready s R \<Longrightarrow> length (hwaddr (netifs s nf)) = 6"
  by (simp_all add: arp_ready_def)

text \<open>Every call returns in such a state, and leads to one.\<close>

definition returns :: "'a arp_scheme \<Rightarrow> ptr multiset \<Rightarrow> 'a arp_scheme option \<Rightarrow> bool" where
  "returns s R r \<longleftrightarrow> (\<exists>s'. r = Some s' \<and> arp_ready s' R \<and> arp_frame s s')"

lemma returnsD: "returns s R (Some s') \<Longrightarrow> arp_ready s' R"
  by (simp add: returns_def)

lemma returns_ok:
  assumes "arp_ready s R'" "\<exists>s'. r = Some s' \<and> arp_ok s' R \<and> arp_frame s s'"
  shows "returns s R r"
  using assms arp_ready_frame unfolding returns_def by blast

lemma tmr_returns:
  assumes "arp_ready s R"
  shows "returns s R (etharp_tmr s)"
  by (rule returns_ok [OF assms]) (use etharp_tmr_ok [OF arp_readyD(1) [OF assms]] in auto)

lemma cleanup_returns:
  assumes "arp_ready s R"
  shows "returns s R (etharp_cleanup_netif nf s)"
  by (rule returns_ok [OF assms]) (use etharp_cleanup_netif_ok [OF arp_readyD(1) [OF assms], of nf] in auto)

lemma find_returns:
  assumes "arp_ready s R"
  shows "returns s R (map_option fst (etharp_find_addr a s))"
  by (rule returns_ok [OF assms]) (use etharp_find_addr_map [OF arp_readyD(1) [OF assms], of a] arp_readyD(1) [OF assms] in auto)

lemma request_returns:
  assumes "arp_ready s R"
  shows "returns s R (map_option fst (etharp_request nf a s))"
  by (rule returns_ok [OF assms]) (use arp_ok_request [OF arp_readyD [OF assms], of nf a] in auto)

lemma query_returns:
  assumes "arp_ready s R" "q = NULL \<or> sendable (nt s) R q"
  shows "returns s R (map_option fst (etharp_query nf a q s))"
proof -
  have q: "q \<in># R \<and> whole (nt s) q \<and> tot_len (pbufs (nt s) q) \<le> 65456 \<and> pb_type (pbufs (nt s) q) \<noteq> PBUF_ROM" if "q \<noteq> NULL"
    using assms(2) that by (auto simp: sendable_def)
  show ?thesis by (rule returns_ok [OF assms(1)]) (use etharp_query_ok [OF arp_readyD(1) [OF assms(1)] q arp_readyD(2,3) [OF assms(1)], of nf a] in auto)
qed

lemma output_returns:
  assumes "arp_ready s R" "sendable (nt s) R q"
  shows "returns s R (map_option fst (etharp_output nf q a s))"
  by (rule returns_ok [OF assms(1)])
    (use etharp_output_ok [OF arp_readyD(1) [OF assms(1)] assms(2) arp_readyD(2,3) [OF assms(1)], of nf a] in auto)

lemma input_returns:
  assumes "arp_ready s (add_mset p R)" "p \<noteq> NULL" "nf \<noteq> NULL"
  shows "returns s R (etharp_arp_input nf eth p s)"
  by (rule returns_ok [OF assms(1)])
    (use etharp_arp_input_ok [OF arp_readyD(1) [OF assms(1)] assms(2,3) arp_readyD(2,3) [OF assms(1)], of eth] in auto)

lemma free_returns:
  assumes "arp_ready s (add_mset p R)" "p \<noteq> NULL"
  shows "returns s R (map_option fst (on_net (pbuf_free p) s))"
  by (rule returns_ok [OF assms(1)]) (use arp_ok_free [OF arp_readyD(1) [OF assms(1)] assms(2)] in auto)

lemma alloc_returns:
  assumes r: "arp_ready s R" and l: "len \<le> 65456"
  shows "\<exists>s' p. on_net (pbuf_alloc layer len PBUF_RAM) s = Some (s', p) \<and> arp_ready s' (if p = NULL then R else add_mset p R)"
proof -
  obtain n p where a: "pbuf_alloc layer len PBUF_RAM (nt s) = Some (n, p)"
    "p = NULL \<and> n = nt s \<or> p \<noteq> NULL \<and> queued n (concat (map arp_q (arp_table s))) (add_mset p R)"
    using queued_alloc [OF arp_okD(1) [OF arp_readyD(1) [OF r]] l, of layer] by blast
  then have "arp_ok (s\<lparr>nt := n\<rparr>) (if p = NULL then R else add_mset p R)"
    using arp_ok_nt [OF arp_readyD(1) [OF r]] arp_readyD(1) [OF r] by auto
  then have "arp_ready (s\<lparr>nt := n\<rparr>) (if p = NULL then R else add_mset p R)" by (rule arp_ready_frame [OF r]) simp
  moreover have "on_net (pbuf_alloc layer len PBUF_RAM) s = Some (s\<lparr>nt := n\<rparr>, p)" using a(1) by (simp add: on_net_def)
  ultimately show ?thesis by blast
qed

lemma arp_reach_ready: "arp_reach s R \<Longrightarrow> arp_ready s R"
proof (induction rule: arp_reach.induct)
  case (start n nfs)
  then have "net_ok n {#}" by (simp add: net_ok_def)
  from arp_start_ok [OF this] start show ?case by (simp add: arp_ready_def) (simp add: arp_start_def)
next
  case (alloc s R len layer s' p)
  then show ?case using alloc_returns [OF alloc.IH alloc.hyps(2), of layer] by auto
next
  case (store s R f)
  then show ?case by (simp add: arp_ready_def) (simp add: upd_ram_def)
next
  case (free s p R s' k)
  then show ?case using free_returns [OF free.IH free.hyps(2)] by (auto dest: returnsD)
next
  case (tmr s R s')
  then show ?case using tmr_returns [OF tmr.IH] by (auto dest: returnsD)
next
  case (cleanup s R nf s')
  then show ?case using cleanup_returns [OF cleanup.IH, of nf] by (auto dest: returnsD)
next
  case (find s R a s' r)
  then show ?case using find_returns [OF find.IH, of a] by (auto dest: returnsD)
next
  case (request s R nf a s' e)
  then show ?case using request_returns [OF request.IH, of nf a] by (auto dest: returnsD)
next
  case (query s R q nf a s' e)
  then show ?case using query_returns [OF query.IH query.hyps(2), of nf a] by (auto dest: returnsD)
next
  case (send s R q nf a s' e)
  then show ?case using output_returns [OF send.IH send.hyps(2), of nf a] by (auto dest: returnsD)
next
  case (receive s p R nf s')
  then show ?case using input_returns [OF receive.IH receive.hyps(2,3), of "hwaddr (netifs s nf)"] by (auto dest: returnsD)
qed

subsection \<open>Properties\<close>

text \<open>A reachable state with one packet, for examples.\<close>

definition demo_if :: netif where
  "demo_if = \<lparr>nf_next = NULL, ip_addr = 0x0a00a8c0, netmask = 0x00ffffff, gw = 0x0100a8c0, nf_state = NULL, mtu = 536, hwaddr_len = 6,
     hwaddr = [0, 0x0a, 0x35, 0, 1, 2], nf_flags = 0x33, nf_name = (0x73, 0x74), nf_num = 0\<rparr>"

definition demo :: "net \<Rightarrow> arp" where
  "demo n = arp_start n (\<lambda>_. demo_if) (\<lambda>_. True)"

lemma demo_fields [simp]: "nt (demo n) = n" "netifs (demo n) = (\<lambda>_. demo_if)" "tx_done (demo n) k" "tx_frames (demo n) = []"
  "arp_table (demo n) = replicate ARP_TABLE_SIZE empty_entry" "length (hwaddr demo_if) = 6"
  by (simp_all add: demo_def arp_start_def demo_if_def)

lemma demo_packet:
  obtains n where "net_ok n {#1008#}" "packet n [1008]" "pb_len (pbufs n 1008) = 100" "pb_type (pbufs n 1008) = PBUF_RAM" "\<not> is_custom (pbufs n 1008)"
    "unlinked n 1008" "arp_reach (demo n) {#1008#}" "1024 \<le> payload (pbufs n 1008)"
proof -
  let ?n0 = "net_start 1000 20000 (\<lambda>_. 20)"
  obtain n where n: "pbuf_alloc PBUF_RAW 100 PBUF_RAM ?n0 = Some (n, 1008)" "net_inv n {#1008#}" "packet n [1008]" "\<not> is_custom (pbufs n 1008)"
    by (rule start_packets) blast
  have i0: "net_inv ?n0 {#}" by (rule net_start_inv) simp_all
  have F: "fresh_packet ?n0 1008 100 n" using alloc_ram_spec [OF i0, of 100 PBUF_RAW] n(1) by auto
  note A = fresh_alone [OF F]
  have nx: "pb_next (pbufs n 1008) = NULL" using n(3) by (simp add: first_ptr_def)
  note A = A [OF nx]
  have a: "alive n = {1008}" using A(9) by (simp add: net_start_def)
  have ul: "unlinked n 1008" using a nx by (simp add: unlinked_def)
  have ok: "net_ok n {#1008#}" using n(2,3) A(2) by (auto simp: net_ok_def heads_def intro!: exI [of _ "[]"])
  have ty: "pb_type (pbufs n 1008) = PBUF_RAM"
    using n(1) by (auto simp: pbuf_alloc_def Let_def upd_pbuf_def claim_def split: option.splits if_splits prod.splits)
  have st: "store_inv n" using n(2) by (simp add: net_inv_def)
  have "pool_of (pbufs n 1008) = None" using ty n(4) by (simp add: pool_of_def)
  then have pl: "1024 \<le> payload (pbufs n 1008)"
    using store_invD(5) [OF st, of 1008] a unfolding pbuf_placed_def by (auto simp: SIZEOF_STRUCT_PBUF_def)
  have r0: "arp_reach (demo ?n0) {#}" unfolding demo_def by (rule arp_reach.start [OF i0]) simp
  have "on_net (pbuf_alloc PBUF_RAW 100 PBUF_RAM) (demo ?n0) = Some (demo n, 1008)" using n(1) by (simp add: on_net_def) (simp add: demo_def arp_start_def)
  from arp_reach.alloc [OF r0 _ this] have "arp_reach (demo n) {#1008#}" by simp
  then show thesis using that ok n(3) A(2) ty n(4) ul pl by blast
qed

text \<open>C2: In every state reached from the zeroed table by any interleaving of the module's entry points with allocation,
  release and writing of packets, the table is in order: ten entries with unique addresses and ages below their limits,
  the queues hold exactly the references they should, and only pending entries have one.  There every call of the module
  returns, whatever the allocators answer, and leads to such a state again; a received packet is used up.\<close>

theorem etharp_safe:
  assumes "arp_reach s R"
  shows "arp_ok s R \<and> returns s R (etharp_tmr s) \<and> returns s R (etharp_cleanup_netif nf s) \<and>
    returns s R (map_option fst (etharp_request nf a s)) \<and>
    (q = NULL \<or> sendable (nt s) R q \<longrightarrow> returns s R (map_option fst (etharp_query nf a q s))) \<and>
    (sendable (nt s) R q \<longrightarrow> returns s R (map_option fst (etharp_output nf q a s))) \<and>
    (q \<in># R \<and> q \<noteq> NULL \<and> nf \<noteq> NULL \<longrightarrow> returns s (R - {#q#}) (etharp_arp_input nf eth q s))"
proof -
  have r: "arp_ready s R" using assms by (rule arp_reach_ready)
  have "returns s (R - {#q#}) (etharp_arp_input nf eth q s)" if "q \<in># R" "q \<noteq> NULL" "nf \<noteq> NULL"
    by (rule input_returns) (use r that in auto)
  then show ?thesis
    using arp_readyD(1) [OF r] tmr_returns [OF r] cleanup_returns [OF r] request_returns [OF r] query_returns [OF r] output_returns [OF r] by blast
qed

theorem etharp_safe_witness:
  "\<exists>s. arp_reach s {#1008#} \<and> sendable (nt s) {#1008#} 1008 \<and> arp_ok s {#1008#} \<and> returns s {#1008#} (map_option fst (etharp_output 1 1008 0x0b00a8c0 s)) \<and>
    returns s {#} (etharp_arp_input 1 (hwaddr (netifs s 1)) 1008 s)"
proof -
  obtain n where n: "net_ok n {#1008#}" "packet n [1008]" "pb_len (pbufs n 1008) = 100" "pb_type (pbufs n 1008) = PBUF_RAM" "\<not> is_custom (pbufs n 1008)"
    "unlinked n 1008" "arp_reach (demo n) {#1008#}" by (rule demo_packet)
  have s: "sendable (nt (demo n)) {#1008#} 1008" using n by (auto simp: sendable_def whole_def intro!: exI [of _ "[]"])
  show ?thesis using etharp_safe [OF n(7), where nf = 1 and a = "0x0b00a8c0" and q = 1008 and eth = "hwaddr (netifs (demo n) 1)"] n(7) s by (intro exI [of _ "demo n"]) simp
qed



lemma learnedE:
  assumes "learned nf a h s s'"
  obtains i where "i < ARP_TABLE_SIZE" "arp_table s' = (arp_table s)[i := resolved nf a h]"
    "no_ip a (arp_table s) \<Longrightarrow> arp_state (arp_table s ! i) = ETHARP_STATE_EMPTY \<or> all_used (arp_table s) \<and> least_important (arp_table s) i"
    "\<not> no_ip a (arp_table s) \<Longrightarrow> arp_ip (arp_table s ! i) = a"
proof -
  let ?fr = "eth_header h (hwaddr (netifs s nf)) ETHTYPE_IP"
  obtain i fss where r: "i < ARP_TABLE_SIZE" "arp_table s' = (arp_table s)[i := resolved nf a h]" and
    c: "if no_ip a (arp_table s)
         then fss = [] \<and> (arp_state (arp_table s ! i) = ETHARP_STATE_EMPTY \<or> all_used (arp_table s) \<and> least_important (arp_table s) i)
         else arp_state (arp_table s ! i) \<noteq> ETHARP_STATE_EMPTY \<and> arp_ip (arp_table s ! i) = a \<and>
           length fss = length (arp_q (arp_table s ! i)) \<and> (\<forall>f\<in>set fss. framed ?fr f)"
    using assms unfolding learned_def by (elim exE conjE) (rule that)
  have "arp_state (arp_table s ! i) = ETHARP_STATE_EMPTY \<or> all_used (arp_table s) \<and> least_important (arp_table s) i" if "no_ip a (arp_table s)"
    using c unfolding if_P [OF that] by blast
  moreover have "arp_ip (arp_table s ! i) = a" if "\<not> no_ip a (arp_table s)" using c unfolding if_not_P [OF that] by blast
  ultimately show thesis using that r by blast
qed

text \<open>C3: The table implements a partial map from addresses to hardware addresses.  Reading it with \<open>etharp_find_addr\<close> returns
  the map's value and changes nothing.  Learning a pair with \<open>ETHARP_FLAG_TRY_HARD\<close> always succeeds and updates the map at that
  address; another address is forgotten only if the address was new and the table full, and then it is that of the least
  important entry.\<close>

theorem etharp_refines_map:
  assumes ok: "arp_ok s R" and tx: "tx_ok s" and l: "length h = 6" "length (hwaddr (netifs s nf)) = 6" and a: "unicast a (netifs s nf)"
  shows "(\<exists>r. etharp_find_addr b s = Some (s, r) \<and> map_option (\<lambda>(i, h, c). h) r = arp_map (arp_table s) b) \<and>
    (\<exists>s'. etharp_update_arp_entry nf a h ETHARP_FLAG_TRY_HARD s = Some (s', ERR_OK) \<and> arp_ok s' R \<and>
      (if known a (arp_table s) \<or> \<not> all_used (arp_table s)
       then arp_map (arp_table s') = (arp_map (arp_table s))(a \<mapsto> h)
       else \<exists>i. least_important (arp_table s) i \<and> arp_map (arp_table s') =
         (if is_stable (arp_table s ! i) then (arp_map (arp_table s))(arp_ip (arp_table s ! i) := None) else arp_map (arp_table s))(a \<mapsto> h)))"
proof -
  let ?T = "arp_table s"
  obtain s' e where u: "etharp_update_arp_entry nf a h ETHARP_FLAG_TRY_HARD s = Some (s', e)" "arp_ok s' R"
    "if \<not> unicast a (netifs s nf) then e = ERR_ARG \<and> s' = s else if refused a ETHARP_FLAG_TRY_HARD ?T then e = ERR_MEM \<and> s' = s
     else e = ERR_OK \<and> learned nf a h s s'"
    using etharp_update_arp_entry_ok [OF ok tx l] by blast
  have e: "e = ERR_OK" "learned nf a h s s'" using u(3) a try_hard_never_refused [of ?T a] by (simp_all only: if_not_P simp_thms if_False)
  obtain i where i: "i < ARP_TABLE_SIZE" "arp_table s' = ?T[i := resolved nf a h]"
    "no_ip a ?T \<Longrightarrow> arp_state (?T ! i) = ETHARP_STATE_EMPTY \<or> all_used ?T \<and> least_important ?T i"
    "\<not> no_ip a ?T \<Longrightarrow> arp_ip (?T ! i) = a"
    using e(2) by (rule learnedE) blast
  have m: "arp_map (arp_table s') = (if is_stable (?T ! i) then (arp_map ?T)(arp_ip (?T ! i) := None) else arp_map ?T)(a \<mapsto> h)"
    using arp_map_update [OF arp_okD(2) [OF ok] _ i(1), of nf a h] arp_okD(2) [OF u(2)] i(2) by simp
  have k: "known a ?T \<longleftrightarrow> \<not> no_ip a ?T" by (auto simp: known_def)
  have "if known a ?T \<or> \<not> all_used ?T then arp_map (arp_table s') = (arp_map ?T)(a \<mapsto> h)
    else \<exists>i. least_important ?T i \<and> arp_map (arp_table s') = (if is_stable (?T ! i) then (arp_map ?T)(arp_ip (?T ! i) := None) else arp_map ?T)(a \<mapsto> h)"
  proof (cases "no_ip a ?T")
    case False
    then have "arp_ip (?T ! i) = a" using i(4) by blast
    then show ?thesis using m False k by (auto simp: fun_upd_upd)
  next
    case True
    show ?thesis
    proof (cases "all_used ?T")
      case True
      then have "arp_state (?T ! i) \<noteq> ETHARP_STATE_EMPTY" using i(1) arp_okD(3) [OF ok] by simp
      then have "least_important ?T i" using i(3) \<open>no_ip a ?T\<close> by blast
      then show ?thesis using m True \<open>no_ip a ?T\<close> k by auto
    next
      case False
      then have "arp_state (?T ! i) = ETHARP_STATE_EMPTY" using i(3) \<open>no_ip a ?T\<close> by blast
      then show ?thesis using m False by (simp add: stable_iff)
    qed
  qed
  then show ?thesis using etharp_find_addr_map [OF ok, of b] u(1,2) e(1) by blast
qed

theorem etharp_refines_map_witness:
  "\<exists>s s' :: arp. \<exists>r. etharp_update_arp_entry 1 0x0b00a8c0 [2, 0, 0, 0, 0, 7] ETHARP_FLAG_TRY_HARD s = Some (s', ERR_OK) \<and>
    arp_map (arp_table s') = [0x0b00a8c0 \<mapsto> [2, 0, 0, 0, 0, 7]] \<and> etharp_find_addr 0x0b00a8c0 s = Some (s, r) \<and> r = None"
proof -
  let ?s = "demo (net_start 1000 20000 (\<lambda>_. 20))"
  have "net_inv (net_start 1000 20000 (\<lambda>_. 20)) {#}" by (rule net_start_inv) simp_all
  then have ok: "arp_ok ?s {#}" unfolding demo_def by (intro arp_start_ok) (simp add: net_ok_def)
  have uni: "unicast 0x0b00a8c0 (netifs ?s 1)"
    by (simp add: demo_if_def ip4_addr_isbroadcast_def ip_addr_ismulticast_def IPADDR_ANY_def IPADDR_BROADCAST_def ip_addr_netcmp_def NETIF_FLAG_BROADCAST_def lwip_htonl_def)
  have e: "\<not> all_used (arp_table ?s)" "arp_map (arp_table ?s) = Map.empty"
    by (simp_all add: ARP_TABLE_SIZE_def arp_map_def find_None_iff fun_eq_iff stable_iff)
  show ?thesis using etharp_refines_map [OF ok _ _ _ uni, of "[2, 0, 0, 0, 0, 7]" "0x0b00a8c0"] e by auto
qed

text \<open>C38: The search fails exactly if the address is in no used entry and no entry may be made: only searching was asked for, or the
  table is full and \<open>ETHARP_FLAG_TRY_HARD\<close> is not set.  Then the error is \<open>ERR_MEM\<close> and nothing has changed.  Otherwise it returns
  the only entry with the address, reusing an empty entry or the least important one if there was none.\<close>

theorem etharp_find_entry_error:
  assumes ok: "arp_ok s R"
  shows "if refused a flags (arp_table s) then etharp_find_entry (Some a) flags s = Some (s, Inl ERR_MEM)
    else \<exists>s' i. etharp_find_entry (Some a) flags s = Some (s', Inr i) \<and> arp_ok s' R \<and> entry_for a s i s' \<and> tx_frames s' = tx_frames s"
proof -
  obtain s' r where f: "etharp_find_entry (Some a) flags s = Some (s', r)" "arp_ok s' R"
    "case r of Inr i \<Rightarrow> entry_for a s i s' \<and> \<not> refused a flags (arp_table s) \<and> tx_frames s' = tx_frames s
     | Inl e \<Rightarrow> e = ERR_MEM \<and> s' = s \<and> refused a flags (arp_table s)"
    using etharp_find_entry_ok [OF ok] by blast
  show ?thesis
  proof (cases r)
    case (Inl e)
    have i: "e = ERR_MEM" "s' = s" "refused a flags (arp_table s)" using f(3) unfolding Inl sum.case by blast+
    then show ?thesis unfolding if_P [OF i(3)] using f(1) Inl by simp
  next
    case (Inr i)
    have i: "entry_for a s i s'" "\<not> refused a flags (arp_table s)" "tx_frames s' = tx_frames s" using f(3) unfolding Inr sum.case by blast+
    then show ?thesis unfolding if_not_P [OF i(2)] using f(1,2) Inr by blast
  qed
qed

theorem etharp_find_entry_error_witness:
  "\<exists>s :: arp. etharp_find_entry (Some 0x0b00a8c0) ETHARP_FLAG_FIND_ONLY s = Some (s, Inl ERR_MEM)"
proof -
  let ?s = "demo (net_start 1000 20000 (\<lambda>_. 20))"
  have "net_inv (net_start 1000 20000 (\<lambda>_. 20)) {#}" by (rule net_start_inv) simp_all
  then have ok: "arp_ok ?s {#}" unfolding demo_def by (intro arp_start_ok) (simp add: net_ok_def)
  have "refused 0x0b00a8c0 ETHARP_FLAG_FIND_ONLY (arp_table ?s)" by (simp add: ETHARP_FLAG_FIND_ONLY_def)
  then show ?thesis using etharp_find_entry_error [OF ok, of "0x0b00a8c0" ETHARP_FLAG_FIND_ONLY] by auto
qed

lemma header_room:
  assumes "q \<in> alive n" "q \<noteq> NULL" "headroom n q k" "0 < k"
  shows "pbuf_header q (int k) n = Some (move_header q (int k) n, 0)"
proof -
  have "int (q + SIZEOF_STRUCT_PBUF) \<le> int (payload (pbufs n q)) - int k" "pb_type (pbufs n q) = PBUF_RAM \<or> pb_type (pbufs n q) = PBUF_POOL"
    using assms(3) unfolding headroom_def by linarith+
  then show ?thesis using pbuf_header_cases [OF assms(1,2), of "int k"] assms(4) by simp
qed

lemma drop_bytes_front: "k \<le> a \<Longrightarrow> drop k (bytes_at m (a - k) (n + k)) = bytes_at m a n"
  unfolding add.commute [of n k] bytes_at_add by simp

lemma output_resolved:
  assumes ok: "arp_ok s R" and q: "sendable (nt s) R q" "headroom (nt s) q 14" "pb_next (pbufs (nt s) q) = NULL"
    and tx: "tx_ok s" and l: "length (hwaddr (netifs s nf)) = 6"
    and a: "\<not> ip4_addr_isbroadcast a (netifs s nf)" "\<not> ip_addr_ismulticast a" "next_hop (netifs s nf) a = Some d"
    and i: "i < ARP_TABLE_SIZE" "is_stable (arp_table s ! i)" "arp_ip (arp_table s ! i) = d" "arp_ctime (arp_table s ! i) < ARP_AGE_REREQUEST_USED"
  shows "\<exists>s'. etharp_output nf q a s = Some (s', ERR_OK) \<and> arp_ok s' R \<and> arp_frame s s' \<and>
    tx_frames s' = tx_frames s @ [eth_header (arp_eth (arp_table s ! i)) (hwaddr (netifs s nf)) ETHTYPE_IP @ pbuf_data (nt s) q]"
proof -
  have Q: "q \<in># R" "whole (nt s) q" "unlinked (nt s) q" "\<not> is_custom (pbufs (nt s) q)" "tot_len (pbufs (nt s) q) + 14 \<le> 65456"
    using q(1) by (auto simp: sendable_def)
  have al: "q \<in> alive (nt s)" "q \<noteq> NULL" using Q(2) by (auto elim: wholeE)
  note H = header_room [OF al q(2)]
  let ?n = "move_header q 14 (nt s)"
  obtain n e where h: "pbuf_header q 14 (nt s) = Some (n, e)" "queued n (concat (map arp_q (arp_table s))) R"
    "e = 1 \<and> n = nt s \<or> e = 0 \<and> int (pb_len (pbufs n q)) = int (pb_len (pbufs (nt s) q)) + 14 \<and> int (payload (pbufs n q)) = int (payload (pbufs (nt s) q)) - 14 \<and>
       pb_next (pbufs n q) = pb_next (pbufs (nt s) q)" "ram_bytes n = ram_bytes (nt s)"
    using queued_header [OF arp_okD(1) [OF ok] Q(2-4), of 14] Q(5) by fastforce
  have n: "n = ?n" "e = 0" using H h(1) by simp_all
  have len: "pb_len (pbufs n q) = pb_len (pbufs (nt s) q) + 14" "payload (pbufs n q) = payload (pbufs (nt s) q) - 14" "14 \<le> payload (pbufs (nt s) q)"
    "pb_next (pbufs n q) = NULL"
    using h(3) n(2) q(3) by auto
  have dat: "drop 14 (pbuf_data n q) = pbuf_data (nt s) q"
    unfolding pbuf_data_def len h(4) by (rule drop_bytes_front [OF len(3)])
  let ?s = "s\<lparr>nt := n\<rparr>"
  have ok': "arp_ok ?s R" using ok h(2) by (rule arp_ok_nt)
  have goal: "\<exists>s'. etharp_output_to_arp_index nf q k s1 = Some (s', ERR_OK) \<and> arp_ok s' R \<and> arp_frame s s' \<and>
      tx_frames s' = tx_frames s @ [eth_header (arp_eth (arp_table s ! i)) (hwaddr (netifs s nf)) ETHTYPE_IP @ pbuf_data (nt s) q]"
    if "s1 = ?s \<or> s1 = ?s\<lparr>etharp_cached_entry := k\<rparr>" "k < ARP_TABLE_SIZE" "is_stable (arp_table s ! k)" "arp_ip (arp_table s ! k) = d" for s1 k
  proof -
    have "own_ip i d (arp_table s)" using table_ok_own [OF arp_okD(2) [OF ok] i(1)] i(2,3) by (auto simp: stable_iff)
    then have "k = i" using that(2-4) arp_okD(3) [OF ok] by (auto simp: own_ip_def stable_iff)
    moreover have o1: "arp_ok s1 R" using that(1,2) ok' arp_ok_cached [OF ok'] by auto
    moreover have f: "arp_table s1 = arp_table s" "nt s1 = n" "netifs s1 = netifs s" "tx_frames s1 = tx_frames s" "tx_ok s1" "arp_frame s s1"
      using that(1) tx by auto
    ultimately show ?thesis
      using etharp_output_to_arp_index_ok [OF o1 i(1), of q nf] i(2,4) Q(1) al(2) l len dat arp_frame_trans [OF f(6)] by fastforce
  qed
  have "\<exists>s'. arp_dispatch nf q a ?s = Some (s', ERR_OK) \<and> arp_ok s' R \<and> arp_frame s s' \<and>
      tx_frames s' = tx_frames s @ [eth_header (arp_eth (arp_table s ! i)) (hwaddr (netifs s nf)) ETHTYPE_IP @ pbuf_data (nt s) q]"
  proof (cases "is_stable (arp_table s ! etharp_cached_entry s) \<and> d = arp_ip (arp_table s ! etharp_cached_entry s)")
    case True
    then show ?thesis using goal [of ?s "etharp_cached_entry s"] arp_okD(4) [OF ok] a by (simp add: arp_dispatch_def)
  next
    case False
    obtain k where k: "find_stable d 0 (arp_table s) = Some k"
      using find_stable_found(2) [of d "arp_table s" "arp_table s ! i"] i arp_okD(3) [OF ok] by (cases "find_stable d 0 (arp_table s)") auto
    have "k < ARP_TABLE_SIZE" "is_stable (arp_table s ! k)" "arp_ip (arp_table s ! k) = d" using find_stable_found(1) [OF k] arp_okD(3) [OF ok] by auto
    then show ?thesis using goal [of "?s\<lparr>etharp_cached_entry := k\<rparr>" k] a False k by (auto simp: arp_dispatch_def)
  qed
  then show ?thesis using h(1) n(2) by (auto simp: etharp_output_dispatch on_net_def SIZEOF_ETH_HDR_def)
qed

text \<open>C36: A packet in one buffer with room for the header, sent to an address whose next hop is resolved and not about to expire,
  leaves at once as one Ethernet frame: the hardware address of the next hop, that of the interface, the type of IP and then
  exactly the packet.\<close>

theorem etharp_output_resolved:
  assumes ok: "arp_ok s R" and q: "sendable (nt s) R q" "headroom (nt s) q 14" "pb_next (pbufs (nt s) q) = NULL"
    and tx: "tx_ok s" and l: "length (hwaddr (netifs s nf)) = 6"
    and a: "\<not> ip4_addr_isbroadcast a (netifs s nf)" "\<not> ip_addr_ismulticast a" "next_hop (netifs s nf) a = Some d"
    and i: "i < ARP_TABLE_SIZE" "is_stable (arp_table s ! i)" "arp_ip (arp_table s ! i) = d" "arp_ctime (arp_table s ! i) < ARP_AGE_REREQUEST_USED"
  shows "\<exists>s'. etharp_output nf q a s = Some (s', ERR_OK) \<and> arp_ok s' R \<and>
    tx_frames s' = tx_frames s @ [eth_header (arp_eth (arp_table s ! i)) (hwaddr (netifs s nf)) ETHTYPE_IP @ pbuf_data (nt s) q]"
  using output_resolved [OF assms] by blast

subsection \<open>Answering a request\<close>

lemma bytes_at_part: "i + k \<le> n \<Longrightarrow> bytes_at m (a + i) k = take k (drop i (bytes_at m a n))"
  by (rule nth_equalityI) (simp_all add: bytes_at_def add.assoc)

lemma bytes_at_2: "bytes_at m a 2 = [m a, m (a + 1)]"
  by (simp add: bytes_at_def numeral_2_eq_2)

lemma bytes_at_4: "bytes_at m a 4 = [m a, m (a + 1), m (a + 2), m (a + 3)]"
  by (simp add: bytes_at_def numeral_eq_Suc)

lemma addr_bytes_inj: "addr_bytes a = addr_bytes b \<longleftrightarrow> a = b"
proof
  assume e: "addr_bytes a = addr_bytes b"
  show "a = b"
  proof (rule bit_word_eqI)
    fix n assume n: "n < LENGTH(32)"
    have x: "bit x n = bit (ucast (drop_bit (8 * (n div 8)) x) :: u8) (n mod 8)" for x :: u32 by (simp add: bit_simps)
    have "n div 8 < 4" using n by simp
    then have "n div 8 = 0 \<or> n div 8 = 1 \<or> n div 8 = 2 \<or> n div 8 = 3" by linarith
    then have "ucast (drop_bit (8 * (n div 8)) a) = (ucast (drop_bit (8 * (n div 8)) b) :: u8)" using e unfolding addr_bytes_def by (elim disjE) simp_all
    then show "bit a n = bit b n" unfolding x by (rule arg_cong)
  qed
qed simp

lemma ld32_addr: "bytes_at m a 4 = addr_bytes v \<Longrightarrow> ld32 m a = v"
  unfolding addr_bytes_inj [symmetric] by (simp add: addr_bytes_def ld32_bytes bytes_at_4)

lemma ld16_2: "bytes_at m a 2 = [x, y] \<Longrightarrow> ld16 m a = word_of_nat (unat x + 256 * unat y)"
  by (simp add: bytes_at_2 ld16_def)

lemma arp_fields:
  assumes msg: "bytes_at m e 42 = arp_message ethsrc ethdst shw sip dhw dip opcode"
    and l: "length ethsrc = 6" "length ethdst = 6" "length shw = 6" "length dhw = 6"
  shows "bytes_at m (e + 12) 2 = [8, 6]" "bytes_at m (e + 14) 2 = [0, 1]" "bytes_at m (e + 16) 2 = [8, 0]" "bytes_at m (e + 18) 1 = [6]" "bytes_at m (e + 19) 1 = [4]"
  "bytes_at m (e + 20) 2 = [ucast (drop_bit 8 opcode), ucast opcode]" "bytes_at m (e + 22) 6 = shw" "bytes_at m (e + 28) 4 = addr_bytes sip"
  "bytes_at m (e + 38) 4 = addr_bytes dip"
proof -
  have P: "bytes_at m (e + i) k = take k (drop i (arp_message ethsrc ethdst shw sip dhw dip opcode))" if "i + k \<le> 42" for i k
    unfolding msg [symmetric] using that by (rule bytes_at_part)
  show "bytes_at m (e + 12) 2 = [8, 6]" "bytes_at m (e + 14) 2 = [0, 1]" "bytes_at m (e + 16) 2 = [8, 0]" "bytes_at m (e + 18) 1 = [6]" "bytes_at m (e + 19) 1 = [4]"
  "bytes_at m (e + 20) 2 = [ucast (drop_bit 8 opcode), ucast opcode]" "bytes_at m (e + 22) 6 = shw" "bytes_at m (e + 28) 4 = addr_bytes sip"
  "bytes_at m (e + 38) 4 = addr_bytes dip"
    by (simp_all add: P arp_message_def eth_header_def l ETHTYPE_ARP_def)
qed

text \<open>The answer written over a request.\<close>

lemma arp_answer_bytes:
  assumes msg: "bytes_at m e 42 = arp_message ethsrc ethdst shw sip dhw dip ARP_REQUEST"
    and l: "length ethsrc = 6" "length ethdst = 6" "length shw = 6" "length dhw = 6" "length eth = 6"
  shows "bytes_at (arp_answer e ip eth m) e 42 = arp_message eth shw eth ip shw sip ARP_REPLY"
    "bytes_at (arp_answer e ip eth m) (e + 42) k = bytes_at m (e + 42) k"
proof -
  note F = arp_fields [OF msg l(1-4)]
  let ?m = "arp_answer e ip eth m"
  note P = arp_answer_def Let_def st16_put upd_put htons_fields
  have s: "bytes_at ?m e 42 = bytes_at ?m e 6 @ bytes_at ?m (e + 6) 6 @ bytes_at ?m (e + 12) 2 @ bytes_at ?m (e + 14) 2 @ bytes_at ?m (e + 16) 2 @
      bytes_at ?m (e + 18) 1 @ bytes_at ?m (e + 19) 1 @ bytes_at ?m (e + 20) 2 @ bytes_at ?m (e + 22) 6 @ bytes_at ?m (e + 28) 4 @
      bytes_at ?m (e + 32) 6 @ bytes_at ?m (e + 38) 4"
    using bytes_at_fields [of ?m e "[6, 6, 2, 2, 2, 1, 1, 2, 6, 4, 6, 4]"] by simp
  have f: "bytes_at ?m e 6 = shw" "bytes_at ?m (e + 6) 6 = eth" "bytes_at ?m (e + 12) 2 = [8, 6]" "bytes_at ?m (e + 14) 2 = [0, 1]"
    "bytes_at ?m (e + 16) 2 = [8, 0]" "bytes_at ?m (e + 18) 1 = [6]" "bytes_at ?m (e + 19) 1 = [4]"
    "bytes_at ?m (e + 20) 2 = [ucast (drop_bit 8 ARP_REPLY), ucast ARP_REPLY]" "bytes_at ?m (e + 22) 6 = eth"
    "bytes_at ?m (e + 28) 4 = addr_bytes ip" "bytes_at ?m (e + 32) 6 = shw" "bytes_at ?m (e + 38) 4 = addr_bytes sip"
    using F unfolding P by (simp_all add: l bytes_at_put_other bytes_at_put_at)
  show "bytes_at ?m e 42 = arp_message eth shw eth ip shw sip ARP_REPLY"
    unfolding s f arp_message_def eth_header_def by (simp add: ETHTYPE_ARP_def)
  show "bytes_at ?m (e + 42) k = bytes_at m (e + 42) k" unfolding P by (simp add: l bytes_at_put_other)
qed

lemma learned_quiet:
  assumes "learned nf a h s s'" "arp_ok s R" "\<forall>e\<in>set (arp_table s). arp_ip e = a \<longrightarrow> arp_q e = []"
  shows "tx_frames s' = tx_frames s"
proof -
  obtain i fss where r: "i < ARP_TABLE_SIZE" "tx_frames s' = tx_frames s @ concat fss" and
    c: "if no_ip a (arp_table s) then fss = [] \<and> (arp_state (arp_table s ! i) = ETHARP_STATE_EMPTY \<or> all_used (arp_table s) \<and> least_important (arp_table s) i)
         else arp_state (arp_table s ! i) \<noteq> ETHARP_STATE_EMPTY \<and> arp_ip (arp_table s ! i) = a \<and> length fss = length (arp_q (arp_table s ! i)) \<and>
           (\<forall>f\<in>set fss. framed (eth_header h (hwaddr (netifs s nf)) ETHTYPE_IP) f)"
    using assms(1) unfolding learned_def by (elim exE conjE) (rule that)
  have "fss = []"
  proof (cases "no_ip a (arp_table s)")
    case False
    then have "arp_ip (arp_table s ! i) = a" "length fss = length (arp_q (arp_table s ! i))" using c unfolding if_not_P [OF False] by blast+
    moreover have "arp_table s ! i \<in> set (arp_table s)" using r(1) arp_okD(3) [OF assms(2)] by simp
    ultimately show ?thesis using assms(3) by auto
  qed (use c in \<open>simp only: if_P simp_thms\<close>)
  then show ?thesis using r(2) by simp
qed

text \<open>C37: A well-formed request for the interface's address is answered: the module sends, in the buffer of the request and with its
  padding, the reply with the interface's hardware address to the sender, has learned the sender's address and has freed the
  packet.  (Packets waiting for the sender would be sent first; here there are none.)\<close>

theorem etharp_replies:
  assumes ok: "arp_ok s (add_mset p R)" and p: "p \<noteq> NULL" "nf \<noteq> NULL" "pb_next (pbufs (nt s) p) = NULL" "42 \<le> pb_len (pbufs (nt s) p)"
    and tx: "tx_ok s" and l: "length (hwaddr (netifs s nf)) = 6" "length ethsrc = 6" "length ethdst = 6" "length shw = 6" "length dhw = 6"
    and msg: "take 42 (pbuf_data (nt s) p) = arp_message ethsrc ethdst shw sip dhw (ip_addr (netifs s nf)) ARP_REQUEST"
    and ip: "ip_addr (netifs s nf) \<noteq> IPADDR_ANY" "unicast sip (netifs s nf)" and nq: "\<forall>e\<in>set (arp_table s). arp_ip e = sip \<longrightarrow> arp_q e = []"
  shows "\<exists>s'. etharp_arp_input nf (hwaddr (netifs s nf)) p s = Some s' \<and> arp_ok s' R \<and> arp_map (arp_table s') sip = Some shw \<and>
    tx_frames s' = tx_frames s @ [arp_message (hwaddr (netifs s nf)) shw (hwaddr (netifs s nf)) (ip_addr (netifs s nf)) shw sip ARP_REPLY @
      drop 42 (pbuf_data (nt s) p)]"
proof -
  let ?hw = "hwaddr (netifs s nf)" and ?ip = "ip_addr (netifs s nf)"
  let ?b = "pbufs (nt s) p" and ?m = "ram_bytes (nt s)"
  let ?e = "payload ?b"
  have al: "p \<in> alive (nt s)" using arp_held [OF ok, of p] p(1) by (auto elim: headsE)
  have m: "bytes_at ?m ?e 42 = arp_message ethsrc ethdst shw sip dhw ?ip ARP_REQUEST" using msg p(4) by (simp add: pbuf_data_def min_def)
  note F = arp_fields [OF m l(2-5)]
  have sip: "ld32 ?m (?e + 28) = sip" "ld32 ?m (?e + 38) = ?ip" using F(8,9) by (auto intro: ld32_addr)
  have hd: "ld16 ?m (?e + 14) = lwip_htons HWTYPE_ETHERNET" "ld16 ?m (?e + 16) = lwip_htons ETHTYPE_IP" "?m (?e + 18) = 6" "?m (?e + 19) = 4"
    "ld16 ?m (?e + 20) = lwip_htons ARP_REQUEST"
    using ld16_2 [OF F(2)] ld16_2 [OF F(3)] ld16_2 [OF F(6)] F(4,5)
    by (simp_all add: lwip_htons_def HWTYPE_ETHERNET_def ETHTYPE_IP_def ARP_REQUEST_def bytes_at_def)
  obtain s1 e1 where u: "etharp_update_arp_entry nf sip shw ETHARP_FLAG_TRY_HARD s = Some (s1, e1)" "arp_ok s1 (add_mset p R)" "arp_frame s s1"
    "held_same (add_mset p R) (nt s) (nt s1)" "(\<forall>e\<in>set (arp_table s). arp_ip e = sip \<longrightarrow> arp_q e = []) \<longrightarrow> ram_bytes (nt s1) = ram_bytes (nt s)"
    "if \<not> unicast sip (netifs s nf) then e1 = ERR_ARG \<and> s1 = s else if refused sip ETHARP_FLAG_TRY_HARD (arp_table s) then e1 = ERR_MEM \<and> s1 = s
     else e1 = ERR_OK \<and> learned nf sip shw s s1"
    using etharp_update_arp_entry_ok [OF ok tx l(4) l(1), of sip ETHARP_FLAG_TRY_HARD] by blast
  have lr: "learned nf sip shw s s1" using u(6) ip(2) try_hard_never_refused [of "arp_table s" sip] by (simp_all only: if_not_P simp_thms if_False)
  obtain i where i: "i < ARP_TABLE_SIZE" "arp_table s1 = (arp_table s)[i := resolved nf sip shw]" using lr by (rule learnedE) blast
  have map: "arp_map (arp_table s1) sip = Some shw"
    using arp_map_nth [OF arp_okD(2) [OF u(2)] i(1)] i arp_okD(3) [OF ok] by (simp add: stable_iff)
  have rm: "ram_bytes (nt s1) = ?m" using u(5) nq by blast
  have n1: "netifs s1 = netifs s" "tx_ok s1" "tx_frames s1 = tx_frames s" using u(3) tx learned_quiet [OF lr ok nq] by (simp_all add: arp_frame_def)
  note hs = held_sameD [OF u(4) union_single_eq_member arp_held [OF ok union_single_eq_member] p(1)]
  let ?up = "upd_ram (arp_answer ?e ?ip ?hw) s1"
  have up: "arp_ok ?up (add_mset p R)" using u(2) by (simp add: upd_ram_def)
  have dat: "pbuf_data (nt ?up) p = arp_message ?hw shw ?hw ?ip shw sip ARP_REPLY @ drop 42 (pbuf_data (nt s) p)"
  proof -
    obtain k where k: "pb_len ?b = 42 + k" using p(4) le_Suc_ex by blast
    show ?thesis using arp_answer_bytes [OF m l(2-5) l(1), of ?ip] by (simp add: upd_ram_def pbuf_data_def hs rm k bytes_at_add)
  qed
  have o: "low_level_output p ?up = Some (?up\<lparr>tx_frames := tx_frames s @ [pbuf_data (nt ?up) p]\<rparr>, ERR_OK)"
    using arp_ok_output [OF up _ p(1)] n1 hs(1) p(3) by (auto simp: upd_ram_def)
  let ?s2 = "?up\<lparr>tx_frames := tx_frames s @ [pbuf_data (nt ?up) p]\<rparr>"
  obtain n2 k2 where f: "on_net (pbuf_free p) ?s2 = Some (?s2\<lparr>nt := n2\<rparr>, k2)" "arp_ok (?s2\<lparr>nt := n2\<rparr>) R"
    using arp_ok_free [of ?s2 p R] up p(1) by auto
  have "etharp_arp_input nf ?hw p s = Some (?s2\<lparr>nt := n2\<rparr>)"
  proof -
    have c: "\<not> pb_len ?b < SIZEOF_ETHARP_PACKET" using p(4) by (simp add: SIZEOF_ETHARP_PACKET_def SIZEOF_ETH_HDR_def SIZEOF_ETHARP_HDR_def)
    show ?thesis unfolding etharp_arp_input_def if_not_P [OF p(2)]
      by (simp only: get_pbuf_def al if_True bind.simps if_not_P [OF c] Let_def hd sip ip(1) F(7) u(1) n1 rm o f(1) prod.case simp_thms if_False not_False_eq_True)
  qed
  then show ?thesis using f(2) map dat by (simp add: upd_ram_def)
qed

lemma demo_unicast: "\<not> ip4_addr_isbroadcast 0x0b00a8c0 demo_if" "\<not> ip_addr_ismulticast 0x0b00a8c0" "next_hop demo_if 0x0b00a8c0 = Some 0x0b00a8c0"
  "(0x0b00a8c0 :: u32) \<noteq> IPADDR_ANY"
  by (simp_all add: demo_if_def ip4_addr_isbroadcast_def ip_addr_ismulticast_def IPADDR_ANY_def IPADDR_BROADCAST_def ip_addr_netcmp_def
    NETIF_FLAG_BROADCAST_def lwip_htonl_def next_hop_def)

theorem etharp_output_resolved_witness:
  "\<exists>s s' :: arp. etharp_output 1 1008 0x0b00a8c0 s = Some (s', ERR_OK) \<and> length (pbuf_data (nt s) 1008) = 86 \<and>
    tx_frames s' = tx_frames s @ [[2, 0, 0, 0, 0, 7, 0, 0x0a, 0x35, 0, 1, 2, 8, 0] @ pbuf_data (nt s) 1008]"
proof -
  obtain n where n: "net_ok n {#1008#}" "packet n [1008]" "pb_len (pbufs n 1008) = 100" "pb_type (pbufs n 1008) = PBUF_RAM" "\<not> is_custom (pbufs n 1008)"
    "unlinked n 1008" "1024 \<le> payload (pbufs n 1008)" by (rule demo_packet)
  have h: "whole n 1008" "tot_len (pbufs n 1008) = 100" "pb_next (pbufs n 1008) = NULL"
    using n(2,3) by (auto simp: whole_def intro!: exI [of _ "[]"])
  have al: "1008 \<in> alive n" using n(2) by simp
  have "pbuf_header 1008 (- 14) n = Some (move_header 1008 (- 14) n, 0)" using pbuf_header_cases [OF al, of "- 14"] n by simp
  then obtain n' where n': "net_ok n' {#1008#}" "unlinked n' 1008" "pb_len (pbufs n' 1008) = 86" "tot_len (pbufs n' 1008) = 86"
    "payload (pbufs n' 1008) = payload (pbufs n 1008) + 14" "pb_next (pbufs n' 1008) = NULL" "pb_type (pbufs n' 1008) = PBUF_RAM" "n' = move_header 1008 (- 14) n" "whole n' 1008"
    using pbuf_header_ok [OF n(1) h(1) n(6,5), of "- 14"] n h by auto
  have cu: "\<not> is_custom (pbufs n' 1008)" using n(5) by (simp add: n'(8) is_custom_def)
  let ?e = "resolved 1 0x0b00a8c0 [2, 0, 0, 0, 0, 7]"
  define s where "s = (demo n')\<lparr>nt := n', arp_table := (replicate ARP_TABLE_SIZE empty_entry)[0 := ?e]\<rparr>"
  have ok0: "arp_ok (demo n') {#1008#}" unfolding demo_def using n'(1) by (rule arp_start_ok)
  have r: "arp_rest 0 (demo n') {#1008#}" using ok0 by (rule arp_ok_rest) (simp add: ARP_TABLE_SIZE_def)
  have "arp_ok ((demo n')\<lparr>nt := nt (demo n'), arp_table := (arp_table (demo n'))[0 := ?e]\<rparr>) {#1008#}"
    by (rule arp_rest_entry [OF r]) (use r in \<open>simp_all add: arp_rest_def own_ip_def ARP_TABLE_SIZE_def\<close>)
  then have ok: "arp_ok s {#1008#}" by (simp add: s_def)
  have f: "nt s = n'" "netifs s = (\<lambda>_. demo_if)" "tx_ok s" "arp_table s ! 0 = ?e" by (simp_all add: s_def ARP_TABLE_SIZE_def)
  have "\<exists>s'. etharp_output 1 1008 0x0b00a8c0 s = Some (s', ERR_OK) \<and> arp_ok s' {#1008#} \<and>
    tx_frames s' = tx_frames s @ [eth_header (arp_eth (arp_table s ! 0)) (hwaddr (netifs s 1)) ETHTYPE_IP @ pbuf_data (nt s) 1008]"
    by (rule etharp_output_resolved [OF ok _ _ _ f(3)])
      (use n' n(7) cu in \<open>simp_all add: f demo_unicast sendable_def headroom_def ARP_TABLE_SIZE_def stable_iff\<close>,
       simp_all add: resolved_def ARP_AGE_REREQUEST_USED_def ARP_MAXAGE_def)
  then obtain s' where "etharp_output 1 1008 0x0b00a8c0 s = Some (s', ERR_OK)"
    "tx_frames s' = tx_frames s @ [eth_header (arp_eth (arp_table s ! 0)) (hwaddr (netifs s 1)) ETHTYPE_IP @ pbuf_data (nt s) 1008]" by blast
  then show ?thesis using n'(3) by (intro exI [of _ s] exI [of _ s']) (simp add: f demo_if_def eth_header_def htons_bytes pbuf_data_def)
qed

theorem etharp_replies_witness:
  "\<exists>s s' :: arp. etharp_arp_input 1 (hwaddr (netifs s 1)) 1008 s = Some s' \<and> length (tx_frames s) = 0 \<and> length (tx_frames s') = 1 \<and>
    arp_map (arp_table s') 0x0b00a8c0 = Some [2, 0, 0, 0, 0, 7] \<and> take 42 (hd (tx_frames s')) =
      arp_message (hwaddr (netifs s 1)) [2, 0, 0, 0, 0, 7] (hwaddr (netifs s 1)) 0x0a00a8c0 [2, 0, 0, 0, 0, 7] 0x0b00a8c0 ARP_REPLY"
proof -
  obtain n where n: "net_ok n {#1008#}" "packet n [1008]" "pb_len (pbufs n 1008) = 100" by (rule demo_packet)
  let ?h = "[2, 0, 0, 0, 0, 7] :: u8 list"
  let ?msg = "arp_message ?h ethbroadcast ?h 0x0b00a8c0 ethzero 0x0a00a8c0 ARP_REQUEST"
  define s where "s = demo (n\<lparr>ram_bytes := put_bytes (payload (pbufs n 1008)) ?msg (ram_bytes n)\<rparr>)"
  have len: "length ?msg = 42" "length ethzero = 6" by (simp_all add: arp_message_def eth_header_def ethzero_def)
  have ok: "arp_ok s {#1008#}" unfolding s_def demo_def by (rule arp_start_ok) (use n(1) in simp)
  have f: "netifs s = (\<lambda>_. demo_if)" "tx_ok s" "pbufs (nt s) = pbufs n" "tx_frames s = []" "\<forall>e\<in>set (arp_table s). arp_q e = []"
    by (simp_all add: s_def)
  have msg: "take 42 (pbuf_data (nt s) 1008) = ?msg"
    using take_bytes_at_put [of ?msg "payload (pbufs n 1008)" "ram_bytes n" 100] n(3) len(1) by (simp add: pbuf_data_def s_def)
  have ip: "ip_addr demo_if = 0x0a00a8c0" "ip_addr demo_if \<noteq> IPADDR_ANY" by (simp_all add: demo_if_def IPADDR_ANY_def)
  have "\<exists>s'. etharp_arp_input 1 (hwaddr (netifs s 1)) 1008 s = Some s' \<and> arp_ok s' {#} \<and> arp_map (arp_table s') 0x0b00a8c0 = Some ?h \<and>
    tx_frames s' = tx_frames s @ [arp_message (hwaddr (netifs s 1)) ?h (hwaddr (netifs s 1)) (ip_addr (netifs s 1)) ?h 0x0b00a8c0 ARP_REPLY @
      drop 42 (pbuf_data (nt s) 1008)]"
    by (rule etharp_replies [OF ok]) (use n f ip demo_unicast msg len(2) in \<open>simp_all add: first_ptr_def\<close>)
  then obtain s' where s': "etharp_arp_input 1 (hwaddr demo_if) 1008 s = Some s'" "arp_map (arp_table s') 0x0b00a8c0 = Some ?h"
    "tx_frames s' = [arp_message (hwaddr demo_if) ?h (hwaddr demo_if) 0x0a00a8c0 ?h 0x0b00a8c0 ARP_REPLY @ drop 42 (pbuf_data (nt s) 1008)]"
    unfolding f(1,4) ip(1) by auto
  have "length (arp_message (hwaddr demo_if) ?h (hwaddr demo_if) 0x0a00a8c0 ?h 0x0b00a8c0 ARP_REPLY) = 42"
    by (simp add: arp_message_def)
  then show ?thesis using s' f(1,4) by (intro exI [of _ s] exI [of _ s']) simp
qed

end
