(* ===== verification/Ip.thy ===== *)
theory Ip
  imports Etharp_Spec
begin

text \<open>
  Sending on the IP layer, \<^verbatim>\<open>core/ipv4/ip.c\<close> and the fragmentation half of
  \<^verbatim>\<open>core/ipv4/ip_frag.c\<close>: routing, construction of the header with its checksum computed on the way,
  and cutting a datagram into fragments whose buffers refer to the original ones.  The state \<open>ip\<close> adds the variables of
  \<^verbatim>\<open>ip.c\<close> and of the reassembly half of \<^verbatim>\<open>ip_frag.c\<close> to those of the ARP module.
\<close>

unbundle bit_operations_syntax

subsection \<open>Headers and state\<close>

definition IP_HLEN :: nat where "IP_HLEN = 20"
definition IP_PROTO_ICMP :: u8 where "IP_PROTO_ICMP = 1"
definition IP_PROTO_UDP :: u8 where "IP_PROTO_UDP = 17"
definition IP_PROTO_TCP :: u8 where "IP_PROTO_TCP = 6"
definition IP_MF :: u16 where "IP_MF = 0x2000"
definition IP_OFFMASK :: u16 where "IP_OFFMASK = 0x1fff"

text \<open>Offsets of the fields of \<open>struct ip_hdr\<close>.\<close>

abbreviation (input) "IPH_VHL_OFF \<equiv> 0 :: nat"
abbreviation (input) "IPH_TOS_OFF \<equiv> 1 :: nat"
abbreviation (input) "IPH_LEN_OFF \<equiv> 2 :: nat"
abbreviation (input) "IPH_ID_OFF \<equiv> 4 :: nat"
abbreviation (input) "IPH_OFFSET_OFF \<equiv> 6 :: nat"
abbreviation (input) "IPH_TTL_OFF \<equiv> 8 :: nat"
abbreviation (input) "IPH_PROTO_OFF \<equiv> 9 :: nat"
abbreviation (input) "IPH_CHKSUM_OFF \<equiv> 10 :: nat"
abbreviation (input) "IPH_SRC_OFF \<equiv> 12 :: nat"
abbreviation (input) "IPH_DEST_OFF \<equiv> 16 :: nat"

definition IPH_V :: "memory \<Rightarrow> ptr \<Rightarrow> u8" where "IPH_V m h = drop_bit 4 (m h)"
definition IPH_HL :: "memory \<Rightarrow> ptr \<Rightarrow> nat" where "IPH_HL m h = unat (m h AND 0x0f)"

text \<open>\<open>struct ip_reassdata\<close>, a datagram being reassembled; the copy of the header is kept as its bytes.  \<open>reassdata\<close> holds
  the structures in use.\<close>

record ip_reassdata =
  rd_next :: ptr
  rd_p :: ptr
  rd_iphdr :: "u8 list"
  datagram_len :: nat
  rd_flags :: u8
  rd_timer :: nat

record ip = arp +
  ip_id :: u16
  current_netif :: ptr
  current_header :: ptr
  current_iphdr_src :: u32
  current_iphdr_dest :: u32
  reassdata :: "ptr \<rightharpoonup> ip_reassdata"
  reassdatagrams :: ptr
  ip_reass_pbufcount :: nat

definition netif_is_up :: "netif \<Rightarrow> bool" where
  "netif_is_up nf \<longleftrightarrow> nf_flags nf AND NETIF_FLAG_UP \<noteq> 0"

subsection \<open>Routing\<close>

partial_function (option) route_loop :: "u32 \<Rightarrow> ptr \<Rightarrow> (ptr \<Rightarrow> netif) \<Rightarrow> ptr option" where
  "route_loop dest nf nfs =
     (if nf = NULL then Some NULL
      else if netif_is_up (nfs nf) \<and> ip_addr_netcmp dest (ip_addr (nfs nf)) (netmask (nfs nf)) then Some nf
      else route_loop dest (nf_next (nfs nf)) nfs)"

definition ip_route :: "u32 \<Rightarrow> 'a lwip_scheme \<Rightarrow> ptr option" where
  "ip_route dest s =
     do { nf \<leftarrow> route_loop dest (netif_list s) (netifs s);
          Some (if nf \<noteq> NULL then nf
                else if netif_default s = NULL \<or> \<not> netif_is_up (netifs s (netif_default s)) then NULL
                else netif_default s) }"

subsection \<open>Fragmentation\<close>

definition upd_net :: "(net \<Rightarrow> net) \<Rightarrow> 'a lwip_scheme \<Rightarrow> 'a lwip_scheme" where
  "upd_net f s = s\<lparr>nt := f (nt s)\<rparr>"

text \<open>The inner loop of \<open>ip_frag\<close>: buffers that refer to the next \<open>left_to_copy\<close> bytes from \<open>p\<close> on are appended to
  \<open>rambuf\<close>.  It ends with the buffer it stopped in and the number of bytes taken from it, or without (\<open>None\<close>) when a pool is
  empty.\<close>

partial_function (option) frag_fill :: "ptr \<Rightarrow> ptr \<Rightarrow> nat \<Rightarrow> nat \<Rightarrow> net \<Rightarrow> (net \<times> (ptr \<times> nat) option) option" where
  "frag_fill rambuf p left_to_copy newpbuflen s =
     (if left_to_copy = 0 then Some (s, Some (p, newpbuflen))
      else do {
        b \<leftarrow> get_pbuf p s;
        let newpbuflen = (if left_to_copy < pb_len b then left_to_copy else pb_len b);
        if newpbuflen = 0 then frag_fill rambuf (pb_next b) left_to_copy newpbuflen s
        else
          let (pl, pcr) = memp_malloc MEMP_FRAG_PBUF (pools s); s = s\<lparr>pools := pl\<rparr>
          in if pcr = NULL then do { (s, _) \<leftarrow> pbuf_free rambuf s; Some (s, None) }
             else
               let (s, newpbuf) = pbuf_alloced_custom PBUF_RAW newpbuflen PBUF_REF pcr (payload b) newpbuflen s
               in if newpbuf = NULL
                  then do { (s, _) \<leftarrow> pbuf_free rambuf (ip_frag_free_pbuf_custom_ref pcr s); Some (s, None) }
                  else do {
                    s \<leftarrow> pbuf_ref p s;
                    let s = s\<lparr>frag_original := (frag_original s)(pcr := p)\<rparr>;
                    s \<leftarrow> pbuf_cat rambuf newpbuf s;
                    let left_to_copy = usub 16 left_to_copy newpbuflen;
                    b \<leftarrow> get_pbuf p s;
                    frag_fill rambuf (if left_to_copy \<noteq> 0 then pb_next b else p) left_to_copy newpbuflen s } })"

text \<open>The fields of a fragment's header that differ from the datagram's.\<close>

definition correct_header :: "ptr \<Rightarrow> u16 \<Rightarrow> nat \<Rightarrow> memory \<Rightarrow> memory" where
  "correct_header iphdr tmp cop m =
     (let m = st16 (iphdr + IPH_OFFSET_OFF) (lwip_htons tmp) m;
          m = st16 (iphdr + IPH_LEN_OFF) (lwip_htons (word_of_nat (cop + IP_HLEN))) m;
          m = st16 (iphdr + IPH_CHKSUM_OFF) 0 m
      in st16 (iphdr + IPH_CHKSUM_OFF) (inet_chksum iphdr IP_HLEN m) m)"

text \<open>The number of 8-byte blocks in a fragment; the division is of \<open>int\<close>.\<close>

definition frag_blocks :: "nat \<Rightarrow> nat" where
  "frag_blocks mt = (if mt \<ge> IP_HLEN then (mt - IP_HLEN) div 8 else usub 16 0 ((IP_HLEN - mt) div 8))"

partial_function (option) ip_frag_loop ::
    "ptr \<Rightarrow> u32 \<Rightarrow> ptr \<Rightarrow> nat \<Rightarrow> u16 \<Rightarrow> ptr \<Rightarrow> nat \<Rightarrow> u16 \<Rightarrow> nat \<Rightarrow> nat \<Rightarrow> 'a arp_scheme \<Rightarrow> ('a arp_scheme \<times> err_t) option" where
  "ip_frag_loop nf dest original_iphdr mt omf p left ofo poff newpbuflen s =
     (if left = 0 then Some (s, ERR_OK)
      else do {
        let last = (int left \<le> int mt - int IP_HLEN);
        let tmp = omf OR (IP_OFFMASK AND ofo);
        let tmp = (if last then tmp else tmp OR IP_MF);
        let cop = (if last then left else to_u16 (frag_blocks mt * 8));
        (s, rambuf) \<leftarrow> on_net (pbuf_alloc PBUF_LINK IP_HLEN PBUF_RAM) s;
        if rambuf = NULL then Some (s, ERR_MEM)
        else do {
          rb \<leftarrow> get_pbuf rambuf (nt s);
          let iphdr = payload rb;
          let s = upd_ram (memcpy IP_HLEN iphdr original_iphdr) s;
          b \<leftarrow> get_pbuf p (nt s);
          let s = upd_net (upd_pbuf p (\<lambda>b. b\<lparr>payload := payload b + poff, pb_len := usub 16 (pb_len b) poff\<rparr>)) s;
          (s, r) \<leftarrow> on_net (frag_fill rambuf p cop newpbuflen) s;
          case r of
            None \<Rightarrow> Some (s, ERR_MEM)
          | Some (p, newpbuflen) \<Rightarrow> do {
              let s = upd_ram (correct_header iphdr tmp cop) s;
              (s, _) \<leftarrow> etharp_output nf rambuf dest s;
              (s, _) \<leftarrow> on_net (pbuf_free rambuf) s;
              ip_frag_loop nf dest original_iphdr mt omf p (usub 16 left cop) (ofo + word_of_nat (frag_blocks mt))
                newpbuflen newpbuflen s } } })"

definition ip_frag :: "ptr \<Rightarrow> ptr \<Rightarrow> u32 \<Rightarrow> 'a arp_scheme \<Rightarrow> ('a arp_scheme \<times> err_t) option" where
  "ip_frag p nf dest s =
     do { b \<leftarrow> get_pbuf p (nt s);
          let tmp = lwip_ntohs (ld16 (ram_bytes (nt s)) (payload b + IPH_OFFSET_OFF));
          ip_frag_loop nf dest (payload b) (mtu (netifs s nf)) (tmp AND IP_MF) p (usub 16 (tot_len b) IP_HLEN) (tmp AND IP_OFFMASK)
            IP_HLEN 0 s }"

subsection \<open>Output\<close>

definition LWIP_MAKE_U16 :: "u8 \<Rightarrow> u8 \<Rightarrow> u32" where
  "LWIP_MAKE_U16 a b = push_bit 8 (ucast a) OR ucast b"

text \<open>The header as \<open>ip_output_if\<close> writes it; the checksum is summed up field by field.\<close>

definition write_ip_hdr :: "ptr \<Rightarrow> u8 \<Rightarrow> u8 \<Rightarrow> u8 \<Rightarrow> nat \<Rightarrow> u16 \<Rightarrow> u32 \<Rightarrow> u32 \<Rightarrow> memory \<Rightarrow> memory" where
  "write_ip_hdr iphdr ttl tos proto len ident src dest m =
     (let m = m(iphdr + IPH_TTL_OFF := ttl);
          m = m(iphdr + IPH_PROTO_OFF := proto);
          chk_sum = LWIP_MAKE_U16 proto ttl;
          m = put_bytes (iphdr + IPH_DEST_OFF) (addr_bytes dest) m;
          chk_sum = chk_sum + (dest AND 0xffff);
          chk_sum = chk_sum + drop_bit 16 dest;
          m = m(iphdr + IPH_VHL_OFF := push_bit 4 4 OR word_of_nat (IP_HLEN div 4));
          m = m(iphdr + IPH_TOS_OFF := tos);
          chk_sum = chk_sum + LWIP_MAKE_U16 tos (m (iphdr + IPH_VHL_OFF));
          m = st16 (iphdr + IPH_LEN_OFF) (lwip_htons (word_of_nat len)) m;
          chk_sum = chk_sum + ucast (ld16 m (iphdr + IPH_LEN_OFF));
          m = st16 (iphdr + IPH_OFFSET_OFF) 0 m;
          m = st16 (iphdr + IPH_ID_OFF) (lwip_htons ident) m;
          chk_sum = chk_sum + ucast (ld16 m (iphdr + IPH_ID_OFF));
          m = put_bytes (iphdr + IPH_SRC_OFF) (addr_bytes src) m;
          chk_sum = chk_sum + (src AND 0xffff);
          chk_sum = chk_sum + drop_bit 16 src;
          chk_sum = drop_bit 16 chk_sum + (chk_sum AND 0xffff);
          chk_sum = drop_bit 16 chk_sum + chk_sum;
          chk_sum = NOT chk_sum
      in st16 (iphdr + IPH_CHKSUM_OFF) (ucast chk_sum) m)"

text \<open>A source address of \<open>NULL\<close> is \<open>None\<close>; \<open>IP_HDRINCL\<close> is \<open>NULL\<close> as destination.\<close>

definition ip_output_if ::
    "ptr \<Rightarrow> u32 option \<Rightarrow> u32 option \<Rightarrow> u8 \<Rightarrow> u8 \<Rightarrow> u8 \<Rightarrow> ptr \<Rightarrow> 'a ip_scheme \<Rightarrow> ('a ip_scheme \<times> err_t) option" where
  "ip_output_if p src dest ttl tos proto nf s =
     do { (s, r) \<leftarrow>
            (case dest of
               Some d \<Rightarrow> do {
                 (s, e) \<leftarrow> on_net (pbuf_header p (int IP_HLEN)) s;
                 if e \<noteq> 0 then Some (s, None)
                 else do {
                   b \<leftarrow> get_pbuf p (nt s);
                   let a = (if src = None \<or> src = Some IPADDR_ANY then ip_addr (netifs s nf) else the src);
                   let s = upd_ram (write_ip_hdr (payload b) ttl tos proto (tot_len b) (ip_id s) a d) s;
                   Some (s\<lparr>ip_id := ip_id s + 1\<rparr>, Some d) } }
             | None \<Rightarrow> do { b \<leftarrow> get_pbuf p (nt s); Some (s, Some (ld32 (ram_bytes (nt s)) (payload b + IPH_DEST_OFF))) });
          case r of
            None \<Rightarrow> Some (s, ERR_BUF)
          | Some d \<Rightarrow> do {
              b \<leftarrow> get_pbuf p (nt s);
              if mtu (netifs s nf) \<noteq> 0 \<and> tot_len b > mtu (netifs s nf) then ip_frag p nf d s
              else etharp_output nf p d s } }"

definition ip_output :: "ptr \<Rightarrow> u32 option \<Rightarrow> u32 \<Rightarrow> u8 \<Rightarrow> u8 \<Rightarrow> u8 \<Rightarrow> 'a ip_scheme \<Rightarrow> ('a ip_scheme \<times> err_t) option" where
  "ip_output p src dest ttl tos proto s =
     do { nf \<leftarrow> ip_route dest s;
          if nf = NULL then Some (s, ERR_RTE) else ip_output_if p src (Some dest) ttl tos proto nf s }"

end
