(* ===== verification/Ip_Hdr.thy ===== *)
theory Ip_Hdr
  imports Ip
begin

text \<open>
  The header \<open>ip_output_if\<close> writes (\<^verbatim>\<open>core/ipv4/ip.c\<close>): its bytes, and that the checksum summed up field by field
  is the one \<open>inet_chksum\<close> computes, so that the header verifies.
\<close>

unbundle bit_operations_syntax

subsection \<open>The header\<close>

definition be16 :: "u16 \<Rightarrow> u8 list" where
  "be16 w = [ucast (drop_bit 8 w), ucast w]"

definition le16 :: "u16 \<Rightarrow> u8 list" where
  "le16 w = [ucast w, ucast (drop_bit 8 w)]"

definition ip_header :: "u8 \<Rightarrow> u8 \<Rightarrow> u8 \<Rightarrow> nat \<Rightarrow> u16 \<Rightarrow> u16 \<Rightarrow> u32 \<Rightarrow> u32 \<Rightarrow> u8 list" where
  "ip_header ttl tos proto len ident chk src dest =
     [0x45, tos] @ be16 (word_of_nat len) @ be16 ident @ [0, 0] @ [ttl, proto] @ le16 chk @ addr_bytes src @ addr_bytes dest"

lemma length_16 [simp]: "length (be16 w) = 2" "length (le16 w) = 2"
  by (simp_all add: be16_def le16_def)

lemma length_ip_header [simp]: "length (ip_header ttl tos proto len ident chk src dest) = 20"
  by (simp add: ip_header_def)

lemma st16_le: "st16 a w m = put_bytes a (le16 w) m" and st16_be: "st16 a (lwip_htons w) m = put_bytes a (be16 w) m"
  using htons_fields [of w] by (simp_all add: st16_put le16_def be16_def)

text \<open>The sum of the fields as the code adds them.\<close>

definition hdr_sum :: "u8 \<Rightarrow> u8 \<Rightarrow> u8 \<Rightarrow> nat \<Rightarrow> u16 \<Rightarrow> u32 \<Rightarrow> u32 \<Rightarrow> u32" where
  "hdr_sum ttl tos proto len ident src dest =
     LWIP_MAKE_U16 proto ttl + (dest AND 0xffff) + drop_bit 16 dest + LWIP_MAKE_U16 tos 0x45 + ucast (lwip_htons (word_of_nat len)) +
     ucast (lwip_htons ident) + (src AND 0xffff) + drop_bit 16 src"

lemma make_u16_unat: "unat (LWIP_MAKE_U16 a b) = 256 * unat a + unat b"
proof -
  have p: "unat (push_bit 8 (ucast a :: u32)) = 256 * unat a" using unat_u8_less [of a] by (subst unat_push) (simp_all del: unat_u8_less)
  have "LWIP_MAKE_U16 a b = push_bit 8 (ucast a) + ucast b"
    unfolding LWIP_MAKE_U16_def by (rule or_as_add) (auto simp: bit_simps dest: bit_imp_le_length)
  then show ?thesis using p unat_u8_less [of a] unat_u8_less [of b] by (simp add: unat_word_ariths del: unat_u8_less)
qed

lemma be16_sum: "le_sum (be16 w @ bs) = unat (lwip_htons w) + le_sum bs"
proof -
  have "unat w div 256 < 256" using unat_u16_less [of w] by (simp add: less_mult_imp_div_less)
  then have "unat (ucast (drop_bit 8 w) :: u8) + 256 * unat (ucast w :: u8) = unat (lwip_htons w)"
    unfolding htons_unat unat_low_byte unat_drop by simp
  then show ?thesis by (simp add: be16_def)
qed

lemma le16_sum: "le_sum (le16 w @ bs) = unat w + le_sum bs"
proof -
  have "unat w div 256 < 256" using unat_u16_less [of w] by (simp add: less_mult_imp_div_less)
  then have "unat (ucast w :: u8) + 256 * unat (ucast (drop_bit 8 w) :: u8) = unat w" unfolding unat_low_byte unat_drop by simp
  then show ?thesis by (simp add: le16_def)
qed

lemma ld16_st16 [simp]: "ld16 (st16 a w m) a = w"
proof -
  have "unat (ucast w :: u8) + 256 * unat (ucast (drop_bit 8 w) :: u8) = unat w" using le16_sum [of w "[]"] by (simp add: le16_def)
  then show ?thesis by (simp add: ld16_def st16_def)
qed

lemma hdr_sum_unat: "unat (hdr_sum ttl tos proto len ident src dest) = le_sum (ip_header ttl tos proto len ident 0 src dest)"
proof -
  have p: "unat (a + b + c + d + e + f + g + h) = unat a + unat b + unat c + unat d + unat e + unat f + unat g + unat h"
    if "unat a < 65536" "unat b < 65536" "unat c < 65536" "unat d < 65536" "unat e < 65536" "unat f < 65536" "unat g < 65536" "unat h < 65536"
    for a b c d e f g h :: u32 using that by (simp add: unat_word_ariths)
  have b: "unat (w AND 0xffff) < 65536" for w :: u32 unfolding low_half by simp
  have d: "unat (drop_bit 16 w) < 65536" for w :: u32 unfolding unat_drop using unat_u32_less [of w] by (simp add: less_mult_imp_div_less)
  have h: "drop_bit 16 w AND 0xffff = drop_bit 16 w" for w :: u32 by (rule bit_word_eqI) (auto simp: masks bit_simps dest: bit_imp_le_length)
  have m: "unat (LWIP_MAKE_U16 x y) < 65536" for x y unfolding make_u16_unat using unat_u8_less [of x] unat_u8_less [of y] by (simp del: unat_u8_less)
  have l: "le_sum (ip_header ttl tos proto len ident 0 src dest) =
    unat (0x45 :: u8) + 256 * unat tos + unat (lwip_htons (word_of_nat len)) + unat (lwip_htons ident) + (unat ttl + 256 * unat proto) +
    (unat (src AND 0xffff) + unat (drop_bit 16 src)) + (unat (dest AND 0xffff) + unat (drop_bit 16 dest))"
    using addr_words [of src] addr_words [of dest] unfolding ip_header_def h by (simp add: le_sum_append be16_sum le16_sum)
  have s: "unat (hdr_sum ttl tos proto len ident src dest) = unat (LWIP_MAKE_U16 proto ttl) + unat (dest AND 0xffff) + unat (drop_bit 16 dest) +
    unat (LWIP_MAKE_U16 tos 0x45) + unat (ucast (lwip_htons (word_of_nat len)) :: u32) + unat (ucast (lwip_htons ident) :: u32) +
    unat (src AND 0xffff) + unat (drop_bit 16 src)"
    unfolding hdr_sum_def by (rule p; (rule m | rule b | rule d | simp))
  show ?thesis unfolding s l make_u16_unat by simp
qed

lemma put_bytes_at: "put_bytes a xs m x = (if a \<le> x \<and> x < a + length xs then xs ! (x - a) else m x)"
  by (simp add: put_bytes_def)

text \<open>Folding without the mask is as good, since only the low half is stored.\<close>

lemma fold_low: "ucast (NOT (drop_bit 16 x + x)) = (NOT (ucast (FOLD_U32T x)) :: u16)" for x :: u32
proof -
  have c: "ucast (a + b) = (ucast a + ucast b :: u16)" for a b :: u32
    unfolding word_unat_eq_iff by (simp add: unat_word_ariths unsigned_ucast_eq take_bit_eq_mod mod_simps mod_mod_cancel)
  have "ucast (x AND 0xffff) = (ucast x :: u16)" by (rule bit_word_eqI) (auto simp: masks bit_simps)
  moreover have "ucast (NOT y) = (NOT (ucast y) :: u16)" for y :: u32 by (rule bit_word_eqI) (auto simp: bit_simps)
  ultimately show ?thesis unfolding FOLD_U32T_def by (simp add: c)
qed

lemma memory_eqI:
  assumes "\<And>x. x < a \<or> a + n \<le> x \<Longrightarrow> m1 x = m2 x" "bytes_at m1 a n = bytes_at m2 a n"
  shows "m1 = (m2 :: memory)"
proof
  fix x
  show "m1 x = m2 x"
  proof (cases "x < a \<or> a + n \<le> x")
    case False
    then have "bytes_at m1 a n ! (x - a) = m1 x" "bytes_at m2 a n ! (x - a) = m2 x" by (simp_all add: not_less not_le less_diff_conv2)
    then show ?thesis using assms(2) by simp
  qed (rule assms(1))
qed

lemma upd2_put: "m(a := x, Suc a := y) = put_bytes a [x, y] m"
  using put_bytes_Cons [of a "[y]" m x] upd_put [of "m(a := x)" "Suc a" y] by simp

lemma header_fields:
  "bytes_at x h 20 = bytes_at x h 2 @ bytes_at x (h + 2) 2 @ bytes_at x (h + 4) 2 @ bytes_at x (h + 6) 2 @
      bytes_at x (h + 8) 2 @ bytes_at x (h + 10) 2 @ bytes_at x (h + 12) 4 @ bytes_at x (h + 16) 4"
  using bytes_at_fields [of x h "[2, 2, 2, 2, 2, 2, 4, 4]"] by (simp del: add_2_eq_Suc add_2_eq_Suc')

lemma put_chksum:
  assumes h: "bytes_at m h 20 = ip_header ttl tos proto len ident c0 src dest"
  shows "bytes_at (st16 (h + 10) c m) h 20 = ip_header ttl tos proto len ident c src dest"
proof -
  have b: "bytes_at m (h + i) k = take k (drop i (ip_header ttl tos proto len ident c0 src dest))" if "i + k \<le> 20" for i k
    using bytes_at_part [OF that, of m h] h by simp
  show ?thesis unfolding header_fields st16_le
    using b [of 0 2] b [of 2 2] b [of 4 2] b [of 6 2] b [of 8 2] b [of 12 4] b [of 16 4]
    by (simp add: bytes_at_put_other bytes_at_put_at) (simp add: ip_header_def be16_def le16_def addr_bytes_def)
qed

lemma write_ip_hdr_eq:
  fixes h ttl tos proto len ident src dest m
  defines "m0 \<equiv> put_bytes h (ip_header ttl tos proto len ident 0 src dest) m"
  shows "write_ip_hdr h ttl tos proto len ident src dest m = st16 (h + 10) (inet_chksum h 20 m0) m0"
proof -
  let ?S = "hdr_sum ttl tos proto len ident src dest"
  let ?F = "drop_bit 16 ?S + (?S AND 0xffff)"
  define c :: u16 where "c = ucast (NOT (drop_bit 16 ?F + ?F))"
  have v: "push_bit 4 4 OR word_of_nat (IP_HLEN div 4) = (0x45 :: u8)" by (simp add: IP_HLEN_def)
  have b0: "bytes_at m0 h 20 = ip_header ttl tos proto len ident 0 src dest" unfolding m0_def by (simp add: bytes_at_put_at)
  have "write_ip_hdr h ttl tos proto len ident src dest m = st16 (h + 10) c m0"
  proof -
    let ?m1 = "put_bytes (h + 12) (addr_bytes src) (st16 (h + 4) (lwip_htons ident) (st16 (h + 6) 0 (st16 (h + 2) (lwip_htons (word_of_nat len))
      ((put_bytes (h + 16) (addr_bytes dest) (m(h + 8 := ttl, Suc (h + 8) := proto)))(h := 0x45, Suc h := tos)))))"
    have e: "Suc (h + 8) = h + 9" by simp
    have w: "write_ip_hdr h ttl tos proto len ident src dest m = st16 (h + 10) c ?m1"
      unfolding write_ip_hdr_def Let_def ld16_st16 v c_def hdr_sum_def e by simp
    have "bytes_at (st16 (h + 10) c ?m1) h 20 = ip_header ttl tos proto len ident c src dest"
      unfolding header_fields st16_be upd2_put unfolding st16_le ip_header_def by (simp add: bytes_at_put_other bytes_at_put_at le16_def)
    then show ?thesis unfolding w using put_chksum [OF b0, of c]
      by (intro memory_eqI [of h 20]) (auto simp: m0_def st16_def put_bytes_at)
  qed
  moreover have "c = inet_chksum h 20 m0"
  proof -
    have "unat (FOLD_U32T ?F) = norm16 (le_sum (ip_header ttl tos proto len ident 0 src dest))"
      using FOLD_norm [of ?S] unfolding hdr_sum_unat FOLD_U32T_def .
    also have "\<dots> = unat (LWIP_CHKSUM h 20 m0)"
      unfolding LWIP_CHKSUM_def b0 [symmetric] internet_sum_def [symmetric] by (rule chksum3_sum [symmetric]) simp
    finally have "ucast (FOLD_U32T ?F) = LWIP_CHKSUM h 20 m0"
      unfolding word_unat_eq_iff by (simp add: unsigned_ucast_eq take_bit_eq_mod)
    then show ?thesis unfolding c_def fold_low inet_chksum_def by simp
  qed
  ultimately show ?thesis by simp
qed

lemma write_ip_hdr_ok:
  fixes h ttl tos proto len ident src dest m
  defines "m' \<equiv> write_ip_hdr h ttl tos proto len ident src dest m"
  shows "\<exists>c. bytes_at m' h 20 = ip_header ttl tos proto len ident c src dest" "inet_chksum h 20 m' = 0"
    "x < h \<or> h + 20 \<le> x \<Longrightarrow> m' x = m x"
proof -
  define m0 where "m0 = put_bytes h (ip_header ttl tos proto len ident 0 src dest) m"
  have m': "m' = st16 (h + 10) (inet_chksum h 20 m0) m0" unfolding m'_def m0_def by (rule write_ip_hdr_eq)
  have b0: "bytes_at m0 h 20 = ip_header ttl tos proto len ident 0 src dest" unfolding m0_def by (simp add: bytes_at_put_at)
  show "\<exists>c. bytes_at m' h 20 = ip_header ttl tos proto len ident c src dest" unfolding m' using put_chksum [OF b0] by blast
  have "bytes_at m0 (h + 10) 2 = [0, 0]"
    using bytes_at_part [of 10 2 20 m0 h] unfolding b0 by (simp add: ip_header_def be16_def le16_def)
  then have "m0 (h + 2 * 5) = 0" "m0 (h + 2 * 5 + 1) = 0" unfolding bytes_at_2 by simp_all
  from inet_chksum_in_place [OF _ _ this] show "inet_chksum h 20 m' = 0" unfolding m' by simp
  show "x < h \<or> h + 20 \<le> x \<Longrightarrow> m' x = m x" unfolding m' by (auto simp: m0_def st16_def put_bytes_at)
qed

end
