(* ===== verification/Ip_Frag.thy ===== *)
theory Ip_Frag
  imports Ip_Hdr
begin

text \<open>
  Fragmentation (\<open>ip_frag\<close> of \<^verbatim>\<open>core/ipv4/ip_frag.c\<close>) keeps the packet buffers in order: the buffers that refer to
  the bytes of the datagram hold it while a fragment waits in the ARP queue, every fragment is given up when it has been sent or
  queued, whatever the allocators answer, and the loops return.
\<close>

unbundle bit_operations_syntax

subsection \<open>Buffers that refer to others\<close>

lemma refs_inv_new_custom:
  assumes I: "refs_inv s (add_mset o' R)" and p: "p \<notin> alive s" "p \<noteq> NULL"
    and s': "alive s' = insert p (alive s)" "frag_original s' = (frag_original s)(p := o')"
      "\<And>q. q \<noteq> p \<Longrightarrow> pbufs s' q = pbufs s q"
      "pb_next (pbufs s' p) = NULL" "pb_ref (pbufs s' p) = 1" "is_custom (pbufs s' p)"
  shows "refs_inv s' (add_mset p R)"
proof -
  note D = refs_invD [OF I]
  have old: "pbufs s' q = pbufs s q" if "q \<in> alive s" for q by (rule s'(3)) (use p(1) that in auto)
  then have c: "customs s' = insert p (customs s)" using s'(1,6) p(1) by (auto simp: customs_def)
  have cp: "p \<notin> customs s" "finite (customs s)" using p(1) D(1) by (auto simp: customs_def)
  have n: "image_mset (\<lambda>q. pb_next (pbufs s' q)) (mset_set (alive s)) = image_mset (\<lambda>q. pb_next (pbufs s q)) (mset_set (alive s))"
    using old D(1) by (intro image_mset_cong) auto
  have f: "image_mset (frag_original s') (mset_set (customs s)) = image_mset (frag_original s) (mset_set (customs s))"
    using cp by (intro image_mset_cong) (auto simp: s'(2))
  have a: "all_ptrs s' (add_mset p R) = add_mset p (add_mset NULL (all_ptrs s (add_mset o' R)))"
    using D(1) p(1) cp by (simp add: all_ptrs_def s'(1,4) c n f) (simp add: s'(2))
  have pz: "count (all_ptrs s (add_mset o' R)) p = 0" using D(6) [of p] p by (metis count_inI)
  show ?thesis unfolding refs_inv_def a s'(1)
  proof (intro conjI ballI)
    fix q assume q: "q \<in> insert p (alive s)"
    show "0 < pb_ref (pbufs s' q)" "pb_ref (pbufs s' q) < 65536"
      "pb_ref (pbufs s' q) = count (add_mset p (add_mset NULL (all_ptrs s (add_mset o' R)))) q"
      using q D(2) D(3-5) [of q] old [of q] pz p s'(5) by auto
  qed (use D(1,2,6) p in auto)
qed

text \<open>There are too few buffers for a count to overflow.\<close>

lemma card_alive:
  assumes "net_inv s R"
  shows "card (alive s) \<le> 8300"
proof -
  have i: "refs_inv s R" "store_inv s" using assms by (auto simp: net_inv_def)
  note D = store_invD [OF i(2)]
  let ?H = "{ram (heap s) ..< ram (heap s) + ram_end}" and ?E = "memp_elems (pools s)"
  have sub: "alive s \<subseteq> ?H \<union> (?E MEMP_PBUF \<union> (?E MEMP_PBUF_POOL \<union> ?E MEMP_FRAG_PBUF))"
  proof
    fix p assume p: "p \<in> alive s"
    obtain k where k: "pbuf_block s p k" using placed_block [OF D(5) [OF p]] by blast
    show "p \<in> ?H \<union> (?E MEMP_PBUF \<union> (?E MEMP_PBUF_POOL \<union> ?E MEMP_FRAG_PBUF))"
    proof (cases "pool_of (pbufs s p)")
      case None
      then have "(p, k) \<in> mem_live (heap s)" using k by (simp add: pbuf_block_def)
      from mem_live_region [OF D(1) this] show ?thesis by auto
    next
      case (Some t)
      then have "p \<in> ?E t" using k by (auto simp: pbuf_block_def memp_live_iff)
      moreover have "t = MEMP_PBUF \<or> t = MEMP_PBUF_POOL \<or> t = MEMP_FRAG_PBUF"
        using Some by (auto simp: pool_of_def split: if_splits pbuf_type.splits)
      ultimately show ?thesis by auto
    qed
  qed
  have "card (alive s) \<le> card (?H \<union> (?E MEMP_PBUF \<union> (?E MEMP_PBUF_POOL \<union> ?E MEMP_FRAG_PBUF)))"
    by (rule card_mono [OF _ sub]) (simp add: finite_pool_elems)
  also have "\<dots> \<le> card ?H + (card (?E MEMP_PBUF) + (card (?E MEMP_PBUF_POOL) + card (?E MEMP_FRAG_PBUF)))"
    by (intro order_trans [OF card_Un_le] add_left_mono order_refl)
  also have "\<dots> \<le> ram_end + (memp_num MEMP_PBUF + (memp_num MEMP_PBUF_POOL + memp_num MEMP_FRAG_PBUF))"
    by (intro add_mono card_pool_elems) simp
  finally show ?thesis by (simp add: MEM_SIZE_ALIGNED_def)
qed

lemma ref_bound:
  assumes "net_inv s R" "p \<in> alive s"
  shows "pb_ref (pbufs s p) \<le> count R p + 16600"
proof -
  have i: "refs_inv s R" using assms(1) by (simp add: net_inv_def)
  note D = refs_invD [OF i]
  have c: "count (image_mset f (mset_set A)) p \<le> card A" for f :: "ptr \<Rightarrow> ptr" and A
    using count_le_size [of "image_mset f (mset_set A)" p] by simp
  have "card (customs s) \<le> card (alive s)" by (rule card_mono [OF D(1)]) (auto simp: customs_def)
  then show ?thesis using D(5) [OF assms(2)] card_alive [OF assms(1)] c [of "\<lambda>p. pb_next (pbufs s p)" "alive s"] c [of "frag_original s" "customs s"]
    by (simp add: all_ptrs_def)
qed

lemma queued_refs:
  assumes "queued n L R" "p \<in> alive n"
  shows "pb_ref (pbufs n p) \<le> count R p + 16630"
proof -
  have I: "net_inv n (mset (map snd L) + R)" using net_okD(1) [OF queuedD(1) [OF assms(1)]] .
  have mi: "memp_inv (pools n)" using I store_invD(2) by (simp add: net_inv_def)
  have "set (map fst L) \<subseteq> memp_elems (pools n) MEMP_ARP_QUEUE" using assms(1) by (auto simp: queued_def aux_block_def memp_live_iff)
  then have "card (set (map fst L)) \<le> card (memp_elems (pools n) MEMP_ARP_QUEUE)" by (rule card_mono [OF finite_pool_elems])
  also have "\<dots> \<le> memp_num MEMP_ARP_QUEUE" by (rule card_pool_elems)
  finally have "length L \<le> 30" using distinct_card [OF queuedD(2) [OF assms(1)]] by simp
  moreover have "count (mset (map snd L)) p \<le> length L" using count_le_size [of "mset (map snd L)" p] by simp
  ultimately show ?thesis using ref_bound [OF I assms(2)] by simp
qed

text \<open>A buffer made to refer to the bytes of another one.\<close>

definition mirror :: "ptr \<Rightarrow> nat \<Rightarrow> ptr \<Rightarrow> net \<Rightarrow> net option" where
  "mirror p k c n =
     do { n \<leftarrow> pbuf_ref p (fst (pbuf_alloced_custom PBUF_RAW k PBUF_REF c (payload (pbufs n p)) k n));
          Some (n\<lparr>frag_original := (frag_original n)(c := p)\<rparr>) }"

lemma mirror_inv:
  assumes I: "net_inv n R" and p: "p \<in> alive n" "pb_ref (pbufs n p) < 65535" and m: "memp_malloc MEMP_FRAG_PBUF (pools n) = (pl, c)" "c \<noteq> NULL"
  shows "\<exists>n'. mirror p k c (n\<lparr>pools := pl\<rparr>) = Some n' \<and> net_inv n' (add_mset c R) \<and> c \<notin> alive n \<and> alive n' = insert c (alive n) \<and> packet n' [c] \<and>
    pb_len (pbufs n' c) = k \<and> pools n' = pl \<and> ram_bytes n' = ram_bytes n \<and> (\<forall>x\<in>alive n. (pbufs n' x)\<lparr>pb_ref := 0\<rparr> = (pbufs n x)\<lparr>pb_ref := 0\<rparr>)"
proof -
  let ?n1 = "upd_pbuf p (\<lambda>b. b\<lparr>pb_ref := pb_ref (pbufs n p) + 1\<rparr>) n"
  let ?b = "\<lambda>b. b\<lparr>pb_next := NULL, payload := (if payload (pbufs n p) \<noteq> NULL then payload (pbufs n p) + mem_align_size 0 else NULL), pb_flags := 2,
    pb_len := k, tot_len := k, pb_type := PBUF_REF, pb_ref := 1\<rparr>"
  define bb where "bb = ?b (pbufs n c)"
  let ?n2 = "?n1\<lparr>pools := pl, alive := insert c (alive n), pbufs := (pbufs ?n1)(c := bb), frag_original := (frag_original n)(c := p)\<rparr>"
  note r = pbuf_ref_spec [OF I p]
  have cu: "is_custom bb" by (simp add: is_custom_def bit_0 bb_def)
  then have po: "pool_of bb = Some MEMP_FRAG_PBUF" by (simp add: pool_of_def)
  have bf: "pb_next bb = NULL" "pb_ref bb = 1" "pb_len bb = k" "tot_len bb = k" by (simp_all add: bb_def)
  have st: "store_inv ?n1" "refs_inv ?n1 (add_mset p R)" using r(2) by (auto simp: net_inv_def)
  have m1: "memp_malloc MEMP_FRAG_PBUF (pools ?n1) = (pl, c)" using m(1) by (simp add: upd_pbuf_def)
  have S: "store_inv ?n2" "c \<notin> alive ?n1"
    using store_new_block(1,2) [OF st(1) m1 m(2), of ?n2] by (simp_all add: upd_pbuf_def cu po)
  have "refs_inv ?n2 (add_mset c R)"
    by (rule refs_inv_new_custom [OF st(2) S(2) m(2)]) (simp_all add: cu bf upd_pbuf_def)
  then have inv: "net_inv ?n2 (add_mset c R)" using S(1) by (simp add: net_inv_def)
  have c: "c \<notin> alive n" "p \<noteq> c" using S(2) p(1) by (auto simp: upd_pbuf_def)
  have p0: "p \<noteq> NULL" using p(1) I refs_invD(2) by (metis net_inv_def)
  have "mirror p k c (n\<lparr>pools := pl\<rparr>) = Some ?n2"
    using c p p0 by (simp add: mirror_def pbuf_alloced_custom_def Let_def upd_pbuf_def claim_def pbuf_ref_def get_pbuf_def pbuf_offset_def to_u16_def
      fun_upd_twist mem_align_size_def bb_def)
  moreover have "packet ?n2 [c]" using m(2) bf by simp
  moreover have "(pbufs ?n2 x)\<lparr>pb_ref := 0\<rparr> = (pbufs n x)\<lparr>pb_ref := 0\<rparr>" if "x \<in> alive n" for x using that c by (auto simp: upd_pbuf_def)
  ultimately show ?thesis using inv c bf by (intro exI [of _ ?n2]) (simp add: upd_pbuf_def)
qed

lemma queued_mirror:
  assumes Q: "queued n L R" and p: "p \<in> alive n" "count R p \<le> 40000" and m: "memp_malloc MEMP_FRAG_PBUF (pools n) = (pl, c)" "c \<noteq> NULL"
  shows "\<exists>n'. mirror p k c (n\<lparr>pools := pl\<rparr>) = Some n' \<and> queued n' L (add_mset c R) \<and> c \<notin> alive n \<and> alive n' = insert c (alive n) \<and> packet n' [c] \<and>
    pb_len (pbufs n' c) = k \<and> ram_bytes n' = ram_bytes n \<and> (\<forall>x\<in>alive n. (pbufs n' x)\<lparr>pb_ref := 0\<rparr> = (pbufs n x)\<lparr>pb_ref := 0\<rparr>)"
proof -
  have I: "net_inv n (mset (map snd L) + R)" using net_okD(1) [OF queuedD(1) [OF Q]] .
  have "pb_ref (pbufs n p) < 65535" using queued_refs [OF Q p(1)] p(2) by simp
  then obtain n' where M: "mirror p k c (n\<lparr>pools := pl\<rparr>) = Some n'" "net_inv n' (add_mset c (mset (map snd L) + R))" "c \<notin> alive n" "alive n' = insert c (alive n)"
    "packet n' [c]" "pb_len (pbufs n' c) = k" "pools n' = pl" "ram_bytes n' = ram_bytes n" "\<forall>x\<in>alive n. (pbufs n' x)\<lparr>pb_ref := 0\<rparr> = (pbufs n x)\<lparr>pb_ref := 0\<rparr>"
    using mirror_inv [OF I p(1) _ m] by blast
  have "heads n' x" if "x \<in># mset (map snd L) + R" for x
  proof (rule heads_kept [OF net_okD(2) [OF queuedD(1) [OF Q] that]])
    show "refs_inv n' (add_mset c (mset (map snd L) + R))" using M(2) by (simp add: net_inv_def)
    show "x \<noteq> NULL \<Longrightarrow> x \<in> alive n'" using held_alive [OF I that] M(4) by blast
  qed (use M(9) header_fields_same(1) in blast)
  moreover have "heads n' c" unfolding heads_def using packet_chained [OF M(5)] by blast
  ultimately have ok: "net_ok n' (add_mset c (mset (map snd L) + R))" using M(2) by (auto simp: net_ok_def)
  have "memp_inv (pools n)" using I store_invD(2) by (simp add: net_inv_def)
  from memp_malloc_live [OF this, of MEMP_FRAG_PBUF] have "memp_live (pools n) \<subseteq> memp_live pl" using m by auto
  then have "aux_block n' t r" if "aux_block n t r" for t r using that M(7) unfolding aux_block_def by auto
  then have "queued n' L (add_mset c R)" using Q ok by (auto simp: queued_def)
  then show ?thesis using M by blast
qed

text \<open>Headers no other header and no held pointer points to.\<close>

definition island :: "net \<Rightarrow> ptr multiset \<Rightarrow> ptr set \<Rightarrow> bool" where
  "island n R S \<longleftrightarrow> (\<forall>x\<in>alive n - S. pb_next (pbufs n x) \<notin> S) \<and> (\<forall>q\<in>#R. q \<notin> S)"

lemma island_chain:
  assumes "island n R S"
  shows "q \<notin> S \<Longrightarrow> chained n (q # qs) \<Longrightarrow> set (q # qs) \<inter> S = {}"
proof (induction qs arbitrary: q)
  case (Cons x qs)
  have "q \<in> alive n - S" "pb_next (pbufs n q) = x" "chained n (x # qs)" using Cons.prems by auto
  then have "x \<notin> S" using assms by (auto simp: island_def)
  then show ?case using Cons by auto
qed auto

lemma island_held: "island n R S \<Longrightarrow> q \<in># R \<Longrightarrow> chained n (q # qs) \<Longrightarrow> set (q # qs) \<inter> S = {}"
  by (rule island_chain) (auto simp: island_def)

text \<open>Changes on an island leave held packets alone.\<close>

lemma island_same:
  assumes i: "island n R S" and a: "alive n \<subseteq> alive n'" and h: "\<And>x. x \<in> alive n \<Longrightarrow> x \<notin> S \<Longrightarrow> (pbufs n' x)\<lparr>pb_ref := 0\<rparr> = (pbufs n x)\<lparr>pb_ref := 0\<rparr>"
  shows "held_same R n n'"
  unfolding held_same_def
proof (intro ballI impI allI)
  fix p qs assume p: "p \<in># R" "chained n (p # qs)"
  have out: "x \<in> alive n \<and> x \<notin> S" if "x \<in> set (p # qs)" for x using island_held [OF i p] chained_alive [OF p(2) that] that by blast
  have "chained n' (p # qs) = chained n (p # qs)"
    by (rule chained_cong) (use out a header_fields_same(1) [OF h] in blast)
  then show "chained n' (p # qs) \<and> (\<forall>x\<in>set (p # qs). (pbufs n' x)\<lparr>pb_ref := 0\<rparr> = (pbufs n x)\<lparr>pb_ref := 0\<rparr>)"
    using p(2) out h by blast
qed

lemma held_same_heads: "held_same R n n' \<Longrightarrow> p \<in># R \<Longrightarrow> heads n p \<Longrightarrow> heads n' p"
  unfolding heads_def held_same_def by blast

text \<open>Appending the new buffer to the fragment.\<close>

definition same_body :: "net \<Rightarrow> net \<Rightarrow> ptr \<Rightarrow> bool" where
  "same_body n n' x \<longleftrightarrow> payload (pbufs n' x) = payload (pbufs n x) \<and> pb_len (pbufs n' x) = pb_len (pbufs n x) \<and>
     pb_type (pbufs n' x) = pb_type (pbufs n x) \<and> pb_flags (pbufs n' x) = pb_flags (pbufs n x)"

lemma append_mirror:
  assumes Q: "queued n L (add_mset rb R)" and rb: "packet n (rb # ts)" "chain_len n (rb # ts) + k < 65536"
    and isl: "island n (mset (map snd L) + R) (set (rb # ts))"
    and p: "p \<in> alive n" "p \<notin> set (rb # ts)" "count R p \<le> 40000" and m: "memp_malloc MEMP_FRAG_PBUF (pools n) = (pl, c)" "c \<noteq> NULL"
  shows "\<exists>n1 n'. mirror p k c (n\<lparr>pools := pl\<rparr>) = Some n1 \<and> pbuf_cat rb c n1 = Some n' \<and> queued n' L (add_mset rb R) \<and>
    packet n' (rb # ts @ [c]) \<and> chain_len n' (rb # ts @ [c]) = chain_len n (rb # ts) + k \<and> island n' (mset (map snd L) + R) (set (rb # ts @ [c])) \<and>
    alive n \<subseteq> alive n' \<and> ram_bytes n' = ram_bytes n \<and> c \<notin> alive n \<and> p \<in> alive n' \<and>
    (\<forall>x\<in>alive n. same_body n n' x) \<and> (\<forall>x\<in>alive n. x \<notin> set (rb # ts) \<longrightarrow> (pbufs n' x)\<lparr>pb_ref := 0\<rparr> = (pbufs n x)\<lparr>pb_ref := 0\<rparr>)"
proof -
  let ?M = "mset (map snd L) + R"
  have rb0: "rb \<noteq> NULL" using rb(1) by simp
  have I: "net_inv n (mset (map snd L) + add_mset rb R)" using net_okD(1) [OF queuedD(1) [OF Q]] .
  have prb: "p \<noteq> rb" using p(2) by auto
  obtain n1 where M: "mirror p k c (n\<lparr>pools := pl\<rparr>) = Some n1" "queued n1 L (add_mset c (add_mset rb R))" "c \<notin> alive n" "alive n1 = insert c (alive n)"
    "packet n1 [c]" "pb_len (pbufs n1 c) = k" "ram_bytes n1 = ram_bytes n" "\<forall>x\<in>alive n. (pbufs n1 x)\<lparr>pb_ref := 0\<rparr> = (pbufs n x)\<lparr>pb_ref := 0\<rparr>"
  proof -
    have "count (add_mset rb R) p \<le> 40000" using p(3) prb by simp
    from queued_mirror [OF Q p(1) this m, of k] show thesis by (elim exE conjE) (rule that)
  qed
  have I1: "net_inv n1 (add_mset c (mset (map snd L) + add_mset rb R))" using net_okD(1) [OF queuedD(1) [OF M(2)]] by simp
  have al: "x \<in> alive n" if "x \<in> set (rb # ts)" for x using packet_alive [OF rb(1) that] by blast
  have pk1: "packet n1 (rb # ts)" "chain_len n1 (rb # ts) = chain_len n (rb # ts)"
  proof -
    have c1: "chained n1 (rb # ts)" using packet_chained [OF rb(1)] chained_cong [of "rb # ts" n1 n] al M(4,8) header_fields_same(1) by blast
    show "packet n1 (rb # ts)" "chain_len n1 (rb # ts) = chain_len n (rb # ts)" using packet_headers [OF rb(1) c1] al M(8) by blast+
  qed
  have cs: "set (rb # ts) \<inter> set [c] = {}" using al M(3) by auto
  have l: "chain_len n1 (rb # ts) + chain_len n1 [c] < 65536" using pk1(2) M(6) rb(2) by simp
  have I2: "net_inv n1 (add_mset (first_ptr [c]) (mset (map snd L) + add_mset rb R))" using I1 by simp
  obtain n' where C: "pbuf_cat (first_ptr (rb # ts)) (first_ptr [c]) n1 = Some n'" "net_inv n' (mset (map snd L) + add_mset rb R)" "packet n' ((rb # ts) @ [c])" "alive n' = alive n1"
    "ram_bytes n' = ram_bytes n1" "pools n' = pools n1" "\<forall>x. x \<notin> set (rb # ts) \<longrightarrow> pbufs n' x = pbufs n1 x" "\<forall>x. pb_len (pbufs n' x) = pb_len (pbufs n1 x)"
    "\<forall>x. same_body n1 n' x"
    using pbuf_cat_spec [OF I2 pk1(1) _ M(5) _ cs l] unfolding same_body_def by auto
  have same: "(pbufs n' x)\<lparr>pb_ref := 0\<rparr> = (pbufs n x)\<lparr>pb_ref := 0\<rparr>" if "x \<in> alive n" "x \<notin> set (rb # ts)" for x using C(7) M(8) that by metis
  have sub: "alive n \<subseteq> alive n'" using C(4) M(4) by auto
  have hs: "held_same ?M n n'" by (rule island_same [OF isl sub same])
  have "heads n' x" if "x \<in># ?M" for x
    by (rule held_same_heads [OF hs that]) (use net_okD(2) [OF queuedD(1) [OF Q], of x] that in auto)
  moreover have "heads n' rb" unfolding heads_def using packet_chained [OF C(3)] by auto
  ultimately have "net_ok n' (mset (map snd L) + add_mset rb R)" using C(2) by (auto simp: net_ok_def)
  then have q': "queued n' L (add_mset rb R)" using M(2) C(6) by (auto simp: queued_def aux_block_def)
  have isl': "island n' ?M (set (rb # ts @ [c]))" unfolding island_def
  proof (intro conjI ballI)
    fix x assume x: "x \<in> alive n' - set (rb # ts @ [c])"
    then have xn: "x \<in> alive n" "x \<notin> set (rb # ts)" using C(4) M(4) by auto
    have nx: "pb_next (pbufs n' x) = pb_next (pbufs n x)" using header_fields_same(1) [OF same [OF xn]] .
    have "pb_next (pbufs n x) \<notin> set (rb # ts)" using isl xn by (auto simp: island_def)
    moreover have "pb_next (pbufs n x) \<noteq> c" using refs_inv_next [of n _ x] I xn(1) M(3) m(2) unfolding net_inv_def by metis
    ultimately show "pb_next (pbufs n' x) \<notin> set (rb # ts @ [c])" using nx by simp
  next
    fix q assume q: "q \<in># ?M"
    then have "q \<noteq> c" using held_alive [OF I, of q] M(3) m(2) by auto
    then show "q \<notin> set (rb # ts @ [c])" using isl q by (auto simp: island_def)
  qed
  have cl: "chain_len n' (rb # ts @ [c]) = chain_len n (rb # ts) + k"
    using pk1(2) M(6) C(8) by (simp add: chain_len_def)
  have bod: "same_body n n' x" if "x \<in> alive n" for x
    using C(9) header_fields_same [OF bspec [OF M(8) that]] by (simp add: same_body_def)
  show ?thesis using bod M(1,3,4,7) C q' isl' cl same sub p(1) by (intro exI [of _ n1] exI [of _ n']) auto
qed

lemma frag_fill_step:
  assumes "p \<in> alive n" "left \<noteq> 0" "k = (if left < pb_len (pbufs n p) then left else pb_len (pbufs n p))" "k \<noteq> 0"
    "memp_malloc MEMP_FRAG_PBUF (pools n) = (pl, c)" "c \<noteq> NULL"
    "mirror p k c (n\<lparr>pools := pl\<rparr>) = Some n1" "pbuf_cat rb c n1 = Some n'" "p \<in> alive n'"
  shows "frag_fill rb p left j n = frag_fill rb (if usub 16 left k \<noteq> 0 then pb_next (pbufs n' p) else p) (usub 16 left k) k n'"
proof -
  obtain n0 where c: "pbuf_alloced_custom PBUF_RAW k PBUF_REF c (payload (pbufs n p)) k (n\<lparr>pools := pl\<rparr>) = (n0, c)"
    by (simp add: pbuf_alloced_custom_def Let_def pbuf_offset_def mem_align_size_def)
  obtain n2 where n2: "pbuf_ref p n0 = Some n2" "n1 = n2\<lparr>frag_original := (frag_original n2)(c := p)\<rparr>"
    using assms(7) unfolding mirror_def by (auto simp: c split: bind_splits)
  have g: "get_pbuf p n = Some (pbufs n p)" "get_pbuf p n' = Some (pbufs n' p)" using assms(1,9) by (simp_all add: get_pbuf_def)
  show ?thesis
    by (subst frag_fill.simps) (simp only: assms(2) if_False g bind.simps Let_def assms(3) [symmetric] assms(4,5,6) prod.case c n2(1) n2(2) [symmetric] assms(8))
qed

lemma frag_fill_skip:
  assumes "p \<in> alive n" "left \<noteq> 0" "pb_len (pbufs n p) = 0"
  shows "frag_fill rb p left j n = frag_fill rb (pb_next (pbufs n p)) left 0 n"
  by (subst frag_fill.simps) (use assms in \<open>simp add: get_pbuf_def\<close>)

lemma frag_fill_fail:
  assumes "p \<in> alive n" "left \<noteq> 0" "pb_len (pbufs n p) \<noteq> 0" "memp_malloc MEMP_FRAG_PBUF (pools n) = (pools n, NULL)"
  shows "frag_fill rb p left j n = do { (n, _) \<leftarrow> pbuf_free rb n; Some (n, None) }"
  by (subst frag_fill.simps) (use assms in \<open>simp add: get_pbuf_def\<close>)

text \<open>The fragment under construction, \<open>rb # ts\<close>, and the rest \<open>p # rest\<close> of the packet it is taken from.\<close>

definition filling :: "net \<Rightarrow> (ptr \<times> ptr) list \<Rightarrow> ptr multiset \<Rightarrow> ptr list \<Rightarrow> ptr list \<Rightarrow> bool" where
  "filling n L R ts ps \<longleftrightarrow> queued n L (add_mset (first_ptr ts) R) \<and> ts \<noteq> [] \<and> packet n ts \<and> island n (mset (map snd L) + R) (set ts) \<and>
     chained n ps \<and> set ts \<inter> set ps = {} \<and> (\<forall>p\<in>set ps. count R p \<le> 40000)"

lemma chained_suffix: "chained n (pre @ ps) \<Longrightarrow> chained n ps"
  by (induction pre) auto

lemma fillingD:
  assumes "filling n L R ts ps"
  shows "queued n L (add_mset (first_ptr ts) R)" "packet n ts" "island n (mset (map snd L) + R) (set ts)" "chained n ps" "set ts \<inter> set ps = {}"
    "p \<in> set ps \<Longrightarrow> count R p \<le> 40000" "ts \<noteq> []" "p \<in> set ps \<Longrightarrow> p \<in> alive n" "first_ptr ts \<noteq> NULL" "p \<in> set ps \<Longrightarrow> p \<notin> set ts"
proof -
  show "queued n L (add_mset (first_ptr ts) R)" "packet n ts" "island n (mset (map snd L) + R) (set ts)" "chained n ps" "set ts \<inter> set ps = {}"
    "p \<in> set ps \<Longrightarrow> count R p \<le> 40000" "ts \<noteq> []" "p \<in> set ps \<Longrightarrow> p \<notin> set ts" using assms by (auto simp: filling_def)
  show "p \<in> set ps \<Longrightarrow> p \<in> alive n" using chained_alive assms by (auto simp: filling_def)
  show "first_ptr ts \<noteq> NULL" using assms by (cases ts) (auto simp: filling_def)
qed

definition undisturbed :: "ptr list \<Rightarrow> net \<Rightarrow> net \<Rightarrow> bool" where
  "undisturbed ts n n' \<longleftrightarrow> alive n \<subseteq> alive n' \<and> ram_bytes n' = ram_bytes n \<and>
     (\<forall>x\<in>alive n. same_body n n' x) \<and> (\<forall>x\<in>alive n. x \<notin> set ts \<longrightarrow> (pbufs n' x)\<lparr>pb_ref := 0\<rparr> = (pbufs n x)\<lparr>pb_ref := 0\<rparr>)"

lemma undisturbed_chain:
  assumes "undisturbed ts n n'" "chained n ps" "set ts \<inter> set ps = {}"
  shows "chained n' ps" "chain_len n' ps = chain_len n ps" "x \<in> set ps \<Longrightarrow> pb_len (pbufs n' x) = pb_len (pbufs n x)" "x \<in> set ps \<Longrightarrow> pb_next (pbufs n' x) = pb_next (pbufs n x)"
proof -
  have h: "(pbufs n' x)\<lparr>pb_ref := 0\<rparr> = (pbufs n x)\<lparr>pb_ref := 0\<rparr>" "x \<in> alive n" if "x \<in> set ps" for x
    using assms chained_alive [OF assms(2) that] that unfolding undisturbed_def by blast+
  show l: "x \<in> set ps \<Longrightarrow> pb_len (pbufs n' x) = pb_len (pbufs n x)" "x \<in> set ps \<Longrightarrow> pb_next (pbufs n' x) = pb_next (pbufs n x)" for x
    by (rule header_fields_same [OF h(1)], assumption)+
  have "chained n' ps = chained n ps" by (rule chained_cong) (use h(2) l(2) assms(1) in \<open>auto simp: undisturbed_def\<close>)
  then show "chained n' ps" using assms(2) by simp
  show "chain_len n' ps = chain_len n ps" by (rule chain_len_cong) (rule l(1))
qed

lemma fill_one:
  assumes F: "filling n L R ts (p # rest)" and l: "chain_len n ts + left < 65536" "left \<noteq> 0" "pb_len (pbufs n p) \<noteq> 0"
  defines "k \<equiv> if left < pb_len (pbufs n p) then left else pb_len (pbufs n p)"
  shows "(\<exists>n'. frag_fill (first_ptr ts) p left j n = Some (n', None) \<and> queued n' L R \<and> still R n n') \<or>
    (\<exists>n' c. frag_fill (first_ptr ts) p left j n = frag_fill (first_ptr ts) (if left - k \<noteq> 0 then first_ptr rest else p) (left - k) k n' \<and>
      filling n' L R (ts @ [c]) (p # rest) \<and> chain_len n' (ts @ [c]) = chain_len n ts + k \<and> undisturbed ts n n' \<and> c \<notin> alive n)"
proof -
  note D = fillingD [OF F]
  have pa: "p \<in> alive n" "p \<notin> set ts" "count R p \<le> 40000" using D(6,8,10) by auto
  have k: "k \<noteq> 0" "k \<le> left" using l by (auto simp: k_def)
  obtain rb us where ts: "ts = rb # us" using D(7) by (cases ts) auto
  obtain pl c where m: "memp_malloc MEMP_FRAG_PBUF (pools n) = (pl, c)" by fastforce
  show ?thesis
  proof (cases "c = NULL")
    case True
    have st: "store_inv n" using net_okD(1) [OF queuedD(1) [OF D(1)]] by (simp add: net_inv_def)
    have "n\<lparr>pools := pl\<rparr> = n" using memp_malloc_fail [OF st] m True by simp
    then have pl: "pl = pools n" by (metis net.select_convs(2) net.update_convs(2) net.surjective)
    obtain n' q where f: "pbuf_free (first_ptr ts) n = Some (n', q)" "queued n' L R" "still R n n'" using queued_free [OF D(1,9)] by blast
    have "frag_fill (first_ptr ts) p left j n = Some (n', None)"
      using frag_fill_fail [OF pa(1) l(2,3)] m pl True f(1) by simp
    then show ?thesis using f by blast
  next
    case False
    obtain n1 n' where A: "mirror p k c (n\<lparr>pools := pl\<rparr>) = Some n1" "pbuf_cat rb c n1 = Some n'" "queued n' L (add_mset rb R)"
      "packet n' (rb # us @ [c])" "chain_len n' (rb # us @ [c]) = chain_len n (rb # us) + k" "island n' (mset (map snd L) + R) (set (rb # us @ [c]))"
      "alive n \<subseteq> alive n'" "ram_bytes n' = ram_bytes n" "c \<notin> alive n" "p \<in> alive n'" "\<forall>x\<in>alive n. same_body n n' x"
      "\<forall>x\<in>alive n. x \<notin> set (rb # us) \<longrightarrow> (pbufs n' x)\<lparr>pb_ref := 0\<rparr> = (pbufs n x)\<lparr>pb_ref := 0\<rparr>"
      using append_mirror [of n L rb R us k p pl c] D(1-3) pa m False l(1) k(2) unfolding ts by auto
    have u: "undisturbed ts n n'" using A(7,8,11,12) by (simp add: undisturbed_def ts)
    note U = undisturbed_chain [OF u D(4,5)]
    have lk: "usub 16 left k = left - k" using k(2) l(1) by (simp add: usub_def)
    have nx: "pb_next (pbufs n' p) = first_ptr rest" using U(4) [of p] D(4) by simp
    have "frag_fill (first_ptr ts) p left j n = frag_fill (first_ptr ts) (if left - k \<noteq> 0 then first_ptr rest else p) (left - k) k n'"
      using frag_fill_step [OF pa(1) l(2) meta_eq_to_obj_eq [OF k_def] k(1) m False A(1,2,10)] lk nx by (simp add: ts)
    moreover have "filling n' L R (ts @ [c]) (p # rest)"
      using A(3,4,6) U(1) D(5,6) A(9) D(8) unfolding filling_def ts by auto
    ultimately show ?thesis using A(5,9) u by (intro disjI2 exI [of _ n'] exI [of _ c]) (simp add: ts)
  qed
qed

lemma filling_same: "filling n L R ts ps \<Longrightarrow> undisturbed ts n n' \<Longrightarrow> held_same R n n'"
  by (rule island_same [of n R "set ts"]) (auto simp: filling_def undisturbed_def island_def)

lemma undisturbed_trans:
  assumes "undisturbed ts n n1" "undisturbed (ts @ [c]) n1 n2" "c \<notin> alive n"
  shows "undisturbed ts n n2"
  unfolding undisturbed_def
proof (intro conjI ballI impI)
  show "same_body n n2 x" if "x \<in> alive n" for x using assms(1,2) that by (auto simp: undisturbed_def same_body_def)
  show "alive n \<subseteq> alive n2" "ram_bytes n2 = ram_bytes n" using assms by (auto simp: undisturbed_def)
  fix x assume x: "x \<in> alive n" "x \<notin> set ts"
  then have "x \<in> alive n1" "x \<notin> set (ts @ [c])" using assms(1,3) by (auto simp: undisturbed_def)
  then show "(pbufs n2 x)\<lparr>pb_ref := 0\<rparr> = (pbufs n x)\<lparr>pb_ref := 0\<rparr>" using assms(1,2) x unfolding undisturbed_def by metis
qed

lemma frag_fill_0: "frag_fill rb p 0 j n = Some (n, Some (p, j))"
  by (simp add: frag_fill.simps)

text \<open>The fragment has got its bytes, and the walk stopped \<open>k\<close> bytes into \<open>p'\<close>.\<close>

definition filled_to :: "net \<Rightarrow> (ptr \<times> ptr) list \<Rightarrow> ptr multiset \<Rightarrow> ptr list \<Rightarrow> ptr list \<Rightarrow> nat \<Rightarrow> net \<Rightarrow> ptr \<Rightarrow> nat \<Rightarrow> bool" where
  "filled_to n L R ts ps left n' p' k \<longleftrightarrow> (\<exists>ts' pre rest. filling n' L R (ts @ ts') (p' # rest) \<and> chain_len n' (ts @ ts') = chain_len n ts + left \<and>
     ps = pre @ p' # rest \<and> undisturbed ts n n' \<and>
     (left \<noteq> 0 \<longrightarrow> k \<le> pb_len (pbufs n p') \<and> chain_len n (p' # rest) + left = chain_len n ps + k))"

lemma filled_0: "filling n L R ts (p # rest) \<Longrightarrow> filled_to n L R ts (p # rest) 0 n p j"
  unfolding filled_to_def by (intro exI [of _ "[]"] exI [of _ rest]) (simp add: undisturbed_def same_body_def)

lemma filled_last:
  assumes "filling n' L R (ts @ [c]) (p # rest)" "chain_len n' (ts @ [c]) = chain_len n ts + left" "undisturbed ts n n'" "left \<le> pb_len (pbufs n p)"
  shows "filled_to n L R ts (p # rest) left n' p left"
  unfolding filled_to_def by (intro exI [of _ "[c]"] exI [of _ "[]"] exI [of _ rest]) (use assms in simp)

lemma filled_skip:
  assumes "filled_to n L R ts ps left n' p' k" "pb_len (pbufs n p) = 0"
  shows "filled_to n L R ts (p # ps) left n' p' k"
proof -
  obtain ts' pre rest where a: "filling n' L R (ts @ ts') (p' # rest)" "chain_len n' (ts @ ts') = chain_len n ts + left" "ps = pre @ p' # rest" "undisturbed ts n n'"
     "left \<noteq> 0 \<longrightarrow> k \<le> pb_len (pbufs n p') \<and> chain_len n (p' # rest) + left = chain_len n ps + k" using assms(1) unfolding filled_to_def by blast
  show ?thesis unfolding filled_to_def by (intro exI [of _ ts'] exI [of _ "p # pre"] exI [of _ rest]) (use a assms(2) in simp)
qed

lemma filled_more:
  assumes f: "filled_to n1 L R (ts @ [c]) ps (left - pb_len (pbufs n p)) n' p' k" and u: "undisturbed ts n n1" "c \<notin> alive n"
    and l: "chain_len n1 (ts @ [c]) = chain_len n ts + pb_len (pbufs n p)" "pb_len (pbufs n p) < left"
    and ps: "chained n ps" "set ts \<inter> set ps = {}"
  shows "filled_to n L R ts (p # ps) left n' p' k"
proof -
  obtain ts' pre rest where a: "filling n' L R ((ts @ [c]) @ ts') (p' # rest)" "chain_len n' ((ts @ [c]) @ ts') = chain_len n1 (ts @ [c]) + (left - pb_len (pbufs n p))"
     "ps = pre @ p' # rest" "undisturbed (ts @ [c]) n1 n'"
     "k \<le> pb_len (pbufs n1 p')" "chain_len n1 (p' # rest) + (left - pb_len (pbufs n p)) = chain_len n1 ps + k" using f l(2) unfolding filled_to_def by auto
  note U = undisturbed_chain [OF u(1) ps]
  have "chained n (p' # rest)" "set ts \<inter> set (p' # rest) = {}" using ps a(3) chained_suffix [of n pre "p' # rest"] by auto
  note V = undisturbed_chain [OF u(1) this]
  have "filling n' L R (ts @ c # ts') (p' # rest)" using a(1) by simp
  moreover have "chain_len n' (ts @ c # ts') = chain_len n ts + left" using a(2) l by simp
  moreover have "k \<le> pb_len (pbufs n p')" using a(5) V(3) [of p'] by simp
  moreover have "chain_len n (p' # rest) + left = chain_len n (p # ps) + k" using a(6) V(2) U(2) l(2) by simp
  ultimately show ?thesis unfolding filled_to_def using a(3) undisturbed_trans [OF u(1) a(4) u(2)]
    by (intro exI [of _ "c # ts'"] exI [of _ "p # pre"] exI [of _ rest]) simp
qed

lemma frag_fill_ok:
  assumes "filling n L R ts (p # rest)" "chain_len n ts + left < 65536" "left \<le> chain_len n (p # rest)"
  shows "\<exists>n' r. frag_fill (first_ptr ts) p left j n = Some (n', r) \<and>
    (case r of None \<Rightarrow> queued n' L R \<and> still R n n' | Some (p', k) \<Rightarrow> filled_to n L R ts (p # rest) left n' p' k)"
  using assms
proof (induction rest arbitrary: p n ts left j)
  case Nil
  note F = Nil
  show ?case
  proof (cases "left = 0")
    case True
    then show ?thesis using filled_0 [OF F(1)] by (simp add: frag_fill_0)
  next
    case False
    then have pl: "pb_len (pbufs n p) \<noteq> 0" "left \<le> pb_len (pbufs n p)" using F(3) by auto
    have k: "(if left < pb_len (pbufs n p) then left else pb_len (pbufs n p)) = left" using pl(2) by auto
    have "(\<exists>n'. frag_fill (first_ptr ts) p left j n = Some (n', None) \<and> queued n' L R \<and> still R n n') \<or>
      (\<exists>n' c. frag_fill (first_ptr ts) p left j n = Some (n', Some (p, left)) \<and> filled_to n L R ts [p] left n' p left)"
      using fill_one [OF F(1,2) False pl(1), of j] filled_last [of _ L R ts _ p "[]" n left] pl(2) unfolding k by (auto simp: frag_fill_0)
    then show ?thesis by fastforce
  qed
next
  case (Cons x rest)
  note F = Cons.prems
  note D = fillingD [OF F(1)]
  have nx: "pb_next (pbufs n p) = x" using D(4) by simp
  consider "left = 0" | (skip) "left \<noteq> 0" "pb_len (pbufs n p) = 0" | (fill) "left \<noteq> 0" "pb_len (pbufs n p) \<noteq> 0" by blast
  then show ?case
  proof cases
    case 1
    then show ?thesis using filled_0 [OF F(1)] by (simp add: frag_fill_0)
  next
    case skip
    have f: "filling n L R ts (x # rest)" using F(1) by (auto simp: filling_def)
    obtain n' r where r: "frag_fill (first_ptr ts) x left 0 n = Some (n', r)"
        "case r of None \<Rightarrow> queued n' L R \<and> still R n n' | Some (p', k) \<Rightarrow> filled_to n L R ts (x # rest) left n' p' k"
      using Cons.IH [OF f F(2), of 0] F(3) skip(2) by auto
    have "frag_fill (first_ptr ts) p left j n = Some (n', r)" using frag_fill_skip [OF _ skip] D(8) nx r(1) by simp
    then show ?thesis using r(2) filled_skip [OF _ skip(2)] by (auto split: option.splits)
  next
    case fill
    let ?k = "if left < pb_len (pbufs n p) then left else pb_len (pbufs n p)"
    from fill_one [OF F(1,2) fill, of j] show ?thesis
    proof (elim disjE exE conjE)
      fix n' assume "frag_fill (first_ptr ts) p left j n = Some (n', None)" "queued n' L R" "still R n n'"
      then show ?thesis by simp
    next
      fix n1 c assume a: "frag_fill (first_ptr ts) p left j n = frag_fill (first_ptr ts) (if left - ?k \<noteq> 0 then first_ptr (x # rest) else p) (left - ?k) ?k n1"
        "filling n1 L R (ts @ [c]) (p # x # rest)" "chain_len n1 (ts @ [c]) = chain_len n ts + ?k" "undisturbed ts n n1" "c \<notin> alive n"
      show ?thesis
      proof (cases "left \<le> pb_len (pbufs n p)")
        case True
        then have k: "?k = left" by auto
        show ?thesis using a filled_last [OF a(2) _ a(4) True] unfolding k by (simp add: frag_fill_0)
      next
        case False
        then have k: "?k = pb_len (pbufs n p)" by auto
        have f1: "filling n1 L R (ts @ [c]) (x # rest)" using a(2) by (auto simp: filling_def)
        have ps: "chained n (x # rest)" "set ts \<inter> set (x # rest) = {}" using D(4,5) by auto
        note U = undisturbed_chain [OF a(4) ps]
        have "chain_len n1 (ts @ [c]) + (left - pb_len (pbufs n p)) < 65536" "left - pb_len (pbufs n p) \<le> chain_len n1 (x # rest)"
          using a(3) k F(2,3) False U(2) by auto
        from Cons.IH [OF f1 this, of "pb_len (pbufs n p)"] obtain n' r where
          r: "frag_fill (first_ptr (ts @ [c])) x (left - pb_len (pbufs n p)) (pb_len (pbufs n p)) n1 = Some (n', r)"
            "case r of None \<Rightarrow> queued n' L R \<and> still R n1 n' | Some (p', k) \<Rightarrow> filled_to n1 L R (ts @ [c]) (x # rest) (left - pb_len (pbufs n p)) n' p' k" by blast
        have fp: "first_ptr (ts @ [c]) = first_ptr ts" using D(7) by (cases ts) auto
        have E: "frag_fill (first_ptr ts) p left j n = Some (n', r)" using a(1) r(1) False unfolding k fp by simp
        show ?thesis
        proof (cases r)
          case None
          have "still R n n1" using filling_same [OF F(1) a(4)] a(4) by (simp add: still_def undisturbed_def)
          then show ?thesis using E r(2) None still_trans by auto
        next
          case (Some y)
          obtain p' k' where y: "y = (p', k')" by (cases y)
          have f2: "filled_to n1 L R (ts @ [c]) (x # rest) (left - pb_len (pbufs n p)) n' p' k'" using r(2) Some y by simp
          have "filled_to n L R ts (p # x # rest) left n' p' k'"
            by (rule filled_more [OF f2 a(4,5) _ _ ps]) (use a(3) k False in auto)
          then show ?thesis using E Some y by simp
        qed
      qed
    qed
  qed
qed

lemma alloc_ram_type:
  assumes "pbuf_alloc layer len PBUF_RAM s = Some (s', p)" "p \<noteq> NULL"
  shows "pb_type (pbufs s' p) = PBUF_RAM" "pb_flags (pbufs s' p) = 0"
  using assms by (auto simp: pbuf_alloc_def Let_def upd_pbuf_def claim_def split: option.splits if_splits prod.splits)

text \<open>The packets whose chains avoid \<open>S\<close> are left alone.\<close>

definition off :: "net \<Rightarrow> ptr set \<Rightarrow> ptr \<Rightarrow> bool" where
  "off n S q \<longleftrightarrow> (\<forall>qs. chained n (q # qs) \<longrightarrow> set (q # qs) \<inter> S = {})"

definition spared :: "ptr multiset \<Rightarrow> ptr set \<Rightarrow> net \<Rightarrow> net \<Rightarrow> bool" where
  "spared R S n n' \<longleftrightarrow> held_same {#q \<in># R. off n S q#} n n'"

lemma spared_same: "held_same R n n' \<Longrightarrow> spared R S n n'"
  unfolding spared_def by (rule held_same_sub) auto

lemma spared_trans:
  assumes "spared R S n n1" "spared R S n1 n2"
  shows "spared R S n n2"
  unfolding spared_def held_same_def
proof (intro ballI impI allI)
  fix p qs assume p: "p \<in># {#q \<in># R. off n S q#}" "p \<noteq> NULL" "chained n (p # qs)"
  note A = held_sameE [OF assms(1) [unfolded spared_def] p(1,3)]
  have "off n1 S p" unfolding off_def
  proof (intro allI impI)
    fix rs assume "chained n1 (p # rs)"
    from chained_det [OF this A(1)] have "rs = qs" by simp
    then show "set (p # rs) \<inter> S = {}" using p by (auto simp: off_def)
  qed
  then have "p \<in># {#q \<in># R. off n1 S q#}" using p(1) by simp
  note B = held_sameE [OF assms(2) [unfolded spared_def] this A(1)]
  show "chained n2 (p # qs) \<and> (\<forall>x\<in>set (p # qs). (pbufs n2 x)\<lparr>pb_ref := 0\<rparr> = (pbufs n x)\<lparr>pb_ref := 0\<rparr>)" using A(2) B by auto
qed

lemma spared_upd:
  assumes "\<And>x. x \<notin> S \<Longrightarrow> pbufs n' x = pbufs n x" "alive n' = alive n"
  shows "spared R S n n'"
  unfolding spared_def held_same_def
proof (intro ballI impI allI)
  fix p qs assume p: "p \<in># {#q \<in># R. off n S q#}" "p \<noteq> NULL" "chained n (p # qs)"
  then have e: "pbufs n' x = pbufs n x" if "x \<in> set (p # qs)" for x using that assms(1) unfolding off_def by auto
  have "chained n' (p # qs) = chained n (p # qs)" by (rule chained_cong) (use e assms(2) in auto)
  then show "chained n' (p # qs) \<and> (\<forall>x\<in>set (p # qs). (pbufs n' x)\<lparr>pb_ref := 0\<rparr> = (pbufs n x)\<lparr>pb_ref := 0\<rparr>)" using p(3) e by auto
qed

subsection \<open>The rest of the current buffer\<close>

definition advance :: "ptr \<Rightarrow> nat \<Rightarrow> net \<Rightarrow> net" where
  "advance p k = upd_pbuf p (\<lambda>b. b\<lparr>payload := payload b + k, pb_len := usub 16 (pb_len b) k\<rparr>)"

lemma advance_fields [simp]: "alive (advance p k n) = alive n" "ram_bytes (advance p k n) = ram_bytes n" "pools (advance p k n) = pools n"
  "pb_next (pbufs (advance p k n) x) = pb_next (pbufs n x)" "x \<noteq> p \<Longrightarrow> pbufs (advance p k n) x = pbufs n x"
  by (simp_all add: advance_def upd_pbuf_def)

lemma advance_chained [simp]: "chained (advance p k n) qs = chained n qs"
  by (rule chained_cong) simp_all

lemma advance_len:
  assumes "k \<le> pb_len (pbufs n p)" "pb_len (pbufs n p) < 65536"
  shows "pb_len (pbufs (advance p k n) p) = pb_len (pbufs n p) - k"
  using assms by (simp add: advance_def upd_pbuf_def usub_def)

lemma queued_advance:
  assumes Q: "queued n L R" and p: "p \<in> alive n" "k \<le> pb_len (pbufs n p)" "pb_len (pbufs n p) < 65536"
  shows "queued (advance p k n) L R"
proof -
  have "net_inv (advance p k n) (mset (map snd L) + R)"
    by (rule net_move_payload [OF net_okD(1) [OF queuedD(1) [OF Q]] p(1)])
       (use p advance_len [OF p(2,3)] in \<open>auto simp: advance_def upd_pbuf_def usub_def\<close>)
  then have "net_ok (advance p k n) (mset (map snd L) + R)"
    by (rule net_ok_keep) (use net_okD(2) [OF queuedD(1) [OF Q]] in auto)
  then show ?thesis using Q by (simp add: queued_def aux_block_def)
qed

lemma frag_loop_step:
  fixes s :: "'a arp_scheme"
  assumes "left \<noteq> 0" "pbuf_alloc PBUF_LINK IP_HLEN PBUF_RAM (nt s) = Some (n1, rb)" "rb \<noteq> NULL" "rb \<in> alive n1" "p \<in> alive n1"
    and cop: "cop = (if int left \<le> int mt - int IP_HLEN then left else to_u16 (frag_blocks mt * 8))"
    and f: "frag_fill rb p cop j (advance p poff (n1\<lparr>ram_bytes := memcpy IP_HLEN (payload (pbufs n1 rb)) oh (ram_bytes n1)\<rparr>)) = Some (n3, r)"
    and g: "g = correct_header (payload (pbufs n1 rb)) ((if int left \<le> int mt - int IP_HLEN then omf OR (IP_OFFMASK AND ofo) else omf OR (IP_OFFMASK AND ofo) OR IP_MF)) cop"
  shows "ip_frag_loop nf dest oh mt omf p left ofo poff j s = (case r of None \<Rightarrow> Some (s\<lparr>nt := n3\<rparr>, ERR_MEM)
    | Some (p', k) \<Rightarrow> do {
        (s, _) \<leftarrow> etharp_output nf rb dest (s\<lparr>nt := n3\<lparr>ram_bytes := g (ram_bytes n3)\<rparr>\<rparr>);
        (s, _) \<leftarrow> on_net (pbuf_free rb) s;
        ip_frag_loop nf dest oh mt omf p' (usub 16 left cop) (ofo + word_of_nat (frag_blocks mt)) k k s })"
proof -
  have A: "on_net (pbuf_alloc PBUF_LINK IP_HLEN PBUF_RAM) s = Some (s\<lparr>nt := n1\<rparr>, rb)" using assms(2) by (simp add: on_net_def)
  let ?n2 = "advance p poff (n1\<lparr>ram_bytes := memcpy IP_HLEN (payload (pbufs n1 rb)) oh (ram_bytes n1)\<rparr>)"
  have B: "on_net (frag_fill rb p cop j) (s\<lparr>nt := ?n2\<rparr>) = Some (s\<lparr>nt := n3\<rparr>, r)" using f by (simp add: on_net_def)
  have C: "upd_ram (memcpy IP_HLEN (payload (pbufs n1 rb)) oh) (s\<lparr>nt := n1\<rparr>) = s\<lparr>nt := n1\<lparr>ram_bytes := memcpy IP_HLEN (payload (pbufs n1 rb)) oh (ram_bytes n1)\<rparr>\<rparr>"
    by (simp add: upd_ram_def)
  have D: "upd_net (upd_pbuf p (\<lambda>b. b\<lparr>payload := payload b + poff, pb_len := usub 16 (pb_len b) poff\<rparr>)) (s\<lparr>nt := n\<rparr>) = s\<lparr>nt := advance p poff n\<rparr>" for n
    by (simp add: upd_net_def advance_def)
  have G: "get_pbuf rb (nt (s\<lparr>nt := n1\<rparr>)) = Some (pbufs n1 rb)" "get_pbuf p (nt (s\<lparr>nt := n1\<lparr>ram_bytes := m\<rparr>\<rparr>)) = Some (pbufs n1 p)" for m
    using assms(4,5) by (simp_all add: get_pbuf_def)
  have H: "(omf OR (IP_OFFMASK AND ofo)) OR IP_MF = omf OR (IP_OFFMASK AND ofo) OR IP_MF" by (simp add: or.assoc)
  show ?thesis
    apply (subst ip_frag_loop.simps)
    apply (simp only: if_not_P [OF assms(1)] Let_def A bind.simps prod.case if_not_P [OF assms(3)] G C D cop [symmetric] B H g [symmetric])
    apply (simp only: upd_ram_def)
    apply (cases r; simp)
    done
qed

subsection \<open>The outer loop\<close>

text \<open>The datagram \<open>H\<close> is held; the fragments still to be sent start \<open>poff\<close> bytes into the first of its buffers \<open>ps\<close>.\<close>

definition cutting :: "'a arp_scheme \<Rightarrow> ptr multiset \<Rightarrow> ptr list \<Rightarrow> ptr list \<Rightarrow> nat \<Rightarrow> nat \<Rightarrow> bool" where
  "cutting s R H ps poff left \<longleftrightarrow> arp_ok s R \<and> first_ptr H \<in># R \<and> H \<noteq> [] \<and> chained (nt s) H \<and> (\<exists>pre. H = pre @ ps) \<and> ps \<noteq> [] \<and>
     poff \<le> pb_len (pbufs (nt s) (hd ps)) \<and> chain_len (nt s) ps = left + poff \<and> left + poff < 65536 \<and> (\<forall>x\<in>set H. count R x \<le> 40000)"

lemma cuttingD:
  assumes "cutting s R H ps poff left"
  shows "arp_ok s R" "first_ptr H \<in># R" "chained (nt s) H" "chained (nt s) ps" "set ps \<subseteq> set H" "chain_len (nt s) ps = left + poff" "left + poff < 65536"
    "x \<in> set H \<Longrightarrow> count R x \<le> 40000" "H \<noteq> []"
  using assms chained_suffix by (auto simp: cutting_def)

text \<open>A new buffer is an island.\<close>

lemma island_fresh:
  assumes I: "net_inv n M" and p: "p \<notin> alive n" "p \<noteq> NULL" and n': "alive n' = insert p (alive n)" "\<And>x. x \<in> alive n \<Longrightarrow> pb_next (pbufs n' x) = pb_next (pbufs n x)"
  shows "island n' M {p}"
proof -
  have r: "refs_inv n M" using I by (simp add: net_inv_def)
  have "pb_next (pbufs n' x) \<noteq> p" if "x \<in> alive n" for x using refs_inv_next [OF r that] n'(2) [OF that] p by metis
  moreover have "q \<noteq> p" if "q \<in># M" for q using held_alive [OF I that] p by metis
  ultimately show ?thesis using n'(1) by (auto simp: island_def)
qed

lemma chained_next: "chained n (p # qs) \<Longrightarrow> x \<in> set (p # qs) \<Longrightarrow> pb_next (pbufs n x) \<in> set qs \<or> pb_next (pbufs n x) = NULL"
proof (induction qs arbitrary: p)
  case (Cons q qs)
  then show ?case by (cases "x = p") auto
qed auto

text \<open>A fragment is ready to be sent.\<close>

lemma fragment_sendable:
  assumes F: "filling n L R (rb # ts) ps" and t: "pb_type (pbufs n rb) = PBUF_RAM" "pb_flags (pbufs n rb) = 0" and l: "chain_len n (rb # ts) + 14 \<le> 65456"
  shows "sendable (n\<lparr>ram_bytes := m\<rparr>) (add_mset rb R) rb"
proof -
  note D = fillingD [OF F]
  let ?n = "n\<lparr>ram_bytes := m\<rparr>"
  have c: "packet ?n (rb # ts) = packet n (rb # ts)" "chain_len ?n (rb # ts) = chain_len n (rb # ts)" by (rule packet_to_cong; simp)+
  have w: "whole ?n rb" unfolding whole_def using D(2) l c by (intro exI [of _ ts]) simp
  have tot: "tot_len (pbufs n rb) = chain_len n (rb # ts)" using D(2) by simp
  have d: "distinct (rb # ts)" using packet_distinct [OF D(2)] .
  have u: "unlinked n rb" unfolding unlinked_def
  proof
    fix x assume x: "x \<in> alive n"
    show "pb_next (pbufs n x) \<noteq> rb"
    proof (cases "x \<in> set (rb # ts)")
      case True
      have "pb_next (pbufs n x) \<in> set ts \<or> pb_next (pbufs n x) = NULL" by (rule chained_next [OF packet_chained [OF D(2)] True])
      then show ?thesis using d D(9) by auto
    next
      case False
      then show ?thesis using D(3) x by (auto simp: island_def)
    qed
  qed
  then show ?thesis using w t l tot by (simp add: sendable_def unlinked_def is_custom_def)
qed

abbreviation arp_L :: "'a arp_scheme \<Rightarrow> (ptr \<times> ptr) list" where
  "arp_L s \<equiv> concat (map arp_q (arp_table s))"

lemma chained_distinct: "chained n ps \<Longrightarrow> distinct ps"
proof (induction ps)
  case (Cons p qs)
  have "p \<notin> set qs"
  proof
    assume "p \<in> set qs"
    then obtain us vs where q: "qs = us @ p # vs" by (meson split_list)
    have "chained n (p # vs)" using Cons.prems chained_suffix [of n "p # us" "p # vs"] q by simp
    from chained_det [OF this Cons.prems] show False using q by simp
  qed
  then show ?case using Cons by (cases qs) auto
qed simp

lemma frag_start:
  fixes s :: "'a arp_scheme"
  assumes C: "cutting s R H (p # rest) poff left"
  shows "\<exists>n1 rb. pbuf_alloc PBUF_LINK IP_HLEN PBUF_RAM (nt s) = Some (n1, rb) \<and>
    (rb = NULL \<and> n1 = nt s \<or> rb \<noteq> NULL \<and> rb \<in> alive n1 \<and> p \<in> alive n1 \<and>
      (\<forall>m. let n2 = advance p poff (n1\<lparr>ram_bytes := m\<rparr>) in filling n2 (arp_L s) R [rb] (p # rest) \<and> pb_type (pbufs n2 rb) = PBUF_RAM \<and> pb_flags (pbufs n2 rb) = 0 \<and>
        chain_len n2 [rb] = IP_HLEN \<and> chain_len n2 (p # rest) = left \<and> spared R (set H) (nt s) n2 \<and> chained n2 H \<and> set H \<inter> {rb} = {}))"
proof -
  note D = cuttingD [OF C]
  note Q = arp_okD(1) [OF D(1)]
  have I: "net_inv (nt s) (mset (map snd (arp_L s)) + R)" using net_okD(1) [OF queuedD(1) [OF Q]] .
  obtain n1 rb where a: "pbuf_alloc PBUF_LINK IP_HLEN PBUF_RAM (nt s) = Some (n1, rb)" "pools n1 = pools (nt s)"
    "rb = NULL \<and> n1 = nt s \<or> rb \<noteq> NULL \<and> rb \<notin> alive (nt s) \<and> net_ok n1 (add_mset rb (mset (map snd (arp_L s)) + R)) \<and> packet n1 [rb] \<and> pb_len (pbufs n1 rb) = IP_HLEN \<and>
      alive n1 = insert rb (alive (nt s)) \<and> (\<forall>x\<in>alive (nt s). pbufs n1 x = pbufs (nt s) x)"
    using pbuf_alloc_ram_ok [OF queuedD(1) [OF Q], of IP_HLEN PBUF_LINK] by (auto simp: IP_HLEN_def)
  show ?thesis
  proof (cases "rb = NULL")
    case True
    then show ?thesis using a by auto
  next
    case False
    have A: "rb \<notin> alive (nt s)" "net_ok n1 (add_mset rb (mset (map snd (arp_L s)) + R))" "packet n1 [rb]" "pb_len (pbufs n1 rb) = IP_HLEN" "alive n1 = insert rb (alive (nt s))"
      "\<And>x. x \<in> alive (nt s) \<Longrightarrow> pbufs n1 x = pbufs (nt s) x" using a(3) False by auto
    have HA: "x \<in> alive (nt s)" "x \<noteq> rb" if "x \<in> set H" for x using chained_alive [OF D(3) that] A(1) by auto
    have pH: "p \<in> set H" "set (p # rest) \<subseteq> set H" using D(5) by auto
    have p: "p \<in> alive n1" "p \<noteq> rb" "pbufs n1 p = pbufs (nt s) p" using HA [OF pH(1)] A(5,6) by auto
    have le: "poff \<le> pb_len (pbufs n1 p)" "pb_len (pbufs n1 p) < 65536" using C D(6,7) p(3) by (auto simp: cutting_def)
    have c1: "chained n1 H" using D(3) chained_cong [of H n1 "nt s"] HA(1) A(5,6) by auto
    have q1: "queued n1 (arp_L s) (add_mset rb R)" using Q A(2) a(2) by (auto simp: queued_def aux_block_def)
    have sp1: "spared R (set H) (nt s) n1"
      by (rule spared_same, rule held_same_keep [OF net_okD(1) [OF A(2)]]) (use A(6) in auto)
    have main: "let n2 = advance p poff (n1\<lparr>ram_bytes := m\<rparr>) in filling n2 (arp_L s) R [rb] (p # rest) \<and> pb_type (pbufs n2 rb) = PBUF_RAM \<and> pb_flags (pbufs n2 rb) = 0 \<and>
        chain_len n2 [rb] = IP_HLEN \<and> chain_len n2 (p # rest) = left \<and> spared R (set H) (nt s) n2 \<and> chained n2 H \<and> set H \<inter> {rb} = {}" for m
    proof -
      let ?n1 = "n1\<lparr>ram_bytes := m\<rparr>"
      let ?n2 = "advance p poff ?n1"
      have q2: "queued ?n2 (arp_L s) (add_mset rb R)" by (rule queued_advance) (use q1 p le in auto)
      have same: "pbufs ?n2 x = pbufs n1 x" if "x \<noteq> p" for x using that by simp
      have "packet ?n2 [rb] = packet n1 [rb]" by (rule packet_to_cong) (use same p(2) in auto)
      then have k2: "packet ?n2 [rb]" using A(3) by simp
      have cl: "chain_len ?n2 [rb] = IP_HLEN" using A(4) p(2) by (simp add: chain_len_def)
      have isl: "island ?n2 (mset (map snd (arp_L s)) + R) {rb}"
        by (rule island_fresh [OF I A(1) False]) (use A(5,6) in auto)
      have c2: "chained ?n2 H" using c1 by simp
      obtain pre where pre: "H = pre @ p # rest" using C by (auto simp: cutting_def)
      have cp: "chained ?n2 (p # rest)" using chained_suffix c2 unfolding pre by blast
      have "first_ptr [rb] = rb" "set [rb] \<inter> set (p # rest) = {}" "\<forall>x\<in>set (p # rest). count R x \<le> 40000" using pH HA(2) D(8) by auto
      then have f: "filling ?n2 (arp_L s) R [rb] (p # rest)"
        unfolding filling_def using q2 k2 isl cp by (simp del: chained.simps packet_to.simps)
      have dist: "p \<notin> set rest" using chained_distinct [OF D(4)] by simp
      have "pbufs ?n2 q = pbufs (nt s) q" if "q \<in> set rest" for q
      proof -
        have "q \<noteq> p" "q \<in> alive (nt s)" using that dist HA(1) pH(2) by auto
        then show ?thesis using same A(6) by simp
      qed
      then have "chain_len ?n2 rest = chain_len (nt s) rest" by (intro chain_len_cong) simp
      moreover have "pb_len (pbufs ?n2 p) = pb_len (pbufs (nt s) p) - poff" using advance_len [of poff ?n1 p] le p(3) by simp
      ultimately have cl2: "chain_len ?n2 (p # rest) = left" using D(6) le(1) p(3) by simp
      have "spared R (set H) n1 ?n2" by (rule spared_upd) (metis same pH(1), simp)
      then show ?thesis using f cl cl2 c2 same [of rb] p(2) alloc_ram_type [OF a(1) False] spared_trans [OF sp1] HA(2) by (auto simp: Let_def)
    qed
    then show ?thesis using a(1) False p(1) A(5) by auto
  qed
qed

lemma not_held: "\<lbrakk>net_inv n M; rb \<notin> alive n; rb \<noteq> NULL\<rbrakk> \<Longrightarrow> rb \<notin># M"
  using held_alive by blast

lemma frag_send:
  fixes s :: "'a arp_scheme"
  assumes C: "cutting s R H (p # rest) poff left"
    and N: "filling n2 (arp_L s) R [rb] (p # rest)" "pb_type (pbufs n2 rb) = PBUF_RAM" "pb_flags (pbufs n2 rb) = 0" "chain_len n2 [rb] = IP_HLEN" "chain_len n2 (p # rest) = left"
      "spared R (set H) (nt s) n2" "chained n2 H" "set [rb] \<inter> set H = {}"
    and ft: "filled_to n2 (arp_L s) R [rb] (p # rest) cop n3 p' k"
    and cp: "0 < cop" "cop \<le> left" "cop + 20 \<le> mt" and mt: "28 \<le> mt" "mt \<le> 65442" and tx: "tx_ok s" and hw: "length (hwaddr (netifs s nf)) = 6"
    and st: "lp = do { (s, _) \<leftarrow> etharp_output nf rb dest (s\<lparr>nt := n3\<lparr>ram_bytes := m\<rparr>\<rparr>); (s, _) \<leftarrow> on_net (pbuf_free rb) s; rec p' (usub 16 left cop) k s }"
  shows "\<exists>s' ps' k. lp = rec (first_ptr ps') (left - cop) k s' \<and> 0 < cop \<and> cutting s' R H ps' k (left - cop) \<and> arp_frame s s' \<and> spared R (set H) (nt s) (nt s')"
proof -
  note D = cuttingD [OF C]
  obtain ts' pre rest' where T: "filling n3 (arp_L s) R ([rb] @ ts') (p' # rest')" "chain_len n3 ([rb] @ ts') = chain_len n2 [rb] + cop"
     "p # rest = pre @ p' # rest'" "undisturbed [rb] n2 n3" "k \<le> pb_len (pbufs n2 p')" "chain_len n2 (p' # rest') + cop = chain_len n2 (p # rest) + k"
    using ft [unfolded filled_to_def] cp(1) by (elim exE conjE) (metis less_numeral_extra(3))
  note F = fillingD [OF T(1)]
  let ?s3 = "s\<lparr>nt := n3\<lparr>ram_bytes := m\<rparr>\<rparr>"
  have rbR: "rb \<notin># R" using F(3) by (auto simp: island_def)
  have bod: "pb_type (pbufs n3 rb) = PBUF_RAM" "pb_flags (pbufs n3 rb) = 0"
    using T(4) N(1-3) by (auto simp: undisturbed_def same_body_def filling_def)
  have "filling n3 (arp_L s) R (rb # ts') (p' # rest')" "chain_len n3 (rb # ts') + 14 \<le> 65456" using T(1,2) N(4) cp mt by (auto simp: IP_HLEN_def)
  from fragment_sendable [OF this(1) bod this(2)] have snd: "sendable (nt ?s3) (add_mset rb R) rb" by simp
  have "queued (nt ?s3) (arp_L s) (add_mset rb R)" using F(1) by simp
  then have ok3: "arp_ok ?s3 (add_mset rb R)" using arp_ok_nt [OF D(1)] by fastforce
  have fm: "{#x \<in># add_mset rb R. x \<noteq> rb#} = R" by (rule multiset_eqI) (use rbR in \<open>auto simp: not_in_iff\<close>)
  have "tx_ok ?s3" "length (hwaddr (netifs ?s3 nf)) = 6" using tx hw by auto
  from etharp_output_ok [OF ok3 snd this, of dest] obtain s4 e where o: "etharp_output nf rb dest ?s3 = Some (s4, e)" "arp_ok s4 (add_mset rb R)" "arp_frame ?s3 s4"
    "held_same R (nt ?s3) (nt s4)" unfolding fm by blast
  have rb0: "rb \<noteq> NULL" using F(9) by simp
  from arp_ok_free [OF o(2) rb0] obtain n5 c where fr: "on_net (pbuf_free rb) s4 = Some (s4\<lparr>nt := n5\<rparr>, c)" "arp_ok (s4\<lparr>nt := n5\<rparr>) R" "still R (nt s4) n5" by blast
  let ?s5 = "s4\<lparr>nt := n5\<rparr>"
  have hs: "held_same R n3 n5" using held_same_trans [OF o(4)] fr(3) by (simp add: still_def)
  note U = undisturbed_chain [OF T(4) N(7,8)]
  obtain h hs' where H: "H = h # hs'" using D(9) by (cases H) auto
  have hR: "h \<in># R" using D(2) H by simp
  note E = held_sameE [OF hs hR U(1) [unfolded H], folded H]
  obtain pre0 where pre0: "H = pre0 @ p # rest" using C by (auto simp: cutting_def)
  have len: "pb_len (pbufs n5 x) = pb_len (pbufs n2 x)" if "x \<in> set H" for x using U(3) [OF that] header_fields_same(3) [OF E(2) [OF that]] by simp
  have sub: "set (p' # rest') \<subseteq> set H" using pre0 T(3) by auto
  have cl: "chain_len n5 (p' # rest') = chain_len n2 (p' # rest')" by (rule chain_len_cong) (use len sub in auto)
  have "H = (pre0 @ pre) @ p' # rest'" using pre0 T(3) by simp
  then have "\<exists>pre. H = pre @ p' # rest'" by blast
  moreover have "chain_len n5 (p' # rest') = (left - cop) + k" using cl T(6) N(5) cp(2) by simp
  moreover have "chain_len n2 (p' # rest') \<le> left" using N(5) unfolding T(3) by (simp add: chain_len_def)
  then have "left - cop + k < 65536" using calculation(2) cl D(7) by simp
  moreover have "k \<le> pb_len (pbufs n5 p')" using T(5) len sub by simp
  ultimately have cut: "cutting ?s5 R H (p' # rest') k (left - cop)"
    unfolding cutting_def using fr(2) D(2,8,9) E(1) by simp
  have us: "usub 16 left cop = left - cop" using cp(2) D(7) by (simp add: usub_def)
  have "lp = rec (first_ptr (p' # rest')) (left - cop) k ?s5" unfolding st using o(1) fr(1) us by simp
  moreover have "spared R (set H) (nt s) (nt ?s5)"
    using spared_trans [OF spared_trans [OF N(6) spared_same [OF filling_same [OF N(1) T(4)]]] spared_same [OF hs]] by simp
  moreover have "arp_frame s ?s5" using o(3) by (simp add: arp_frame_def)
  ultimately show ?thesis using cp(1) cut by blast
qed

lemma frag_step:
  fixes s :: "'a arp_scheme"
  assumes C: "cutting s R H (p # rest) poff left" and left: "left \<noteq> 0" and mt: "28 \<le> mt" "mt \<le> 65442"
    and tx: "tx_ok s" and hw: "length (hwaddr (netifs s nf)) = 6"
    and cop: "cop = (if int left \<le> int mt - int IP_HLEN then left else to_u16 (frag_blocks mt * 8))"
  shows "(\<exists>s' e. ip_frag_loop nf dest oh mt omf p left ofo poff j s = Some (s', e) \<and> arp_ok s' R \<and> arp_frame s s' \<and> spared R (set H) (nt s) (nt s')) \<or>
    (\<exists>s' ps' k. ip_frag_loop nf dest oh mt omf p left ofo poff j s =
        ip_frag_loop nf dest oh mt omf (first_ptr ps') (left - cop) (ofo + word_of_nat (frag_blocks mt)) k k s' \<and>
      0 < cop \<and> cutting s' R H ps' k (left - cop) \<and> arp_frame s s' \<and> spared R (set H) (nt s) (nt s'))"
proof -
  note D = cuttingD [OF C]
  have cp: "0 < cop" "cop \<le> left" "cop + 20 \<le> mt" using left mt unfolding cop by (auto simp: frag_blocks_def IP_HLEN_def to_u16_def)
  obtain n1 rb where a: "pbuf_alloc PBUF_LINK IP_HLEN PBUF_RAM (nt s) = Some (n1, rb)"
    "rb = NULL \<and> n1 = nt s \<or> rb \<noteq> NULL \<and> rb \<in> alive n1 \<and> p \<in> alive n1 \<and>
      (\<forall>m. let n2 = advance p poff (n1\<lparr>ram_bytes := m\<rparr>) in filling n2 (arp_L s) R [rb] (p # rest) \<and> pb_type (pbufs n2 rb) = PBUF_RAM \<and> pb_flags (pbufs n2 rb) = 0 \<and>
        chain_len n2 [rb] = IP_HLEN \<and> chain_len n2 (p # rest) = left \<and> spared R (set H) (nt s) n2 \<and> chained n2 H \<and> set H \<inter> {rb} = {})"
    using frag_start [OF C] by blast
  show ?thesis
  proof (cases "rb = NULL")
    case True
    then have "ip_frag_loop nf dest oh mt omf p left ofo poff j s = Some (s, ERR_MEM)"
      using a left by (subst ip_frag_loop.simps) (simp add: on_net_def)
    then show ?thesis using D(1) spared_same [OF held_same_refl] by (intro disjI1 exI [of _ s]) auto
  next
    case False
    define n2 where "n2 = advance p poff (n1\<lparr>ram_bytes := memcpy IP_HLEN (payload (pbufs n1 rb)) oh (ram_bytes n1)\<rparr>)"
    have al: "rb \<in> alive n1" "p \<in> alive n1" using a(2) False by auto
    have N: "filling n2 (arp_L s) R [rb] (p # rest)" "pb_type (pbufs n2 rb) = PBUF_RAM" "pb_flags (pbufs n2 rb) = 0" "chain_len n2 [rb] = IP_HLEN" "chain_len n2 (p # rest) = left"
      "spared R (set H) (nt s) n2" "chained n2 H" "set [rb] \<inter> set H = {}" using a(2) False unfolding n2_def by (auto simp: Let_def)
    have "chain_len n2 [rb] + cop < 65536" "cop \<le> chain_len n2 (p # rest)" using N(4,5) cp mt by (auto simp: IP_HLEN_def)
    from frag_fill_ok [OF N(1) this, of j] obtain n3 r where f: "frag_fill rb p cop j n2 = Some (n3, r)"
      "case r of None \<Rightarrow> queued n3 (arp_L s) R \<and> still R n2 n3 | Some (p', k) \<Rightarrow> filled_to n2 (arp_L s) R [rb] (p # rest) cop n3 p' k" by auto
    note step = frag_loop_step [OF left a(1) False al cop f(1) [unfolded n2_def] refl, of nf dest omf ofo]
    show ?thesis
    proof (cases r)
      case None
      then have "arp_ok (s\<lparr>nt := n3\<rparr>) R" "spared R (set H) (nt s) n3"
        using f(2) arp_ok_nt [OF D(1)] spared_trans [OF N(6) spared_same] by (auto simp: still_def)
      then show ?thesis using step None by (intro disjI1 exI [of _ "s\<lparr>nt := n3\<rparr>"]) auto
    next
      case (Some pk)
      obtain p' k where pk: "pk = (p', k)" by (cases pk)
      have ft: "filled_to n2 (arp_L s) R [rb] (p # rest) cop n3 p' k" using f(2) Some pk by simp
      note st = step [unfolded Some pk option.case prod.case]
      show ?thesis
        by (rule disjI2, rule frag_send [where rec = "\<lambda>p left k. ip_frag_loop nf dest oh mt omf p left (ofo + word_of_nat (frag_blocks mt)) k k",
              OF C N(1,2,3,4,5,6,7,8) ft cp mt tx hw st])
    qed
  qed
qed

lemma frag_loop_ok:
  fixes s :: "'a arp_scheme"
  assumes "cutting s R H ps poff left" "28 \<le> mt" "mt \<le> 65442" "tx_ok s" "length (hwaddr (netifs s nf)) = 6"
  shows "\<exists>s' e. ip_frag_loop nf dest oh mt omf (first_ptr ps) left ofo poff j s = Some (s', e) \<and> arp_ok s' R \<and> arp_frame s s' \<and> spared R (set H) (nt s) (nt s')"
  using assms
proof (induction left arbitrary: s ps poff ofo j rule: less_induct)
  case (less left)
  show ?case
  proof (cases "left = 0")
    case True
    then show ?thesis using cuttingD(1) [OF less.prems(1)] spared_same [OF held_same_refl] by (subst ip_frag_loop.simps) auto
  next
    case False
    define cop where "cop = (if int left \<le> int mt - int IP_HLEN then left else to_u16 (frag_blocks mt * 8))"
    obtain p rest where ps: "ps = p # rest" using less.prems(1) by (cases ps) (auto simp: cutting_def)
    from frag_step [OF less.prems(1) [unfolded ps] False less.prems(2-5) cop_def, of dest oh omf ofo j]
    show ?thesis
    proof (elim disjE exE conjE)
      fix s' ps' k
      assume a: "ip_frag_loop nf dest oh mt omf p left ofo poff j s = ip_frag_loop nf dest oh mt omf (first_ptr ps') (left - cop) (ofo + word_of_nat (frag_blocks mt)) k k s'"
        "0 < cop" "cutting s' R H ps' k (left - cop)" "arp_frame s s'" "spared R (set H) (nt s) (nt s')"
      have "left - cop < left" using a(2) False by simp
      moreover have "tx_ok s'" "length (hwaddr (netifs s' nf)) = 6" using a(4) less.prems(4,5) by (auto simp: arp_frame_def)
      ultimately obtain s2 e where "ip_frag_loop nf dest oh mt omf (first_ptr ps') (left - cop) (ofo + word_of_nat (frag_blocks mt)) k k s' = Some (s2, e)"
        "arp_ok s2 R" "arp_frame s' s2" "spared R (set H) (nt s') (nt s2)" using less.IH [OF _ a(3) less.prems(2,3)] by blast
      then show ?thesis using a ps arp_frame_trans [OF a(4)] spared_trans [OF a(5)] by auto
    qed (use ps in auto)
  qed
qed

text \<open>What \<open>ip_frag\<close> needs: a held packet with the whole header in its first buffer.\<close>

lemma ip_frag_ok:
  fixes s :: "'a arp_scheme"
  assumes ok: "arp_ok s R" and p: "p \<in># R" "packet (nt s) (p # qs)" "chain_len (nt s) (p # qs) < 65536" "20 \<le> pb_len (pbufs (nt s) p)"
    and R: "\<forall>x\<in>set (p # qs). count R x \<le> 40000" and mt: "28 \<le> mtu (netifs s nf)" "mtu (netifs s nf) \<le> 65442"
    and tx: "tx_ok s" "length (hwaddr (netifs s nf)) = 6"
  shows "\<exists>s' e. ip_frag p nf dest s = Some (s', e) \<and> arp_ok s' R \<and> arp_frame s s' \<and> spared R (set (p # qs)) (nt s) (nt s')"
proof -
  have al: "p \<in> alive (nt s)" "tot_len (pbufs (nt s) p) = chain_len (nt s) (p # qs)" using p(2) by (auto simp: chain_len_def)
  have us: "usub 16 (tot_len (pbufs (nt s) p)) IP_HLEN = chain_len (nt s) (p # qs) - 20" using al(2) p(3,4) by (simp add: usub_def IP_HLEN_def)
  have "cutting s R (p # qs) (p # qs) IP_HLEN (chain_len (nt s) (p # qs) - 20)"
    unfolding cutting_def using ok p packet_chained [OF p(2)] R by (auto simp: IP_HLEN_def)
  from frag_loop_ok [OF this mt tx] show ?thesis
    using al us by (simp add: ip_frag_def get_pbuf_def Let_def)
qed

end
