(* ===== verification/Ip_Out.thy ===== *)
theory Ip_Out
  imports Ip_Frag
begin

text \<open>
  Output on the IP layer (\<open>ip_output_if\<close> and \<open>ip_output\<close> of \<^verbatim>\<open>core/ipv4/ip.c\<close>): routing picks the first matching
  interface, every datagram is handed on or refused with the packet buffers in order, and one that fits the link to a resolved next hop
  leaves as one frame with a header that verifies.
\<close>

unbundle bit_operations_syntax

subsection \<open>Routing\<close>

text \<open>The interfaces from \<open>nf\<close> on.\<close>

fun nf_chain :: "(ptr \<Rightarrow> netif) \<Rightarrow> ptr \<Rightarrow> ptr list \<Rightarrow> bool" where
  "nf_chain nfs p [] \<longleftrightarrow> p = NULL"
| "nf_chain nfs p (q # qs) \<longleftrightarrow> p = q \<and> p \<noteq> NULL \<and> nf_chain nfs (nf_next (nfs q)) qs"

definition on_link :: "u32 \<Rightarrow> netif \<Rightarrow> bool" where
  "on_link dest nf \<longleftrightarrow> netif_is_up nf \<and> ip_addr_netcmp dest (ip_addr nf) (netmask nf)"

definition route_spec :: "u32 \<Rightarrow> ptr list \<Rightarrow> 'a lwip_scheme \<Rightarrow> ptr" where
  "route_spec dest qs s =
     (case List.find (\<lambda>q. on_link dest (netifs s q)) qs of
        Some q \<Rightarrow> q
      | None \<Rightarrow> if netif_default s \<noteq> NULL \<and> netif_is_up (netifs s (netif_default s)) then netif_default s else NULL)"

lemma route_loop_find:
  "nf_chain nfs p qs \<Longrightarrow> route_loop dest p nfs = Some (case List.find (\<lambda>q. on_link dest (nfs q)) qs of Some q \<Rightarrow> q | None \<Rightarrow> NULL)"
proof (induction qs arbitrary: p)
  case Nil
  then show ?case by (subst route_loop.simps) simp
next
  case (Cons q qs)
  then show ?case by (subst route_loop.simps) (auto simp: on_link_def)
qed

lemma nf_chain_nonnull: "nf_chain nfs p qs \<Longrightarrow> q \<in> set qs \<Longrightarrow> q \<noteq> NULL"
  by (induction qs arbitrary: p) auto

lemma ip_route_first:
  assumes "nf_chain (netifs s) (netif_list s) qs"
  shows "ip_route dest s = Some (route_spec dest qs s)"
  using route_loop_find [OF assms] nf_chain_nonnull [OF assms] unfolding ip_route_def route_spec_def
  by (auto split: option.splits dest: find_Some_iff [THEN iffD1] simp: nth_mem)

subsection \<open>Every datagram is handed on or refused\<close>

definition ip_frame :: "'a ip_scheme \<Rightarrow> 'a ip_scheme \<Rightarrow> bool" where
  "ip_frame s s' \<longleftrightarrow> arp_frame (s\<lparr>ip_id := ip_id s'\<rparr>) s'"

lemma whole_ram [simp]: "whole (n\<lparr>ram_bytes := m\<rparr>) p = whole n p"
proof -
  have "packet (n\<lparr>ram_bytes := m\<rparr>) qs = packet n qs" "chain_len (n\<lparr>ram_bytes := m\<rparr>) qs = chain_len n qs" for qs by (rule packet_to_cong; simp)+
  then show ?thesis by (simp add: whole_def)
qed

lemma unlinked_ram [simp]: "unlinked (n\<lparr>ram_bytes := m\<rparr>) p = unlinked n p"
  by (simp add: unlinked_def)

lemma sendable_ram [simp]: "sendable (n\<lparr>ram_bytes := m\<rparr>) R p = sendable n R p"
  by (simp add: sendable_def)

lemma spared_head:
  assumes "chained n (p # qs)" "held_same {#x \<in># R. x \<noteq> p#} n n'"
  shows "spared R (set (p # qs)) n n'"
  unfolding spared_def using assms by (intro held_same_sub [OF assms(2)]) (auto simp: off_def)

lemma spared_ram [simp]: "spared R S n (n'\<lparr>ram_bytes := m\<rparr>) = spared R S n n'" "spared R S (n\<lparr>ram_bytes := m\<rparr>) n' = spared R S n n'"
  by (simp_all add: spared_def off_def)

lemma ip_frame_id: "arp_frame (s\<lparr>nt := n, ip_id := k\<rparr>) s' \<Longrightarrow> ip_frame s s'"
  by (cases s; cases s') (auto simp: ip_frame_def arp_frame_def)

text \<open>The last part: the datagram with its header is sent whole or cut.\<close>

definition ip_send :: "ptr \<Rightarrow> ptr \<Rightarrow> u32 \<Rightarrow> 'a arp_scheme \<Rightarrow> ('a arp_scheme \<times> err_t) option" where
  "ip_send p nf d s =
     do { b \<leftarrow> get_pbuf p (nt s);
          if mtu (netifs s nf) \<noteq> 0 \<and> tot_len b > mtu (netifs s nf) then ip_frag p nf d s else etharp_output nf p d s }"

lemma ip_send_ok:
  fixes s :: "'a arp_scheme"
  assumes ok: "arp_ok s R" and p: "sendable (nt s) R p" "chained (nt s) (p # qs)" "mtu (netifs s nf) < tot_len (pbufs (nt s) p) \<Longrightarrow> 20 \<le> pb_len (pbufs (nt s) p)" and R: "\<forall>x. count R x \<le> 40000"
    and mt: "28 \<le> mtu (netifs s nf)" "mtu (netifs s nf) \<le> 65442" and tx: "tx_ok s" "length (hwaddr (netifs s nf)) = 6"
  shows "\<exists>s' e. ip_send p nf d s = Some (s', e) \<and> arp_ok s' R \<and> arp_frame s s' \<and> spared R (set (p # qs)) (nt s) (nt s')"
proof -
  obtain qs' where w: "packet (nt s) (p # qs')" "chain_len (nt s) (p # qs') < 65536" "p \<in> alive (nt s)" "chained (nt s) (p # qs')"
    using p(1) unfolding sendable_def by (elim conjE wholeE) (rule that)
  have e: "qs' = qs" using chained_det [OF w(4) p(2)] by simp
  have "\<exists>s' e. ip_frag p nf d s = Some (s', e) \<and> arp_ok s' R \<and> arp_frame s s' \<and> spared R (set (p # qs)) (nt s) (nt s')"
    if "mtu (netifs s nf) < tot_len (pbufs (nt s) p)"
    by (rule ip_frag_ok) (use ok p(1,2) p(3) [OF that] w e R mt tx in \<open>auto simp: sendable_def\<close>)
  moreover have "\<exists>s' e. etharp_output nf p d s = Some (s', e) \<and> arp_ok s' R \<and> arp_frame s s' \<and> spared R (set (p # qs)) (nt s) (nt s')"
    using etharp_output_ok [OF ok p(1) tx, of d] spared_head [OF p(2)] by blast
  ultimately show ?thesis using w(3) by (simp add: ip_send_def get_pbuf_def)
qed

lemma ip_output_if_dest:
  assumes "pbuf_header p (int IP_HLEN) (nt s) = Some (n, e)" "p \<in> alive n"
  shows "ip_output_if p src (Some d) ttl tos proto nf s =
    (if e \<noteq> 0 then Some (s\<lparr>nt := n\<rparr>, ERR_BUF)
     else ip_send p nf d (s\<lparr>nt := n\<lparr>ram_bytes := write_ip_hdr (payload (pbufs n p)) ttl tos proto (tot_len (pbufs n p)) (ip_id s)
       (if src = None \<or> src = Some IPADDR_ANY then ip_addr (netifs s nf) else the src) d (ram_bytes n)\<rparr>, ip_id := ip_id s + 1\<rparr>))"
  using assms by (simp add: ip_output_if_def on_net_def get_pbuf_def ip_send_def upd_ram_def Let_def)

lemma ip_output_if_ok:
  fixes s :: "'a ip_scheme"
  assumes ok: "arp_ok s R" and p: "sendable (nt s) R p" "tot_len (pbufs (nt s) p) + 34 \<le> 65456" "chained (nt s) (p # qs)" and R: "\<forall>x. count R x \<le> 40000"
    and mt: "28 \<le> mtu (netifs s nf)" "mtu (netifs s nf) \<le> 65442" and tx: "tx_ok s" "length (hwaddr (netifs s nf)) = 6"
  shows "\<exists>s' e. ip_output_if p src (Some d) ttl tos proto nf s = Some (s', e) \<and> arp_ok s' R \<and> ip_frame s s' \<and> spared R (set (p # qs)) (nt s) (nt s')"
proof -
  have S: "p \<in># R" "whole (nt s) p" "unlinked (nt s) p" "\<not> is_custom (pbufs (nt s) p)" "pb_type (pbufs (nt s) p) \<noteq> PBUF_ROM" using p(1) by (auto simp: sendable_def)
  have pa: "p \<in> alive (nt s)" using S(2) by (auto elim: wholeE)
  obtain n e where h: "pbuf_header p 20 (nt s) = Some (n, e)" "queued n (arp_L s) R" "whole n p" "unlinked n p" "alive n = alive (nt s)"
    "held_same {#x \<in># R. x \<noteq> p#} (nt s) n"
    "e = 1 \<and> n = nt s \<or> e = 0 \<and> int (pb_len (pbufs n p)) = int (pb_len (pbufs (nt s) p)) + 20 \<and>
      int (tot_len (pbufs n p)) = int (tot_len (pbufs (nt s) p)) + 20 \<and> (\<forall>x. x \<noteq> p \<longrightarrow> pbufs n x = pbufs (nt s) x) \<and> pb_next (pbufs n p) = pb_next (pbufs (nt s) p) \<and>
      pb_type (pbufs n p) = pb_type (pbufs (nt s) p) \<and> pb_flags (pbufs n p) = pb_flags (pbufs (nt s) p)"
    using queued_header [OF arp_okD(1) [OF ok] S(2-4), of 20] p(2) by fastforce
  note sp = spared_head [OF p(3) h(6)]
  have o: "ip_output_if p src (Some d) ttl tos proto nf s =
    (if e \<noteq> 0 then Some (s\<lparr>nt := n\<rparr>, ERR_BUF)
     else ip_send p nf d (s\<lparr>nt := n\<lparr>ram_bytes := write_ip_hdr (payload (pbufs n p)) ttl tos proto (tot_len (pbufs n p)) (ip_id s)
       (if src = None \<or> src = Some IPADDR_ANY then ip_addr (netifs s nf) else the src) d (ram_bytes n)\<rparr>, ip_id := ip_id s + 1\<rparr>))"
    by (rule ip_output_if_dest) (use h(1,5) pa in \<open>simp_all add: IP_HLEN_def\<close>)
  show ?thesis
  proof (cases "e = 0")
    case False
    then have "n = nt s" using h(7) by simp
    then show ?thesis using o False ok by (auto simp: ip_frame_def intro: spared_same)
  next
    case True
    then have n: "int (pb_len (pbufs n p)) = int (pb_len (pbufs (nt s) p)) + 20" "int (tot_len (pbufs n p)) = int (tot_len (pbufs (nt s) p)) + 20"
      "\<And>x. pb_next (pbufs n x) = pb_next (pbufs (nt s) x)" "pb_type (pbufs n p) = pb_type (pbufs (nt s) p)" "pb_flags (pbufs n p) = pb_flags (pbufs (nt s) p)"
      using h(7) by (simp, simp, metis zero_neq_one, simp, simp)
    let ?m = "write_ip_hdr (payload (pbufs n p)) ttl tos proto (tot_len (pbufs n p)) (ip_id s)
       (if src = None \<or> src = Some IPADDR_ANY then ip_addr (netifs s nf) else the src) d (ram_bytes n)"
    let ?s = "s\<lparr>nt := n\<lparr>ram_bytes := ?m\<rparr>, ip_id := ip_id s + 1\<rparr>"
    have "arp_ok (s\<lparr>nt := n\<lparr>ram_bytes := ?m\<rparr>\<rparr>) R" using arp_ok_nt [OF ok, of "n\<lparr>ram_bytes := ?m\<rparr>" R] h(2) by simp
    then have "arp_ok ?s R" by (simp add: arp_ok_def)
    moreover have "sendable (nt ?s) R p" using h(3,4) S n p(2) by (simp add: sendable_def is_custom_def)
    moreover have "chained n (p # qs) = chained (nt s) (p # qs)" by (rule chained_cong) (use n(3) h(5) in auto)
    then have "chained (nt ?s) (p # qs)" using p(3) by simp
    moreover have "20 \<le> pb_len (pbufs (nt ?s) p)" using n(1) by simp
    ultimately obtain s' e' where "ip_send p nf d ?s = Some (s', e')" "arp_ok s' R" "arp_frame ?s s'" "spared R (set (p # qs)) (nt ?s) (nt s')"
      using ip_send_ok [of ?s R p qs nf d] R mt tx by auto
    then show ?thesis using o True spared_trans [OF sp] by (intro exI [of _ s'] exI [of _ e']) (auto intro: ip_frame_id)
  qed
qed

text \<open>The interfaces are chained up from \<open>netif_list\<close>; every one has a hardware address and a frame size a datagram can be cut to.\<close>

definition links_ok :: "'a lwip_scheme \<Rightarrow> bool" where
  "links_ok s \<longleftrightarrow> (\<exists>qs. nf_chain (netifs s) (netif_list s) qs) \<and>
     (\<forall>nf. 28 \<le> mtu (netifs s nf) \<and> mtu (netifs s nf) \<le> 65442 \<and> length (hwaddr (netifs s nf)) = 6)"

lemma ip_output_ok:
  fixes s :: "'a ip_scheme"
  assumes ok: "arp_ok s R" and p: "sendable (nt s) R p" "tot_len (pbufs (nt s) p) + 34 \<le> 65456" "chained (nt s) (p # qs)" and R: "\<forall>x. count R x \<le> 40000"
    and nf: "links_ok s" and tx: "tx_ok s"
  shows "\<exists>s' e. ip_output p src d ttl tos proto s = Some (s', e) \<and> arp_ok s' R \<and> ip_frame s s' \<and> spared R (set (p # qs)) (nt s) (nt s')"
proof -
  obtain ns where "nf_chain (netifs s) (netif_list s) ns" using nf by (auto simp: links_ok_def)
  note r = ip_route_first [OF this, of d]
  show ?thesis
  proof (cases "route_spec d ns s = NULL")
    case True
    then have "ip_output p src d ttl tos proto s = Some (s, ERR_RTE)" using r by (simp add: ip_output_def)
    then show ?thesis using ok by (auto simp: ip_frame_def intro: spared_same)
  next
    case False
    then have "ip_output p src d ttl tos proto s = ip_output_if p src (Some d) ttl tos proto (route_spec d ns s) s" using r by (simp add: ip_output_def)
    then show ?thesis using ip_output_if_ok [OF ok p R _ _ tx, of "route_spec d ns s" src d ttl tos proto] nf by (simp add: links_ok_def)
  qed
qed

subsection \<open>The frame on the wire\<close>

lemma write_ip_hdr_sum:
  assumes "bytes_at m h 20 = bs" "inet_chksum h 20 m = 0"
  shows "internet_sum bs = 65535"
proof -
  have "LWIP_CHKSUM h 20 m = NOT 0" using assms(2) unfolding inet_chksum_def by (metis bit.double_compl)
  then have "unat (lwip_standard_chksum3 h 20 m) = 65535" by (simp add: LWIP_CHKSUM_def unsigned_minus_1_eq_mask mask_eq_exp_minus_1)
  then show ?thesis using chksum3_sum [of 20 h m] assms(1) by simp
qed

text \<open>The source address: the given one, or the interface's.\<close>

definition ip_source :: "u32 option \<Rightarrow> netif \<Rightarrow> u32" where
  "ip_source src nf = (case src of Some a \<Rightarrow> if a = IPADDR_ANY then ip_addr nf else a | None \<Rightarrow> ip_addr nf)"

lemma ip_output_if_resolved:
  fixes s :: "'a ip_scheme"
  assumes ok: "arp_ok s R" and p: "sendable (nt s) R p" "headroom (nt s) p 34" "pb_next (pbufs (nt s) p) = NULL" "pb_len (pbufs (nt s) p) + 20 \<le> mtu (netifs s nf)"
      "mtu (netifs s nf) \<le> 65442"
    and tx: "tx_ok s" and l: "length (hwaddr (netifs s nf)) = 6"
    and a: "\<not> ip4_addr_isbroadcast a (netifs s nf)" "\<not> ip_addr_ismulticast a" "next_hop (netifs s nf) a = Some d"
    and i: "i < ARP_TABLE_SIZE" "is_stable (arp_table s ! i)" "arp_ip (arp_table s ! i) = d" "arp_ctime (arp_table s ! i) < ARP_AGE_REREQUEST_USED"
  shows "\<exists>s' c. ip_output_if p src (Some a) ttl tos proto nf s = Some (s', ERR_OK) \<and> arp_ok s' R \<and> ip_frame s s' \<and> ip_id s' = ip_id s + 1 \<and>
    internet_sum (ip_header ttl tos proto (pb_len (pbufs (nt s) p) + 20) (ip_id s) c (ip_source src (netifs s nf)) a) = 65535 \<and>
    tx_frames s' = tx_frames s @ [eth_header (arp_eth (arp_table s ! i)) (hwaddr (netifs s nf)) ETHTYPE_IP @
      ip_header ttl tos proto (pb_len (pbufs (nt s) p) + 20) (ip_id s) c (ip_source src (netifs s nf)) a @ pbuf_data (nt s) p]"
proof -
  have S: "p \<in># R" "whole (nt s) p" "unlinked (nt s) p" "\<not> is_custom (pbufs (nt s) p)" "pb_type (pbufs (nt s) p) \<noteq> PBUF_ROM" using p(1) by (auto simp: sendable_def)
  have pa: "p \<in> alive (nt s)" "p \<noteq> NULL" using S(2) by (auto elim: wholeE)
  have tl: "tot_len (pbufs (nt s) p) = pb_len (pbufs (nt s) p)"
  proof -
    obtain qs where "packet (nt s) (p # qs)" using wholeE [OF S(2)] by blast
    then show ?thesis using p(3) by (cases qs) auto
  qed
  let ?len = "pb_len (pbufs (nt s) p)"
  have room: "headroom (nt s) p 20" "34 \<le> payload (pbufs (nt s) p)" using p(2) by (auto simp: headroom_def)
  obtain n where h: "pbuf_header p 20 (nt s) = Some (n, 0)" "queued n (arp_L s) R" "whole n p" "unlinked n p" "alive n = alive (nt s)" "ram_bytes n = ram_bytes (nt s)"
    "pb_len (pbufs n p) = ?len + 20" "tot_len (pbufs n p) = ?len + 20" "payload (pbufs n p) + 20 = payload (pbufs (nt s) p)" "pb_next (pbufs n p) = NULL"
    "pb_type (pbufs n p) = pb_type (pbufs (nt s) p)" "pb_flags (pbufs n p) = pb_flags (pbufs (nt s) p)"
  proof -
    have hr: "pbuf_header p 20 (nt s) = Some (move_header p 20 (nt s), 0)" using header_room [OF pa room(1)] by simp
    have "int (tot_len (pbufs (nt s) p)) + 20 < 65536" using p(4,5) tl by simp
    from queued_header [OF arp_okD(1) [OF ok] S(2-4) this] obtain n e where q: "pbuf_header p 20 (nt s) = Some (n, e)" "queued n (arp_L s) R" "whole n p" "unlinked n p"
      "ram_bytes n = ram_bytes (nt s)" "alive n = alive (nt s)"
      "e = 1 \<and> n = nt s \<or> e = 0 \<and> int (pb_len (pbufs n p)) = int ?len + 20 \<and> int (tot_len (pbufs n p)) = int (tot_len (pbufs (nt s) p)) + 20 \<and>
        int (payload (pbufs n p)) = int (payload (pbufs (nt s) p)) - 20 \<and> pb_next (pbufs n p) = pb_next (pbufs (nt s) p) \<and> pb_type (pbufs n p) = pb_type (pbufs (nt s) p) \<and>
        pb_flags (pbufs n p) = pb_flags (pbufs (nt s) p)" by blast
    have e: "e = 0" using q(1) hr by simp
    show thesis by (rule that [OF q(1) [unfolded e] q(2,3,4,6,5)]) (use q(7) e p(3) tl room(2) in simp_all)
  qed
  define src' where "src' = ip_source src (netifs s nf)"
  have sr: "(if src = None \<or> src = Some IPADDR_ANY then ip_addr (netifs s nf) else the src) = src'"
    by (auto simp: src'_def ip_source_def split: option.splits)
  define h0 where "h0 = payload (pbufs n p)"
  define m where "m = write_ip_hdr h0 ttl tos proto (?len + 20) (ip_id s) src' a (ram_bytes n)"
  let ?n = "n\<lparr>ram_bytes := m\<rparr>"
  let ?s = "s\<lparr>nt := ?n, ip_id := ip_id s + 1\<rparr>"
  obtain c where W: "bytes_at m h0 20 = ip_header ttl tos proto (?len + 20) (ip_id s) c src' a" "inet_chksum h0 20 m = 0" "\<And>x. h0 + 20 \<le> x \<Longrightarrow> m x = ram_bytes n x"
    using write_ip_hdr_ok [where h = h0 and ttl = ttl and tos = tos and proto = proto and len = "?len + 20" and ident = "ip_id s" and src = src' and dest = a and m = "ram_bytes n"]
    unfolding m_def by blast
  have dat: "pbuf_data ?n p = ip_header ttl tos proto (?len + 20) (ip_id s) c src' a @ pbuf_data (nt s) p"
  proof -
    have "bytes_at m (h0 + 20) ?len = bytes_at (ram_bytes (nt s)) (payload (pbufs (nt s) p)) ?len"
      using W(3) h(6,9) by (simp add: bytes_at_def h0_def)
    then show ?thesis using W(1) h(7) by (simp add: pbuf_data_def h0_def [symmetric] add.commute [of ?len 20] bytes_at_add)
  qed
  have e: "ip_output_if p src (Some a) ttl tos proto nf s = etharp_output nf p a ?s"
    using ip_output_if_dest [of p s n 0 src a ttl tos proto nf] h(1,5,8) pa p(4) unfolding sr
    by (simp add: IP_HLEN_def ip_send_def get_pbuf_def m_def h0_def)
  have "arp_ok (s\<lparr>nt := ?n\<rparr>) R" using arp_ok_nt [OF ok, of ?n R] h(2) by simp
  then have ok': "arp_ok ?s R" by (simp add: arp_ok_def)
  have "sendable (nt ?s) R p" "headroom (nt ?s) p 14" "pb_next (pbufs (nt ?s) p) = NULL" "tx_ok ?s" "length (hwaddr (netifs ?s nf)) = 6"
    using h S p tx l by (auto simp: sendable_def is_custom_def headroom_def)
  from output_resolved [OF ok' this, of a d i] a i
  obtain s' where "etharp_output nf p a ?s = Some (s', ERR_OK)" "arp_ok s' R" "arp_frame ?s s'"
    "tx_frames s' = tx_frames s @ [eth_header (arp_eth (arp_table s ! i)) (hwaddr (netifs s nf)) ETHTYPE_IP @ pbuf_data ?n p]" by auto
  moreover from this(3) have "ip_id s' = ip_id s + 1" by (cases s; cases s') (auto simp: arp_frame_def)
  moreover from calculation(3) have "ip_frame s s'" by (rule ip_frame_id)
  ultimately show ?thesis using e dat write_ip_hdr_sum [OF W(1,2)] unfolding src'_def by (intro exI [of _ s'] exI [of _ c]) simp
qed

subsection \<open>Properties\<close>

text \<open>A state with one interface and one packet, for examples.\<close>

definition demo_ip :: "net \<Rightarrow> ip" where
  "demo_ip n = \<lparr>nt = n, netifs = (\<lambda>_. demo_if), netif_list = 1, netif_default = 1, netif_num = 1, tx_frames = [], tx_done = (\<lambda>_. True),
     arp_table = (replicate ARP_TABLE_SIZE empty_entry)[0 := resolved 1 0x0b00a8c0 [2, 0, 0, 0, 0, 7]], etharp_cached_entry = 0,
     ip_id = 5, current_netif = NULL, current_header = NULL, current_iphdr_src = 0, current_iphdr_dest = 0,
     reassdata = Map.empty, reassdatagrams = NULL, ip_reass_pbufcount = 0\<rparr>"

lemma demo_ip_fields [simp]: "nt (demo_ip n) = n" "netifs (demo_ip n) = (\<lambda>_. demo_if)" "netif_list (demo_ip n) = 1" "tx_frames (demo_ip n) = []" "tx_done (demo_ip n) k"
  "arp_table (demo_ip n) ! 0 = resolved 1 0x0b00a8c0 [2, 0, 0, 0, 0, 7]" "ip_id (demo_ip n) = 5" "netif_default (demo_ip n) = 1"
  by (simp_all add: demo_ip_def ARP_TABLE_SIZE_def)

lemma demo_ip_ok:
  assumes "net_ok n R"
  shows "arp_ok (demo_ip n) R" "links_ok (demo_ip n)" "nf_chain (netifs (demo_ip n)) (netif_list (demo_ip n)) [1]"
proof -
  let ?e = "resolved 1 0x0b00a8c0 [2, 0, 0, 0, 0, 7]"
  have ok0: "arp_ok (demo n) R" unfolding demo_def using assms by (rule arp_start_ok)
  have r: "arp_rest 0 (demo n) R" using ok0 by (rule arp_ok_rest) (simp add: ARP_TABLE_SIZE_def)
  have "arp_ok ((demo n)\<lparr>nt := nt (demo n), arp_table := (arp_table (demo n))[0 := ?e]\<rparr>) R"
    by (rule arp_rest_entry [OF r]) (use r in \<open>simp_all add: arp_rest_def own_ip_def ARP_TABLE_SIZE_def\<close>)
  then show "arp_ok (demo_ip n) R" by (simp add: arp_ok_def demo_ip_def demo_def arp_start_def)
  show c: "nf_chain (netifs (demo_ip n)) (netif_list (demo_ip n)) [1]" by (simp add: demo_if_def)
  show "links_ok (demo_ip n)" unfolding links_ok_def using c by (intro conjI exI [of _ "[1]"]) (simp_all add: demo_if_def)
qed

text \<open>C7: Whatever the routing table, the ARP table and the allocators answer, \<open>ip_output\<close> returns: the datagram is refused without a route or a
  header, sent, queued for its next hop, or cut into fragments that are sent or queued.  All references are accounted for
  afterwards, only \<open>ip_id\<close> and what was sent changes in the state, and packets that share no buffer with the datagram are as before.\<close>

theorem ip_output_safe:
  fixes s :: "'a ip_scheme"
  assumes "arp_ok s R" "sendable (nt s) R p" "tot_len (pbufs (nt s) p) + 34 \<le> 65456" "chained (nt s) (p # qs)" "\<forall>x. count R x \<le> 40000" "links_ok s" "tx_ok s"
  shows "\<exists>s' e. ip_output p src d ttl tos proto s = Some (s', e) \<and> arp_ok s' R \<and> ip_frame s s' \<and> spared R (set (p # qs)) (nt s) (nt s')"
  using ip_output_ok [OF assms] .

text \<open>C39: A datagram in one buffer with room for the headers that fits the link and whose next hop is resolved leaves as one frame: the Ethernet header, the
  IP header with the given fields, the next identification and a checksum that verifies, and then exactly the data.  Routing picks the
  first interface that is up and on the destination's network, and otherwise the default one.\<close>

theorem ip_output_frame:
  fixes s :: "'a ip_scheme"
  assumes ok: "arp_ok s R" and r: "nf_chain (netifs s) (netif_list s) ns" "route_spec a ns s = nf" "nf \<noteq> NULL"
    and p: "sendable (nt s) R p" "headroom (nt s) p 34" "pb_next (pbufs (nt s) p) = NULL" "pb_len (pbufs (nt s) p) + 20 \<le> mtu (netifs s nf)" "mtu (netifs s nf) \<le> 65442"
    and tx: "tx_ok s" and l: "length (hwaddr (netifs s nf)) = 6"
    and a: "\<not> ip4_addr_isbroadcast a (netifs s nf)" "\<not> ip_addr_ismulticast a" "next_hop (netifs s nf) a = Some d"
    and i: "i < ARP_TABLE_SIZE" "is_stable (arp_table s ! i)" "arp_ip (arp_table s ! i) = d" "arp_ctime (arp_table s ! i) < ARP_AGE_REREQUEST_USED"
  shows "\<exists>s' c. ip_output p src a ttl tos proto s = Some (s', ERR_OK) \<and> arp_ok s' R \<and> ip_frame s s' \<and> ip_id s' = ip_id s + 1 \<and>
    internet_sum (ip_header ttl tos proto (pb_len (pbufs (nt s) p) + 20) (ip_id s) c (ip_source src (netifs s nf)) a) = 65535 \<and>
    tx_frames s' = tx_frames s @ [eth_header (arp_eth (arp_table s ! i)) (hwaddr (netifs s nf)) ETHTYPE_IP @
      ip_header ttl tos proto (pb_len (pbufs (nt s) p) + 20) (ip_id s) c (ip_source src (netifs s nf)) a @ pbuf_data (nt s) p]"
proof -
  have "ip_output p src a ttl tos proto s = ip_output_if p src (Some a) ttl tos proto nf s"
    using ip_route_first [OF r(1), of a] r(2,3) by (simp add: ip_output_def)
  then show ?thesis using ip_output_if_resolved [OF ok p tx l a i, of src ttl tos proto] by simp
qed

lemma demo_hdr:
  obtains n where "net_ok n {#1008#}" "packet n [1008]" "pb_len (pbufs n 1008) = 60" "unlinked n 1008" "sendable n {#1008#} 1008" "headroom n 1008 34" "chained n [1008]"
    "pb_next (pbufs n 1008) = NULL" "tot_len (pbufs n 1008) = 60"
proof -
  obtain n where n: "net_ok n {#1008#}" "packet n [1008]" "pb_len (pbufs n 1008) = 100" "pb_type (pbufs n 1008) = PBUF_RAM" "\<not> is_custom (pbufs n 1008)"
    "unlinked n 1008" "1024 \<le> payload (pbufs n 1008)" by (rule demo_packet)
  have h: "whole n 1008" "tot_len (pbufs n 1008) = 100" "pb_next (pbufs n 1008) = NULL"
    using n(2,3) by (auto simp: whole_def intro!: exI [of _ "[]"])
  have al: "1008 \<in> alive n" using n(2) by simp
  have "pbuf_header 1008 (- 40) n = Some (move_header 1008 (- 40) n, 0)" using pbuf_header_cases [OF al, of "- 40"] n by simp
  then obtain n' where n': "net_ok n' {#1008#}" "unlinked n' 1008" "pb_len (pbufs n' 1008) = 60" "tot_len (pbufs n' 1008) = 60"
    "payload (pbufs n' 1008) = payload (pbufs n 1008) + 40" "pb_next (pbufs n' 1008) = NULL" "pb_type (pbufs n' 1008) = PBUF_RAM" "n' = move_header 1008 (- 40) n" "whole n' 1008"
    using pbuf_header_ok [OF n(1) h(1) n(6,5), of "- 40"] n h by auto
  have cu: "\<not> is_custom (pbufs n' 1008)" using n(5) by (simp add: n'(8) is_custom_def)
  have al': "1008 \<in> alive n'" using n'(9) by (auto elim: wholeE)
  show thesis by (rule that [OF n'(1) _ n'(3,2)]) (use n' cu al' n(7) in \<open>auto simp: sendable_def headroom_def\<close>)
qed

theorem ip_output_safe_witness:
  "\<exists>n s' e. ip_output 1008 None 0x0b00a8c0 64 0 17 (demo_ip n) = Some (s', e) \<and> arp_ok s' {#1008#} \<and> ip_frame (demo_ip n) s'"
proof -
  obtain n where n: "net_ok n {#1008#}" "packet n [1008]" "pb_len (pbufs n 1008) = 60" "unlinked n 1008" "sendable n {#1008#} 1008" "headroom n 1008 34" "chained n [1008]"
    "pb_next (pbufs n 1008) = NULL" "tot_len (pbufs n 1008) = 60" by (rule demo_hdr)
  have "\<exists>s' e. ip_output 1008 None 0x0b00a8c0 64 0 17 (demo_ip n) = Some (s', e) \<and> arp_ok s' {#1008#} \<and> ip_frame (demo_ip n) s' \<and> spared {#1008#} (set [1008]) (nt (demo_ip n)) (nt s')"
    by (rule ip_output_safe [OF demo_ip_ok(1) [OF n(1)]]) (use n demo_ip_ok(2) [OF n(1)] in auto)
  then show ?thesis by blast
qed

theorem ip_output_frame_witness:
  "\<exists>n s' c. ip_output 1008 None 0x0b00a8c0 64 0 17 (demo_ip n) = Some (s', ERR_OK) \<and> length (pbuf_data n 1008) = 60 \<and> ip_id s' = 6 \<and>
    internet_sum ([0x45, 0, 0, 80, 0, 5, 0, 0, 64, 17] @ le16 c @ [192, 168, 0, 10, 192, 168, 0, 11]) = 65535 \<and>
    tx_frames s' = [[2, 0, 0, 0, 0, 7, 0, 0x0a, 0x35, 0, 1, 2, 8, 0] @ [0x45, 0, 0, 80, 0, 5, 0, 0, 64, 17] @ le16 c @ [192, 168, 0, 10, 192, 168, 0, 11] @ pbuf_data n 1008]"
proof -
  obtain n where n: "net_ok n {#1008#}" "packet n [1008]" "pb_len (pbufs n 1008) = 60" "unlinked n 1008" "sendable n {#1008#} 1008" "headroom n 1008 34" "chained n [1008]"
    "pb_next (pbufs n 1008) = NULL" "tot_len (pbufs n 1008) = 60" by (rule demo_hdr)
  note D = demo_ip_ok [OF n(1)]
  have r: "route_spec 0x0b00a8c0 [1] (demo_ip n) = 1"
    by (simp add: route_spec_def on_link_def demo_if_def netif_is_up_def NETIF_FLAG_UP_def ip_addr_netcmp_def)
  have hd: "ip_header 64 0 17 80 5 c 0x0a00a8c0 0x0b00a8c0 = [0x45, 0, 0, 80, 0, 5, 0, 0, 64, 17] @ le16 c @ [192, 168, 0, 10, 192, 168, 0, 11]" for c
    by (simp add: ip_header_def be16_def addr_bytes_def)
  have "\<exists>s' c. ip_output 1008 None 0x0b00a8c0 64 0 17 (demo_ip n) = Some (s', ERR_OK) \<and> arp_ok s' {#1008#} \<and> ip_frame (demo_ip n) s' \<and> ip_id s' = ip_id (demo_ip n) + 1 \<and>
    internet_sum (ip_header 64 0 17 (pb_len (pbufs (nt (demo_ip n)) 1008) + 20) (ip_id (demo_ip n)) c (ip_source None (netifs (demo_ip n) 1)) 0x0b00a8c0) = 65535 \<and>
    tx_frames s' = tx_frames (demo_ip n) @ [eth_header (arp_eth (arp_table (demo_ip n) ! 0)) (hwaddr (netifs (demo_ip n) 1)) ETHTYPE_IP @
      ip_header 64 0 17 (pb_len (pbufs (nt (demo_ip n)) 1008) + 20) (ip_id (demo_ip n)) c (ip_source None (netifs (demo_ip n) 1)) 0x0b00a8c0 @
      pbuf_data (nt (demo_ip n)) 1008]"
    by (rule ip_output_frame [OF D(1,3) r]) (use n demo_unicast in \<open>simp_all add: ARP_TABLE_SIZE_def stable_iff\<close>,
        simp_all add: resolved_def ARP_AGE_REREQUEST_USED_def ARP_MAXAGE_def demo_if_def)
  then obtain s' c where "ip_output 1008 None 0x0b00a8c0 64 0 17 (demo_ip n) = Some (s', ERR_OK)" "ip_id s' = 6"
    "internet_sum (ip_header 64 0 17 80 5 c 0x0a00a8c0 0x0b00a8c0) = 65535"
    "tx_frames s' = [eth_header [2, 0, 0, 0, 0, 7] (hwaddr demo_if) ETHTYPE_IP @ ip_header 64 0 17 80 5 c 0x0a00a8c0 0x0b00a8c0 @ pbuf_data n 1008]"
    using n(3) by (auto simp: resolved_def demo_if_def ip_source_def)
  then show ?thesis unfolding hd using n(3)
    by (intro exI [of _ n] exI [of _ s'] exI [of _ c]) (simp add: eth_header_def htons_bytes demo_if_def pbuf_data_def)
qed

end
