(* ===== verification/Icmp.thy ===== *)
theory Icmp
  imports Ip_Out
begin

text \<open>
  ICMP, \<^verbatim>\<open>core/ipv4/icmp.c\<close>: answering echo requests in place or in a copy, and reporting errors with the beginning
  of the datagram they are about.  Definitions only.
\<close>

unbundle bit_operations_syntax

definition ICMP_ER :: u8 where "ICMP_ER = 0"
definition ICMP_DUR :: u8 where "ICMP_DUR = 3"
definition ICMP_ECHO :: u8 where "ICMP_ECHO = 8"
definition ICMP_TE :: u8 where "ICMP_TE = 11"
definition ICMP_DUR_PROTO :: u8 where "ICMP_DUR_PROTO = 2"
definition ICMP_DUR_PORT :: u8 where "ICMP_DUR_PORT = 3"
definition ICMP_TE_FRAG :: u8 where "ICMP_TE_FRAG = 1"
definition ICMP_TTL :: u8 where "ICMP_TTL = 255"
definition ICMP_DEST_UNREACH_DATASIZE :: nat where "ICMP_DEST_UNREACH_DATASIZE = 8"
definition SIZEOF_ICMP_ECHO_HDR :: nat where "SIZEOF_ICMP_ECHO_HDR = 8"

definition free_packet :: "ptr \<Rightarrow> 'a lwip_scheme \<Rightarrow> 'a lwip_scheme option" where
  "free_packet p s = map_option fst (on_net (pbuf_free p) s)"

subsection \<open>Echo requests\<close>

text \<open>Room for the link header in front of the request: in the packet itself, or in a copy that takes its place.  The result is
  the packet with its payload at the ICMP header and where its IP header is, or nothing if there is no memory.\<close>

definition icmp_room :: "ptr \<Rightarrow> ptr \<Rightarrow> nat \<Rightarrow> 'a lwip_scheme \<Rightarrow> ('a lwip_scheme \<times> (ptr \<times> ptr) option) option" where
  "icmp_room p iphdr hlen s =
     do { (s, e) \<leftarrow> on_net (pbuf_header p (int (IP_HLEN + SIZEOF_ETH_HDR))) s;
          if e \<noteq> 0 then do {
            (s, e) \<leftarrow> on_net (pbuf_header p (int hlen)) s;
            if e \<noteq> 0 then Some (s, None)
            else do {
              b \<leftarrow> get_pbuf p (nt s);
              (s, r) \<leftarrow> on_net (pbuf_alloc PBUF_LINK (tot_len b) PBUF_RAM) s;
              if r = NULL then Some (s, None)
              else do {
                (s, e) \<leftarrow> on_net (pbuf_copy r p) s;
                if e \<noteq> ERR_OK then Some (s, None)
                else do {
                  rb \<leftarrow> get_pbuf r (nt s);
                  (s, e) \<leftarrow> on_net (pbuf_header r (- int hlen)) s;
                  if e \<noteq> 0 then Some (s, None)
                  else do { s \<leftarrow> free_packet p s; Some (s, Some (r, payload rb)) } } } } }
          else do {
            (s, e) \<leftarrow> on_net (pbuf_header p (- int (IP_HLEN + SIZEOF_ETH_HDR))) s;
            Some (s, if e \<noteq> 0 then None else Some (p, iphdr)) } }"

text \<open>The checksum of the message when the type drops from \<open>ICMP_ECHO\<close> to \<open>ICMP_ER\<close>.\<close>

definition echo_chksum :: "u16 \<Rightarrow> u16" where
  "echo_chksum c =
     (if c \<ge> lwip_htons (0xffff - push_bit 8 (ucast ICMP_ECHO)) then c + lwip_htons (push_bit 8 (ucast ICMP_ECHO)) + 1
      else c + lwip_htons (push_bit 8 (ucast ICMP_ECHO)))"

text \<open>The request turned into the reply, in place.\<close>

definition echo_answer :: "ptr \<Rightarrow> ptr \<Rightarrow> u32 \<Rightarrow> u32 \<Rightarrow> memory \<Rightarrow> memory" where
  "echo_answer iphdr iecho src dest m =
     (let m = put_bytes (iphdr + IPH_SRC_OFF) (addr_bytes src) m;
          m = put_bytes (iphdr + IPH_DEST_OFF) (addr_bytes dest) m;
          m = m(iecho := ICMP_ER);
          m = st16 (iecho + 2) (echo_chksum (ld16 m (iecho + 2))) m;
          m = m(iphdr + IPH_TTL_OFF := ICMP_TTL);
          m = st16 (iphdr + IPH_CHKSUM_OFF) 0 m
      in st16 (iphdr + IPH_CHKSUM_OFF) (inet_chksum iphdr IP_HLEN m) m)"

definition icmp_echo :: "ptr \<Rightarrow> ptr \<Rightarrow> nat \<Rightarrow> ptr \<Rightarrow> 'a ip_scheme \<Rightarrow> 'a ip_scheme option" where
  "icmp_echo p iphdr hlen inp s =
     do { (s, r) \<leftarrow> icmp_room p iphdr hlen s;
          case r of
            None \<Rightarrow> free_packet p s
          | Some (p, iphdr) \<Rightarrow> do {
              b \<leftarrow> get_pbuf p (nt s);
              let s = upd_ram (echo_answer iphdr (payload b) (current_iphdr_dest s) (current_iphdr_src s)) s;
              (s, e) \<leftarrow> on_net (pbuf_header p (int hlen)) s;
              s \<leftarrow> (if e \<noteq> 0 then Some s
                    else map_option fst (ip_output_if p (Some (current_iphdr_dest s)) None ICMP_TTL 0 IP_PROTO_ICMP inp s));
              free_packet p s } }"

definition icmp_input :: "ptr \<Rightarrow> ptr \<Rightarrow> 'a ip_scheme \<Rightarrow> 'a ip_scheme option" where
  "icmp_input p inp s =
     do { b \<leftarrow> get_pbuf p (nt s);
          let iphdr = payload b;
          let hlen = IPH_HL (ram_bytes (nt s)) iphdr * 4;
          (s, e) \<leftarrow> on_net (pbuf_header p (- int hlen)) s;
          b \<leftarrow> get_pbuf p (nt s);
          if e \<noteq> 0 \<or> tot_len b < 4 then free_packet p s
          else if ram_bytes (nt s) (payload b) = ICMP_ECHO then
            if ip_addr_ismulticast (current_iphdr_dest s) \<or> ip4_addr_isbroadcast (current_iphdr_dest s) (netifs s inp) then free_packet p s
            else if tot_len b < SIZEOF_ICMP_ECHO_HDR then free_packet p s
            else do {
              c \<leftarrow> inet_chksum_pbuf p (nt s);
              if c \<noteq> 0 then free_packet p s else icmp_echo p iphdr hlen inp s }
          else free_packet p s }"

subsection \<open>Error messages\<close>

definition write_icmp_error :: "ptr \<Rightarrow> nat \<Rightarrow> ptr \<Rightarrow> u8 \<Rightarrow> u8 \<Rightarrow> memory \<Rightarrow> memory" where
  "write_icmp_error icmphdr len iphdr type code m =
     (let m = m(icmphdr := type);
          m = m(icmphdr + 1 := code);
          m = st16 (icmphdr + 4) 0 m;
          m = st16 (icmphdr + 6) 0 m;
          m = memcpy (IP_HLEN + ICMP_DEST_UNREACH_DATASIZE) (icmphdr + SIZEOF_ICMP_ECHO_HDR) iphdr m;
          m = st16 (icmphdr + 2) 0 m
      in st16 (icmphdr + 2) (inet_chksum icmphdr len m) m)"

definition icmp_send_response :: "ptr \<Rightarrow> u8 \<Rightarrow> u8 \<Rightarrow> 'a ip_scheme \<Rightarrow> 'a ip_scheme option" where
  "icmp_send_response p type code s =
     do { (s, q) \<leftarrow> on_net (pbuf_alloc PBUF_IP (SIZEOF_ICMP_ECHO_HDR + IP_HLEN + ICMP_DEST_UNREACH_DATASIZE) PBUF_RAM) s;
          if q = NULL then Some s
          else do {
            b \<leftarrow> get_pbuf p (nt s);
            qb \<leftarrow> get_pbuf q (nt s);
            let s = upd_ram (write_icmp_error (payload qb) (pb_len qb) (payload b) type code) s;
            (s, _) \<leftarrow> ip_output q None (ld32 (ram_bytes (nt s)) (payload b + IPH_SRC_OFF)) ICMP_TTL 0 IP_PROTO_ICMP s;
            free_packet q s } }"

definition icmp_dest_unreach :: "ptr \<Rightarrow> u8 \<Rightarrow> 'a ip_scheme \<Rightarrow> 'a ip_scheme option" where
  "icmp_dest_unreach p t = icmp_send_response p ICMP_DUR t"

definition icmp_time_exceeded :: "ptr \<Rightarrow> u8 \<Rightarrow> 'a ip_scheme \<Rightarrow> 'a ip_scheme option" where
  "icmp_time_exceeded p t = icmp_send_response p ICMP_TE t"

end
