(* ===== verification/Icmp_Spec.thy ===== *)
theory Icmp_Spec
  imports Icmp
begin

text \<open>
  ICMP returns and gives up every packet it is handed, whatever the allocators answer; an echo request is answered with the same
  data, addresses exchanged and checksums that verify.
\<close>

unbundle bit_operations_syntax

subsection \<open>Packets owned by the caller\<close>

definition own :: "'a arp_scheme \<Rightarrow> ptr multiset \<Rightarrow> ptr \<Rightarrow> bool" where
  "own s R p \<longleftrightarrow> arp_ok s (add_mset p R) \<and> whole (nt s) p \<and> unlinked (nt s) p \<and> \<not> is_custom (pbufs (nt s) p) \<and>
     pb_type (pbufs (nt s) p) \<noteq> PBUF_ROM \<and> tot_len (pbufs (nt s) p) \<le> 65400"

lemma ownD:
  assumes "own s R p"
  shows "arp_ok s (add_mset p R)" "whole (nt s) p" "unlinked (nt s) p" "\<not> is_custom (pbufs (nt s) p)" "pb_type (pbufs (nt s) p) \<noteq> PBUF_ROM"
    "tot_len (pbufs (nt s) p) \<le> 65400" "p \<in> alive (nt s)" "p \<noteq> NULL" "sendable (nt s) (add_mset p R) p" "get_pbuf p (nt s) = Some (pbufs (nt s) p)"
  using assms by (auto simp: own_def sendable_def get_pbuf_def elim: wholeE)

lemma ip_frame_refl [simp]: "ip_frame s s"
  by (simp add: ip_frame_def)

lemma ip_frame_trans: "ip_frame s s' \<Longrightarrow> ip_frame s' s'' \<Longrightarrow> ip_frame s s''"
  by (cases s; cases s'; cases s'') (auto simp: ip_frame_def arp_frame_def)

lemma ip_frame_arp: "arp_frame s s' \<Longrightarrow> ip_frame s s'"
  by (cases s; cases s') (auto simp: ip_frame_def arp_frame_def)

lemma ip_frame_nt [simp]: "ip_frame s (s'\<lparr>nt := n\<rparr>) = ip_frame s s'"
  by (cases s; cases s') (auto simp: ip_frame_def arp_frame_def)

lemma ip_frameD:
  assumes "ip_frame s s'"
  shows "netifs s' = netifs s" "tx_ok s \<Longrightarrow> tx_ok s'" "links_ok s \<Longrightarrow> links_ok s'" "current_iphdr_src s' = current_iphdr_src s" "current_iphdr_dest s' = current_iphdr_dest s"
  using assms by (cases s; cases s'; auto simp: ip_frame_def arp_frame_def links_ok_def)+

lemma own_ram [simp]: "own (s\<lparr>nt := n\<lparr>ram_bytes := m\<rparr>\<rparr>) R p = own (s\<lparr>nt := n\<rparr>) R p"
  by (simp add: own_def arp_ok_def)

lemma free_packet_ok:
  assumes "arp_ok s (add_mset p R)" "p \<noteq> NULL"
  shows "\<exists>n. free_packet p s = Some (s\<lparr>nt := n\<rparr>) \<and> arp_ok (s\<lparr>nt := n\<rparr>) R \<and> net_frame (nt s) n"
proof -
  note D = assms
  have "net_ok (nt s) (add_mset p (mset (map snd (arp_L s)) + R))" using queuedD(1) [OF arp_okD(1) [OF D(1)]] by simp
  from pbuf_free_ok [OF this D(2)] obtain n k where f: "pbuf_free p (nt s) = Some (n, k)" "net_ok n (mset (map snd (arp_L s)) + R)" "net_frame (nt s) n" by blast
  have "arp_ok (s\<lparr>nt := n\<rparr>) R" by (rule arp_ok_nt [OF D(1) queued_frame [OF arp_okD(1) [OF D(1)] f(2,3)]])
  then show ?thesis using f(1,3) by (intro exI [of _ n]) (simp add: free_packet_def on_net_def)
qed

lemma own_free:
  assumes "own s R p"
  shows "\<exists>n. free_packet p s = Some (s\<lparr>nt := n\<rparr>) \<and> arp_ok (s\<lparr>nt := n\<rparr>) R \<and> net_frame (nt s) n"
  by (rule free_packet_ok [OF ownD(1,8) [OF assms]])

lemma own_upd_ram [simp]: "own (upd_ram f s) R p = own s R p"
  by (simp add: upd_ram_def own_def arp_ok_def)

lemma own_held:
  assumes "own s R' p" "arp_ok (s\<lparr>nt := n\<rparr>) (add_mset p R)" "held_same {#p#} (nt s) n"
    "\<And>x. x \<in> alive n \<Longrightarrow> x \<in> alive (nt s) \<and> pb_next (pbufs n x) = pb_next (pbufs (nt s) x)"
  shows "own (s\<lparr>nt := n\<rparr>) R p"
proof -
  note D = ownD [OF assms(1)]
  have "whole n p" using held_same_whole [OF assms(3) _ D(2)] by simp
  moreover have "unlinked n p" using D(3) assms(4) by (auto simp: unlinked_def)
  moreover have "p \<in># {#p#}" by simp
  note H = held_sameD [OF assms(3) this whole_heads [OF D(2)] D(8)]
  ultimately show ?thesis using assms(2) D H by (simp add: own_def is_custom_def)
qed

lemma own_kept:
  assumes "own s R' p" "arp_ok (s\<lparr>nt := n\<rparr>) (add_mset p R)" "net_frame (nt s) n"
  shows "own (s\<lparr>nt := n\<rparr>) R p"
proof (rule own_held [OF assms(1,2)])
  have I: "net_inv n (mset (map snd (arp_L s)) + add_mset p R)" using net_okD(1) [OF queuedD(1) [OF arp_okD(1) [OF assms(2)]]] by simp
  show "held_same {#p#} (nt s) n" by (rule held_same_frame [OF assms(3) I]) simp
qed (use net_frameD(1) [OF assms(3)] net_frame_fields(1) [OF assms(3)] in auto)

lemma own_alloc:
  assumes "arp_ok s R" "len \<le> 65400"
  shows "\<exists>n r. on_net (pbuf_alloc layer len PBUF_RAM) s = Some (s\<lparr>nt := n\<rparr>, r) \<and> (r = NULL \<and> n = nt s \<or> own (s\<lparr>nt := n\<rparr>) R r \<and> r \<notin> alive (nt s) \<and>
    packet n [r] \<and> pb_len (pbufs n r) = len \<and> pb_type (pbufs n r) = PBUF_RAM \<and> alive n = insert r (alive (nt s)) \<and> (\<forall>x\<in>alive (nt s). pbufs n x = pbufs (nt s) x) \<and>
    ram_bytes n = ram_bytes (nt s))"
proof -
  note Q = arp_okD(1) [OF assms(1)]
  have I: "net_inv (nt s) (mset (map snd (arp_L s)) + R)" using net_okD(1) [OF queuedD(1) [OF Q]] .
  have l: "len \<le> 65456" using assms(2) by simp
  obtain n r where a: "pbuf_alloc layer len PBUF_RAM (nt s) = Some (n, r)" "pools n = pools (nt s)" "ram_bytes n = ram_bytes (nt s)"
    "r = NULL \<and> n = nt s \<or> r \<noteq> NULL \<and> r \<notin> alive (nt s) \<and> net_ok n (add_mset r (mset (map snd (arp_L s)) + R)) \<and> packet n [r] \<and> pb_len (pbufs n r) = len \<and>
      alive n = insert r (alive (nt s)) \<and> (\<forall>x\<in>alive (nt s). pbufs n x = pbufs (nt s) x)"
    using pbuf_alloc_ram_ok [OF queuedD(1) [OF Q] l, of layer] by blast
  show ?thesis
  proof (cases "r = NULL")
    case True
    then show ?thesis using a by (auto simp: on_net_def)
  next
    case False
    have A: "r \<notin> alive (nt s)" "net_ok n (add_mset r (mset (map snd (arp_L s)) + R))" "packet n [r]" "pb_len (pbufs n r) = len" "alive n = insert r (alive (nt s))"
      "\<forall>x\<in>alive (nt s). pbufs n x = pbufs (nt s) x" using a(4) False by auto
    note T = alloc_ram_type [OF a(1) False]
    have "queued n (arp_L s) (add_mset r R)" using Q A(2) a(2) by (auto simp: queued_def aux_block_def)
    then have ok: "arp_ok (s\<lparr>nt := n\<rparr>) (add_mset r R)" by (rule arp_ok_nt [OF assms(1)])
    have "island n (mset (map snd (arp_L s)) + R) {r}" by (rule island_fresh [OF I A(1) False A(5)]) (use A(6) in auto)
    moreover have "pb_next (pbufs n r) \<noteq> r" using A(3) by simp
    ultimately have u: "unlinked n r" using A(5) by (auto simp: island_def unlinked_def)
    have w: "whole n r" unfolding whole_def using A(3,4) assms(2) by (intro exI [of _ "[]"]) simp
    have "tot_len (pbufs n r) = len" using A(3,4) by simp
    then have "own (s\<lparr>nt := n\<rparr>) R r" using ok u w T assms(2) by (simp add: own_def is_custom_def)
    then show ?thesis using a(1,3) A T by (auto simp: on_net_def)
  qed
qed

lemma own_beside:
  assumes p: "own s R p" and r: "own (s\<lparr>nt := n\<rparr>) (add_mset p R) r" "r \<notin> alive (nt s)" "packet n [r]" "alive n = insert r (alive (nt s))" "\<forall>x\<in>alive (nt s). pbufs n x = pbufs (nt s) x"
  shows "own (s\<lparr>nt := n\<rparr>) (add_mset r R) p" "packet (nt s) (p # qs) \<Longrightarrow> packet n (p # qs)" "packet (nt s) (p # qs) \<Longrightarrow> chain_len n (p # qs) = chain_len (nt s) (p # qs)"
proof -
  note D = ownD [OF p]
  have k: "packet n (p # qs)" "chain_len n (p # qs) = chain_len (nt s) (p # qs)" if pk: "packet (nt s) (p # qs)" for qs
  proof -
    have al: "x \<in> alive (nt s)" if "x \<in> set (p # qs)" for x using packet_alive [OF pk that] by blast
    have "packet n (p # qs) = packet (nt s) (p # qs)" "chain_len n (p # qs) = chain_len (nt s) (p # qs)"
      by (rule packet_to_cong; use al r(4,5) in auto)+
    then show "packet n (p # qs)" "chain_len n (p # qs) = chain_len (nt s) (p # qs)" using pk by simp_all
  qed
  then show "packet (nt s) (p # qs) \<Longrightarrow> packet n (p # qs)" "packet (nt s) (p # qs) \<Longrightarrow> chain_len n (p # qs) = chain_len (nt s) (p # qs)" by blast+
  have "whole n p" using D(2) k unfolding whole_def by metis
  moreover have "unlinked n p" using D(3,8) r(3,4,5) by (auto simp: unlinked_def)
  moreover have "arp_ok (s\<lparr>nt := n\<rparr>) (add_mset p (add_mset r R))" using ownD(1) [OF r(1)] by (simp add: add_mset_commute)
  ultimately show "own (s\<lparr>nt := n\<rparr>) (add_mset r R) p" using D r(5) by (simp add: own_def)
qed

lemma own_header:
  assumes "own s R p" "int (tot_len (pbufs (nt s) p)) + inc \<le> 65400"
  shows "\<exists>n e. on_net (pbuf_header p inc) s = Some (s\<lparr>nt := n\<rparr>, e) \<and> own (s\<lparr>nt := n\<rparr>) R p \<and> ram_bytes n = ram_bytes (nt s) \<and> alive n = alive (nt s) \<and>
    held_same {#x \<in># R. x \<noteq> p#} (nt s) n \<and>
    (e = 1 \<and> n = nt s \<or> e = 0 \<and> int (pb_len (pbufs n p)) = int (pb_len (pbufs (nt s) p)) + inc \<and>
      int (tot_len (pbufs n p)) = int (tot_len (pbufs (nt s) p)) + inc \<and> int (payload (pbufs n p)) = int (payload (pbufs (nt s) p)) - inc \<and>
      (\<forall>x. x \<noteq> p \<longrightarrow> pbufs n x = pbufs (nt s) x) \<and> pb_next (pbufs n p) = pb_next (pbufs (nt s) p) \<and> pb_type (pbufs n p) = pb_type (pbufs (nt s) p))"
proof -
  note D = ownD [OF assms(1)]
  have "int (tot_len (pbufs (nt s) p)) + inc < 65536" using assms(2) by simp
  from queued_header [OF arp_okD(1) [OF D(1)] D(2-4) this] obtain n e where h: "pbuf_header p inc (nt s) = Some (n, e)" "queued n (arp_L s) (add_mset p R)"
    "whole n p" "unlinked n p" "ram_bytes n = ram_bytes (nt s)" "held_same {#x \<in># add_mset p R. x \<noteq> p#} (nt s) n"
    "e = 1 \<and> n = nt s \<or> e = 0 \<and> int (pb_len (pbufs n p)) = int (pb_len (pbufs (nt s) p)) + inc \<and>
      int (tot_len (pbufs n p)) = int (tot_len (pbufs (nt s) p)) + inc \<and> int (payload (pbufs n p)) = int (payload (pbufs (nt s) p)) - inc \<and>
      (\<forall>x. x \<noteq> p \<longrightarrow> pbufs n x = pbufs (nt s) x) \<and> pb_next (pbufs n p) = pb_next (pbufs (nt s) p) \<and> pb_type (pbufs n p) = pb_type (pbufs (nt s) p) \<and>
      pb_flags (pbufs n p) = pb_flags (pbufs (nt s) p)" "alive n = alive (nt s)" by blast
  have ty: "pb_type (pbufs n p) = pb_type (pbufs (nt s) p)" "is_custom (pbufs n p) = is_custom (pbufs (nt s) p)" "tot_len (pbufs n p) \<le> 65400"
    using h(7) assms(2) D(6) by (auto simp: is_custom_def)
  have "own (s\<lparr>nt := n\<rparr>) R p" using arp_ok_nt [OF D(1) h(2)] h(3,4) ty D(4,5) by (simp add: own_def)
  moreover have "{#x \<in># add_mset p R. x \<noteq> p#} = {#x \<in># R. x \<noteq> p#}" by simp
  ultimately show ?thesis using h(1,5,6,7,8) by (intro exI [of _ n] exI [of _ e]) (auto simp: on_net_def)
qed

lemma own_shrink:
  assumes "own s R p" "k \<le> pb_len (pbufs (nt s) p)" "on_net (pbuf_header p (- int k)) s = Some (s', e)"
  shows "e = 0"
proof (cases "k = 0")
  case True
  then show ?thesis using assms(3) by (simp add: on_net_def pbuf_header_def)
next
  case False
  note D = ownD [OF assms(1)]
  have st: "store_inv (nt s)" using net_okD(1) [OF queuedD(1) [OF arp_okD(1) [OF D(1)]]] by (simp add: net_inv_def)
  have "p + SIZEOF_STRUCT_PBUF \<le> payload (pbufs (nt s) p)" if "pb_type (pbufs (nt s) p) = PBUF_RAM \<or> pb_type (pbufs (nt s) p) = PBUF_POOL"
    using store_invD(5) [OF st D(7)] D(4) that by (auto simp: pbuf_placed_def pool_of_def)
  then have "\<exists>n. pbuf_header p (- int k) (nt s) = Some (n, 0)"
    using pbuf_header_cases [OF D(7,8), of "- int k"] False assms(2) by (auto simp: not_le split: if_splits)
  then show ?thesis using assms(3) by (auto simp: on_net_def)
qed

subsection \<open>Copying a packet into a new one\<close>

lemma copy_loop_ok:
  assumes "packet s (t # ts)" "packet s (f # fs)" "filled s (t # ts)" "filled s (f # fs)" "ot < pb_len (pbufs s t)" "o_f < pb_len (pbufs s f)"
    "pb_len (pbufs s f) - o_f + chain_len s fs \<le> pb_len (pbufs s t) - ot + chain_len s ts"
  shows "\<exists>m'. pbuf_copy_loop t f ot o_f s = Some (s\<lparr>ram_bytes := m'\<rparr>, ERR_OK)"
  using assms
proof (induction "length ts + length fs" arbitrary: s t ts f fs ot o_f rule: less_induct)
  case less
  define lt lf where "lt = pb_len (pbufs s t) - ot" and "lf = pb_len (pbufs s f) - o_f"
  define m1 where "m1 = memcpy (min lf lt) (payload (pbufs s t) + ot) (payload (pbufs s f) + o_f) (ram_bytes s)"
  let ?s1 = "s\<lparr>ram_bytes := m1\<rparr>"
  note step = copy_loop_step [OF less.prems(1-6), folded lt_def lf_def, folded m1_def, OF less.prems(7) [folded lt_def lf_def]]
  have cl: "chain_len ?s1 qs = chain_len s qs" for qs by (simp add: chain_len_def)
  have go: ?case if "pbuf_copy_loop t f ot o_f s = pbuf_copy_loop t' f' ot' o_f' ?s1" and sm: "length ts' + length fs' < length ts + length fs"
      and p': "packet s (t' # ts')" "packet s (f' # fs')" "filled s (t' # ts')" "filled s (f' # fs')" "ot' < pb_len (pbufs s t')" "o_f' < pb_len (pbufs s f')"
      and l': "pb_len (pbufs s f') - o_f' + chain_len s fs' \<le> pb_len (pbufs s t') - ot' + chain_len s ts'"
    for t' f' ot' o_f' ts' fs'
    using less.hyps [OF sm, of ?s1 t' f' ot' o_f'] p' l' that(1) unfolding cl packet_to_mem filled_simps(3) by auto
  note P = less.prems(1-4)
  consider "lt < lf" | "lf \<le> lt" "fs = []" | "lt = lf" "fs \<noteq> []" | "lf < lt" "fs \<noteq> []" by linarith
  then show ?case
  proof cases
    case 1
    obtain t' ts' where ts: "ts = t' # ts'" using 1 less.prems(7) by (cases ts) (auto simp: chain_len_def lt_def lf_def)
    show ?thesis
      by (rule go [of t' f 0 "o_f + lt" ts' fs]) (use 1 ts step P less.prems(5,7) in \<open>auto simp: first_ptr_def lt_def lf_def chain_len_def\<close>)
  next
    case 2
    then show ?thesis using step by auto
  next
    case 3
    obtain f' fs' where fs: "fs = f' # fs'" using 3 by (cases fs) auto
    obtain t' ts' where ts: "ts = t' # ts'" using 3 fs P(4) less.prems(7) by (cases ts) (auto simp: chain_len_def lt_def lf_def)
    show ?thesis
      by (rule go [of t' f' 0 0 ts' fs']) (use 3 ts fs step P less.prems(7) in \<open>auto simp: first_ptr_def lt_def lf_def chain_len_def\<close>)
  next
    case 4
    obtain f' fs' where fs: "fs = f' # fs'" using 4 by (cases fs) auto
    show ?thesis
      by (rule go [of t f' "ot + lf" 0 ts fs']) (use 4 fs step P less.prems(5,7) in \<open>auto simp: first_ptr_def lt_def lf_def chain_len_def\<close>)
  qed
qed

lemma pbuf_copy_fits:
  assumes "packet s (t # ts)" "packet s (f # fs)" "filled s (t # ts)" "filled s (f # fs)" "chain_len s (f # fs) \<le> chain_len s (t # ts)"
  shows "\<exists>m'. pbuf_copy t f s = Some (s\<lparr>ram_bytes := m'\<rparr>, ERR_OK)"
proof -
  have tl: "tot_len (pbufs s t) = chain_len s (t # ts)" "tot_len (pbufs s f) = chain_len s (f # fs)" "t \<in> alive s" "f \<in> alive s" "t \<noteq> NULL" "f \<noteq> NULL"
    using assms(1,2) by (simp_all add: chain_len_def)
  have "\<exists>m'. pbuf_copy_loop t f 0 0 s = Some (s\<lparr>ram_bytes := m'\<rparr>, ERR_OK)"
    by (rule copy_loop_ok [OF assms(1-4)]) (use assms(3-5) in \<open>auto simp: filled_def\<close>)
  then show ?thesis using tl assms(5) by (simp add: pbuf_copy_def get_pbuf_def)
qed

subsection \<open>Echo requests\<close>

text \<open>The copy has the request's length and room for the link header.\<close>

lemma icmp_copy_ok:
  assumes p: "own s R p" "packet (nt s) (p # qs)" "filled (nt s) (p # qs)" "hlen \<le> tot_len (pbufs (nt s) p)"
  shows "\<exists>s' r. do {
        b \<leftarrow> get_pbuf p (nt s);
        (s, r) \<leftarrow> on_net (pbuf_alloc PBUF_LINK (tot_len b) PBUF_RAM) s;
        if r = NULL then Some (s, None)
        else do {
          (s, e) \<leftarrow> on_net (pbuf_copy r p) s;
          if e \<noteq> ERR_OK then Some (s, None)
          else do {
            rb \<leftarrow> get_pbuf r (nt s);
            (s, e) \<leftarrow> on_net (pbuf_header r (- int hlen)) s;
            if e \<noteq> 0 then Some (s, None)
            else do { s \<leftarrow> free_packet p s; Some (s, Some (r, payload rb)) } } } } = Some (s', r) \<and> arp_frame s s' \<and>
    (case r of None \<Rightarrow> own s' R p | Some (p', h) \<Rightarrow> own s' R p' \<and> pb_next (pbufs (nt s') p') = NULL \<and> tot_len (pbufs (nt s') p') + hlen = tot_len (pbufs (nt s) p))"
proof -
  note D = ownD [OF p(1)]
  let ?len = "tot_len (pbufs (nt s) p)"
  obtain n r where A: "on_net (pbuf_alloc PBUF_LINK ?len PBUF_RAM) s = Some (s\<lparr>nt := n\<rparr>, r)" "r = NULL \<and> n = nt s \<or> own (s\<lparr>nt := n\<rparr>) (add_mset p R) r \<and> r \<notin> alive (nt s) \<and>
    packet n [r] \<and> pb_len (pbufs n r) = ?len \<and> pb_type (pbufs n r) = PBUF_RAM \<and> alive n = insert r (alive (nt s)) \<and> (\<forall>x\<in>alive (nt s). pbufs n x = pbufs (nt s) x) \<and>
    ram_bytes n = ram_bytes (nt s)" using own_alloc [OF D(1,6), of PBUF_LINK] by blast
  show ?thesis
  proof (cases "r = NULL")
    case True
    then have "n = nt s" using A(2) ownD(8) by blast
    then show ?thesis using A(1) True p(1) D(10) by (intro exI [of _ s] exI [of _ None]) simp
  next
    case False
    have B: "own (s\<lparr>nt := n\<rparr>) (add_mset p R) r" "r \<notin> alive (nt s)" "packet n [r]" "pb_len (pbufs n r) = ?len" "pb_type (pbufs n r) = PBUF_RAM" "alive n = insert r (alive (nt s))"
      "\<forall>x\<in>alive (nt s). pbufs n x = pbufs (nt s) x" using A(2) False by auto
    note O = own_beside [OF p(1) B(1,2,3,6,7)]
    have tl: "?len = chain_len (nt s) (p # qs)" using p(2) by simp
    have al: "x \<in> alive (nt s)" if "x \<in> set (p # qs)" for x using packet_alive [OF p(2) that] by blast
    have f: "filled n (p # qs)" "filled n [r]" using p(3) B(4,7) al tl D(6) by (auto simp: filled_def)
    have "chain_len n (p # qs) \<le> chain_len n [r]" using O(3) [OF p(2)] B(4) tl by (simp add: chain_len_def)
    from pbuf_copy_fits [OF B(3) O(2) [OF p(2)] f(2,1) this] obtain m where c: "pbuf_copy r p n = Some (n\<lparr>ram_bytes := m\<rparr>, ERR_OK)" by blast
    let ?s2 = "s\<lparr>nt := n\<lparr>ram_bytes := m\<rparr>\<rparr>"
    have o2: "own ?s2 (add_mset p R) r" "own ?s2 (add_mset r R) p" using B(1) O(1) by simp_all
    have tr: "tot_len (pbufs n r) = ?len" "pb_next (pbufs n r) = NULL" using B(3,4) by simp_all
    have "int (tot_len (pbufs (nt ?s2) r)) + - int hlen \<le> 65400" using tr D(6) by simp
    from own_header [OF o2(1) this] obtain n3 e where h: "on_net (pbuf_header r (- int hlen)) ?s2 = Some (?s2\<lparr>nt := n3\<rparr>, e)" "own (?s2\<lparr>nt := n3\<rparr>) (add_mset p R) r"
      "held_same {#x \<in># add_mset p R. x \<noteq> r#} (nt ?s2) n3" "ram_bytes n3 = ram_bytes (nt ?s2)"
      "e = 1 \<and> n3 = nt ?s2 \<or> e = 0 \<and> int (tot_len (pbufs n3 r)) = int (tot_len (pbufs (nt ?s2) r)) - int hlen \<and> (\<forall>x. x \<noteq> r \<longrightarrow> pbufs n3 x = pbufs (nt ?s2) x) \<and>
        pb_next (pbufs n3 r) = pb_next (pbufs (nt ?s2) r)" "alive n3 = alive (nt ?s2)" by fastforce
    have e0: "e = 0" by (rule own_shrink [OF o2(1) _ h(1)]) (use B(4) p(4) in simp)
    let ?s3 = "s\<lparr>nt := n3\<rparr>"
    have n3: "tot_len (pbufs n3 r) + hlen = ?len" "\<And>x. x \<noteq> r \<Longrightarrow> pbufs n3 x = pbufs n x" "pb_next (pbufs n3 r) = NULL" using h(5) e0 tr p(4) by auto
    have al3: "alive n3 = alive n" using h(6) by simp
    have o3: "own ?s3 (add_mset p R) r" using h(2) by simp
    have pr: "p \<noteq> r" using B(2) D(7) by auto
    have "own (?s2\<lparr>nt := n3\<rparr>) (add_mset r R) p"
    proof (rule own_held [OF o2(2)])
      show "arp_ok (?s2\<lparr>nt := n3\<rparr>) (add_mset p (add_mset r R))" using ownD(1) [OF h(2)] by (simp add: add_mset_commute)
      show "held_same {#p#} (nt ?s2) n3" by (rule held_same_sub [OF h(3)]) (use pr in simp)
      show "x \<in> alive (nt ?s2) \<and> pb_next (pbufs n3 x) = pb_next (pbufs (nt ?s2) x)" if "x \<in> alive n3" for x using that n3(2,3) al3 tr by (cases "x = r") auto
    qed
    then have "own ?s3 (add_mset r R) p" by simp
    from own_free [OF this] obtain n4 where f: "free_packet p ?s3 = Some (?s3\<lparr>nt := n4\<rparr>)" "arp_ok (?s3\<lparr>nt := n4\<rparr>) (add_mset r R)" "net_frame (nt ?s3) n4" by blast
    have o4: "own (s\<lparr>nt := n4\<rparr>) R r" using own_kept [OF o3, of n4 R] f(2,3) by simp
    have "tot_len (pbufs n4 r) + hlen = ?len" "pb_next (pbufs n4 r) = NULL" using net_frame_fields [OF f(3)] n3 by simp_all
    moreover have "get_pbuf r (nt ?s2) = Some (pbufs n r)" using B(6) by (simp add: get_pbuf_def)
    ultimately show ?thesis using A(1) False c h(1) e0 f(1) o4 D(10)
      by (intro exI [of _ "s\<lparr>nt := n4\<rparr>"] exI [of _ "Some (r, payload (pbufs n r))"]) (simp add: on_net_def)
  qed
qed

lemma icmp_room_ok:
  assumes p: "own s R p" "packet (nt s) (p # qs)" "filled (nt s) qs" "0 < hlen" "tot_len (pbufs (nt s) p) + hlen \<le> 65300"
  shows "\<exists>s' r. icmp_room p iphdr hlen s = Some (s', r) \<and> arp_frame s s' \<and>
    (case r of None \<Rightarrow> own s' R p | Some (p', h) \<Rightarrow> own s' R p' \<and> tot_len (pbufs (nt s') p') + hlen \<le> 65300 \<and> (qs = [] \<longrightarrow> pb_next (pbufs (nt s') p') = NULL))"
proof -
  have "int (tot_len (pbufs (nt s) p)) + int (IP_HLEN + SIZEOF_ETH_HDR) \<le> 65400" using p(5) by (simp add: IP_HLEN_def SIZEOF_ETH_HDR_def)
  from own_header [OF p(1) this] obtain n e where h: "on_net (pbuf_header p (int (IP_HLEN + SIZEOF_ETH_HDR))) s = Some (s\<lparr>nt := n\<rparr>, e)" "own (s\<lparr>nt := n\<rparr>) R p"
    "e = 1 \<and> n = nt s \<or> e = 0 \<and> int (tot_len (pbufs n p)) = int (tot_len (pbufs (nt s) p)) + int (IP_HLEN + SIZEOF_ETH_HDR) \<and>
      int (pb_len (pbufs n p)) = int (pb_len (pbufs (nt s) p)) + int (IP_HLEN + SIZEOF_ETH_HDR) \<and> pb_next (pbufs n p) = pb_next (pbufs (nt s) p)" by fastforce
  show ?thesis
  proof (cases "e = 0")
    case True
    let ?s = "s\<lparr>nt := n\<rparr>"
    have n: "tot_len (pbufs n p) = tot_len (pbufs (nt s) p) + (IP_HLEN + SIZEOF_ETH_HDR)" "IP_HLEN + SIZEOF_ETH_HDR \<le> pb_len (pbufs n p)" using h(3) True by auto
    have "int (tot_len (pbufs (nt ?s) p)) + - int (IP_HLEN + SIZEOF_ETH_HDR) \<le> 65400" using n(1) p(5) by simp
    from own_header [OF h(2) this] obtain n' e' where h': "on_net (pbuf_header p (- int (IP_HLEN + SIZEOF_ETH_HDR))) ?s = Some (?s\<lparr>nt := n'\<rparr>, e')" "own (?s\<lparr>nt := n'\<rparr>) R p"
      "e' = 1 \<and> n' = nt ?s \<or> e' = 0 \<and> int (tot_len (pbufs n' p)) = int (tot_len (pbufs (nt ?s) p)) + - int (IP_HLEN + SIZEOF_ETH_HDR) \<and>
        pb_next (pbufs n' p) = pb_next (pbufs (nt ?s) p)" by fastforce
    have "e' = 0" by (rule own_shrink [OF h(2) _ h'(1)]) (use n(2) in simp)
    then have "icmp_room p iphdr hlen s = Some (s\<lparr>nt := n'\<rparr>, Some (p, iphdr))" "tot_len (pbufs n' p) = tot_len (pbufs (nt s) p)"
      "pb_next (pbufs n' p) = pb_next (pbufs (nt s) p)" using h(1,3) h'(1,3) n(1) True unfolding icmp_room_def by auto
    then show ?thesis using h'(2) p(2,5) by (intro exI [of _ "s\<lparr>nt := n'\<rparr>"] exI [of _ "Some (p, iphdr)"]) simp
  next
    case False
    then have e: "s\<lparr>nt := n\<rparr> = s" "e \<noteq> 0" using h(3) by auto
    have "int (tot_len (pbufs (nt s) p)) + int hlen \<le> 65400" using p(5) by simp
    from own_header [OF p(1) this] obtain n2 e2 where h2: "on_net (pbuf_header p (int hlen)) s = Some (s\<lparr>nt := n2\<rparr>, e2)" "own (s\<lparr>nt := n2\<rparr>) R p"
      "e2 = 1 \<and> n2 = nt s \<or> e2 = 0 \<and> int (tot_len (pbufs n2 p)) = int (tot_len (pbufs (nt s) p)) + int hlen \<and> int (pb_len (pbufs n2 p)) = int (pb_len (pbufs (nt s) p)) + int hlen \<and>
        (\<forall>x. x \<noteq> p \<longrightarrow> pbufs n2 x = pbufs (nt s) x) \<and> pb_next (pbufs n2 p) = pb_next (pbufs (nt s) p)" "alive n2 = alive (nt s)" by fastforce
    show ?thesis
    proof (cases "e2 = 0")
      case False
      then have "icmp_room p iphdr hlen s = Some (s, None)" using h(1) h2(1,3) e unfolding icmp_room_def by auto
      then show ?thesis using p(1) by auto
    next
      case True
      have n2: "tot_len (pbufs n2 p) = tot_len (pbufs (nt s) p) + hlen" "pb_len (pbufs n2 p) = pb_len (pbufs (nt s) p) + hlen" "\<And>x. x \<noteq> p \<Longrightarrow> pbufs n2 x = pbufs (nt s) x"
        "pb_next (pbufs n2 p) = pb_next (pbufs (nt s) p)" using h2(3) True by auto
      have nq: "p \<notin> set qs" using packet_distinct [OF p(2)] by simp
      obtain qs' where pk: "packet n2 (p # qs')" using ownD(2) [OF h2(2)] by (auto elim!: wholeE simp del: packet_to.simps)
      have nx: "pb_next (pbufs n2 x) = pb_next (pbufs (nt s) x)" for x using n2(3,4) by (cases "x = p") auto
      have "chained n2 (p # qs) = chained (nt s) (p # qs)" by (rule chained_cong) (use nx h2(4) in auto)
      then have qe: "qs' = qs" using chained_det [OF packet_chained [OF pk], of "p # qs"] packet_chained [OF p(2)] by simp
      have "pbufs n2 q = pbufs (nt s) q" if "q \<in> set qs" for q using n2(3) nq that by metis
      then have fl: "filled n2 (p # qs)" using p(3,4) n2(2) ownD(6) [OF h2(2)] pk by (auto simp: filled_def)
      note pk = pk [unfolded qe]
      have "hlen \<le> tot_len (pbufs (nt (s\<lparr>nt := n2\<rparr>)) p)" using n2(1) by simp
      from icmp_copy_ok [OF h2(2) _ _ this, of qs] pk fl obtain s' r where c: "icmp_room p iphdr hlen s = Some (s', r)" "arp_frame (s\<lparr>nt := n2\<rparr>) s'"
        "case r of None \<Rightarrow> own s' R p | Some (p', h) \<Rightarrow> own s' R p' \<and> pb_next (pbufs (nt s') p') = NULL \<and> tot_len (pbufs (nt s') p') + hlen = tot_len (pbufs (nt (s\<lparr>nt := n2\<rparr>)) p)"
        unfolding icmp_room_def h(1) bind.simps prod.case e(1) if_P [OF e(2)] h2(1) by (auto simp: True)
      then show ?thesis using n2(1) p(5) by (intro exI [of _ s'] exI [of _ r]) (auto simp: arp_frame_def split: option.splits)
    qed
  qed
qed

lemma ip_output_incl:
  assumes "p \<in> alive (nt s)"
  shows "ip_output_if p src None ttl tos proto nf s = ip_send p nf (ld32 (ram_bytes (nt s)) (payload (pbufs (nt s) p) + IPH_DEST_OFF)) s"
  using assms by (simp add: ip_output_if_def get_pbuf_def ip_send_def)

lemma own_chained:
  assumes "own s R p"
  obtains qs where "packet (nt s) (p # qs)" "chained (nt s) (p # qs)"
  using wholeE [OF ownD(2) [OF assms]] that by metis

lemma own_send:
  fixes s :: "'a ip_scheme"
  assumes "own s R p" "20 \<le> pb_len (pbufs (nt s) p) \<or> pb_next (pbufs (nt s) p) = NULL" "\<forall>x. count R x \<le> 39999" "links_ok s" "tx_ok s"
  shows "\<exists>s' e. ip_send p nf d s = Some (s', e) \<and> arp_ok s' (add_mset p R) \<and> arp_frame s s'"
proof -
  note D = ownD [OF assms(1)]
  obtain qs where qs: "packet (nt s) (p # qs)" "chained (nt s) (p # qs)" by (rule own_chained [OF assms(1)])
  have "28 \<le> mtu (netifs s nf)" using assms(4) by (simp add: links_ok_def)
  then have l: "20 \<le> pb_len (pbufs (nt s) p)" if "mtu (netifs s nf) < tot_len (pbufs (nt s) p)" using that assms(2) qs(1) by (cases qs) auto
  have "count (add_mset p R) x \<le> 40000" for x using spec [OF assms(3), of x] by (cases "x = p") simp_all
  then have "\<forall>x. count (add_mset p R) x \<le> 40000" by blast
  from ip_send_ok [where nf = nf and d = d, OF D(1,9) qs(2) l this _ _ assms(5)] show ?thesis using assms(4) by (auto simp: links_ok_def)
qed

lemma own_frame: "own s R p \<Longrightarrow> own (s\<lparr>nt := nt s\<rparr>) R p"
  by simp

lemma icmp_echo_ok:
  fixes s :: "'a ip_scheme"
  assumes p: "own s R p" "packet (nt s) (p # qs)" "filled (nt s) qs" "0 < hlen" "20 \<le> hlen \<or> qs = []" "tot_len (pbufs (nt s) p) + hlen \<le> 65300"
    and R: "\<forall>x. count R x \<le> 39999" and nf: "links_ok s" "tx_ok s"
  shows "\<exists>s'. icmp_echo p iphdr hlen inp s = Some s' \<and> arp_ok s' R \<and> ip_frame s s'"
proof -
  from icmp_room_ok [OF p(1-4,6), of iphdr] obtain s1 r where r: "icmp_room p iphdr hlen s = Some (s1, r)" "arp_frame s s1"
    "case r of None \<Rightarrow> own s1 R p | Some (p', h) \<Rightarrow> own s1 R p' \<and> tot_len (pbufs (nt s1) p') + hlen \<le> 65300 \<and> (qs = [] \<longrightarrow> pb_next (pbufs (nt s1) p') = NULL)" by blast
  have f1: "ip_frame s s1" using r(2) by (rule ip_frame_arp)
  show ?thesis
  proof (cases r)
    case None
    then have "own s1 R p" using r(3) by simp
    from own_free [OF this] obtain n where "free_packet p s1 = Some (s1\<lparr>nt := n\<rparr>)" "arp_ok (s1\<lparr>nt := n\<rparr>) R" by blast
    then show ?thesis using r(1) None f1 by (intro exI [of _ "s1\<lparr>nt := n\<rparr>"]) (simp add: icmp_echo_def)
  next
    case (Some ph)
    obtain p' h where ph: "ph = (p', h)" by (cases ph)
    have o: "own s1 R p'" "tot_len (pbufs (nt s1) p') + hlen \<le> 65300" "qs = [] \<longrightarrow> pb_next (pbufs (nt s1) p') = NULL" using r(3) Some ph by auto
    let ?s2 = "upd_ram (echo_answer h (payload (pbufs (nt s1) p')) (current_iphdr_dest s1) (current_iphdr_src s1)) s1"
    have o2: "own ?s2 R p'" using o(1) by simp
    have s2: "pbufs (nt ?s2) = pbufs (nt s1)" "ip_frame s ?s2" "current_iphdr_dest ?s2 = current_iphdr_dest s1" using f1 by (simp_all add: upd_ram_def)
    have "int (tot_len (pbufs (nt ?s2) p')) + int hlen \<le> 65400" using o(2) s2(1) by simp
    from own_header [OF o2 this] obtain n e where hd: "on_net (pbuf_header p' (int hlen)) ?s2 = Some (?s2\<lparr>nt := n\<rparr>, e)" "own (?s2\<lparr>nt := n\<rparr>) R p'"
      "e = 1 \<or> e = 0 \<and> int (pb_len (pbufs n p')) = int (pb_len (pbufs (nt ?s2) p')) + int hlen \<and> pb_next (pbufs n p') = pb_next (pbufs (nt ?s2) p')" by blast
    let ?s3 = "?s2\<lparr>nt := n\<rparr>"
    have f3: "ip_frame s ?s3" using s2(2) by simp
    have g: "get_pbuf p' (nt s1) = Some (pbufs (nt s1) p')" using ownD(10) [OF o(1)] .
    obtain s4 where s4: "(if e \<noteq> 0 then Some ?s3 else map_option fst (ip_output_if p' (Some (current_iphdr_dest ?s3)) None ICMP_TTL 0 IP_PROTO_ICMP inp ?s3)) = Some s4"
      "arp_ok s4 (add_mset p' R)" "ip_frame ?s3 s4"
    proof (cases "e = 0")
      case True
      have "20 \<le> pb_len (pbufs (nt ?s3) p') \<or> pb_next (pbufs (nt ?s3) p') = NULL" using hd(3) True p(5) o(3) s2(1) by auto
      from own_send [OF hd(2) this R] obtain s4 e' where "ip_send p' inp (ld32 (ram_bytes (nt ?s3)) (payload (pbufs (nt ?s3) p') + IPH_DEST_OFF)) ?s3 = Some (s4, e')"
        "arp_ok s4 (add_mset p' R)" "arp_frame ?s3 s4" using ip_frameD(2,3) [OF f3] nf by blast
      then show thesis using that [of s4] True ip_output_incl [OF ownD(7) [OF hd(2)]] ip_frame_arp [of ?s3 s4] by auto
    next
      case False
      then show thesis using that [of ?s3] ownD(1) [OF hd(2)] by simp
    qed
    from free_packet_ok [OF s4(2) ownD(8) [OF o(1)]] obtain n5 where "free_packet p' s4 = Some (s4\<lparr>nt := n5\<rparr>)" "arp_ok (s4\<lparr>nt := n5\<rparr>) R" by blast
    then show ?thesis using r(1) Some ph g hd(1) s4(1,3) ip_frame_trans [OF f3 s4(3)]
      by (intro exI [of _ "s4\<lparr>nt := n5\<rparr>"]) (simp add: icmp_echo_def Let_def)
  qed
qed

lemma icmp_input_ok:
  fixes s :: "'a ip_scheme"
  assumes p: "own s R p" "packet (nt s) (p # qs)" "filled (nt s) qs" "tot_len (pbufs (nt s) p) \<le> 65300"
    and hl: "5 \<le> IPH_HL (ram_bytes (nt s)) (payload (pbufs (nt s) p)) \<or> 0 < IPH_HL (ram_bytes (nt s)) (payload (pbufs (nt s) p)) \<and> qs = []"
    and R: "\<forall>x. count R x \<le> 39999" and nf: "links_ok s" "tx_ok s"
  shows "\<exists>s'. icmp_input p inp s = Some s' \<and> arp_ok s' R \<and> ip_frame s s'"
proof -
  define hlen where "hlen = IPH_HL (ram_bytes (nt s)) (payload (pbufs (nt s) p)) * 4"
  have hlen: "0 < hlen" "20 \<le> hlen \<or> qs = []" using hl by (auto simp: hlen_def)
  have "int (tot_len (pbufs (nt s) p)) + - int hlen \<le> 65400" using p(4) by simp
  from own_header [OF p(1) this] obtain n e where h: "on_net (pbuf_header p (- int hlen)) s = Some (s\<lparr>nt := n\<rparr>, e)" "own (s\<lparr>nt := n\<rparr>) R p" "alive n = alive (nt s)"
    "e = 1 \<and> n = nt s \<or> e = 0 \<and> int (tot_len (pbufs n p)) = int (tot_len (pbufs (nt s) p)) + - int hlen \<and> (\<forall>x. x \<noteq> p \<longrightarrow> pbufs n x = pbufs (nt s) x) \<and>
       pb_next (pbufs n p) = pb_next (pbufs (nt s) p)" by fastforce
  let ?s = "s\<lparr>nt := n\<rparr>"
  have free: "\<exists>s'. free_packet p ?s = Some s' \<and> arp_ok s' R \<and> ip_frame s s'" using own_free [OF h(2)] by (force simp: ip_frame_arp)
  have g: "get_pbuf p (nt s) = Some (pbufs (nt s) p)" "get_pbuf p n = Some (pbufs n p)" using ownD(10) [OF p(1)] ownD(10) [OF h(2)] by simp_all
  note u = icmp_input_def g(1) bind.simps Let_def hlen_def [symmetric] h(1) prod.case
  show ?thesis
  proof (cases "e = 0")
    case False
    then show ?thesis unfolding u using free g(2) by auto
  next
  case e: True
  have n: "tot_len (pbufs n p) + hlen \<le> 65300" "\<And>x. x \<noteq> p \<Longrightarrow> pbufs n x = pbufs (nt s) x" "pb_next (pbufs n p) = pb_next (pbufs (nt s) p)" using h(4) e p(4) by auto
  have nx: "pb_next (pbufs n x) = pb_next (pbufs (nt s) x)" for x using n(2,3) by (cases "x = p") auto
  obtain qs' where qs': "packet (nt ?s) (p # qs')" "chained (nt ?s) (p # qs')" by (rule own_chained [OF h(2)])
  have "chained n (p # qs) = chained (nt s) (p # qs)" by (rule chained_cong) (use nx h(3) in auto)
  then have "chained (nt ?s) (p # qs)" using packet_chained [OF p(2)] by simp
  then have qe: "qs' = qs" using chained_det [OF qs'(2), of "p # qs"] by simp
  have "p \<notin> set qs" using packet_distinct [OF p(2)] by simp
  then have "pbufs n q = pbufs (nt s) q" if "q \<in> set qs" for q using n(2) that by metis
  then have fl: "filled (nt ?s) qs" using p(3) by (simp add: filled_def)
  have echo: "\<exists>s'. icmp_echo p (payload (pbufs (nt s) p)) hlen inp ?s = Some s' \<and> arp_ok s' R \<and> ip_frame s s'"
  proof -
    have "tot_len (pbufs (nt ?s) p) + hlen \<le> 65300" using n(1) by simp
    from icmp_echo_ok [OF h(2) qs'(1) [unfolded qe] fl hlen this R, of "payload (pbufs (nt s) p)" inp] nf
    obtain s' where "icmp_echo p (payload (pbufs (nt s) p)) hlen inp ?s = Some s'" "arp_ok s' R" "ip_frame ?s s'" by (auto simp: links_ok_def)
    then show ?thesis using ip_frame_trans [of s ?s s'] by simp
  qed
  have len: "pb_len (pbufs n q) < 65536" if "q \<in> set (p # qs)" for q
    using that qs'(1) [unfolded qe] ownD(6) [OF h(2)] fl by (auto simp: filled_def)
  have ck: "\<exists>c. inet_chksum_pbuf p n = Some c" using chksum_chain [of n "p # qs"] qs'(1) [unfolded qe] len by auto
  show ?thesis unfolding u e using free echo ck g(2) by auto
  qed
qed

lemma icmp_send_response_ok:
  fixes s :: "'a ip_scheme"
  assumes ok: "arp_ok s R" and p: "p \<in> alive (nt s)" and R: "\<forall>x. count R x \<le> 39999" and nf: "links_ok s" "tx_ok s"
  shows "\<exists>s'. icmp_send_response p type code s = Some s' \<and> arp_ok s' R \<and> ip_frame s s' \<and> held_same R (nt s) (nt s')"
proof -
  let ?len = "SIZEOF_ICMP_ECHO_HDR + IP_HLEN + ICMP_DEST_UNREACH_DATASIZE"
  have len: "?len = 36" by (simp add: SIZEOF_ICMP_ECHO_HDR_def IP_HLEN_def ICMP_DEST_UNREACH_DATASIZE_def)
  obtain n q where a: "on_net (pbuf_alloc PBUF_IP ?len PBUF_RAM) s = Some (s\<lparr>nt := n\<rparr>, q)" "q = NULL \<and> n = nt s \<or> own (s\<lparr>nt := n\<rparr>) R q \<and> q \<notin> alive (nt s) \<and>
    packet n [q] \<and> pb_len (pbufs n q) = ?len \<and> alive n = insert q (alive (nt s)) \<and> (\<forall>x\<in>alive (nt s). pbufs n x = pbufs (nt s) x)"
    using own_alloc [OF ok, of ?len PBUF_IP] len by auto
  show ?thesis
  proof (cases "q = NULL")
    case True
    then have "n = nt s" using a(2) ownD(8) by blast
    then show ?thesis using a(1) True ok by (intro exI [of _ s]) (simp add: icmp_send_response_def)
  next
    case False
    have A: "own (s\<lparr>nt := n\<rparr>) R q" "q \<notin> alive (nt s)" "packet n [q]" "pb_len (pbufs n q) = ?len" "alive n = insert q (alive (nt s))" "\<forall>x\<in>alive (nt s). pbufs n x = pbufs (nt s) x"
      using a(2) False by auto
    let ?s1 = "s\<lparr>nt := n\<rparr>"
    let ?s2 = "upd_ram (write_icmp_error (payload (pbufs n q)) ?len (payload (pbufs n p)) type code) ?s1"
    have o2: "own ?s2 R q" using A(1) by simp
    have c2: "chained (nt ?s2) [q]" "tot_len (pbufs (nt ?s2) q) + 34 \<le> 65456" using packet_chained [OF A(3)] A(3,4) len by (simp_all add: upd_ram_def)
    have qR: "q \<notin># R" using not_held [OF net_okD(1) [OF queuedD(1) [OF arp_okD(1) [OF ok]]] A(2) False] by simp
    have "count (add_mset q R) x \<le> 40000" for x using spec [OF R, of x] by (cases "x = q") simp_all
    then have cnt: "\<forall>x. count (add_mset q R) x \<le> 40000" by blast
    have "links_ok ?s2" "tx_ok ?s2" using nf by (simp_all add: upd_ram_def links_ok_def)
    from ip_output_ok [OF ownD(1,9) [OF o2] c2(2,1) cnt this, of None "ld32 (ram_bytes (nt ?s2)) (payload (pbufs n p) + IPH_SRC_OFF)" ICMP_TTL 0 IP_PROTO_ICMP]
    obtain s3 e where o: "ip_output q None (ld32 (ram_bytes (nt ?s2)) (payload (pbufs n p) + IPH_SRC_OFF)) ICMP_TTL 0 IP_PROTO_ICMP ?s2 = Some (s3, e)" "arp_ok s3 (add_mset q R)"
      "ip_frame ?s2 s3" "spared (add_mset q R) (set [q]) (nt ?s2) (nt s3)" by blast
    from free_packet_ok [OF o(2) False] obtain n4 where f: "free_packet q s3 = Some (s3\<lparr>nt := n4\<rparr>)" "arp_ok (s3\<lparr>nt := n4\<rparr>) R" "net_frame (nt s3) n4" by blast
    have fr: "ip_frame s (s3\<lparr>nt := n4\<rparr>)" using ip_frame_trans [of s ?s2 s3] o(3) by (simp add: upd_ram_def)
    have hs: "held_same R (nt s) n4"
    proof -
      have "net_inv n (mset (map snd (arp_L s)) + add_mset q R)" using net_okD(1) [OF queuedD(1) [OF arp_okD(1) [OF ownD(1) [OF A(1)]]]] by simp
      then have "held_same R (nt s) n" by (rule held_same_keep) (use A(6) in auto)
      moreover have "off (nt ?s2) {q} x" if "x \<in># R" for x unfolding off_def
      proof (intro allI impI)
        fix qs assume c: "chained (nt ?s2) (x # qs)"
        have "q \<notin> set qs" by (rule unlinked_tail [OF ownD(3) [OF o2] c])
        then show "set (x # qs) \<inter> {q} = {}" using qR that by auto
      qed
      then have "held_same R (nt ?s2) (nt s3)" using o(4) unfolding spared_def by (intro held_same_sub [OF o(4) [unfolded spared_def]]) simp
      then have "held_same R n (nt s3)" by (simp add: upd_ram_def)
      moreover have "net_inv n4 (mset (map snd (arp_L s3)) + R)" using net_okD(1) [OF queuedD(1) [OF arp_okD(1) [OF f(2)]]] by simp
      then have "held_same R (nt s3) n4" by (rule held_same_frame [OF f(3)]) simp
      ultimately show ?thesis using held_same_trans by blast
    qed
    have g: "get_pbuf p n = Some (pbufs n p)" "get_pbuf q n = Some (pbufs n q)" using p A(5) by (simp_all add: get_pbuf_def)
    show ?thesis using a(1) False g o(1) f(1,2) fr hs A(4)
      by (intro exI [of _ "s3\<lparr>nt := n4\<rparr>"]) (simp add: icmp_send_response_def Let_def)
  qed
qed

end
