(* ===== verification/Icmp_Echo.thy ===== *)
theory Icmp_Echo
  imports Icmp_Spec
begin

text \<open>
  The answer to an echo request, byte by byte: \<open>icmp_input\<close> of \<^verbatim>\<open>core/ipv4/icmp.c\<close> with the packet in one buffer and the
  sender's next hop resolved.
\<close>

unbundle bit_operations_syntax

subsection \<open>The checksum of the reply\<close>

lemma echo_chksum_unat: "unat (echo_chksum c) = (if 65527 \<le> unat c then unat c - 65527 else unat c + 8)"
proof -
  have h: "lwip_htons (0xffff - push_bit 8 (ucast ICMP_ECHO)) = 0xfff7" "lwip_htons (push_bit 8 (ucast ICMP_ECHO)) = 8"
    by (simp_all add: word_unat_eq_iff htons_unat ICMP_ECHO_def)
  have "unat c < 65536" by (rule unat_u16_less)
  then have "(unat c + 9) mod 65536 = unat c - 65527" if "65527 \<le> unat c"
  proof -
    have "unat c + 9 = (unat c - 65527) + 65536" using that by simp
    then have "(unat c + 9) mod 65536 = (unat c - 65527) mod 65536" by (simp only: mod_add_self2)
    also have "\<dots> = unat c - 65527" using \<open>unat c < 65536\<close> by (intro mod_less) linarith
    finally show ?thesis .
  qed
  moreover have "unat (c + 8 + 1) = (unat c + 9) mod 65536" by (simp add: unat_word_ariths mod_simps add.commute [of 9])
  moreover have "unat (c + 8) = unat c + 8" if "\<not> 65527 \<le> unat c" using that by (simp add: unat_word_ariths)
  moreover have "0xfff7 \<le> c \<longleftrightarrow> 65527 \<le> unat c" by (simp add: word_le_nat_alt)
  ultimately show ?thesis unfolding echo_chksum_def h by (cases "65527 \<le> unat c") (simp_all only: if_True if_False simp_thms)
qed

lemma echo_reply_sum:
  assumes "internet_sum ([8, code] @ le16 c @ rest) = 65535"
  shows "internet_sum ([0, code] @ le16 (echo_chksum c) @ rest) =
    (if \<forall>b\<in>set ([0, code] @ le16 (echo_chksum c) @ rest). b = 0 then 0 else 65535)"
proof -
  let ?r = "[0, code] @ le16 (echo_chksum c) @ rest"
  have s: "le_sum ([x, code] @ le16 w @ rest) = unat x + 256 * unat code + unat w + le_sum rest" for x w
    using le16_sum [of w rest] by simp
  have z: "le_sum ([8, code] @ le16 c @ rest) mod 65535 = 0"
    using norm16_same_sum [of "le_sum ([8, code] @ le16 c @ rest)"] assms by (simp add: internet_sum_def same_sum_def)
  have "le_sum ?r mod 65535 = 0"
  proof (cases "65527 \<le> unat c")
    case True
    then have "le_sum ([8, code] @ le16 c @ rest) = le_sum ?r + 65535" unfolding s echo_chksum_unat by simp
    then show ?thesis using z by simp
  next
    case False
    then have "le_sum ([8, code] @ le16 c @ rest) = le_sum ?r" unfolding s echo_chksum_unat by simp
    then show ?thesis using z by (simp only:)
  qed
  then have n: "norm16 (le_sum ?r) = (if le_sum ?r = 0 then 0 else 65535)"
    by (intro norm16_unique [symmetric]) (auto simp: same_sum_def)
  show ?thesis unfolding internet_sum_def n le_sum_zero ..
qed

subsection \<open>The bytes of the reply\<close>

definition echo_header :: "u8 list \<Rightarrow> u16 \<Rightarrow> u32 \<Rightarrow> u32 \<Rightarrow> u8 list" where
  "echo_header hb chk src dest = take 8 hb @ [ICMP_TTL, hb ! 9] @ le16 chk @ addr_bytes src @ addr_bytes dest"

lemma bytes_at_echo:
  "bytes_at x h (24 + k) = bytes_at x h 8 @ bytes_at x (h + 8) 1 @ bytes_at x (h + 9) 1 @ bytes_at x (h + 10) 2 @ bytes_at x (h + 12) 4 @ bytes_at x (h + 16) 4 @
     bytes_at x (h + 20) 1 @ bytes_at x (h + 21) 1 @ bytes_at x (h + 22) 2 @ bytes_at x (h + 24) k"
proof -
  have s: "sum_list [8, 1, 1, 2, 4, 4, 1, 1, 2, k] = 24 + k" by simp
  have f: "field_offsets 0 [8, 1, 1, 2, 4, 4, 1, 1, 2, k] = [(0, 8), (8, 1), (9, 1), (10, 2), (12, 4), (16, 4), (20, 1), (21, 1), (22, 2), (24, k)]"
    by simp
  show ?thesis using bytes_at_fields [of x h "[8, 1, 1, 2, 4, 4, 1, 1, 2, k]"] unfolding s f
    by (simp only: list.map concat.simps prod.case append_Nil2 add_0_right)
qed

lemma echo_answer_bytes:
  assumes m: "bytes_at m h (24 + k) = hb @ [8, code] @ le16 c @ rest" "length hb = 20" "length rest = k"
  shows "\<exists>ck. bytes_at (echo_answer h (h + 20) src dest m) h (24 + k) = echo_header hb ck src dest @ [0, code] @ le16 (echo_chksum c) @ rest \<and>
    internet_sum (echo_header hb ck src dest) = 65535"
proof -
  have p: "bytes_at m (h + i) j = take j (drop i (hb @ [8, code] @ le16 c @ rest))" if "i + j \<le> 24 + k" for i j
    using bytes_at_part [OF that, of m h] m(1) by simp
  have c: "ld16 m (h + 22) = c" 
  proof -
    have "bytes_at m (h + 22) 2 = le16 c" using p [of 22 2] m(2) by (simp add: le16_def)
    then have "ld16 m (h + 22) = word_of_nat (unat (ucast c :: u8) + 256 * unat (ucast (drop_bit 8 c) :: u8))" unfolding le16_def by (rule ld16_2)
    then show ?thesis using le16_sum [of c "[]"] by (simp add: le16_def del: of_nat_add)
  qed
  define m0 where "m0 = st16 (h + 10) 0 ((st16 (h + 22) (echo_chksum c) ((put_bytes (h + 16) (addr_bytes dest) (put_bytes (h + 12) (addr_bytes src) m))(h + 20 := 0)))(h + 8 := 255))"
  define ck where "ck = inet_chksum h 20 m0"
  have ld: "ld16 ((put_bytes (h + 16) (addr_bytes dest) (put_bytes (h + 12) (addr_bytes src) m))(h + 20 := 0)) (h + 22) = c"
    using c by (simp add: ld16_def put_bytes_at)
  have a: "h + 20 + 2 = h + 22" by simp
  have e: "echo_answer h (h + 20) src dest m = st16 (h + 10) ck m0"
    unfolding echo_answer_def Let_def ck_def m0_def a ICMP_ER_def ICMP_TTL_def IP_HLEN_def ld ..
  have f1: "bytes_at m h 8 = take 8 hb" using p [of 0 8] m(2) by simp
  have f2: "bytes_at m (h + 9) 1 = [hb ! 9]" using p [of 9 1] m(2) Cons_nth_drop_Suc [of 9 hb, symmetric] by simp
  have f3: "bytes_at m (h + 21) 1 = [code]" using p [of 21 1] m(2) by simp
  have f4: "bytes_at m (h + 24) k = rest" using p [of 24 k] m(2,3) by (simp add: le16_def)
  define m' where "m' = echo_answer h (h + 20) src dest m"
  note ee = e [unfolded m0_def st16_le upd_put, folded m'_def]
  have g: "bytes_at m' h 8 = take 8 hb" "bytes_at m' (h + 8) 1 = [255]" "bytes_at m' (h + 9) 1 = [hb ! 9]" "bytes_at m' (h + 10) 2 = le16 ck"
    "bytes_at m' (h + 12) 4 = addr_bytes src" "bytes_at m' (h + 16) 4 = addr_bytes dest" "bytes_at m' (h + 20) 1 = [0]" "bytes_at m' (h + 21) 1 = [code]"
    "bytes_at m' (h + 22) 2 = le16 (echo_chksum c)" "bytes_at m' (h + 24) k = rest"
    unfolding ee using f1 f2 f3 f4 by (simp_all add: bytes_at_put_other bytes_at_put_at)
  have b: "bytes_at (echo_answer h (h + 20) src dest m) h (24 + k) = echo_header hb ck src dest @ [0, code] @ le16 (echo_chksum c) @ rest"
    unfolding m'_def [symmetric] bytes_at_echo echo_header_def g by (simp add: ICMP_TTL_def)
  moreover have "internet_sum (echo_header hb ck src dest) = 65535"
  proof (rule write_ip_hdr_sum)
    have "m0 (h + 2 * 5) = 0" "m0 (h + 2 * 5 + 1) = 0" by (simp_all add: st16_def m0_def)
    from inet_chksum_in_place [OF _ _ this, of 20] show "inet_chksum h 20 (echo_answer h (h + 20) src dest m) = 0" unfolding e ck_def by simp
    have "length (echo_header hb ck src dest) = 20" using m(2) by (simp add: echo_header_def)
    then show "bytes_at (echo_answer h (h + 20) src dest m) h 20 = echo_header hb ck src dest"
      using bytes_at_part [of 0 20 "24 + k" "echo_answer h (h + 20) src dest m" h] b by simp
  qed
  ultimately show ?thesis by blast
qed

subsection \<open>From request to reply\<close>

lemma own_grow:
  assumes "own s R p" "headroom (nt s) p k" "0 < k" "on_net (pbuf_header p (int k)) s = Some (s', e)"
  shows "e = 0"
proof -
  have "pbuf_header p (int k) (nt s) = Some (move_header p (int k) (nt s), 0)" using header_room [OF ownD(7,8) [OF assms(1)] assms(2,3)] .
  then show ?thesis using assms(4) unfolding on_net_def by (simp only: option.case prod.case option.inject prod.inject)
qed

text \<open>The packet is one buffer with the given payload and length.\<close>

definition in_one :: "net \<Rightarrow> ptr \<Rightarrow> ptr \<Rightarrow> nat \<Rightarrow> bool" where
  "in_one n p a k \<longleftrightarrow> payload (pbufs n p) = a \<and> pb_len (pbufs n p) = k \<and> tot_len (pbufs n p) = k \<and> pb_next (pbufs n p) = NULL \<and>
     (pb_type (pbufs n p) = PBUF_RAM \<or> pb_type (pbufs n p) = PBUF_POOL)"

lemma move_shrink:
  assumes "own s R p" "in_one (nt s) p a k" "i \<le> k"
  shows "\<exists>n. on_net (pbuf_header p (- int i)) s = Some (s\<lparr>nt := n\<rparr>, 0) \<and> own (s\<lparr>nt := n\<rparr>) R p \<and> in_one n p (a + i) (k - i) \<and> ram_bytes n = ram_bytes (nt s)"
proof -
  have o: "payload (pbufs (nt s) p) = a" "pb_len (pbufs (nt s) p) = k" "tot_len (pbufs (nt s) p) = k" using assms(2) by (auto simp: in_one_def)
  have "int (tot_len (pbufs (nt s) p)) + - int i \<le> 65400" using ownD(6) [OF assms(1)] by simp
  from own_header [OF assms(1) this] obtain n e where h: "on_net (pbuf_header p (- int i)) s = Some (s\<lparr>nt := n\<rparr>, e)" "own (s\<lparr>nt := n\<rparr>) R p" "ram_bytes n = ram_bytes (nt s)"
    "e = 1 \<and> n = nt s \<or> e = 0 \<and> int (pb_len (pbufs n p)) = int (pb_len (pbufs (nt s) p)) + - int i \<and> int (tot_len (pbufs n p)) = int (tot_len (pbufs (nt s) p)) + - int i \<and>
      int (payload (pbufs n p)) = int (payload (pbufs (nt s) p)) - - int i \<and> (\<forall>x. x \<noteq> p \<longrightarrow> pbufs n x = pbufs (nt s) x) \<and>
      pb_next (pbufs n p) = pb_next (pbufs (nt s) p) \<and> pb_type (pbufs n p) = pb_type (pbufs (nt s) p)" by blast
  have "e = 0" by (rule own_shrink [OF assms(1) _ h(1)]) (use o assms(3) in simp)
  then show ?thesis using h assms(2,3) o by (intro exI [of _ n]) (auto simp: in_one_def)
qed

lemma move_grow:
  assumes "own s R p" "in_one (nt s) p a k" "p + SIZEOF_STRUCT_PBUF + i \<le> a" "k + i \<le> 65400" "0 < i"
  shows "\<exists>n. on_net (pbuf_header p (int i)) s = Some (s\<lparr>nt := n\<rparr>, 0) \<and> own (s\<lparr>nt := n\<rparr>) R p \<and> in_one n p (a - i) (k + i) \<and> ram_bytes n = ram_bytes (nt s)"
proof -
  have o: "payload (pbufs (nt s) p) = a" "pb_len (pbufs (nt s) p) = k" "tot_len (pbufs (nt s) p) = k" using assms(2) by (auto simp: in_one_def)
  have "int (tot_len (pbufs (nt s) p)) + int i \<le> 65400" using assms(4) o by simp
  from own_header [OF assms(1) this] obtain n e where h: "on_net (pbuf_header p (int i)) s = Some (s\<lparr>nt := n\<rparr>, e)" "own (s\<lparr>nt := n\<rparr>) R p" "ram_bytes n = ram_bytes (nt s)"
    "e = 1 \<and> n = nt s \<or> e = 0 \<and> int (pb_len (pbufs n p)) = int (pb_len (pbufs (nt s) p)) + int i \<and> int (tot_len (pbufs n p)) = int (tot_len (pbufs (nt s) p)) + int i \<and>
      int (payload (pbufs n p)) = int (payload (pbufs (nt s) p)) - int i \<and> (\<forall>x. x \<noteq> p \<longrightarrow> pbufs n x = pbufs (nt s) x) \<and>
      pb_next (pbufs n p) = pb_next (pbufs (nt s) p) \<and> pb_type (pbufs n p) = pb_type (pbufs (nt s) p)" by blast
  have "e = 0" by (rule own_grow [OF assms(1) _ assms(5) h(1)]) (use assms(2,3) in \<open>auto simp: in_one_def headroom_def\<close>)
  then show ?thesis using h assms(2,3) o by (intro exI [of _ n]) (auto simp: in_one_def)
qed

lemma icmp_room_in_place:
  assumes "own s R p" "in_one (nt s) p a k" "p + SIZEOF_STRUCT_PBUF + 34 \<le> a" "k + 34 \<le> 65400"
  shows "\<exists>n. icmp_room p h hlen s = Some (s\<lparr>nt := n\<rparr>, Some (p, h)) \<and> own (s\<lparr>nt := n\<rparr>) R p \<and> in_one n p a k \<and> ram_bytes n = ram_bytes (nt s)"
proof -
  have i: "IP_HLEN + SIZEOF_ETH_HDR = 34" by (simp add: IP_HLEN_def SIZEOF_ETH_HDR_def)
  obtain n where n: "on_net (pbuf_header p (int 34)) s = Some (s\<lparr>nt := n\<rparr>, 0)" "own (s\<lparr>nt := n\<rparr>) R p" "in_one n p (a - 34) (k + 34)" "ram_bytes n = ram_bytes (nt s)"
    using move_grow [OF assms] by auto
  have "in_one (nt (s\<lparr>nt := n\<rparr>)) p (a - 34) (k + 34)" using n(3) by simp
  from move_shrink [OF n(2) this, of 34] obtain n' where "on_net (pbuf_header p (- int 34)) (s\<lparr>nt := n\<rparr>) = Some (s\<lparr>nt := n'\<rparr>, 0)" "own (s\<lparr>nt := n'\<rparr>) R p" "in_one n' p a k"
    "ram_bytes n' = ram_bytes n" using assms(3) by auto
  then show ?thesis using n unfolding icmp_room_def i by (intro exI [of _ n']) simp
qed

lemma icmp_reply:
  fixes s :: "'a ip_scheme"
  assumes p: "own s R p" "in_one (nt s) p h (28 + k)" "p + SIZEOF_STRUCT_PBUF + 14 \<le> h" "28 + k \<le> mtu (netifs s inp)" "28 + k \<le> 65300"
    and m: "bytes_at (ram_bytes (nt s)) h (28 + k) = hb @ [8, code] @ le16 c @ rest" "length hb = 20" "hb ! 0 = 0x45"
    and ck: "internet_sum ([8, code] @ le16 c @ rest) = 65535"
    and cur: "current_iphdr_dest s = d" "current_iphdr_src s = a" "\<not> ip_addr_ismulticast d" "\<not> ip4_addr_isbroadcast d (netifs s inp)"
    and tx: "tx_ok s" "length (hwaddr (netifs s inp)) = 6"
    and a: "\<not> ip4_addr_isbroadcast a (netifs s inp)" "\<not> ip_addr_ismulticast a" "next_hop (netifs s inp) a = Some g"
    and i: "i < ARP_TABLE_SIZE" "is_stable (arp_table s ! i)" "arp_ip (arp_table s ! i) = g" "arp_ctime (arp_table s ! i) < ARP_AGE_REREQUEST_USED"
  shows "\<exists>s' x. icmp_input p inp s = Some s' \<and> arp_ok s' R \<and> ip_frame s s' \<and> internet_sum (echo_header hb x d a) = 65535 \<and>
    tx_frames s' = tx_frames s @ [eth_header (arp_eth (arp_table s ! i)) (hwaddr (netifs s inp)) ETHTYPE_IP @
      echo_header hb x d a @ [0, code] @ le16 (echo_chksum c) @ rest]"
proof -
  let ?m = "ram_bytes (nt s)"
  have lr: "length rest = 4 + k" using arg_cong [OF m(1), of length] m(2) by simp
  have h0: "?m h = 0x45" using arg_cong [OF m(1), of "\<lambda>xs. xs ! 0"] m(2,3) by (simp add: nth_append bytes_at_def del: upt_Suc)
  have hl: "IPH_HL ?m h * 4 = 20" by (simp add: IPH_HL_def h0)
  have icmp: "bytes_at ?m (h + 20) (8 + k) = [8, code] @ le16 c @ rest" using bytes_at_part [of 20 "8 + k" "28 + k" ?m h] m lr by simp
  have t8: "?m (h + 20) = 8" using arg_cong [OF icmp, of "\<lambda>xs. xs ! 0"] by (simp add: bytes_at_def del: upt_Suc)
  have pay: "payload (pbufs (nt s) p) = h" using p(2) by (simp add: in_one_def)
  obtain n1 where n1: "on_net (pbuf_header p (- int 20)) s = Some (s\<lparr>nt := n1\<rparr>, 0)" "own (s\<lparr>nt := n1\<rparr>) R p" "in_one n1 p (h + 20) (8 + k)" "ram_bytes n1 = ?m"
    using move_shrink [OF p(1,2), of 20] by auto
  let ?s1 = "s\<lparr>nt := n1\<rparr>"
  have f1: "payload (pbufs n1 p) = h + 20" "pb_len (pbufs n1 p) = 8 + k" "tot_len (pbufs n1 p) = 8 + k" "pb_next (pbufs n1 p) = NULL" using n1(3) by (auto simp: in_one_def)
  obtain qs1 where "packet (nt ?s1) (p # qs1)" by (rule own_chained [OF n1(2)])
  then have pk1: "packet n1 [p]" using f1(4) by (cases qs1) auto
  have "inet_chksum_pbuf p n1 = Some (NOT (word_of_nat (internet_sum (packet_bytes n1 [p]))))" using chksum_chain [of n1 "[p]"] pk1 f1(2) p(5) by simp
  moreover have "packet_bytes n1 [p] = [8, code] @ le16 c @ rest" using icmp f1 n1(4) by (simp add: packet_bytes_data pbuf_data_def)
  ultimately have c0: "inet_chksum_pbuf p n1 = Some 0" using ck by simp
  have I: "icmp_input p inp s = icmp_echo p h 20 inp ?s1"
    unfolding icmp_input_def ownD(10) [OF p(1)] bind.simps Let_def pay hl n1(1) prod.case
    using ownD(10) [OF n1(2)] f1 n1(4) t8 cur c0 by (simp add: ICMP_ECHO_def SIZEOF_ICMP_ECHO_HDR_def)
  have "in_one (nt ?s1) p (h + 20) (8 + k)" "p + SIZEOF_STRUCT_PBUF + 34 \<le> h + 20" "8 + k + 34 \<le> 65400" using n1(3) p(3,5) by auto
  from icmp_room_in_place [OF n1(2) this, of h 20] obtain n2 where n2: "icmp_room p h 20 ?s1 = Some (s\<lparr>nt := n2\<rparr>, Some (p, h))" "own (s\<lparr>nt := n2\<rparr>) R p" "in_one n2 p (h + 20) (8 + k)"
    "ram_bytes n2 = ?m" using n1(4) by auto
  let ?s2 = "s\<lparr>nt := n2\<rparr>"
  let ?s3 = "upd_ram (echo_answer h (h + 20) d a) ?s2"
  obtain x where x: "bytes_at (echo_answer h (h + 20) d a ?m) h (28 + k) = echo_header hb x d a @ [0, code] @ le16 (echo_chksum c) @ rest" "internet_sum (echo_header hb x d a) = 65535"
    using echo_answer_bytes [of ?m h "4 + k" hb code c rest d a] m lr by auto
  have "own ?s3 R p" "in_one (nt ?s3) p (h + 20) (8 + k)" using n2(2,3) by (simp_all add: upd_ram_def in_one_def)
  from move_grow [OF this, of 20] p(3,5) obtain n4 where n4: "on_net (pbuf_header p (int 20)) ?s3 = Some (?s3\<lparr>nt := n4\<rparr>, 0)" "own (?s3\<lparr>nt := n4\<rparr>) R p" "in_one n4 p h (28 + k)"
    "ram_bytes n4 = echo_answer h (h + 20) d a ?m" using n2(4) by (auto simp: upd_ram_def)
  let ?s4 = "s\<lparr>nt := n4\<rparr>"
  have s4: "?s3\<lparr>nt := n4\<rparr> = ?s4" by (simp add: upd_ram_def)
  have o4: "own ?s4 R p" using n4(2) unfolding s4 .
  have ds: "ld32 (ram_bytes (nt ?s4)) (payload (pbufs (nt ?s4) p) + 16) = a"
  proof -
    have "bytes_at (echo_answer h (h + 20) d a ?m) (h + 16) 4 = addr_bytes a"
      using bytes_at_part [of 16 4 "28 + k" "echo_answer h (h + 20) d a ?m" h] x(1) m(2) by (simp add: echo_header_def le16_def addr_bytes_def)
    then show ?thesis using ld32_addr n4(3,4) by (simp add: in_one_def)
  qed
  have snd: "ip_output_if p (Some d) None ICMP_TTL 0 IP_PROTO_ICMP inp ?s4 = etharp_output inp p a ?s4"
    using ip_output_incl [OF ownD(7) [OF o4], of "Some d" ICMP_TTL 0 IP_PROTO_ICMP inp] ds ownD(10) [OF o4] n4(3) p(4)
    by (simp add: ip_send_def in_one_def)
  have dat: "pbuf_data (nt ?s4) p = echo_header hb x d a @ [0, code] @ le16 (echo_chksum c) @ rest" using x(1) n4(3,4) by (simp add: pbuf_data_def in_one_def)
  have "headroom (nt ?s4) p 14" "pb_next (pbufs (nt ?s4) p) = NULL" "tx_ok ?s4" "length (hwaddr (netifs ?s4 inp)) = 6" using n4(3) p(3) tx by (auto simp: headroom_def in_one_def)
  from output_resolved [OF ownD(1,9) [OF o4] this, of a g i] a i
  obtain s5 where s5: "etharp_output inp p a ?s4 = Some (s5, ERR_OK)" "arp_ok s5 (add_mset p R)" "arp_frame ?s4 s5"
    "tx_frames s5 = tx_frames s @ [eth_header (arp_eth (arp_table s ! i)) (hwaddr (netifs s inp)) ETHTYPE_IP @ pbuf_data (nt ?s4) p]" by auto
  from free_packet_ok [OF s5(2) ownD(8) [OF p(1)]] obtain n6 where f6: "free_packet p s5 = Some (s5\<lparr>nt := n6\<rparr>)" "arp_ok (s5\<lparr>nt := n6\<rparr>) R" by blast
  have g: "get_pbuf p n2 = Some (pbufs n2 p)" "payload (pbufs n2 p) = h + 20" using ownD(10) [OF n2(2)] n2(3) by (auto simp: in_one_def)
  have "icmp_echo p h 20 inp ?s1 = Some (s5\<lparr>nt := n6\<rparr>)"
    unfolding icmp_echo_def n2(1) bind.simps prod.case option.case using g cur n4(1) snd s5(1) f6(1) by (simp add: s4 Let_def)
  moreover have "ip_frame s s5" using ip_frame_trans [of s ?s4 s5] ip_frame_arp [OF s5(3)] by simp
  ultimately show ?thesis using I f6(2) x(2) s5(4) dat by (intro exI [of _ "s5\<lparr>nt := n6\<rparr>"] exI [of _ x]) simp
qed

subsection \<open>Properties\<close>



end
