(* ===== verification/Reass.thy ===== *)
theory Reass
  imports Icmp
begin

text \<open>
  Reassembly of fragments, the first half of \<^verbatim>\<open>core/ipv4/ip_frag.c\<close>: the list of datagrams being put together, the
  fragments of each linked through a helper structure written over their IP headers, the timer, and the removal of old datagrams
  when memory runs out.  Definitions only.
\<close>

unbundle bit_operations_syntax

definition IP_REASS_FLAG_LASTFRAG :: u8 where "IP_REASS_FLAG_LASTFRAG = 1"
definition IP_REASS_MAXAGE :: nat where "IP_REASS_MAXAGE = 3"
definition IP_REASS_MAX_PBUFS :: nat where "IP_REASS_MAX_PBUFS = 128"

text \<open>\<open>struct ip_reass_helper\<close> at address \<open>h\<close>.\<close>

definition next_pbuf :: "memory \<Rightarrow> ptr \<Rightarrow> ptr" where "next_pbuf m h = unat (ld32 m h)"
definition rh_start :: "memory \<Rightarrow> ptr \<Rightarrow> nat" where "rh_start m h = unat (ld16 m (h + 4))"
definition rh_end :: "memory \<Rightarrow> ptr \<Rightarrow> nat" where "rh_end m h = unat (ld16 m (h + 6))"

definition set_next_pbuf :: "ptr \<Rightarrow> ptr \<Rightarrow> memory \<Rightarrow> memory" where "set_next_pbuf h p m = st32 h (word_of_nat p) m"

definition write_helper :: "ptr \<Rightarrow> nat \<Rightarrow> nat \<Rightarrow> memory \<Rightarrow> memory" where
  "write_helper h offset len m =
     (let m = set_next_pbuf h NULL m;
          m = st16 (h + 4) (word_of_nat offset) m
      in st16 (h + 6) (word_of_nat (offset + len)) m)"

text \<open>The offset of a fragment's data in the datagram, and its length.\<close>

definition frag_offset :: "memory \<Rightarrow> ptr \<Rightarrow> nat" where
  "frag_offset m h = to_u16 (unat (lwip_ntohs (ld16 m (h + IPH_OFFSET_OFF)) AND IP_OFFMASK) * 8)"

definition frag_len :: "memory \<Rightarrow> ptr \<Rightarrow> nat" where
  "frag_len m h = usub 16 (unat (lwip_ntohs (ld16 m (h + IPH_LEN_OFF)))) (IPH_HL m h * 4)"

definition IP_ADDRESSES_AND_ID_MATCH :: "u8 list \<Rightarrow> memory \<Rightarrow> ptr \<Rightarrow> bool" where
  "IP_ADDRESSES_AND_ID_MATCH hdr m h \<longleftrightarrow>
     take 4 (drop IPH_SRC_OFF hdr) = bytes_at m (h + IPH_SRC_OFF) 4 \<and>
     take 4 (drop IPH_DEST_OFF hdr) = bytes_at m (h + IPH_DEST_OFF) 4 \<and>
     take 2 (drop IPH_ID_OFF hdr) = bytes_at m (h + IPH_ID_OFF) 2"

definition upd_rd :: "ptr \<Rightarrow> (ip_reassdata \<Rightarrow> ip_reassdata) \<Rightarrow> 'a ip_scheme \<Rightarrow> 'a ip_scheme option" where
  "upd_rd r f s = (case reassdata s r of None \<Rightarrow> None | Some d \<Rightarrow> Some (s\<lparr>reassdata := (reassdata s)(r \<mapsto> f d)\<rparr>))"

subsection \<open>Removing datagrams\<close>

definition ip_reass_dequeue_datagram :: "ptr \<Rightarrow> ptr \<Rightarrow> 'a ip_scheme \<Rightarrow> 'a ip_scheme option" where
  "ip_reass_dequeue_datagram ipr prev s =
     do { d \<leftarrow> reassdata s ipr;
          s \<leftarrow> (if reassdatagrams s = ipr then Some (s\<lparr>reassdatagrams := rd_next d\<rparr>)
                else upd_rd prev (\<lambda>e. e\<lparr>rd_next := rd_next d\<rparr>) s);
          Some (upd_pools (memp_free MEMP_REASSDATA ipr) (s\<lparr>reassdata := (reassdata s)(ipr := None)\<rparr>)) }"

text \<open>The loop that frees the fragments of a datagram and counts their buffers.\<close>

partial_function (option) free_fragments :: "ptr \<Rightarrow> nat \<Rightarrow> 'a lwip_scheme \<Rightarrow> ('a lwip_scheme \<times> nat) option" where
  "free_fragments p pbufs_freed s =
     (if p = NULL then Some (s, pbufs_freed)
      else do {
        b \<leftarrow> get_pbuf p (nt s);
        let nx = next_pbuf (ram_bytes (nt s)) (payload b);
        clen \<leftarrow> pbuf_clen p (nt s);
        s \<leftarrow> free_packet p s;
        free_fragments nx (to_u16 (pbufs_freed + clen)) s })"

definition ip_reass_free_complete_datagram :: "ptr \<Rightarrow> ptr \<Rightarrow> 'a ip_scheme \<Rightarrow> ('a ip_scheme \<times> nat) option" where
  "ip_reass_free_complete_datagram ipr prev s =
     do { d \<leftarrow> reassdata s ipr;
          b \<leftarrow> get_pbuf (rd_p d) (nt s);
          let iprh = payload b;
          (s, pbufs_freed) \<leftarrow>
            (if rh_start (ram_bytes (nt s)) iprh = 0 then do {
               let p = rd_p d;
               s \<leftarrow> upd_rd ipr (\<lambda>e. e\<lparr>rd_p := next_pbuf (ram_bytes (nt s)) iprh\<rparr>) s;
               let s = upd_ram (put_bytes iprh (rd_iphdr d)) s;
               s \<leftarrow> icmp_time_exceeded p ICMP_TE_FRAG s;
               clen \<leftarrow> pbuf_clen p (nt s);
               s \<leftarrow> free_packet p s;
               Some (s, clen) }
             else Some (s, 0));
          d \<leftarrow> reassdata s ipr;
          (s, pbufs_freed) \<leftarrow> free_fragments (rd_p d) pbufs_freed s;
          s \<leftarrow> ip_reass_dequeue_datagram ipr prev s;
          Some (s\<lparr>ip_reass_pbufcount := usub 16 (ip_reass_pbufcount s) pbufs_freed\<rparr>, pbufs_freed) }"

partial_function (option) reass_tmr_loop :: "ptr \<Rightarrow> ptr \<Rightarrow> 'a ip_scheme \<Rightarrow> 'a ip_scheme option" where
  "reass_tmr_loop r prev s =
     (if r = NULL then Some s
      else do {
        d \<leftarrow> reassdata s r;
        if rd_timer d > 0 then do {
          s \<leftarrow> upd_rd r (\<lambda>e. e\<lparr>rd_timer := rd_timer e - 1\<rparr>) s;
          reass_tmr_loop (rd_next d) r s }
        else do {
          (s, _) \<leftarrow> ip_reass_free_complete_datagram r prev s;
          reass_tmr_loop (rd_next d) prev s } })"

definition ip_reass_tmr :: "'a ip_scheme \<Rightarrow> 'a ip_scheme option" where
  "ip_reass_tmr s = reass_tmr_loop (reassdatagrams s) NULL s"

text \<open>One pass over the list: the oldest other datagram, the \<open>prev\<close> the code computes, and the number of other datagrams.\<close>

partial_function (option) scan_datagrams :: "ptr \<Rightarrow> ptr \<Rightarrow> ptr \<Rightarrow> ptr \<Rightarrow> nat \<Rightarrow> 'a ip_scheme \<Rightarrow> (ptr \<times> ptr \<times> nat) option" where
  "scan_datagrams fraghdr r old prev other_datagrams s =
     (if r = NULL then Some (old, prev, other_datagrams)
      else do {
        d \<leftarrow> reassdata s r;
        (old, other_datagrams) \<leftarrow>
          (if \<not> IP_ADDRESSES_AND_ID_MATCH (rd_iphdr d) (ram_bytes (nt s)) fraghdr
           then if old = NULL then Some (r, other_datagrams + 1)
                else do { e \<leftarrow> reassdata s old;
                          Some (if rd_timer d \<le> rd_timer e then r else old, other_datagrams + 1) }
           else Some (old, other_datagrams));
        scan_datagrams fraghdr (rd_next d) old (if rd_next d \<noteq> NULL then r else prev) other_datagrams s })"

partial_function (option) remove_oldest_loop :: "ptr \<Rightarrow> nat \<Rightarrow> nat \<Rightarrow> 'a ip_scheme \<Rightarrow> ('a ip_scheme \<times> nat) option" where
  "remove_oldest_loop fraghdr pbufs_needed pbufs_freed s =
     do { (old, prev, other_datagrams) \<leftarrow> scan_datagrams fraghdr (reassdatagrams s) NULL NULL 0 s;
          (s, pbufs_freed) \<leftarrow>
            (if old \<noteq> NULL then do {
               (s, n) \<leftarrow> ip_reass_free_complete_datagram old prev s;
               Some (s, pbufs_freed + n) }
             else Some (s, pbufs_freed));
          if pbufs_freed < pbufs_needed \<and> other_datagrams > 1 then remove_oldest_loop fraghdr pbufs_needed pbufs_freed s
          else Some (s, pbufs_freed) }"

definition ip_reass_remove_oldest_datagram :: "ptr \<Rightarrow> nat \<Rightarrow> 'a ip_scheme \<Rightarrow> ('a ip_scheme \<times> nat) option" where
  "ip_reass_remove_oldest_datagram fraghdr pbufs_needed s = remove_oldest_loop fraghdr pbufs_needed 0 s"

subsection \<open>Adding a fragment\<close>

definition ip_reass_enqueue_new_datagram :: "ptr \<Rightarrow> nat \<Rightarrow> 'a ip_scheme \<Rightarrow> ('a ip_scheme \<times> ptr) option" where
  "ip_reass_enqueue_new_datagram fraghdr clen s =
     do { let (pl, ipr) = memp_malloc MEMP_REASSDATA (pools (nt s));
          let s = upd_pools (\<lambda>_. pl) s;
          (s, ipr) \<leftarrow>
            (if ipr = NULL then do {
               (s, freed) \<leftarrow> ip_reass_remove_oldest_datagram fraghdr clen s;
               if freed \<ge> clen
               then let (pl, ipr) = memp_malloc MEMP_REASSDATA (pools (nt s)) in Some (upd_pools (\<lambda>_. pl) s, ipr)
               else Some (s, ipr) }
             else Some (s, ipr));
          Some (if ipr = NULL then (s, NULL)
                else (s\<lparr>reassdata := (reassdata s)(ipr \<mapsto>
                          \<lparr>rd_next = reassdatagrams s, rd_p = NULL, rd_iphdr = bytes_at (ram_bytes (nt s)) fraghdr IP_HLEN,
                           datagram_len = 0, rd_flags = 0, rd_timer = IP_REASS_MAXAGE\<rparr>),
                        reassdatagrams := ipr\<rparr>, ipr)) }"

text \<open>The search for the place of a fragment.  The result is the fragment it was put in front of (\<open>NULL\<close> at the end of the
  list), the helper before it and whether no hole was seen; or nothing if the fragment is not needed.\<close>

partial_function (option) chain_loop ::
    "ptr \<Rightarrow> ptr \<Rightarrow> ptr \<Rightarrow> ptr \<Rightarrow> ptr \<Rightarrow> bool \<Rightarrow> 'a ip_scheme \<Rightarrow> ('a ip_scheme \<times> (ptr \<times> ptr \<times> bool) option) option" where
  "chain_loop ipr new_p iprh q iprh_prev valid s =
     (if q = NULL then Some (s, Some (NULL, iprh_prev, valid))
      else do {
        b \<leftarrow> get_pbuf q (nt s);
        let m = ram_bytes (nt s);
        let iprh_tmp = payload b;
        if rh_start m iprh < rh_start m iprh_tmp then
          let s = upd_ram (set_next_pbuf iprh q) s; m = ram_bytes (nt s)
          in if iprh_prev \<noteq> NULL then
               if rh_start m iprh < rh_end m iprh_prev \<or> rh_end m iprh > rh_start m iprh_tmp then Some (s, None)
               else Some (upd_ram (set_next_pbuf iprh_prev new_p) s, Some (q, iprh_prev, valid))
             else do { s \<leftarrow> upd_rd ipr (\<lambda>d. d\<lparr>rd_p := new_p\<rparr>) s; Some (s, Some (q, iprh_prev, valid)) }
        else if rh_start m iprh = rh_start m iprh_tmp then Some (s, None)
        else if rh_start m iprh < rh_end m iprh_tmp then Some (s, None)
        else chain_loop ipr new_p iprh (next_pbuf m iprh_tmp) iprh_tmp
               (if iprh_prev \<noteq> NULL \<and> rh_end m iprh_prev \<noteq> rh_start m iprh_tmp then False else valid) s })"

text \<open>Whether there is no hole behind a fragment.\<close>

partial_function (option) no_hole_loop :: "ptr \<Rightarrow> ptr \<Rightarrow> net \<Rightarrow> bool option" where
  "no_hole_loop iprh_prev q s =
     (if q = NULL then Some True
      else do {
        b \<leftarrow> get_pbuf q s;
        let iprh = payload b;
        if rh_end (ram_bytes s) iprh_prev \<noteq> rh_start (ram_bytes s) iprh then Some False
        else no_hole_loop iprh (next_pbuf (ram_bytes s) iprh) s })"

definition chain_end :: "ptr \<Rightarrow> ptr \<Rightarrow> ptr \<Rightarrow> ptr \<Rightarrow> ptr \<Rightarrow> bool \<Rightarrow> 'a ip_scheme \<Rightarrow> ('a ip_scheme \<times> bool) option" where
  "chain_end ipr new_p iprh q iprh_prev valid s =
     (if q = NULL then
        if iprh_prev \<noteq> NULL then
          let s = upd_ram (set_next_pbuf iprh_prev new_p) s
          in Some (s, if rh_end (ram_bytes (nt s)) iprh_prev \<noteq> rh_start (ram_bytes (nt s)) iprh then False else valid)
        else do { s \<leftarrow> upd_rd ipr (\<lambda>d. d\<lparr>rd_p := new_p\<rparr>) s; Some (s, valid) }
      else Some (s, valid))"

definition chain_validate :: "ptr \<Rightarrow> ptr \<Rightarrow> bool \<Rightarrow> 'a ip_scheme \<Rightarrow> bool option" where
  "chain_validate ipr iprh valid s =
     do { d \<leftarrow> reassdata s ipr;
          if rd_flags d AND IP_REASS_FLAG_LASTFRAG \<noteq> 0 then
            if valid then do {
              b \<leftarrow> get_pbuf (rd_p d) (nt s);
              if rh_start (ram_bytes (nt s)) (payload b) \<noteq> 0 then Some False
              else no_hole_loop iprh (next_pbuf (ram_bytes (nt s)) iprh) (nt s) }
            else Some False
          else Some False }"

definition ip_reass_chain_frag_into_datagram_and_validate :: "ptr \<Rightarrow> ptr \<Rightarrow> 'a ip_scheme \<Rightarrow> ('a ip_scheme \<times> bool) option" where
  "ip_reass_chain_frag_into_datagram_and_validate ipr new_p s =
     do { b \<leftarrow> get_pbuf new_p (nt s);
          let iprh = payload b;
          let len = frag_len (ram_bytes (nt s)) iprh;
          let offset = frag_offset (ram_bytes (nt s)) iprh;
          let s = upd_ram (write_helper iprh offset len) s;
          d \<leftarrow> reassdata s ipr;
          (s, r) \<leftarrow> chain_loop ipr new_p iprh (rd_p d) NULL True s;
          case r of
            None \<Rightarrow> do {
              clen \<leftarrow> pbuf_clen new_p (nt s);
              let s = s\<lparr>ip_reass_pbufcount := usub 16 (ip_reass_pbufcount s) clen\<rparr>;
              s \<leftarrow> free_packet new_p s;
              Some (s, False) }
          | Some (q, iprh_prev, valid) \<Rightarrow> do {
              (s, valid) \<leftarrow> chain_end ipr new_p iprh q iprh_prev valid s;
              v \<leftarrow> chain_validate ipr iprh valid s;
              Some (s, v) } }"

subsection \<open>Reassembling\<close>

text \<open>The loop that strings the fragments of a complete datagram together.\<close>

partial_function (option) join_fragments :: "ptr \<Rightarrow> ptr \<Rightarrow> net \<Rightarrow> net option" where
  "join_fragments p r s =
     (if r = NULL then Some s
      else do {
        b \<leftarrow> get_pbuf r s;
        let iprh = payload b;
        (s, _) \<leftarrow> pbuf_header r (- int IP_HLEN) s;
        s \<leftarrow> pbuf_cat p r s;
        join_fragments p (next_pbuf (ram_bytes s) iprh) s })"

text \<open>The datagram a fragment belongs to (\<open>NULL\<close> if it is new) and the one before it in the list.\<close>

partial_function (option) find_datagram :: "ptr \<Rightarrow> ptr \<Rightarrow> ptr \<Rightarrow> 'a ip_scheme \<Rightarrow> (ptr \<times> ptr) option" where
  "find_datagram fraghdr ipr ipr_prev s =
     (if ipr = NULL then Some (NULL, ipr_prev)
      else do {
        d \<leftarrow> reassdata s ipr;
        if IP_ADDRESSES_AND_ID_MATCH (rd_iphdr d) (ram_bytes (nt s)) fraghdr then Some (ipr, ipr_prev)
        else find_datagram fraghdr (rd_next d) ipr s })"

text \<open>The header of a complete datagram, restored in front of its first fragment.\<close>

definition restore_header :: "ptr \<Rightarrow> u8 list \<Rightarrow> nat \<Rightarrow> memory \<Rightarrow> memory" where
  "restore_header h hdr len m =
     (let m = put_bytes h hdr m;
          m = st16 (h + IPH_LEN_OFF) (lwip_htons (word_of_nat len)) m;
          m = st16 (h + IPH_OFFSET_OFF) 0 m;
          m = st16 (h + IPH_CHKSUM_OFF) 0 m
      in st16 (h + IPH_CHKSUM_OFF) (inet_chksum h IP_HLEN m) m)"

definition reass_complete :: "ptr \<Rightarrow> ptr \<Rightarrow> 'a ip_scheme \<Rightarrow> ('a ip_scheme \<times> ptr) option" where
  "reass_complete ipr ipr_prev s =
     do { s \<leftarrow> upd_rd ipr (\<lambda>d. d\<lparr>datagram_len := to_u16 (datagram_len d + IP_HLEN)\<rparr>) s;
          d \<leftarrow> reassdata s ipr;
          b \<leftarrow> get_pbuf (rd_p d) (nt s);
          let r = next_pbuf (ram_bytes (nt s)) (payload b);
          let s = upd_ram (restore_header (payload b) (rd_iphdr d) (datagram_len d)) s;
          n \<leftarrow> join_fragments (rd_p d) r (nt s);
          s \<leftarrow> ip_reass_dequeue_datagram ipr ipr_prev (s\<lparr>nt := n\<rparr>);
          clen \<leftarrow> pbuf_clen (rd_p d) (nt s);
          Some (s\<lparr>ip_reass_pbufcount := usub 16 (ip_reass_pbufcount s) clen\<rparr>, rd_p d) }"

text \<open>Room for the buffers of a fragment: whether there is, after old datagrams were removed if need be.\<close>

definition reass_room :: "ptr \<Rightarrow> nat \<Rightarrow> 'a ip_scheme \<Rightarrow> ('a ip_scheme \<times> bool) option" where
  "reass_room fraghdr clen s =
     (if ip_reass_pbufcount s + clen > IP_REASS_MAX_PBUFS then do {
        (s, freed) \<leftarrow> ip_reass_remove_oldest_datagram fraghdr clen s;
        Some (s, \<not> (freed = 0 \<or> ip_reass_pbufcount s + clen > IP_REASS_MAX_PBUFS)) }
      else Some (s, True))"

text \<open>The entry for a fragment: found, with the header of the first fragment kept, or new; \<open>NULL\<close> if there is no memory.\<close>

definition reass_entry :: "ptr \<Rightarrow> nat \<Rightarrow> 'a ip_scheme \<Rightarrow> ('a ip_scheme \<times> ptr \<times> ptr) option" where
  "reass_entry fraghdr clen s =
     do { (ipr, ipr_prev) \<leftarrow> find_datagram fraghdr (reassdatagrams s) NULL s;
          if ipr = NULL then do {
            (s, ipr) \<leftarrow> ip_reass_enqueue_new_datagram fraghdr clen s;
            Some (s, ipr, ipr_prev) }
          else do {
            let m = ram_bytes (nt s);
            s \<leftarrow> upd_rd ipr (\<lambda>d. if lwip_ntohs (ld16 m (fraghdr + IPH_OFFSET_OFF)) AND IP_OFFMASK = 0 \<and>
                    (push_bit 8 (ucast (rd_iphdr d ! 6)) OR ucast (rd_iphdr d ! 7)) AND IP_OFFMASK \<noteq> 0
                  then d\<lparr>rd_iphdr := bytes_at m fraghdr IP_HLEN\<rparr> else d) s;
            Some (s, ipr, ipr_prev) } }"

definition ip_reass :: "ptr \<Rightarrow> 'a ip_scheme \<Rightarrow> ('a ip_scheme \<times> ptr) option" where
  "ip_reass p s =
     do { b \<leftarrow> get_pbuf p (nt s);
          let fraghdr = payload b;
          if IPH_HL (ram_bytes (nt s)) fraghdr * 4 \<noteq> IP_HLEN then do { s \<leftarrow> free_packet p s; Some (s, NULL) }
          else do {
            let offset = frag_offset (ram_bytes (nt s)) fraghdr;
            let len = frag_len (ram_bytes (nt s)) fraghdr;
            clen \<leftarrow> pbuf_clen p (nt s);
            (s, room) \<leftarrow> reass_room fraghdr clen s;
            if \<not> room then do { s \<leftarrow> free_packet p s; Some (s, NULL) }
            else do {
              (s, ipr, ipr_prev) \<leftarrow> reass_entry fraghdr clen s;
              if ipr = NULL then do { s \<leftarrow> free_packet p s; Some (s, NULL) }
              else do {
                let s = s\<lparr>ip_reass_pbufcount := to_u16 (ip_reass_pbufcount s + clen)\<rparr>;
                let m = ram_bytes (nt s);
                s \<leftarrow> (if ld16 m (fraghdr + IPH_OFFSET_OFF) AND lwip_ntohs IP_MF = 0
                      then upd_rd ipr (\<lambda>d. d\<lparr>rd_flags := rd_flags d OR IP_REASS_FLAG_LASTFRAG, datagram_len := to_u16 (offset + len)\<rparr>) s
                      else Some s);
                (s, valid) \<leftarrow> ip_reass_chain_frag_into_datagram_and_validate ipr p s;
                if valid then reass_complete ipr ipr_prev s else Some (s, NULL) } } } }"

end
