(* ===== verification/Raw.thy ===== *)
theory Raw
  imports Icmp
begin

text \<open>
  Raw sockets, \<^verbatim>\<open>core/raw.c\<close>: control blocks in a linked list, delivery of incoming datagrams to the receive
  callbacks that match, and sending.  The callbacks are functions of the application and a parameter here: \<open>call f arg pcb p addr\<close>
  is what the function at \<open>f\<close> does.
\<close>

unbundle bit_operations_syntax

definition RAW_TTL :: u8 where "RAW_TTL = 255"

record raw_pcb =
  raw_local_ip :: u32
  raw_remote_ip :: u32
  raw_so_options :: u8
  raw_tos :: u8
  raw_ttl :: u8
  raw_next :: ptr
  raw_protocol :: u8
  raw_recv_fn :: ptr
  raw_recv_arg :: ptr

text \<open>\<open>raw_tab\<close> holds the control blocks in use.\<close>

record raw = ip +
  raw_tab :: "ptr \<rightharpoonup> raw_pcb"
  raw_pcbs :: ptr

type_synonym 'a raw_callback = "ptr \<Rightarrow> ptr \<Rightarrow> ptr \<Rightarrow> ptr \<Rightarrow> u32 \<Rightarrow> 'a raw_scheme \<Rightarrow> ('a raw_scheme \<times> nat) option"

definition upd_raw :: "ptr \<Rightarrow> (raw_pcb \<Rightarrow> raw_pcb) \<Rightarrow> 'a raw_scheme \<Rightarrow> 'a raw_scheme option" where
  "upd_raw pcb f s = (case raw_tab s pcb of None \<Rightarrow> None | Some c \<Rightarrow> Some (s\<lparr>raw_tab := (raw_tab s)(pcb \<mapsto> f c)\<rparr>))"

definition raw_new :: "u8 \<Rightarrow> 'a raw_scheme \<Rightarrow> 'a raw_scheme \<times> ptr" where
  "raw_new proto s =
     (let (pl, pcb) = memp_malloc MEMP_RAW_PCB (pools (nt s));
          s = upd_pools (\<lambda>_. pl) s
      in if pcb \<noteq> NULL
         then (s\<lparr>raw_tab := (raw_tab s)(pcb \<mapsto> \<lparr>raw_local_ip = 0, raw_remote_ip = 0, raw_so_options = 0, raw_tos = 0, raw_ttl = RAW_TTL,
                   raw_next = raw_pcbs s, raw_protocol = proto, raw_recv_fn = NULL, raw_recv_arg = NULL\<rparr>), raw_pcbs := pcb\<rparr>, pcb)
         else (s, pcb))"

definition raw_bind :: "ptr \<Rightarrow> u32 \<Rightarrow> 'a raw_scheme \<Rightarrow> ('a raw_scheme \<times> err_t) option" where
  "raw_bind pcb ipaddr s = do { s \<leftarrow> upd_raw pcb (\<lambda>c. c\<lparr>raw_local_ip := ipaddr\<rparr>) s; Some (s, ERR_OK) }"

definition raw_connect :: "ptr \<Rightarrow> u32 \<Rightarrow> 'a raw_scheme \<Rightarrow> ('a raw_scheme \<times> err_t) option" where
  "raw_connect pcb ipaddr s = do { s \<leftarrow> upd_raw pcb (\<lambda>c. c\<lparr>raw_remote_ip := ipaddr\<rparr>) s; Some (s, ERR_OK) }"

definition raw_recv :: "ptr \<Rightarrow> ptr \<Rightarrow> ptr \<Rightarrow> 'a raw_scheme \<Rightarrow> 'a raw_scheme option" where
  "raw_recv pcb recv arg s = upd_raw pcb (\<lambda>c. c\<lparr>raw_recv_fn := recv, raw_recv_arg := arg\<rparr>) s"

text \<open>The search for the predecessor in \<open>raw_remove\<close>; it goes on to the end of the list.\<close>

partial_function (option) raw_unlink :: "ptr \<Rightarrow> ptr \<Rightarrow> 'a raw_scheme \<Rightarrow> 'a raw_scheme option" where
  "raw_unlink pcb pcb2 s =
     (if pcb2 = NULL then Some s
      else do {
        c2 \<leftarrow> raw_tab s pcb2;
        s \<leftarrow> (if raw_next c2 \<noteq> NULL \<and> raw_next c2 = pcb
              then do { c \<leftarrow> raw_tab s pcb; upd_raw pcb2 (\<lambda>c2. c2\<lparr>raw_next := raw_next c\<rparr>) s }
              else Some s);
        c2 \<leftarrow> raw_tab s pcb2;
        raw_unlink pcb (raw_next c2) s })"

definition raw_remove :: "ptr \<Rightarrow> 'a raw_scheme \<Rightarrow> 'a raw_scheme option" where
  "raw_remove pcb s =
     do { s \<leftarrow> (if raw_pcbs s = pcb then do { c \<leftarrow> raw_tab s pcb; Some (s\<lparr>raw_pcbs := raw_next c\<rparr>) }
                else raw_unlink pcb (raw_pcbs s) s);
          Some (upd_pools (memp_free MEMP_RAW_PCB pcb) (s\<lparr>raw_tab := (raw_tab s)(pcb := None)\<rparr>)) }"

subsection \<open>Input\<close>

text \<open>Move the control block behind \<open>prev\<close> to the front of the list.\<close>

definition raw_to_front :: "ptr \<Rightarrow> ptr \<Rightarrow> 'a raw_scheme \<Rightarrow> 'a raw_scheme option" where
  "raw_to_front prev pcb s =
     do { c \<leftarrow> raw_tab s pcb;
          s \<leftarrow> upd_raw prev (\<lambda>c'. c'\<lparr>raw_next := raw_next c\<rparr>) s;
          s \<leftarrow> upd_raw pcb (\<lambda>c. c\<lparr>raw_next := raw_pcbs s\<rparr>) s;
          Some (s\<lparr>raw_pcbs := pcb\<rparr>) }"

partial_function (option) raw_input_loop ::
    "'a raw_callback \<Rightarrow> ptr \<Rightarrow> u8 \<Rightarrow> ptr \<Rightarrow> ptr \<Rightarrow> 'a raw_scheme \<Rightarrow> ('a raw_scheme \<times> bool) option" where
  "raw_input_loop call p proto prev pcb s =
     (if pcb = NULL then Some (s, False)
      else do {
        c \<leftarrow> raw_tab s pcb;
        (s, eaten) \<leftarrow>
          (if raw_protocol c = proto \<and> (raw_local_ip c = IPADDR_ANY \<or> raw_local_ip c = current_iphdr_dest s) \<and> raw_recv_fn c \<noteq> NULL
           then do {
             (s, r) \<leftarrow> call (raw_recv_fn c) (raw_recv_arg c) pcb p (current_iphdr_src s) s;
             if r \<noteq> 0 then do { s \<leftarrow> (if prev \<noteq> NULL then raw_to_front prev pcb s else Some s); Some (s, True) }
             else Some (s, False) }
           else Some (s, False));
        if eaten then Some (s, True)
        else do { c \<leftarrow> raw_tab s pcb; raw_input_loop call p proto pcb (raw_next c) s } })"

definition raw_input :: "'a raw_callback \<Rightarrow> ptr \<Rightarrow> 'a raw_scheme \<Rightarrow> ('a raw_scheme \<times> bool) option" where
  "raw_input call p s =
     do { b \<leftarrow> get_pbuf p (nt s);
          raw_input_loop call p (ram_bytes (nt s) (payload b + IPH_PROTO_OFF)) NULL (raw_pcbs s) s }"

subsection \<open>Output\<close>

text \<open>A packet with room for the IP header: \<open>p\<close> itself or a new buffer in front of it, \<open>NULL\<close> if there is no memory.\<close>

definition raw_room :: "ptr \<Rightarrow> net \<Rightarrow> (net \<times> ptr) option" where
  "raw_room p s =
     do { (s, e) \<leftarrow> pbuf_header p (int IP_HLEN) s;
          if e \<noteq> 0 then do {
            (s, q) \<leftarrow> pbuf_alloc PBUF_IP 0 PBUF_RAM s;
            if q = NULL then Some (s, NULL)
            else do {
              b \<leftarrow> get_pbuf p s;
              if tot_len b \<noteq> 0 then do { s \<leftarrow> pbuf_chain q p s; Some (s, q) } else Some (s, q) } }
          else do {
            (s, e) \<leftarrow> pbuf_header p (- int IP_HLEN) s;
            Some (s, if e \<noteq> 0 then NULL else p) } }"

definition raw_sendto :: "ptr \<Rightarrow> ptr \<Rightarrow> u32 \<Rightarrow> 'a raw_scheme \<Rightarrow> ('a raw_scheme \<times> err_t) option" where
  "raw_sendto pcb p ipaddr s =
     do { c \<leftarrow> raw_tab s pcb;
          (s, q) \<leftarrow> on_net (raw_room p) s;
          if q = NULL then Some (s, ERR_MEM)
          else do {
            nf \<leftarrow> ip_route ipaddr s;
            (s, err) \<leftarrow>
              (if nf = NULL then Some (s, ERR_RTE)
               else let src_ip = (if raw_local_ip c = IPADDR_ANY then ip_addr (netifs s nf) else raw_local_ip c)
                    in ip_output_if q (Some src_ip) (Some ipaddr) (raw_ttl c) (raw_tos c) (raw_protocol c) nf s);
            s \<leftarrow> (if q \<noteq> p then free_packet q s else Some s);
            Some (s, err) } }"

definition raw_send :: "ptr \<Rightarrow> ptr \<Rightarrow> 'a raw_scheme \<Rightarrow> ('a raw_scheme \<times> err_t) option" where
  "raw_send pcb p s = do { c \<leftarrow> raw_tab s pcb; raw_sendto pcb p (raw_remote_ip c) s }"

end
