(* ===== verification/Udp.thy ===== *)
theory Udp
  imports Raw
begin

text \<open>
  UDP, \<^verbatim>\<open>core/udp.c\<close>: control blocks and their ports, demultiplexing of incoming datagrams, and output with the
  checksum over the pseudo header.  Built without UDP-Lite, multicast groups and socket options, as configured.  The receive
  callbacks are functions of the application and a parameter here: \<open>call f arg pcb p addr port\<close> is what the function at
  \<open>f\<close> does.
\<close>

unbundle bit_operations_syntax

definition UDP_HLEN :: nat where "UDP_HLEN = 8"
definition UDP_TTL :: u8 where "UDP_TTL = 255"
definition UDP_FLAGS_NOCHKSUM :: u8 where "UDP_FLAGS_NOCHKSUM = 0x01"
definition UDP_FLAGS_CONNECTED :: u8 where "UDP_FLAGS_CONNECTED = 0x04"
definition UDP_LOCAL_PORT_RANGE_START :: u16 where "UDP_LOCAL_PORT_RANGE_START = 0xc000"
definition UDP_LOCAL_PORT_RANGE_END :: u16 where "UDP_LOCAL_PORT_RANGE_END = 0xffff"

text \<open>Offsets of the fields of \<open>struct udp_hdr\<close>.\<close>

abbreviation (input) "UDP_SRC_OFF \<equiv> 0 :: nat"
abbreviation (input) "UDP_DEST_OFF \<equiv> 2 :: nat"
abbreviation (input) "UDP_LEN_OFF \<equiv> 4 :: nat"
abbreviation (input) "UDP_CHKSUM_OFF \<equiv> 6 :: nat"

record udp_pcb =
  local_ip :: u32
  remote_ip :: u32
  so_options :: u8
  udp_tos :: u8
  udp_ttl :: u8
  udp_next :: ptr
  udp_flags :: u8
  local_port :: u16
  remote_port :: u16
  udp_recv_fn :: ptr
  udp_recv_arg :: ptr

text \<open>\<open>udp_tab\<close> holds the control blocks in use, \<open>udp_pcbs\<close> is the list of the bound ones.\<close>

record udp = raw +
  udp_tab :: "ptr \<rightharpoonup> udp_pcb"
  udp_pcbs :: ptr
  udp_port :: u16

type_synonym 'a udp_callback = "ptr \<Rightarrow> ptr \<Rightarrow> ptr \<Rightarrow> ptr \<Rightarrow> u32 \<Rightarrow> u16 \<Rightarrow> 'a udp_scheme \<Rightarrow> 'a udp_scheme option"

definition upd_udp :: "ptr \<Rightarrow> (udp_pcb \<Rightarrow> udp_pcb) \<Rightarrow> 'a udp_scheme \<Rightarrow> 'a udp_scheme option" where
  "upd_udp pcb f s = (case udp_tab s pcb of None \<Rightarrow> None | Some c \<Rightarrow> Some (s\<lparr>udp_tab := (udp_tab s)(pcb \<mapsto> f c)\<rparr>))"

subsection \<open>Control blocks and ports\<close>

definition udp_new :: "'a udp_scheme \<Rightarrow> 'a udp_scheme \<times> ptr" where
  "udp_new s =
     (let (pl, pcb) = memp_malloc MEMP_UDP_PCB (pools (nt s));
          s = upd_pools (\<lambda>_. pl) s
      in if pcb \<noteq> NULL
         then (s\<lparr>udp_tab := (udp_tab s)(pcb \<mapsto> \<lparr>local_ip = 0, remote_ip = 0, so_options = 0, udp_tos = 0, udp_ttl = UDP_TTL,
                   udp_next = NULL, udp_flags = 0, local_port = 0, remote_port = 0, udp_recv_fn = NULL, udp_recv_arg = NULL\<rparr>)\<rparr>, pcb)
         else (s, pcb))"

text \<open>Whether a control block of the list uses the port.\<close>

partial_function (option) port_used :: "u16 \<Rightarrow> ptr \<Rightarrow> (ptr \<rightharpoonup> udp_pcb) \<Rightarrow> bool option" where
  "port_used port pcb tab =
     (if pcb = NULL then Some False
      else do { c \<leftarrow> tab pcb; if local_port c = port then Some True else port_used port (udp_next c) tab })"

definition next_port :: "u16 \<Rightarrow> u16" where
  "next_port port = (if port = UDP_LOCAL_PORT_RANGE_END then UDP_LOCAL_PORT_RANGE_START else port + 1)"

partial_function (option) new_port_loop :: "nat \<Rightarrow> 'a udp_scheme \<Rightarrow> ('a udp_scheme \<times> u16) option" where
  "new_port_loop n s =
     (let s = s\<lparr>udp_port := next_port (udp_port s)\<rparr>
      in do {
        used \<leftarrow> port_used (udp_port s) (udp_pcbs s) (udp_tab s);
        if used then
          let n = to_u16 (n + 1)
          in if n > unat UDP_LOCAL_PORT_RANGE_END - unat UDP_LOCAL_PORT_RANGE_START then Some (s, 0) else new_port_loop n s
        else Some (s, udp_port s) })"

definition udp_new_port :: "'a udp_scheme \<Rightarrow> ('a udp_scheme \<times> u16) option" where
  "udp_new_port s = new_port_loop 0 s"

text \<open>The check for a conflicting binding: nothing if there is one, otherwise whether the control block is in the list already.\<close>

partial_function (option) bind_check :: "ptr \<Rightarrow> u32 \<Rightarrow> u16 \<Rightarrow> ptr \<Rightarrow> bool \<Rightarrow> (ptr \<rightharpoonup> udp_pcb) \<Rightarrow> bool option option" where
  "bind_check pcb ipaddr port ipcb rebind tab =
     (if ipcb = NULL then Some (Some rebind)
      else do {
        c \<leftarrow> tab ipcb;
        if pcb = ipcb then bind_check pcb ipaddr port (udp_next c) True tab
        else if local_port c = port \<and> (local_ip c = IPADDR_ANY \<or> ipaddr = IPADDR_ANY \<or> local_ip c = ipaddr) then Some None
        else bind_check pcb ipaddr port (udp_next c) rebind tab })"

definition udp_bind :: "ptr \<Rightarrow> u32 \<Rightarrow> u16 \<Rightarrow> 'a udp_scheme \<Rightarrow> ('a udp_scheme \<times> err_t) option" where
  "udp_bind pcb ipaddr port s =
     do { r \<leftarrow> bind_check pcb ipaddr port (udp_pcbs s) False (udp_tab s);
          case r of
            None \<Rightarrow> Some (s, ERR_USE)
          | Some rebind \<Rightarrow> do {
              s \<leftarrow> upd_udp pcb (\<lambda>c. c\<lparr>local_ip := ipaddr\<rparr>) s;
              (s, port) \<leftarrow> (if port = 0 then udp_new_port s else Some (s, port));
              if port = 0 then Some (s, ERR_USE)
              else do {
                s \<leftarrow> upd_udp pcb (\<lambda>c. c\<lparr>local_port := port\<rparr>) s;
                s \<leftarrow> (if \<not> rebind
                      then do { s \<leftarrow> upd_udp pcb (\<lambda>c. c\<lparr>udp_next := udp_pcbs s\<rparr>) s; Some (s\<lparr>udp_pcbs := pcb\<rparr>) }
                      else Some s);
                Some (s, ERR_OK) } } }"

partial_function (option) udp_listed :: "ptr \<Rightarrow> ptr \<Rightarrow> (ptr \<rightharpoonup> udp_pcb) \<Rightarrow> bool option" where
  "udp_listed pcb ipcb tab =
     (if ipcb = NULL then Some False
      else if pcb = ipcb then Some True
      else do { c \<leftarrow> tab ipcb; udp_listed pcb (udp_next c) tab })"

definition udp_connect :: "ptr \<Rightarrow> u32 \<Rightarrow> u16 \<Rightarrow> 'a udp_scheme \<Rightarrow> ('a udp_scheme \<times> err_t) option" where
  "udp_connect pcb ipaddr port s =
     do { c \<leftarrow> udp_tab s pcb;
          (s, err) \<leftarrow> (if local_port c = 0 then udp_bind pcb (local_ip c) (local_port c) s else Some (s, ERR_OK));
          if err \<noteq> ERR_OK then Some (s, err)
          else do {
            s \<leftarrow> upd_udp pcb (\<lambda>c. c\<lparr>remote_ip := ipaddr, remote_port := port, udp_flags := udp_flags c OR UDP_FLAGS_CONNECTED\<rparr>) s;
            listed \<leftarrow> udp_listed pcb (udp_pcbs s) (udp_tab s);
            s \<leftarrow> (if listed then Some s
                  else do { s \<leftarrow> upd_udp pcb (\<lambda>c. c\<lparr>udp_next := udp_pcbs s\<rparr>) s; Some (s\<lparr>udp_pcbs := pcb\<rparr>) });
            Some (s, ERR_OK) } }"

definition udp_disconnect :: "ptr \<Rightarrow> 'a udp_scheme \<Rightarrow> 'a udp_scheme option" where
  "udp_disconnect pcb s =
     upd_udp pcb (\<lambda>c. c\<lparr>remote_ip := IPADDR_ANY, remote_port := 0, udp_flags := udp_flags c AND NOT UDP_FLAGS_CONNECTED\<rparr>) s"

definition udp_recv :: "ptr \<Rightarrow> ptr \<Rightarrow> ptr \<Rightarrow> 'a udp_scheme \<Rightarrow> 'a udp_scheme option" where
  "udp_recv pcb recv arg s = upd_udp pcb (\<lambda>c. c\<lparr>udp_recv_fn := recv, udp_recv_arg := arg\<rparr>) s"

partial_function (option) udp_unlink :: "ptr \<Rightarrow> ptr \<Rightarrow> 'a udp_scheme \<Rightarrow> 'a udp_scheme option" where
  "udp_unlink pcb pcb2 s =
     (if pcb2 = NULL then Some s
      else do {
        c2 \<leftarrow> udp_tab s pcb2;
        s \<leftarrow> (if udp_next c2 \<noteq> NULL \<and> udp_next c2 = pcb
              then do { c \<leftarrow> udp_tab s pcb; upd_udp pcb2 (\<lambda>c2. c2\<lparr>udp_next := udp_next c\<rparr>) s }
              else Some s);
        c2 \<leftarrow> udp_tab s pcb2;
        udp_unlink pcb (udp_next c2) s })"

definition udp_remove :: "ptr \<Rightarrow> 'a udp_scheme \<Rightarrow> 'a udp_scheme option" where
  "udp_remove pcb s =
     do { s \<leftarrow> (if udp_pcbs s = pcb then do { c \<leftarrow> udp_tab s pcb; Some (s\<lparr>udp_pcbs := udp_next c\<rparr>) }
                else udp_unlink pcb (udp_pcbs s) s);
          Some (upd_pools (memp_free MEMP_UDP_PCB pcb) (s\<lparr>udp_tab := (udp_tab s)(pcb := None)\<rparr>)) }"

subsection \<open>Input\<close>

text \<open>Whether a control block is bound to the address and port a datagram is for.\<close>

definition udp_local_match :: "bool \<Rightarrow> u32 \<Rightarrow> u32 \<Rightarrow> u16 \<Rightarrow> udp_pcb \<Rightarrow> bool" where
  "udp_local_match broadcast nmask dest_ip dest c \<longleftrightarrow>
     local_port c = dest \<and>
     (\<not> broadcast \<and> local_ip c = IPADDR_ANY \<or> local_ip c = dest_ip \<or>
      broadcast \<and> (local_ip c = IPADDR_ANY \<or> ip_addr_netcmp (local_ip c) dest_ip nmask))"

definition udp_remote_match :: "u32 \<Rightarrow> u16 \<Rightarrow> udp_pcb \<Rightarrow> bool" where
  "udp_remote_match src_ip src c \<longleftrightarrow> remote_port c = src \<and> (remote_ip c = IPADDR_ANY \<or> remote_ip c = src_ip)"

text \<open>The search: the control block that matches fully and the one before it, or the first unconnected match.\<close>

partial_function (option) udp_find ::
    "bool \<Rightarrow> u32 \<Rightarrow> u32 \<Rightarrow> u16 \<Rightarrow> u32 \<Rightarrow> u16 \<Rightarrow> ptr \<Rightarrow> ptr \<Rightarrow> ptr \<Rightarrow> (ptr \<rightharpoonup> udp_pcb) \<Rightarrow> ((ptr \<times> ptr) + ptr) option" where
  "udp_find broadcast nmask dest_ip dest src_ip src pcb prev uncon_pcb tab =
     (if pcb = NULL then Some (Inr uncon_pcb)
      else do {
        c \<leftarrow> tab pcb;
        let local_match = udp_local_match broadcast nmask dest_ip dest c;
        let uncon_pcb = (if local_match \<and> uncon_pcb = NULL \<and> udp_flags c AND UDP_FLAGS_CONNECTED = 0 then pcb else uncon_pcb);
        if local_match \<and> udp_remote_match src_ip src c then Some (Inl (pcb, prev))
        else udp_find broadcast nmask dest_ip dest src_ip src (udp_next c) pcb uncon_pcb tab })"

definition udp_demux :: "bool \<Rightarrow> u32 \<Rightarrow> u32 \<Rightarrow> u16 \<Rightarrow> u32 \<Rightarrow> u16 \<Rightarrow> 'a udp_scheme \<Rightarrow> ('a udp_scheme \<times> ptr) option" where
  "udp_demux broadcast nmask dest_ip dest src_ip src s =
     do { r \<leftarrow> udp_find broadcast nmask dest_ip dest src_ip src (udp_pcbs s) NULL NULL (udp_tab s);
          case r of
            Inl (pcb, prev) \<Rightarrow>
              if prev \<noteq> NULL then do {
                c \<leftarrow> udp_tab s pcb;
                s \<leftarrow> upd_udp prev (\<lambda>c'. c'\<lparr>udp_next := udp_next c\<rparr>) s;
                s \<leftarrow> upd_udp pcb (\<lambda>c. c\<lparr>udp_next := udp_pcbs s\<rparr>) s;
                Some (s\<lparr>udp_pcbs := pcb\<rparr>, pcb) }
              else Some (s, pcb)
          | Inr pcb \<Rightarrow> Some (s, pcb) }"

text \<open>A datagram whose header was checked goes to the callback, or is answered with a port unreachable message.\<close>

definition udp_deliver :: "'a udp_callback \<Rightarrow> ptr \<Rightarrow> nat \<Rightarrow> u16 \<Rightarrow> bool \<Rightarrow> ptr \<Rightarrow> 'a udp_scheme \<Rightarrow> 'a udp_scheme option" where
  "udp_deliver call p hlen src broadcast pcb s =
     (if pcb \<noteq> NULL then do {
        c \<leftarrow> udp_tab s pcb;
        if udp_recv_fn c \<noteq> NULL then call (udp_recv_fn c) (udp_recv_arg c) pcb p (current_iphdr_src s) src s
        else free_packet p s }
      else do {
        s \<leftarrow> (if \<not> broadcast \<and> \<not> ip_addr_ismulticast (current_iphdr_dest s) then do {
                (s, _) \<leftarrow> on_net (pbuf_header p (int (hlen + UDP_HLEN))) s;
                icmp_dest_unreach p ICMP_DUR_PORT s }
              else Some s);
        free_packet p s })"

definition udp_input :: "'a udp_callback \<Rightarrow> ptr \<Rightarrow> ptr \<Rightarrow> 'a udp_scheme \<Rightarrow> 'a udp_scheme option" where
  "udp_input call p inp s =
     do { b \<leftarrow> get_pbuf p (nt s);
          let hlen = IPH_HL (ram_bytes (nt s)) (payload b) * 4;
          (s, e) \<leftarrow> (if tot_len b < hlen + UDP_HLEN then Some (s, 1) else on_net (pbuf_header p (- int hlen)) s);
          if e \<noteq> 0 then free_packet p s
          else do {
            b \<leftarrow> get_pbuf p (nt s);
            let udphdr = payload b;
            let broadcast = ip4_addr_isbroadcast (current_iphdr_dest s) (netifs s inp);
            let src = lwip_ntohs (ld16 (ram_bytes (nt s)) (udphdr + UDP_SRC_OFF));
            let dest = lwip_ntohs (ld16 (ram_bytes (nt s)) (udphdr + UDP_DEST_OFF));
            (s, pcb) \<leftarrow> udp_demux broadcast (netmask (netifs s inp)) (current_iphdr_dest s) dest (current_iphdr_src s) src s;
            if pcb \<noteq> NULL \<or> ip_addr (netifs s inp) = current_iphdr_dest s then do {
              c \<leftarrow> (if ld16 (ram_bytes (nt s)) (udphdr + UDP_CHKSUM_OFF) \<noteq> 0
                    then inet_chksum_pseudo p (current_iphdr_src s) (current_iphdr_dest s) IP_PROTO_UDP (word_of_nat (tot_len b)) (nt s)
                    else Some 0);
              if c \<noteq> 0 then free_packet p s
              else do {
                (s, e) \<leftarrow> on_net (pbuf_header p (- int UDP_HLEN)) s;
                if e \<noteq> 0 then free_packet p s else udp_deliver call p hlen src broadcast pcb s } }
            else free_packet p s } }"

subsection \<open>Output\<close>

text \<open>A packet with room for the UDP header: \<open>p\<close> itself or a new buffer in front of it, \<open>NULL\<close> if there is no memory.\<close>

definition udp_room :: "ptr \<Rightarrow> net \<Rightarrow> (net \<times> ptr) option" where
  "udp_room p s =
     do { (s, e) \<leftarrow> pbuf_header p (int UDP_HLEN) s;
          if e \<noteq> 0 then do {
            (s, q) \<leftarrow> pbuf_alloc PBUF_IP UDP_HLEN PBUF_RAM s;
            if q = NULL then Some (s, NULL)
            else do {
              b \<leftarrow> get_pbuf p s;
              if tot_len b \<noteq> 0 then do { s \<leftarrow> pbuf_chain q p s; Some (s, q) } else Some (s, q) } }
          else Some (s, p) }"

definition write_udp_hdr :: "ptr \<Rightarrow> u16 \<Rightarrow> u16 \<Rightarrow> memory \<Rightarrow> memory" where
  "write_udp_hdr udphdr src dest m =
     (let m = st16 (udphdr + UDP_SRC_OFF) (lwip_htons src) m;
          m = st16 (udphdr + UDP_DEST_OFF) (lwip_htons dest) m
      in st16 (udphdr + UDP_CHKSUM_OFF) 0 m)"

definition udp_set_chksum :: "udp_pcb \<Rightarrow> ptr \<Rightarrow> u32 \<Rightarrow> u32 \<Rightarrow> 'a lwip_scheme \<Rightarrow> 'a lwip_scheme option" where
  "udp_set_chksum c q src_ip dst_ip s =
     do { b \<leftarrow> get_pbuf q (nt s);
          let s = upd_ram (st16 (payload b + UDP_LEN_OFF) (lwip_htons (word_of_nat (tot_len b)))) s;
          if udp_flags c AND UDP_FLAGS_NOCHKSUM = 0 then do {
            udpchksum \<leftarrow> inet_chksum_pseudo q src_ip dst_ip IP_PROTO_UDP (word_of_nat (tot_len b)) (nt s);
            let udpchksum = (if udpchksum = 0 then 0xffff else udpchksum);
            Some (upd_ram (st16 (payload b + UDP_CHKSUM_OFF) udpchksum) s) }
          else Some s }"

definition udp_sendto_if :: "ptr \<Rightarrow> ptr \<Rightarrow> u32 \<Rightarrow> u16 \<Rightarrow> ptr \<Rightarrow> 'a udp_scheme \<Rightarrow> ('a udp_scheme \<times> err_t) option" where
  "udp_sendto_if pcb p dst_ip dst_port nf s =
     do { c \<leftarrow> udp_tab s pcb;
          (s, err) \<leftarrow> (if local_port c = 0 then udp_bind pcb (local_ip c) (local_port c) s else Some (s, ERR_OK));
          if err \<noteq> ERR_OK then Some (s, err)
          else do {
            c \<leftarrow> udp_tab s pcb;
            (s, q) \<leftarrow> on_net (udp_room p) s;
            if q = NULL then Some (s, ERR_MEM)
            else do {
              b \<leftarrow> get_pbuf q (nt s);
              let s = upd_ram (write_udp_hdr (payload b) (local_port c) dst_port) s;
              if local_ip c \<noteq> IPADDR_ANY \<and> local_ip c \<noteq> ip_addr (netifs s nf) then do {
                s \<leftarrow> (if q \<noteq> p then free_packet q s else Some s);
                Some (s, ERR_VAL) }
              else do {
                let src_ip = (if local_ip c = IPADDR_ANY then ip_addr (netifs s nf) else local_ip c);
                s \<leftarrow> udp_set_chksum c q src_ip dst_ip s;
                (s, err) \<leftarrow> ip_output_if q (Some src_ip) (Some dst_ip) (udp_ttl c) (udp_tos c) IP_PROTO_UDP nf s;
                s \<leftarrow> (if q \<noteq> p then free_packet q s else Some s);
                Some (s, err) } } } }"

definition udp_sendto :: "ptr \<Rightarrow> ptr \<Rightarrow> u32 \<Rightarrow> u16 \<Rightarrow> 'a udp_scheme \<Rightarrow> ('a udp_scheme \<times> err_t) option" where
  "udp_sendto pcb p dst_ip dst_port s =
     do { nf \<leftarrow> ip_route dst_ip s;
          if nf = NULL then Some (s, ERR_RTE) else udp_sendto_if pcb p dst_ip dst_port nf s }"

definition udp_send :: "ptr \<Rightarrow> ptr \<Rightarrow> 'a udp_scheme \<Rightarrow> ('a udp_scheme \<times> err_t) option" where
  "udp_send pcb p s = do { c \<leftarrow> udp_tab s pcb; udp_sendto pcb p (remote_ip c) (remote_port c) s }"

end
