(* ===== verification/Ip_Input.thy ===== *)
theory Ip_Input
  imports Reass Udp
begin

text \<open>
  Receiving: \<open>ip_input\<close> of \<^verbatim>\<open>core/ipv4/ip.c\<close> and \<open>ethernet_input\<close> of \<^verbatim>\<open>netif/etharp.c\<close>.
  The record \<open>uppers\<close> has what lies above: the callbacks of the application and \<open>tcp_input\<close>, which is not modelled.
\<close>

unbundle bit_operations_syntax

record 'a uppers =
  raw_callback :: "'a udp_ext raw_callback"
  udp_callback :: "'a udp_callback"
  tcp_input :: "ptr \<Rightarrow> ptr \<Rightarrow> 'a udp_scheme \<Rightarrow> 'a udp_scheme option"

subsection \<open>IP\<close>

text \<open>Whether an interface takes a datagram to \<open>dest\<close>.\<close>

definition nf_accepts :: "u32 \<Rightarrow> netif \<Rightarrow> bool" where
  "nf_accepts dest nf \<longleftrightarrow>
     netif_is_up nf \<and> ip_addr nf \<noteq> IPADDR_ANY \<and> (dest = ip_addr nf \<or> ip4_addr_isbroadcast dest nf)"

text \<open>The search for the interface a datagram is for, first \<open>inp\<close>, then the list without it.\<close>

partial_function (option) find_netif :: "u32 \<Rightarrow> ptr \<Rightarrow> bool \<Rightarrow> ptr \<Rightarrow> 'a lwip_scheme \<Rightarrow> ptr option" where
  "find_netif dest inp first nf s =
     (if nf_accepts dest (netifs s nf) then Some nf
      else
        let nf = (if first then netif_list s else nf_next (netifs s nf));
            nf = (if nf = inp then nf_next (netifs s nf) else nf)
        in if nf = NULL then Some NULL else find_netif dest inp False nf s)"

text \<open>The datagram goes up unless a raw control block has taken it.\<close>

definition ip_deliver :: "('a, 'b) uppers_scheme \<Rightarrow> ptr \<Rightarrow> ptr \<Rightarrow> 'a udp_scheme \<Rightarrow> 'a udp_scheme option" where
  "ip_deliver up p inp s =
     do { b \<leftarrow> get_pbuf p (nt s);
          let iphdr = payload b;
          (s, eaten) \<leftarrow> raw_input (raw_callback up) p s;
          let proto = ram_bytes (nt s) (iphdr + IPH_PROTO_OFF);
          if eaten then Some s
          else if proto = IP_PROTO_UDP then udp_input (udp_callback up) p inp s
          else if proto = IP_PROTO_TCP then tcp_input up p inp s
          else if proto = IP_PROTO_ICMP then icmp_input p inp s
          else do {
            s \<leftarrow> (if \<not> ip4_addr_isbroadcast (current_iphdr_dest s) (netifs s inp) \<and> \<not> ip_addr_ismulticast (current_iphdr_dest s)
                  then icmp_dest_unreach p ICMP_DUR_PROTO (upd_net (upd_pbuf p (\<lambda>b. b\<lparr>payload := iphdr\<rparr>)) s)
                  else Some s);
            free_packet p s } }"

definition ip_finish :: "'a ip_scheme \<Rightarrow> 'a ip_scheme" where
  "ip_finish s = s\<lparr>current_netif := NULL, current_header := NULL, current_iphdr_src := IPADDR_ANY, current_iphdr_dest := IPADDR_ANY\<rparr>"

text \<open>The checks of the header that need no state: version, lengths and checksum.\<close>

definition ip_header_ok :: "memory \<Rightarrow> pbuf \<Rightarrow> bool" where
  "ip_header_ok m b \<longleftrightarrow>
     IPH_V m (payload b) = 4 \<and>
     \<not> (IPH_HL m (payload b) * 4 > pb_len b \<or> unat (lwip_ntohs (ld16 m (payload b + IPH_LEN_OFF))) > tot_len b) \<and>
     inet_chksum (payload b) (IPH_HL m (payload b) * 4) m = 0"

definition ip_input :: "('a, 'b) uppers_scheme \<Rightarrow> ptr \<Rightarrow> ptr \<Rightarrow> 'a udp_scheme \<Rightarrow> ('a udp_scheme \<times> err_t) option" where
  "ip_input up p inp s =
     do { b \<leftarrow> get_pbuf p (nt s);
          let iphdr = payload b;
          let m = ram_bytes (nt s);
          if \<not> ip_header_ok m b then do { s \<leftarrow> free_packet p s; Some (s, ERR_OK) }
          else do {
            n \<leftarrow> pbuf_realloc p (unat (lwip_ntohs (ld16 m (iphdr + IPH_LEN_OFF)))) (nt s);
            let s = s\<lparr>nt := n, current_iphdr_dest := ld32 (ram_bytes n) (iphdr + IPH_DEST_OFF),
                      current_iphdr_src := ld32 (ram_bytes n) (iphdr + IPH_SRC_OFF)\<rparr>;
            nf \<leftarrow> find_netif (current_iphdr_dest s) inp True inp s;
            if ip4_addr_isbroadcast (current_iphdr_src s) (netifs s inp) \<or> ip_addr_ismulticast (current_iphdr_src s) \<or> nf = NULL
            then do { s \<leftarrow> free_packet p s; Some (s, ERR_OK) }
            else do {
              (s, p) \<leftarrow> (if ld16 (ram_bytes (nt s)) (iphdr + IPH_OFFSET_OFF) AND lwip_htons (IP_OFFMASK OR IP_MF) \<noteq> 0
                         then ip_reass p s else Some (s, p));
              if p = NULL then Some (s, ERR_OK)
              else do {
                b \<leftarrow> get_pbuf p (nt s);
                let s = s\<lparr>current_netif := inp, current_header := payload b\<rparr>;
                s \<leftarrow> ip_deliver up p inp s;
                Some (ip_finish s, ERR_OK) } } } }"

subsection \<open>Ethernet\<close>

definition PBUF_FLAG_LLBCAST :: nat where "PBUF_FLAG_LLBCAST = 0x08"
definition PBUF_FLAG_LLMCAST :: nat where "PBUF_FLAG_LLMCAST = 0x10"
definition LL_MULTICAST_ADDR :: "u8 list" where "LL_MULTICAST_ADDR = [0x01, 0x00, 0x5e]"

text \<open>The flags a frame's destination sets in its buffer.\<close>

definition ll_flags :: "u8 list \<Rightarrow> nat \<Rightarrow> nat" where
  "ll_flags dest flags =
     (if dest ! 0 AND 1 \<noteq> 0 then
        if dest ! 0 = LL_MULTICAST_ADDR ! 0 then
          if dest ! 1 = LL_MULTICAST_ADDR ! 1 \<and> dest ! 2 = LL_MULTICAST_ADDR ! 2 then flags OR PBUF_FLAG_LLMCAST else flags
        else if dest = ethbroadcast then flags OR PBUF_FLAG_LLBCAST
        else flags
      else flags)"

definition ethernet_input :: "('a, 'b) uppers_scheme \<Rightarrow> ptr \<Rightarrow> ptr \<Rightarrow> 'a udp_scheme \<Rightarrow> ('a udp_scheme \<times> err_t) option" where
  "ethernet_input up p nf s =
     do { b \<leftarrow> get_pbuf p (nt s);
          if pb_len b \<le> SIZEOF_ETH_HDR then do { s \<leftarrow> free_packet p s; Some (s, ERR_OK) }
          else do {
            let ethhdr = payload b;
            let type = ld16 (ram_bytes (nt s)) (ethhdr + ETH_TYPE);
            let s = upd_net (upd_pbuf p (\<lambda>b. b\<lparr>pb_flags := ll_flags (bytes_at (ram_bytes (nt s)) (ethhdr + ETH_DEST) 6) (pb_flags b)\<rparr>)) s;
            if type = lwip_htons ETHTYPE_IP then
              if nf_flags (netifs s nf) AND NETIF_FLAG_ETHARP = 0 then do { s \<leftarrow> free_packet p s; Some (s, ERR_OK) }
              else do {
                (s, e) \<leftarrow> on_net (pbuf_header p (- int SIZEOF_ETH_HDR)) s;
                if e \<noteq> 0 then do { s \<leftarrow> free_packet p s; Some (s, ERR_OK) }
                else do { (s, _) \<leftarrow> ip_input up p nf s; Some (s, ERR_OK) } }
            else if type = lwip_htons ETHTYPE_ARP then
              if nf_flags (netifs s nf) AND NETIF_FLAG_ETHARP = 0 then do { s \<leftarrow> free_packet p s; Some (s, ERR_OK) }
              else do {
                s \<leftarrow> etharp_arp_input nf (hwaddr (netifs s nf)) p s;
                Some (s, ERR_OK) }
            else do { s \<leftarrow> free_packet p s; Some (s, ERR_OK) } } }"

end
