(* ===== verification/Udp_Ports.thy ===== *)
theory Udp_Ports
  imports Udp
begin

text \<open>
  The control blocks of UDP: in every state the application reaches no two bound blocks compete for an address and port, and every
  call returns.  A datagram goes to the first block that matches both ends, otherwise to the first unconnected one.
\<close>

unbundle bit_operations_syntax

subsection \<open>The list of bound blocks\<close>

fun pcb_chain :: "(ptr \<rightharpoonup> udp_pcb) \<Rightarrow> ptr \<Rightarrow> ptr list \<Rightarrow> bool" where
  "pcb_chain T p [] \<longleftrightarrow> p = NULL"
| "pcb_chain T p (q # qs) \<longleftrightarrow> p = q \<and> q \<noteq> NULL \<and> (\<exists>c. T q = Some c \<and> pcb_chain T (udp_next c) qs)"

lemma pcb_chain_dom: "pcb_chain T p qs \<Longrightarrow> q \<in> set qs \<Longrightarrow> q \<noteq> NULL \<and> (\<exists>c. T q = Some c)"
  by (induction qs arbitrary: p) auto

lemma pcb_chain_cong:
  "(\<And>q. q \<in> set qs \<Longrightarrow> map_option udp_next (T' q) = map_option udp_next (T q)) \<Longrightarrow> pcb_chain T' p qs = pcb_chain T p qs"
proof (induction qs arbitrary: p)
  case (Cons q qs)
  have "map_option udp_next (T' q) = map_option udp_next (T q)" using Cons.prems by simp
  then show ?case using Cons.IH Cons.prems by (cases "T q"; cases "T' q") auto
qed simp

lemma pcb_chain_first: "pcb_chain T p qs \<Longrightarrow> p = NULL \<longleftrightarrow> qs = []" "pcb_chain T p (q # qs) \<Longrightarrow> p = q"
  by (cases qs) auto

lemma pcb_chain_split:
  "pcb_chain T p (as @ q # bs) \<Longrightarrow> \<exists>c. T q = Some c \<and> pcb_chain T (udp_next c) bs"
  by (induction as arbitrary: p) auto

lemma port_used_spec: "pcb_chain T p qs \<Longrightarrow> port_used port p T = Some (\<exists>q\<in>set qs. local_port (the (T q)) = port)"
proof (induction qs arbitrary: p)
  case Nil
  then show ?case by (subst port_used.simps) simp
next
  case (Cons q qs)
  then show ?case by (subst port_used.simps) auto
qed

lemma udp_listed_spec: "pcb_chain T p qs \<Longrightarrow> udp_listed pcb p T = Some (pcb \<in> set qs)"
proof (induction qs arbitrary: p)
  case Nil
  then show ?case by (subst udp_listed.simps) simp
next
  case (Cons q qs)
  then show ?case by (subst udp_listed.simps) auto
qed

text \<open>The address and port compete with those of a block.\<close>

definition competes :: "u32 \<Rightarrow> u16 \<Rightarrow> udp_pcb \<Rightarrow> bool" where
  "competes a port c \<longleftrightarrow> local_port c = port \<and> (local_ip c = IPADDR_ANY \<or> a = IPADDR_ANY \<or> local_ip c = a)"

lemma bind_check_spec:
  "pcb_chain T p qs \<Longrightarrow> bind_check pcb a port p rb T =
     Some (if \<exists>q\<in>set qs. q \<noteq> pcb \<and> competes a port (the (T q)) then None else Some (rb \<or> pcb \<in> set qs))"
proof (induction qs arbitrary: p rb)
  case Nil
  then show ?case by (subst bind_check.simps) simp
next
  case (Cons q qs)
  then obtain c where c: "p = q" "q \<noteq> NULL" "T q = Some c" "pcb_chain T (udp_next c) qs" by auto
  note I = Cons.IH [OF c(4)]
  show ?case
  proof (cases "q = pcb")
    case True
    then have "bind_check pcb a port p rb T = bind_check pcb a port (udp_next c) True T" using c by (subst bind_check.simps) simp
    then show ?thesis using True I by auto
  next
    case False
    then have "bind_check pcb a port p rb T = (if competes a port c then Some None else bind_check pcb a port (udp_next c) rb T)"
      using c by (subst bind_check.simps) (simp add: competes_def)
    then show ?thesis using False I c(1,3) by auto
  qed
qed

subsection \<open>Finding a free port\<close>

definition port_no :: "u16 \<Rightarrow> nat" where "port_no p = unat p - 49152"

lemma port_range: "UDP_LOCAL_PORT_RANGE_START \<le> p \<longleftrightarrow> 49152 \<le> unat p"
  by (simp add: UDP_LOCAL_PORT_RANGE_START_def word_le_nat_alt)

lemma next_port_step:
  assumes "UDP_LOCAL_PORT_RANGE_START \<le> p"
  shows "UDP_LOCAL_PORT_RANGE_START \<le> next_port p \<and> port_no (next_port p) = (port_no p + 1) mod 16384"
proof (cases "p = UDP_LOCAL_PORT_RANGE_END")
  case True
  then show ?thesis by (simp add: next_port_def port_no_def UDP_LOCAL_PORT_RANGE_START_def UDP_LOCAL_PORT_RANGE_END_def)
next
  case False
  have "unat p \<noteq> 65535" using False by (auto simp: UDP_LOCAL_PORT_RANGE_END_def word_unat_eq_iff)
  then have l: "unat p < 65535" using unat_u16_less [of p] by linarith
  then have u: "unat (p + 1) = unat p + 1" by (simp add: unat_word_ariths)
  have r: "49152 \<le> unat p" using assms unfolding port_range .
  then have "port_no (p + 1) = port_no p + 1" "port_no p + 1 < 16384" using u l by (simp_all add: port_no_def)
  then show ?thesis using u r False by (simp add: next_port_def port_range)
qed

lemma port_iter:
  "UDP_LOCAL_PORT_RANGE_START \<le> p \<Longrightarrow>
   UDP_LOCAL_PORT_RANGE_START \<le> (next_port ^^ j) p \<and> port_no ((next_port ^^ j) p) = (port_no p + j) mod 16384"
proof (induction j)
  case 0
  have "port_no p < 16384" using 0 unat_u16_less [of p] unfolding port_no_def port_range by linarith
  then show ?case using 0 by simp
next
  case (Suc j)
  note I = Suc.IH [OF Suc.prems]
  have "port_no ((next_port ^^ Suc j) p) = ((port_no p + j) mod 16384 + 1) mod 16384" using next_port_step [OF conjunct1 [OF I]] I by simp
  then show ?case using next_port_step [OF conjunct1 [OF I]] by (simp add: mod_simps)
qed

lemma port_iter_inj:
  assumes "UDP_LOCAL_PORT_RANGE_START \<le> p"
  shows "inj_on (\<lambda>j. (next_port ^^ Suc j) p) {..<16384}"
proof (rule inj_onI)
  fix i j :: nat assume ij: "i \<in> {..<16384}" "j \<in> {..<16384}" "(next_port ^^ Suc i) p = (next_port ^^ Suc j) p"
  then have "(port_no p + Suc i) mod 16384 = (port_no p + Suc j) mod 16384" using port_iter [OF assms] by metis
  then have "i mod 16384 = j mod 16384" by (simp add: nat_mod_eq_iff)
  then show "i = j" using ij by simp
qed

lemma new_port_loop_spec:
  assumes "pcb_chain (udp_tab s) (udp_pcbs s) qs" "n + j \<le> 16383"
    "\<And>i. i < j \<Longrightarrow> \<exists>q\<in>set qs. local_port (the (udp_tab s q)) = (next_port ^^ Suc i) (udp_port s)"
    "\<not> (\<exists>q\<in>set qs. local_port (the (udp_tab s q)) = (next_port ^^ Suc j) (udp_port s))"
  shows "new_port_loop n s = Some (s\<lparr>udp_port := (next_port ^^ Suc j) (udp_port s)\<rparr>, (next_port ^^ Suc j) (udp_port s))"
  using assms
proof (induction j arbitrary: n s)
  case 0
  have "port_used (next_port (udp_port s)) (udp_pcbs s) (udp_tab s) = Some False"
    using port_used_spec [OF 0(1)] 0(4) by simp
  then show ?case by (subst new_port_loop.simps) simp
next
  case (Suc j)
  let ?s = "s\<lparr>udp_port := next_port (udp_port s)\<rparr>"
  have "port_used (next_port (udp_port s)) (udp_pcbs s) (udp_tab s) = Some True"
    using port_used_spec [OF Suc.prems(1)] Suc.prems(3) [of 0] by simp
  moreover have "\<not> to_u16 (n + 1) > unat UDP_LOCAL_PORT_RANGE_END - unat UDP_LOCAL_PORT_RANGE_START" "to_u16 (n + 1) = n + 1"
    using Suc.prems(2) by (simp_all add: to_u16_def UDP_LOCAL_PORT_RANGE_END_def UDP_LOCAL_PORT_RANGE_START_def)
  ultimately have "new_port_loop n s = new_port_loop (n + 1) ?s" by (subst new_port_loop.simps) simp
  also have "\<dots> = Some (?s\<lparr>udp_port := (next_port ^^ Suc j) (udp_port ?s)\<rparr>, (next_port ^^ Suc j) (udp_port ?s))"
  proof (rule Suc.IH)
    show "\<exists>q\<in>set qs. local_port (the (udp_tab ?s q)) = (next_port ^^ Suc i) (udp_port ?s)" if "i < j" for i
      using Suc.prems(3) [of "Suc i"] that by (simp add: funpow_swap1)
  qed (use Suc.prems in \<open>simp_all add: funpow_swap1\<close>)
  finally show ?case by (simp add: funpow_swap1)
qed

text \<open>With fewer than 16384 bound blocks there is a free port.\<close>

lemma udp_new_port_ok:
  assumes "pcb_chain (udp_tab s) (udp_pcbs s) qs" "length qs < 16384" "UDP_LOCAL_PORT_RANGE_START \<le> udp_port s"
  shows "\<exists>port. udp_new_port s = Some (s\<lparr>udp_port := port\<rparr>, port) \<and> UDP_LOCAL_PORT_RANGE_START \<le> port \<and>
    (\<forall>q\<in>set qs. local_port (the (udp_tab s q)) \<noteq> port)"
proof -
  define U where "U = (\<lambda>q. local_port (the (udp_tab s q))) ` set qs"
  define f where "f j = (next_port ^^ Suc j) (udp_port s)" for j
  have "inj_on f {..<16384}" using port_iter_inj [OF assms(3)] by (simp only: f_def [abs_def])
  then have "inj_on f {..length qs}" by (rule inj_on_subset) (use assms(2) in auto)
  then have "card (f ` {..length qs}) = Suc (length qs)" by (simp add: card_image)
  moreover have "card U \<le> length qs" unfolding U_def by (rule le_trans [OF card_image_le [OF List.finite_set] card_length])
  ultimately have "\<not> f ` {..length qs} \<subseteq> U" using card_mono [of U "f ` {..length qs}"] by (force simp: U_def)
  then have "\<exists>j. j \<le> length qs \<and> f j \<notin> U" by blast
  then obtain j where j: "j \<le> length qs" "f j \<notin> U" "\<forall>i<j. \<not> (i \<le> length qs \<and> f i \<notin> U)"
    unfolding exists_least_iff [of "\<lambda>j. j \<le> length qs \<and> f j \<notin> U"] by blast
  then have u: "f i \<in> U" if "i < j" for i using that by auto
  have "new_port_loop 0 s = Some (s\<lparr>udp_port := f j\<rparr>, f j)" unfolding f_def
  proof (rule new_port_loop_spec [OF assms(1)])
    show "\<exists>q\<in>set qs. local_port (the (udp_tab s q)) = (next_port ^^ Suc i) (udp_port s)" if "i < j" for i
      using u [OF that] unfolding U_def f_def by auto
    show "\<not> (\<exists>q\<in>set qs. local_port (the (udp_tab s q)) = (next_port ^^ Suc j) (udp_port s))"
      using j(2) unfolding U_def f_def image_iff by metis
  qed (use j(1) assms(2) in simp)
  moreover have "UDP_LOCAL_PORT_RANGE_START \<le> f j" using port_iter [OF assms(3), of "Suc j"] unfolding f_def by blast
  moreover have "\<forall>q\<in>set qs. local_port (the (udp_tab s q)) \<noteq> f j" using j(2) unfolding U_def image_iff by metis
  ultimately show ?thesis unfolding udp_new_port_def by blast
qed

subsection \<open>The invariant\<close>

text \<open>\<open>B\<close> gives the address and port of each block and \<open>Q\<close> is the set of bound ones; no two of them compete.\<close>

definition rivals :: "u32 \<times> u16 \<Rightarrow> u32 \<times> u16 \<Rightarrow> bool" where
  "rivals b d \<longleftrightarrow> snd b = snd d \<and> (fst b = IPADDR_ANY \<or> fst d = IPADDR_ANY \<or> fst b = fst d)"

definition binding :: "(ptr \<rightharpoonup> udp_pcb) \<Rightarrow> ptr \<rightharpoonup> u32 \<times> u16" where
  "binding T p = map_option (\<lambda>c. (local_ip c, local_port c)) (T p)"

definition exclusive :: "(ptr \<rightharpoonup> u32 \<times> u16) \<Rightarrow> ptr set \<Rightarrow> bool" where
  "exclusive B Q \<longleftrightarrow> (\<forall>p b. B p = Some b \<longrightarrow> (p \<in> Q \<longleftrightarrow> snd b \<noteq> 0)) \<and>
     (\<forall>p\<in>Q. \<forall>q\<in>Q. \<forall>b d. p \<noteq> q \<longrightarrow> B p = Some b \<longrightarrow> B q = Some d \<longrightarrow> \<not> rivals b d)"

definition udp_list :: "'a udp_scheme \<Rightarrow> ptr list \<Rightarrow> bool" where
  "udp_list s qs \<longleftrightarrow> pcb_chain (udp_tab s) (udp_pcbs s) qs \<and> distinct qs \<and> UDP_LOCAL_PORT_RANGE_START \<le> udp_port s \<and>
     exclusive (binding (udp_tab s)) (set qs)"

definition udp_blocks :: "'a udp_scheme \<Rightarrow> bool" where
  "udp_blocks s \<longleftrightarrow> (\<exists>R. net_ok (nt s) R) \<and> (\<forall>p\<in>dom (udp_tab s). aux_block (nt s) MEMP_UDP_PCB p)"

lemma udp_listD:
  assumes "udp_list s qs"
  shows "pcb_chain (udp_tab s) (udp_pcbs s) qs" "distinct qs" "UDP_LOCAL_PORT_RANGE_START \<le> udp_port s" "exclusive (binding (udp_tab s)) (set qs)"
    "udp_tab s p = Some c \<Longrightarrow> p \<in> set qs \<longleftrightarrow> local_port c \<noteq> 0"
  using assms by (auto simp: udp_list_def exclusive_def binding_def)

lemma rivals_sym: "rivals b d = rivals d b"
  by (auto simp: rivals_def)

lemma competes_rivals: "T q = Some c \<Longrightarrow> competes a port (the (T q)) = rivals (a, port) (the (binding T q))"
  by (auto simp: competes_def rivals_def binding_def)

text \<open>Binding one more block, or another way.\<close>

lemma exclusive_bind:
  assumes "exclusive B Q" "snd b \<noteq> 0" "\<And>q d. q \<in> Q \<Longrightarrow> q \<noteq> p \<Longrightarrow> B q = Some d \<Longrightarrow> \<not> rivals b d"
  shows "exclusive (B(p \<mapsto> b)) (insert p Q)"
  using assms rivals_sym unfolding exclusive_def by (auto split: if_splits)

lemma exclusive_drop: "exclusive B Q \<Longrightarrow> exclusive (B(p := None)) (Q - {p})"
  unfolding exclusive_def by (auto split: if_splits)

lemma udp_pcb_pool [simp]: "\<not> pbuf_pool MEMP_UDP_PCB"
  by (simp add: pbuf_pool_def)

lemma udp_list_length:
  assumes "udp_list s qs" "udp_blocks s"
  shows "length qs \<le> 4"
proof -
  have "q \<in> memp_elems (pools (nt s)) MEMP_UDP_PCB" if "q \<in> set qs" for q
    using pcb_chain_dom [OF udp_listD(1) [OF assms(1)] that] assms(2) by (auto simp: udp_blocks_def aux_block_def memp_live_iff dom_def)
  then have "set qs \<subseteq> memp_elems (pools (nt s)) MEMP_UDP_PCB" by blast
  then have "card (set qs) \<le> card (memp_elems (pools (nt s)) MEMP_UDP_PCB)" using finite_pool_elems by (rule card_mono [rotated])
  then show ?thesis using distinct_card [OF udp_listD(2) [OF assms(1)]] card_pool_elems [of _ 4] by (auto intro: le_trans)
qed

text \<open>Changes that leave the binding of a block as it is.\<close>

lemma upd_udp_list:
  assumes "udp_list s qs" "udp_tab s p = Some c" "udp_next (f c) = udp_next c" "local_ip (f c) = local_ip c" "local_port (f c) = local_port c"
  shows "\<exists>s'. upd_udp p f s = Some s' \<and> udp_list s' qs \<and> (udp_blocks s \<longrightarrow> udp_blocks s')"
proof -
  let ?s = "s\<lparr>udp_tab := (udp_tab s)(p \<mapsto> f c)\<rparr>"
  note D = udp_listD [OF assms(1)]
  have "pcb_chain (udp_tab ?s) (udp_pcbs ?s) qs" using pcb_chain_cong [of qs "udp_tab ?s" "udp_tab s"] assms(2,3) D(1) by simp
  moreover have "binding (udp_tab ?s) = binding (udp_tab s)" using assms(2,4,5) by (auto simp: binding_def fun_eq_iff)
  ultimately have "udp_list ?s qs" using D(2-4) by (simp add: udp_list_def)
  moreover have "udp_blocks s \<longrightarrow> udp_blocks ?s" using assms(2) by (auto simp: udp_blocks_def)
  ultimately show ?thesis using assms(2) by (simp add: upd_udp_def)
qed

subsection \<open>Binding\<close>

lemma port_not_zero: "UDP_LOCAL_PORT_RANGE_START \<le> p \<Longrightarrow> p \<noteq> 0"
  using port_range [of p] by auto

text \<open>The state after a block was bound to \<open>b\<close>.\<close>

definition bound_to :: "ptr \<Rightarrow> udp_pcb \<Rightarrow> ptr list \<Rightarrow> u32 \<times> u16 \<Rightarrow> u16 \<Rightarrow> 'a udp_scheme \<Rightarrow> 'a udp_scheme" where
  "bound_to pcb c qs b k s =
     s\<lparr>udp_tab := (udp_tab s)(pcb \<mapsto> c\<lparr>local_ip := fst b, local_port := snd b, udp_next := if pcb \<in> set qs then udp_next c else udp_pcbs s\<rparr>),
       udp_pcbs := if pcb \<in> set qs then udp_pcbs s else pcb, udp_port := k\<rparr>"

lemma bound_to_list:
  assumes "udp_list s qs" "udp_tab s pcb = Some c" "pcb \<noteq> NULL" "snd b \<noteq> 0" "UDP_LOCAL_PORT_RANGE_START \<le> k"
    "\<And>q d. q \<in> set qs \<Longrightarrow> q \<noteq> pcb \<Longrightarrow> binding (udp_tab s) q = Some d \<Longrightarrow> \<not> rivals b d"
  shows "udp_list (bound_to pcb c qs b k s) (if pcb \<in> set qs then qs else pcb # qs)"
proof -
  let ?s = "bound_to pcb c qs b k s"
  note D = udp_listD [OF assms(1)]
  have "binding (udp_tab ?s) = (binding (udp_tab s))(pcb \<mapsto> b)" by (auto simp: bound_to_def binding_def fun_eq_iff)
  then have x: "exclusive (binding (udp_tab ?s)) (insert pcb (set qs))" using exclusive_bind [OF D(4) assms(4,6)] by simp
  show ?thesis
  proof (cases "pcb \<in> set qs")
    case True
    have "pcb_chain (udp_tab ?s) (udp_pcbs ?s) qs"
      using pcb_chain_cong [of qs "udp_tab ?s" "udp_tab s"] assms(2) D(1) True by (simp add: bound_to_def)
    then show ?thesis using x D(2) True assms(5) by (simp add: udp_list_def insert_absorb bound_to_def)
  next
    case False
    have "pcb_chain (udp_tab ?s) (udp_pcbs s) qs"
      by (subst pcb_chain_cong [of qs _ "udp_tab s"]) (use D(1) False in \<open>auto simp: bound_to_def\<close>)
    then have "pcb_chain (udp_tab ?s) (udp_pcbs ?s) (pcb # qs)" using False assms(3) by (simp add: bound_to_def)
    then show ?thesis using x D(2) False assms(5) by (simp add: udp_list_def bound_to_def)
  qed
qed

text \<open>The port a block gets: the one asked for, or a free one if that is 0.\<close>

lemma port_choice:
  assumes "pcb_chain (udp_tab s) (udp_pcbs s) qs" "length qs < 16384" "UDP_LOCAL_PORT_RANGE_START \<le> udp_port s"
  shows "\<exists>p k. (if port = 0 then udp_new_port s else Some (s, port)) = Some (s\<lparr>udp_port := k\<rparr>, p) \<and> p \<noteq> 0 \<and> UDP_LOCAL_PORT_RANGE_START \<le> k \<and>
    (if port = 0 then \<forall>q\<in>set qs. local_port (the (udp_tab s q)) \<noteq> p else p = port)"
proof (cases "port = 0")
  case True
  then show ?thesis using udp_new_port_ok [OF assms] port_not_zero by fastforce
next
  case False
  then show ?thesis using assms(3) by (intro exI [of _ port] exI [of _ "udp_port s"]) simp
qed

lemma udp_bind_ok:
  assumes "udp_list s qs" "udp_blocks s" "udp_tab s pcb = Some c"
  shows "if \<exists>q\<in>set qs. q \<noteq> pcb \<and> rivals (a, port) (the (binding (udp_tab s) q)) then udp_bind pcb a port s = Some (s, ERR_USE)
    else \<exists>b k. udp_bind pcb a port s = Some (bound_to pcb c qs b k s, ERR_OK) \<and> fst b = a \<and>
      (if port = 0 then snd b \<noteq> 0 \<and> (\<forall>q\<in>set qs. local_port (the (udp_tab s q)) \<noteq> snd b) else snd b = port) \<and>
      udp_list (bound_to pcb c qs b k s) (if pcb \<in> set qs then qs else pcb # qs) \<and> udp_blocks (bound_to pcb c qs b k s)"
proof -
  note D = udp_listD [OF assms(1)]
  let ?clash = "\<exists>q\<in>set qs. q \<noteq> pcb \<and> rivals (a, port) (the (binding (udp_tab s) q))"
  have "(\<exists>q\<in>set qs. q \<noteq> pcb \<and> competes a port (the (udp_tab s q))) = ?clash"
    using pcb_chain_dom [OF D(1)] competes_rivals [of "udp_tab s"] by (metis (no_types, lifting))
  then have bc: "bind_check pcb a port (udp_pcbs s) False (udp_tab s) = Some (if ?clash then None else Some (pcb \<in> set qs))"
    using bind_check_spec [OF D(1), of pcb a port False] by simp
  have n: "pcb \<noteq> NULL" using assms(2,3) net_okD(1) store_invD(2) memp_elems_pos unfolding udp_blocks_def aux_block_def memp_live_iff net_inv_def dom_def by blast
  show ?thesis
  proof (cases ?clash)
    case True
    then show ?thesis using bc by (simp add: udp_bind_def)
  next
    case False
    let ?s1 = "s\<lparr>udp_tab := (udp_tab s)(pcb \<mapsto> c\<lparr>local_ip := a\<rparr>)\<rparr>"
    have u: "upd_udp pcb (\<lambda>c. c\<lparr>local_ip := a\<rparr>) s = Some ?s1" using assms(3) by (simp add: upd_udp_def)
    have ch: "pcb_chain (udp_tab ?s1) (udp_pcbs ?s1) qs" using pcb_chain_cong [of qs "udp_tab ?s1" "udp_tab s"] assms(3) D(1) by simp
    have l: "length qs < 16384" using udp_list_length [OF assms(1,2)] by simp
    obtain p k where p: "(if port = 0 then udp_new_port ?s1 else Some (?s1, port)) = Some (?s1\<lparr>udp_port := k\<rparr>, p)" "p \<noteq> 0" "UDP_LOCAL_PORT_RANGE_START \<le> k"
      "if port = 0 then \<forall>q\<in>set qs. local_port (the (udp_tab ?s1 q)) \<noteq> p else p = port"
      using port_choice [OF ch l, of port] D(3) by auto
    have r: "\<not> rivals (a, p) d" if "q \<in> set qs" "q \<noteq> pcb" "binding (udp_tab s) q = Some d" for q d
      using that p(4) False by (auto simp: rivals_def binding_def split: if_splits)
    let ?s' = "bound_to pcb c qs (a, p) k s"
    have "udp_bind pcb a port s = Some (?s', ERR_OK)"
      unfolding udp_bind_def bc using False u p(1,2) by (simp add: upd_udp_def bound_to_def)
    moreover have "udp_list ?s' (if pcb \<in> set qs then qs else pcb # qs)" by (rule bound_to_list [OF assms(1,3) n]) (use p r in auto)
    moreover have "udp_blocks ?s'" using assms(2,3) by (auto simp: udp_blocks_def bound_to_def)
    moreover have lp: "local_port (the (udp_tab ?s1 q)) = local_port (the (udp_tab s q))" for q using assms(3) by simp
    have "if port = 0 then p \<noteq> 0 \<and> (\<forall>q\<in>set qs. local_port (the (udp_tab s q)) \<noteq> p) else p = port" using p(2,4) unfolding lp by simp
    ultimately show ?thesis using False by (intro if_not_P [THEN iffD2] exI [of _ "(a, p)"] exI [of _ k]) auto
  qed
qed

definition udp_inv :: "'a udp_scheme \<Rightarrow> bool" where
  "udp_inv s \<longleftrightarrow> udp_blocks s \<and> (\<exists>qs. udp_list s qs)"

lemma udp_bind_inv:
  assumes "udp_inv s" "pcb \<in> dom (udp_tab s)"
  shows "\<exists>s' e. udp_bind pcb a port s = Some (s', e) \<and> udp_inv s' \<and> dom (udp_tab s') = dom (udp_tab s) \<and> (e = ERR_OK \<or> s' = s) \<and>
    (e = ERR_OK \<longrightarrow> local_port (the (udp_tab s' pcb)) \<noteq> 0)"
proof -
  obtain qs c where q: "udp_list s qs" "udp_blocks s" "udp_tab s pcb = Some c" using assms by (auto simp: udp_inv_def)
  show ?thesis
  proof (cases "\<exists>q\<in>set qs. q \<noteq> pcb \<and> rivals (a, port) (the (binding (udp_tab s) q))")
    case True
    then show ?thesis using udp_bind_ok [OF q, of a port] assms(1) by auto
  next
    case False
    then obtain b k where b: "udp_bind pcb a port s = Some (bound_to pcb c qs b k s, ERR_OK)" "if port = 0 then snd b \<noteq> 0 \<and> (\<forall>q\<in>set qs. local_port (the (udp_tab s q)) \<noteq> snd b) else snd b = port"
      "udp_list (bound_to pcb c qs b k s) (if pcb \<in> set qs then qs else pcb # qs)" "udp_blocks (bound_to pcb c qs b k s)"
      using udp_bind_ok [OF q, of a port] unfolding if_not_P [OF False] by blast
    then have "udp_inv (bound_to pcb c qs b k s)" unfolding udp_inv_def by blast
    moreover have "dom (udp_tab (bound_to pcb c qs b k s)) = dom (udp_tab s)" using q(3) by (auto simp: bound_to_def)
    moreover have "snd b \<noteq> 0" using b(2) by (auto split: if_splits)
    then have "local_port (the (udp_tab (bound_to pcb c qs b k s) pcb)) \<noteq> 0" by (simp add: bound_to_def)
    ultimately show ?thesis using b(1) by blast
  qed
qed

lemma upd_udp_inv:
  assumes "udp_inv s" "udp_tab s p = Some c" "udp_next (f c) = udp_next c" "local_ip (f c) = local_ip c" "local_port (f c) = local_port c"
  shows "\<exists>s'. upd_udp p f s = Some s' \<and> udp_inv s'"
  using upd_udp_list [where f = f, OF _ assms(2-5)] assms(1) unfolding udp_inv_def by blast

lemma udp_connect_inv:
  assumes "udp_inv s" "pcb \<in> dom (udp_tab s)"
  shows "\<exists>s' e. udp_connect pcb a port s = Some (s', e) \<and> udp_inv s'"
proof -
  obtain c where c: "udp_tab s pcb = Some c" using assms(2) by blast
  obtain s1 e where s1: "(if local_port c = 0 then udp_bind pcb (local_ip c) (local_port c) s else Some (s, ERR_OK)) = Some (s1, e)" "udp_inv s1"
    "pcb \<in> dom (udp_tab s1)" "e = ERR_OK \<Longrightarrow> local_port (the (udp_tab s1 pcb)) \<noteq> 0"
  proof (cases "local_port c = 0")
    case True
    obtain s1 e where b: "udp_bind pcb (local_ip c) (local_port c) s = Some (s1, e)" "udp_inv s1" "dom (udp_tab s1) = dom (udp_tab s)"
      "e = ERR_OK \<longrightarrow> local_port (the (udp_tab s1 pcb)) \<noteq> 0" using udp_bind_inv [OF assms, of "local_ip c" "local_port c"] by blast
    show thesis by (rule that [of s1 e]) (use True b assms(2) in auto)
  next
    case False
    then show thesis using that [of s ERR_OK] assms c by auto
  qed
  show ?thesis
  proof (cases "e = ERR_OK")
    case False
    then show ?thesis using c s1 by (simp add: udp_connect_def)
  next
    case True
    obtain c1 where c1: "udp_tab s1 pcb = Some c1" "local_port c1 \<noteq> 0" using s1(3,4) True by auto
    let ?f = "\<lambda>c. c\<lparr>remote_ip := a, remote_port := port, udp_flags := udp_flags c OR UDP_FLAGS_CONNECTED\<rparr>"
    obtain qs where qs: "udp_list s1 qs" using s1(2) by (auto simp: udp_inv_def)
    then obtain s2 where s2: "upd_udp pcb ?f s1 = Some s2" "udp_list s2 qs" "udp_blocks s2"
      using upd_udp_list [OF qs c1(1), of ?f] s1(2) by (auto simp: udp_inv_def)
    have "pcb \<in> set qs" using udp_listD(5) [OF qs c1(1)] c1(2) by simp
    then have "udp_listed pcb (udp_pcbs s2) (udp_tab s2) = Some True" using udp_listed_spec [OF udp_listD(1) [OF s2(2)]] by simp
    then show ?thesis using c s1(1) s2 True by (auto simp: udp_connect_def udp_inv_def)
  qed
qed

lemma udp_new_inv:
  assumes "udp_inv s"
  shows "udp_inv (fst (udp_new s))"
proof -
  obtain pl pcb where m: "memp_malloc MEMP_UDP_PCB (pools (nt s)) = (pl, pcb)" by fastforce
  obtain R qs where R: "net_ok (nt s) R" "udp_list s qs" "\<forall>p\<in>dom (udp_tab s). aux_block (nt s) MEMP_UDP_PCB p" using assms by (auto simp: udp_inv_def udp_blocks_def)
  note A = aux_alloc_ok [OF R(1) udp_pcb_pool m]
  let ?s = "s\<lparr>nt := (nt s)\<lparr>pools := pl\<rparr>\<rparr>"
  have n: "udp_list ?s qs" using R(2) by (simp add: udp_list_def)
  show ?thesis
  proof (cases "pcb = NULL")
    case True
    then show ?thesis using A R n m by (auto simp: udp_new_def upd_pools_def udp_inv_def udp_blocks_def)
  next
    case False
    define c where "c = \<lparr>local_ip = 0, remote_ip = 0, so_options = 0, udp_tos = 0, udp_ttl = UDP_TTL, udp_next = NULL, udp_flags = 0, local_port = 0, remote_port = 0,
      udp_recv_fn = NULL, udp_recv_arg = NULL\<rparr>"
    have f: "pcb \<notin> dom (udp_tab s)" using A(4) [OF False] R(3) by blast
    let ?s' = "?s\<lparr>udp_tab := (udp_tab s)(pcb \<mapsto> c)\<rparr>"
    have q: "pcb \<notin> set qs" using f pcb_chain_dom [OF udp_listD(1) [OF R(2)]] by blast
    have "pcb_chain (udp_tab ?s') (udp_pcbs ?s') qs"
      by (subst pcb_chain_cong [of qs _ "udp_tab s"]) (use q udp_listD(1) [OF R(2)] in auto)
    moreover have "binding (udp_tab ?s') = (binding (udp_tab s))(pcb \<mapsto> (0, 0))" by (auto simp: binding_def c_def fun_eq_iff)
    then have "exclusive (binding (udp_tab ?s')) (set qs)" using udp_listD(4) [OF R(2)] q by (auto simp: exclusive_def)
    ultimately have "udp_list ?s' qs" using udp_listD(2,3) [OF R(2)] by (simp add: udp_list_def)
    moreover have "udp_blocks ?s'" using A(1,3) False R(3) by (auto simp: udp_blocks_def)
    moreover have "fst (udp_new s) = ?s'" using m False by (simp add: udp_new_def upd_pools_def c_def)
    ultimately show ?thesis by (auto simp: udp_inv_def)
  qed
qed

subsection \<open>Removing\<close>

lemma aux_block_nonnull:
  assumes "net_ok n R" "aux_block n t p"
  shows "p \<noteq> NULL"
proof -
  have "memp_inv (pools n)" using net_okD(1) [OF assms(1)] store_invD(2) by (simp add: net_inv_def)
  then show ?thesis using assms(2) memp_elems_pos unfolding aux_block_def memp_live_iff by blast
qed

lemma udp_unlink_none:
  "pcb_chain (udp_tab s) p qs \<Longrightarrow> pcb \<notin> set (tl qs) \<Longrightarrow> udp_unlink pcb p s = Some s"
proof (induction qs arbitrary: p)
  case Nil
  then show ?case by (subst udp_unlink.simps) simp
next
  case (Cons q qs)
  obtain c where c: "p = q" "q \<noteq> NULL" "udp_tab s q = Some c" "pcb_chain (udp_tab s) (udp_next c) qs" using Cons.prems(1) by auto
  have "\<not> (udp_next c \<noteq> NULL \<and> udp_next c = pcb)" using c(4) Cons.prems(2) by (cases qs) auto
  then have "udp_unlink pcb p s = udp_unlink pcb (udp_next c) s" using c(1-3) by (subst udp_unlink.simps) auto
  moreover have "pcb \<notin> set (tl qs)" using Cons.prems(2) by (cases qs) auto
  ultimately show ?case using Cons.IH [OF c(4)] by simp
qed

lemma udp_unlink_found:
  assumes "pcb_chain (udp_tab s) p (as @ x # pcb # bs)" "distinct (as @ x # pcb # bs)" "udp_tab s x = Some cx" "udp_tab s pcb = Some cp"
  shows "udp_unlink pcb p s = Some (s\<lparr>udp_tab := (udp_tab s)(x \<mapsto> cx\<lparr>udp_next := udp_next cp\<rparr>)\<rparr>)"
  using assms(1,2)
proof (induction as arbitrary: p)
  case Nil
  let ?s = "s\<lparr>udp_tab := (udp_tab s)(x \<mapsto> cx\<lparr>udp_next := udp_next cp\<rparr>)\<rparr>"
  have c: "p = x" "x \<noteq> NULL" "udp_next cx = pcb" "pcb \<noteq> NULL" "pcb_chain (udp_tab s) (udp_next cp) bs" using Nil assms(3,4) by auto
  have "udp_unlink pcb p s = udp_unlink pcb (udp_next cp) ?s" using c assms(3,4) Nil(2) by (subst udp_unlink.simps) (simp add: upd_udp_def)
  moreover have "pcb_chain (udp_tab ?s) (udp_next cp) bs" by (subst pcb_chain_cong [of bs _ "udp_tab s"]) (use c(5) Nil(2) in auto)
  moreover have "pcb \<notin> set (tl bs)" using Nil(2) by (cases bs) auto
  ultimately show ?case using udp_unlink_none [of ?s "udp_next cp" bs pcb] by (metis append_Nil)
next
  case (Cons a as)
  obtain c where c: "p = a" "a \<noteq> NULL" "udp_tab s a = Some c" "pcb_chain (udp_tab s) (udp_next c) (as @ x # pcb # bs)" using Cons.prems(1) by auto
  have "udp_next c \<noteq> pcb" using c(4) Cons.prems(2) by (cases as) auto
  then have "udp_unlink pcb p s = udp_unlink pcb (udp_next c) s" using c(1-3) by (subst udp_unlink.simps) auto
  then show ?case using Cons.IH [OF c(4)] Cons.prems(2) by simp
qed

fun pcb_seg :: "(ptr \<rightharpoonup> udp_pcb) \<Rightarrow> ptr \<Rightarrow> ptr list \<Rightarrow> ptr \<Rightarrow> bool" where
  "pcb_seg T p [] e \<longleftrightarrow> p = e"
| "pcb_seg T p (q # qs) e \<longleftrightarrow> p = q \<and> q \<noteq> NULL \<and> (\<exists>c. T q = Some c \<and> pcb_seg T (udp_next c) qs e)"

lemma pcb_chain_append: "pcb_chain T p (as @ bs) \<longleftrightarrow> (\<exists>e. pcb_seg T p as e \<and> pcb_chain T e bs)"
  by (induction as arbitrary: p) auto

lemma pcb_seg_cong: "(\<And>q. q \<in> set qs \<Longrightarrow> T' q = T q) \<Longrightarrow> pcb_seg T' p qs e = pcb_seg T p qs e"
  by (induction qs arbitrary: p) auto

lemma udp_remove_via:
  assumes "udp_list s qs"
    "(if udp_pcbs s = pcb then do { c \<leftarrow> udp_tab s pcb; Some (s\<lparr>udp_pcbs := udp_next c\<rparr>) } else udp_unlink pcb (udp_pcbs s) s) = Some (s\<lparr>udp_tab := T, udp_pcbs := p\<rparr>)"
    "dom T = dom (udp_tab s)" "binding T = binding (udp_tab s)" "pcb_chain (T(pcb := None)) p (remove1 pcb qs)"
  shows "\<exists>s'. udp_remove pcb s = Some s' \<and> udp_list s' (remove1 pcb qs) \<and> nt s' = (nt s)\<lparr>pools := memp_free MEMP_UDP_PCB pcb (pools (nt s))\<rparr> \<and>
    dom (udp_tab s') = dom (udp_tab s) - {pcb}"
proof -
  note D = udp_listD [OF assms(1)]
  let ?s = "s\<lparr>udp_tab := T(pcb := None), udp_pcbs := p, nt := (nt s)\<lparr>pools := memp_free MEMP_UDP_PCB pcb (pools (nt s))\<rparr>\<rparr>"
  have "binding (T(pcb := None)) = (binding (udp_tab s))(pcb := None)" using fun_cong [OF assms(4)] by (auto simp: binding_def fun_eq_iff)
  then have "exclusive (binding (udp_tab ?s)) (set (remove1 pcb qs))" using exclusive_drop [OF D(4), of pcb] D(2) by simp
  then have "udp_list ?s (remove1 pcb qs)" using assms(5) D(2,3) by (simp add: udp_list_def)
  moreover have "udp_remove pcb s = Some ?s" unfolding udp_remove_def assms(2) by (simp add: upd_pools_def)
  ultimately show ?thesis using assms(3) by (intro exI [of _ ?s]) auto
qed

lemma udp_remove_list:
  assumes "udp_list s qs" "udp_tab s pcb = Some c" "pcb \<noteq> NULL"
  shows "\<exists>s'. udp_remove pcb s = Some s' \<and> udp_list s' (remove1 pcb qs) \<and> nt s' = (nt s)\<lparr>pools := memp_free MEMP_UDP_PCB pcb (pools (nt s))\<rparr> \<and>
    dom (udp_tab s') = dom (udp_tab s) - {pcb}"
proof -
  note D = udp_listD [OF assms(1)]
  note go = udp_remove_via [OF assms(1), where pcb = pcb]
  consider "pcb \<notin> set qs" | bs where "qs = pcb # bs" | as x bs where "qs = as @ x # pcb # bs"
    using split_list [of pcb qs] by (metis append_Nil append_assoc append_Cons rev_exhaust)
  then show ?thesis
  proof cases
    case 1
    have "udp_unlink pcb (udp_pcbs s) s = Some s" by (rule udp_unlink_none [OF D(1)]) (use 1 in \<open>cases qs; simp\<close>)
    moreover have "udp_pcbs s \<noteq> pcb" using D(1) 1 assms(3) by (cases qs) auto
    moreover have "pcb_chain ((udp_tab s)(pcb := None)) (udp_pcbs s) qs" by (subst pcb_chain_cong [of qs _ "udp_tab s"]) (use D(1) 1 in auto)
    ultimately show ?thesis using go [where T = "udp_tab s" and p = "udp_pcbs s"] 1 by (simp add: remove1_idem)
  next
    case 2
    then have "udp_pcbs s = pcb" "pcb_chain (udp_tab s) (udp_next c) bs" "pcb \<notin> set bs" using D(1,2) assms(2) by auto
    moreover have "pcb_chain ((udp_tab s)(pcb := None)) (udp_next c) bs" by (subst pcb_chain_cong [of bs _ "udp_tab s"]) (use calculation in auto)
    ultimately show ?thesis using go [where T = "udp_tab s" and p = "udp_next c"] 2 assms(2) by simp
  next
    case 3
    obtain cx where x: "udp_tab s x = Some cx" "x \<noteq> NULL" "pcb_chain (udp_tab s) (udp_next c) bs" "pcb_seg (udp_tab s) (udp_pcbs s) as x" "udp_next cx = pcb"
      using D(1) assms(2) unfolding 3 pcb_chain_append by auto
    let ?T = "(udp_tab s)(x \<mapsto> cx\<lparr>udp_next := udp_next c\<rparr>)"
    have d: "distinct (as @ x # pcb # bs)" using D(2) 3 by simp
    have u: "udp_unlink pcb (udp_pcbs s) s = Some (s\<lparr>udp_tab := ?T, udp_pcbs := udp_pcbs s\<rparr>)"
      using udp_unlink_found [OF D(1) [unfolded 3] d x(1) assms(2)] by simp
    have p: "udp_pcbs s \<noteq> pcb" using x(4) d by (cases as) auto
    have "pcb_seg (?T(pcb := None)) (udp_pcbs s) as x" by (subst pcb_seg_cong [of as _ "udp_tab s"]) (use x(4) d in auto)
    moreover have "pcb_chain (?T(pcb := None)) (udp_next c) bs" by (subst pcb_chain_cong [of bs _ "udp_tab s"]) (use x(3) d in auto)
    moreover have r: "remove1 pcb qs = as @ x # bs" using 3 d by (simp add: remove1_append)
    ultimately have "pcb_chain (?T(pcb := None)) (udp_pcbs s) (remove1 pcb qs)" unfolding r pcb_chain_append using x(2) d by auto
    moreover have "binding ?T = binding (udp_tab s)" using x(1) by (auto simp: binding_def fun_eq_iff)
    moreover have "dom ?T = dom (udp_tab s)" using x(1) by auto
    ultimately show ?thesis using go [where T = ?T and p = "udp_pcbs s"] u p by simp
  qed
qed

lemma udp_remove_inv:
  assumes "udp_inv s" "pcb \<in> dom (udp_tab s)"
  shows "\<exists>s'. udp_remove pcb s = Some s' \<and> udp_inv s'"
proof -
  obtain qs c R where q: "udp_list s qs" "udp_tab s pcb = Some c" "net_ok (nt s) R" "\<forall>p\<in>dom (udp_tab s). aux_block (nt s) MEMP_UDP_PCB p"
    using assms by (auto simp: udp_inv_def udp_blocks_def)
  have a: "aux_block (nt s) MEMP_UDP_PCB pcb" using q(4) assms(2) by blast
  obtain s' where s': "udp_remove pcb s = Some s'" "udp_list s' (remove1 pcb qs)" "nt s' = (nt s)\<lparr>pools := memp_free MEMP_UDP_PCB pcb (pools (nt s))\<rparr>"
    "dom (udp_tab s') = dom (udp_tab s) - {pcb}" using udp_remove_list [OF q(1,2)] aux_block_nonnull [OF q(3) a] by blast
  note A = aux_free_ok [OF q(3) a udp_pcb_pool]
  have "udp_blocks s'" unfolding udp_blocks_def s'(3,4) using A q(4) by auto
  then show ?thesis using s'(1,2) by (auto simp: udp_inv_def)
qed

subsection \<open>Demultiplexing\<close>

text \<open>What the search of the list finds, for the tests \<open>lm\<close> and \<open>rm\<close> of the local and the remote end.\<close>

definition chosen :: "(udp_pcb \<Rightarrow> bool) \<Rightarrow> (udp_pcb \<Rightarrow> bool) \<Rightarrow> (ptr \<rightharpoonup> udp_pcb) \<Rightarrow> ptr list \<Rightarrow> ptr" where
  "chosen lm rm T qs =
     (case find (\<lambda>q. lm (the (T q)) \<and> rm (the (T q))) qs of
        Some q \<Rightarrow> q
      | None \<Rightarrow> (case find (\<lambda>q. lm (the (T q)) \<and> udp_flags (the (T q)) AND UDP_FLAGS_CONNECTED = 0) qs of Some q \<Rightarrow> q | None \<Rightarrow> NULL))"

lemma udp_find_spec:
  assumes "pcb_chain T p qs"
  shows "udp_find br nm di d si sr p prev un T = Some (case find (\<lambda>q. udp_local_match br nm di d (the (T q)) \<and> udp_remote_match si sr (the (T q))) qs of
      Some q \<Rightarrow> Inl (q, last (prev # takeWhile (\<lambda>x. x \<noteq> q) qs))
    | None \<Rightarrow> Inr (if un \<noteq> NULL then un else
        case find (\<lambda>q. udp_local_match br nm di d (the (T q)) \<and> udp_flags (the (T q)) AND UDP_FLAGS_CONNECTED = 0) qs of Some q \<Rightarrow> q | None \<Rightarrow> NULL))"
  using assms
proof (induction qs arbitrary: p prev un)
  case Nil
  then show ?case by (subst udp_find.simps) simp
next
  case (Cons q qs)
  obtain c where c: "p = q" "q \<noteq> NULL" "T q = Some c" "pcb_chain T (udp_next c) qs" using Cons.prems by auto
  show ?case
  proof (cases "udp_local_match br nm di d c \<and> udp_remote_match si sr c")
    case True
    then show ?thesis using c(1-3) by (subst udp_find.simps) simp
  next
    case False
    let ?P = "\<lambda>q. udp_local_match br nm di d (the (T q)) \<and> udp_remote_match si sr (the (T q))"
    have P: "\<not> ?P q" using False c(3) by simp
    have ne: "q \<noteq> x" if "find ?P qs = Some x" for x using that P unfolding find_Some_iff by blast
    have "udp_find br nm di d si sr p prev un T = udp_find br nm di d si sr (udp_next c) q
        (if udp_local_match br nm di d c \<and> un = NULL \<and> udp_flags c AND UDP_FLAGS_CONNECTED = 0 then q else un) T"
      using False c(1-3) by (subst udp_find.simps) (auto simp: Let_def)
    also have "\<dots> = Some (case find ?P (q # qs) of
      Some q' \<Rightarrow> Inl (q', last (prev # takeWhile (\<lambda>x. x \<noteq> q') (q # qs)))
    | None \<Rightarrow> Inr (if un \<noteq> NULL then un else
        case find (\<lambda>q. udp_local_match br nm di d (the (T q)) \<and> udp_flags (the (T q)) AND UDP_FLAGS_CONNECTED = 0) (q # qs) of Some q \<Rightarrow> q | None \<Rightarrow> NULL))"
      unfolding Cons.IH [OF c(4)] using P c(2,3) ne by (cases "find ?P qs") simp_all
    finally show ?thesis .
  qed
qed

text \<open>Moving a block to the front of the list.\<close>

lemma move_front:
  assumes "udp_list s (as @ x # q # bs)" "udp_tab s q = Some c" "udp_tab s x = Some cx"
  defines "T \<equiv> (udp_tab s)(x \<mapsto> cx\<lparr>udp_next := udp_next c\<rparr>, q \<mapsto> c\<lparr>udp_next := udp_pcbs s\<rparr>)"
  shows "udp_list (s\<lparr>udp_tab := T, udp_pcbs := q\<rparr>) (q # as @ x # bs)" "dom T = dom (udp_tab s)" "binding T = binding (udp_tab s)"
proof -
  note D = udp_listD [OF assms(1)]
  have x: "x \<noteq> NULL" "q \<noteq> NULL" "pcb_chain (udp_tab s) (udp_next c) bs" "pcb_seg (udp_tab s) (udp_pcbs s) as x"
    using D(1) assms(2,3) unfolding pcb_chain_append by auto
  have "pcb_seg T (udp_pcbs s) as x" unfolding T_def by (subst pcb_seg_cong [of as _ "udp_tab s"]) (use x(4) D(2) in auto)
  moreover have "pcb_chain T (udp_next c) bs" unfolding T_def by (subst pcb_chain_cong [of bs _ "udp_tab s"]) (use x(3) D(2) in auto)
  moreover have "T x = Some (cx\<lparr>udp_next := udp_next c\<rparr>)" "T q = Some (c\<lparr>udp_next := udp_pcbs s\<rparr>)" using D(2) by (auto simp: T_def)
  ultimately have "pcb_chain T q (q # as @ x # bs)" using x(1,2) by (auto simp: pcb_chain_append)
  moreover show b: "binding T = binding (udp_tab s)" using assms(2,3) by (auto simp: T_def binding_def fun_eq_iff)
  ultimately show "udp_list (s\<lparr>udp_tab := T, udp_pcbs := q\<rparr>) (q # as @ x # bs)" using D(2-4) by (simp add: udp_list_def insert_commute)
  show "dom T = dom (udp_tab s)" using assms(2,3) by (auto simp: T_def)
qed

lemma udp_demux_list:
  fixes br :: bool and nm di si :: u32 and d sr :: u16
  assumes "udp_list s qs"
  defines "r \<equiv> chosen (udp_local_match br nm di d) (udp_remote_match si sr) (udp_tab s) qs"
  shows "\<exists>s' qs'. udp_demux br nm di d si sr s = Some (s', r) \<and> udp_list s' qs' \<and> set qs' = set qs \<and> nt s' = nt s \<and>
    dom (udp_tab s') = dom (udp_tab s) \<and> binding (udp_tab s') = binding (udp_tab s) \<and>
    (\<forall>q. map_option (udp_next_update (\<lambda>_. NULL)) (udp_tab s' q) = map_option (udp_next_update (\<lambda>_. NULL)) (udp_tab s q))"
proof -
  let ?P = "\<lambda>q. udp_local_match br nm di d (the (udp_tab s q)) \<and> udp_remote_match si sr (the (udp_tab s q))"
  note D = udp_listD [OF assms(1)]
  note F = udp_find_spec [OF D(1), of br nm di d si sr NULL NULL]
  show ?thesis
  proof (cases "find ?P qs")
    case None
    then have "udp_demux br nm di d si sr s = Some (s, r)" using F by (simp add: udp_demux_def r_def chosen_def)
    then show ?thesis using assms(1) by blast
  next
    case (Some q)
    have r: "r = q" using Some by (simp add: r_def chosen_def)
    have "q \<in> set qs" using Some by (auto simp: find_Some_iff)
    then obtain as' bs where "qs = as' @ q # bs" "q \<notin> set as'" using split_list_first by metis
    moreover from this have "takeWhile (\<lambda>x. x \<noteq> q) qs = as'" by (auto simp: takeWhile_append)
    ultimately have sp: "qs = takeWhile (\<lambda>x. x \<noteq> q) qs @ q # bs" by simp
    obtain c where c: "udp_tab s q = Some c" using pcb_chain_dom [OF D(1), of q] sp by (metis in_set_conv_decomp)
    show ?thesis
    proof (cases "takeWhile (\<lambda>x. x \<noteq> q) qs" rule: rev_cases)
      case Nil
      then have "udp_demux br nm di d si sr s = Some (s, r)" using F Some r by (simp add: udp_demux_def)
      then show ?thesis using assms(1) by blast
    next
      case (snoc as x)
      then have qs: "qs = as @ x # q # bs" using sp by simp
      obtain cx where cx: "udp_tab s x = Some cx" "x \<noteq> NULL" using pcb_chain_dom [OF D(1), of x] qs by auto
      have "x \<noteq> q" using D(2) qs by auto
      then have "udp_demux br nm di d si sr s =
          Some (s\<lparr>udp_tab := (udp_tab s)(x \<mapsto> cx\<lparr>udp_next := udp_next c\<rparr>, q \<mapsto> c\<lparr>udp_next := udp_pcbs s\<rparr>), udp_pcbs := q\<rparr>, r)"
        using F Some r snoc c cx by (simp add: udp_demux_def upd_udp_def)
      moreover note move_front [OF assms(1) [unfolded qs] c cx(1)]
      moreover have "set (q # as @ x # bs) = set qs" using qs by auto
      ultimately show ?thesis using c cx(1) by (intro exI conjI) (assumption | simp)+
    qed
  qed
qed

lemma udp_demux_inv:
  assumes "udp_inv s"
  shows "\<exists>s' r. udp_demux br nm di d si sr s = Some (s', r) \<and> udp_inv s'"
proof -
  obtain qs where "udp_list s qs" using assms by (auto simp: udp_inv_def)
  from udp_demux_list [OF this, of br nm di d si sr] assms show ?thesis unfolding udp_inv_def udp_blocks_def by auto
qed

text \<open>At most one block is bound to the address and port of a datagram that is for one host.\<close>

lemma local_match_unique:
  assumes "udp_list s qs" "q \<in> set qs" "q' \<in> set qs" "udp_local_match False nm di d (the (udp_tab s q))" "udp_local_match False nm di d (the (udp_tab s q'))"
  shows "q = q'"
proof (rule ccontr)
  assume ne: "q \<noteq> q'"
  note D = udp_listD [OF assms(1)]
  obtain c c' where c: "udp_tab s q = Some c" "udp_tab s q' = Some c'" using pcb_chain_dom [OF D(1)] assms(2,3) by blast
  then have "binding (udp_tab s) q = Some (local_ip c, local_port c)" "binding (udp_tab s) q' = Some (local_ip c', local_port c')" by (simp_all add: binding_def)
  then have "\<not> rivals (local_ip c, local_port c) (local_ip c', local_port c')" using D(4) assms(2,3) ne unfolding exclusive_def by blast
  then show False using assms(4,5) c by (auto simp: rivals_def udp_local_match_def)
qed

lemma udp_local_match_bound:
  assumes "udp_list s qs" "d \<noteq> 0" "udp_tab s q = Some c" "udp_local_match br nm di d c"
  shows "q \<in> set qs"
  using udp_listD(5) [OF assms(1,3)] assms(2,4) by (simp add: udp_local_match_def)

lemma chosen_unicast:
  assumes "udp_list s qs" "q \<in> set qs" "udp_tab s q = Some c" "udp_local_match False nm di d c"
  shows "chosen (udp_local_match False nm di d) rm (udp_tab s) qs = (if rm c \<or> udp_flags c AND UDP_FLAGS_CONNECTED = 0 then q else NULL)"
proof -
  have u: "x = q" if "x \<in> set qs" "udp_local_match False nm di d (the (udp_tab s x))" for x
    using local_match_unique [OF assms(1) that(1) assms(2) that(2)] assms(3,4) by simp
  have f: "find (\<lambda>x. udp_local_match False nm di d (the (udp_tab s x)) \<and> P (the (udp_tab s x))) qs = (if P c then Some q else None)" for P
  proof (cases "find (\<lambda>x. udp_local_match False nm di d (the (udp_tab s x)) \<and> P (the (udp_tab s x))) qs")
    case None
    then have "\<not> P c" using assms(2-4) unfolding find_None_iff by force
    then show ?thesis using None by simp
  next
    case (Some x)
    then have "x \<in> set qs" "udp_local_match False nm di d (the (udp_tab s x))" "P (the (udp_tab s x))" unfolding find_Some_iff by auto
    then show ?thesis using u [of x] Some assms(3) by simp
  qed
  show ?thesis unfolding chosen_def f [of rm] f [of "\<lambda>c. udp_flags c AND UDP_FLAGS_CONNECTED = 0"] by simp
qed

lemma chosen_none:
  assumes "\<And>q. q \<in> set qs \<Longrightarrow> \<not> lm (the (T q))"
  shows "chosen lm rm T qs = NULL"
proof -
  have f: "find (\<lambda>q. lm (the (T q)) \<and> P (the (T q))) qs = None" for P using assms unfolding find_None_iff by blast
  show ?thesis unfolding chosen_def f [of rm] f [of "\<lambda>c. udp_flags c AND UDP_FLAGS_CONNECTED = 0"] by simp
qed

subsection \<open>What the application sees\<close>

text \<open>The states the application reaches with the calls of the interface, on control blocks that \<open>udp_new\<close> gave and that were not
  removed, between datagrams that are delivered and other work of the stack.\<close>

definition udp_start :: "'a udp_scheme \<Rightarrow> bool" where
  "udp_start s \<longleftrightarrow> udp_tab s = Map.empty \<and> udp_pcbs s = NULL \<and> udp_port s = UDP_LOCAL_PORT_RANGE_START \<and> (\<exists>R. net_ok (nt s) R)"

inductive udp_reach :: "'a udp_scheme \<Rightarrow> bool" where
  start: "udp_start s \<Longrightarrow> udp_reach s"
| new: "udp_reach s \<Longrightarrow> udp_new s = (s', pcb) \<Longrightarrow> udp_reach s'"
| bind: "udp_reach s \<Longrightarrow> pcb \<in> dom (udp_tab s) \<Longrightarrow> udp_bind pcb a port s = Some (s', e) \<Longrightarrow> udp_reach s'"
| connect: "udp_reach s \<Longrightarrow> pcb \<in> dom (udp_tab s) \<Longrightarrow> udp_connect pcb a port s = Some (s', e) \<Longrightarrow> udp_reach s'"
| disconnect: "udp_reach s \<Longrightarrow> pcb \<in> dom (udp_tab s) \<Longrightarrow> udp_disconnect pcb s = Some s' \<Longrightarrow> udp_reach s'"
| recv: "udp_reach s \<Longrightarrow> pcb \<in> dom (udp_tab s) \<Longrightarrow> udp_recv pcb f x s = Some s' \<Longrightarrow> udp_reach s'"
| remove: "udp_reach s \<Longrightarrow> pcb \<in> dom (udp_tab s) \<Longrightarrow> udp_remove pcb s = Some s' \<Longrightarrow> udp_reach s'"
| demux: "udp_reach s \<Longrightarrow> udp_demux br nm di d si sr s = Some (s', r) \<Longrightarrow> udp_reach s'"
| other: "udp_reach s \<Longrightarrow> udp_tab s' = udp_tab s \<Longrightarrow> udp_pcbs s' = udp_pcbs s \<Longrightarrow> udp_port s' = udp_port s \<Longrightarrow> net_ok (nt s') R \<Longrightarrow>
    \<forall>p. aux_block (nt s) MEMP_UDP_PCB p \<longrightarrow> aux_block (nt s') MEMP_UDP_PCB p \<Longrightarrow> udp_reach s'"

lemma udp_start_inv: "udp_start s \<Longrightarrow> udp_inv s"
  unfolding udp_inv_def udp_start_def udp_blocks_def udp_list_def by (intro conjI exI [of _ "[]"]) (auto simp: exclusive_def binding_def)

lemma udp_disconnect_inv: "udp_inv s \<Longrightarrow> pcb \<in> dom (udp_tab s) \<Longrightarrow> \<exists>s'. udp_disconnect pcb s = Some s' \<and> udp_inv s'"
  unfolding udp_disconnect_def dom_def mem_Collect_eq by (elim exE not_None_eq [THEN iffD1, THEN exE], rule upd_udp_inv) simp_all

lemma udp_recv_inv: "udp_inv s \<Longrightarrow> pcb \<in> dom (udp_tab s) \<Longrightarrow> \<exists>s'. udp_recv pcb f x s = Some s' \<and> udp_inv s'"
  unfolding udp_recv_def dom_def mem_Collect_eq by (elim exE not_None_eq [THEN iffD1, THEN exE], rule upd_udp_inv) simp_all

lemma udp_reach_inv: "udp_reach s \<Longrightarrow> udp_inv s"
proof (induction rule: udp_reach.induct)
  case (other s s' R)
  then show ?case by (auto simp: udp_inv_def udp_blocks_def udp_list_def)
next
  case (new s s' pcb)
  then show ?case using udp_new_inv [of s] by simp
next
  case (bind s pcb a port s' e)
  then show ?case using udp_bind_inv [of s pcb a port] by auto
next
  case (connect s pcb a port s' e)
  then show ?case using udp_connect_inv [of s pcb a port] by auto
next
  case (disconnect s pcb s')
  then show ?case using udp_disconnect_inv [of s pcb] by auto
next
  case (recv s pcb f x s')
  then show ?case using udp_recv_inv [of s pcb f x] by auto
next
  case (remove s pcb s')
  then show ?case using udp_remove_inv [of s pcb] by auto
next
  case (demux s br nm di d si sr s' r)
  then show ?case using udp_demux_inv [of s br nm di d si sr] by auto
qed (rule udp_start_inv)

lemma udp_bind_result:
  assumes "udp_inv s" "udp_tab s pcb = Some c"
  shows "if port \<noteq> 0 \<and> (\<exists>q d. q \<noteq> pcb \<and> udp_tab s q = Some d \<and> competes a port d) then udp_bind pcb a port s = Some (s, ERR_USE)
    else \<exists>s' c'. udp_bind pcb a port s = Some (s', ERR_OK) \<and> udp_inv s' \<and> udp_tab s' pcb = Some c' \<and> local_ip c' = a \<and>
      (if port = 0 then local_port c' \<noteq> 0 \<and> (\<forall>q d. udp_tab s q = Some d \<longrightarrow> local_port d \<noteq> local_port c') else local_port c' = port) \<and> (\<forall>q. q \<noteq> pcb \<longrightarrow> udp_tab s' q = udp_tab s q)"
proof -
  obtain qs where q: "udp_list s qs" "udp_blocks s" using assms(1) by (auto simp: udp_inv_def)
  note D = udp_listD [OF q(1)]
  have "(\<exists>q\<in>set qs. q \<noteq> pcb \<and> rivals (a, port) (the (binding (udp_tab s) q))) \<longleftrightarrow> port \<noteq> 0 \<and> (\<exists>q d. q \<noteq> pcb \<and> udp_tab s q = Some d \<and> competes a port d)"
    (is "?l \<longleftrightarrow> ?r")
  proof
    assume ?l
    then obtain q where x: "q \<in> set qs" "q \<noteq> pcb" "rivals (a, port) (the (binding (udp_tab s) q))" by blast
    then obtain d where d: "udp_tab s q = Some d" using pcb_chain_dom [OF D(1)] by blast
    then have "competes a port d" "local_port d \<noteq> 0" using x competes_rivals [of "udp_tab s" q d a port] D(5) by auto
    then show ?r using x d by (auto simp: competes_def)
  next
    assume r: ?r
    then obtain q d where x: "q \<noteq> pcb" "udp_tab s q = Some d" "competes a port d" by blast
    then have "q \<in> set qs" using r D(5) [of q d] by (simp add: competes_def)
    then show ?l using x competes_rivals [of "udp_tab s" q d a port] by auto
  qed
  note e = this
  show ?thesis
  proof (cases ?r)
    case True
    then show ?thesis using udp_bind_ok [OF q assms(2), of a port] unfolding e by simp
  next
    case False
    then obtain b k where b: "udp_bind pcb a port s = Some (bound_to pcb c qs b k s, ERR_OK)" "fst b = a" "if port = 0 then snd b \<noteq> 0 \<and> (\<forall>q\<in>set qs. local_port (the (udp_tab s q)) \<noteq> snd b) else snd b = port"
      "udp_list (bound_to pcb c qs b k s) (if pcb \<in> set qs then qs else pcb # qs)" "udp_blocks (bound_to pcb c qs b k s)"
      using udp_bind_ok [OF q assms(2), of a port] unfolding e if_not_P [OF False] by blast
    have "local_port d \<noteq> snd b" if "port = 0" "udp_tab s q = Some d" for q d using D(5) [OF that(2)] b(3) that by force
    moreover have "udp_inv (bound_to pcb c qs b k s)" using b(4,5) unfolding udp_inv_def by blast
    ultimately show ?thesis unfolding if_not_P [OF False] using b(1-3)
      by (intro exI [of _ "bound_to pcb c qs b k s"] exI [of _ "the (udp_tab (bound_to pcb c qs b k s) pcb)"]) (simp add: bound_to_def)
  qed
qed

lemma udp_inv_exclusive:
  assumes "udp_inv s" "udp_tab s p = Some c" "udp_tab s q = Some d" "p \<noteq> q" "local_port c = local_port d" "local_port c \<noteq> 0"
  shows "local_ip c \<noteq> IPADDR_ANY \<and> local_ip d \<noteq> IPADDR_ANY \<and> local_ip c \<noteq> local_ip d"
proof -
  obtain qs where qs: "udp_list s qs" using assms(1) by (auto simp: udp_inv_def)
  note D = udp_listD [OF qs]
  have "p \<in> set qs" "q \<in> set qs" using D(5) assms(2,3,5,6) by auto
  moreover have "binding (udp_tab s) p = Some (local_ip c, local_port c)" "binding (udp_tab s) q = Some (local_ip d, local_port d)" using assms(2,3) by (simp_all add: binding_def)
  ultimately have "\<not> rivals (local_ip c, local_port c) (local_ip d, local_port d)" using D(4) assms(4) unfolding exclusive_def by blast
  then show ?thesis using assms(5) by (simp add: rivals_def)
qed

text \<open>C6: In every state the application reaches, no two control blocks bound to the same port have the same address, and neither is bound
  to every address.  A call returns for each control block in use: binding fails exactly if another block has the asked address and
  port, and then changes nothing; otherwise the block is bound to them, or to a port that no block has if none was asked for, and the
  other blocks stay as they are.\<close>

theorem udp_ports_exclusive:
  assumes "udp_reach s" "udp_tab s pcb = Some c"
  shows "(\<forall>q d. udp_tab s q = Some d \<and> q \<noteq> pcb \<and> local_port c = local_port d \<and> local_port c \<noteq> 0 \<longrightarrow>
      local_ip c \<noteq> IPADDR_ANY \<and> local_ip d \<noteq> IPADDR_ANY \<and> local_ip c \<noteq> local_ip d) \<and>
    (if port \<noteq> 0 \<and> (\<exists>q d. q \<noteq> pcb \<and> udp_tab s q = Some d \<and> local_port d = port \<and> (local_ip d = IPADDR_ANY \<or> a = IPADDR_ANY \<or> local_ip d = a))
     then udp_bind pcb a port s = Some (s, ERR_USE)
     else \<exists>s' c'. udp_bind pcb a port s = Some (s', ERR_OK) \<and> udp_reach s' \<and> udp_tab s' pcb = Some c' \<and> local_ip c' = a \<and>
       (if port = 0 then local_port c' \<noteq> 0 \<and> (\<forall>q d. udp_tab s q = Some d \<longrightarrow> local_port d \<noteq> local_port c') else local_port c' = port) \<and>
       (\<forall>q. q \<noteq> pcb \<longrightarrow> udp_tab s' q = udp_tab s q)) \<and>
    (\<exists>s' e. udp_connect pcb a port s = Some (s', e) \<and> udp_reach s') \<and>
    (\<exists>s'. udp_disconnect pcb s = Some s' \<and> udp_reach s') \<and> (\<exists>s'. udp_recv pcb f x s = Some s' \<and> udp_reach s') \<and>
    (\<exists>s'. udp_remove pcb s = Some s' \<and> udp_reach s')"
proof (intro conjI)
  have I: "udp_inv s" and d: "pcb \<in> dom (udp_tab s)" using udp_reach_inv assms by auto
  show "\<forall>q d. udp_tab s q = Some d \<and> q \<noteq> pcb \<and> local_port c = local_port d \<and> local_port c \<noteq> 0 \<longrightarrow>
      local_ip c \<noteq> IPADDR_ANY \<and> local_ip d \<noteq> IPADDR_ANY \<and> local_ip c \<noteq> local_ip d" using udp_inv_exclusive [OF I assms(2)] by blast
  show "\<exists>s' e. udp_connect pcb a port s = Some (s', e) \<and> udp_reach s'" using udp_connect_inv [OF I d] udp_reach.connect [OF assms(1) d] by blast
  show "\<exists>s'. udp_disconnect pcb s = Some s' \<and> udp_reach s'" using udp_disconnect_inv [OF I d] udp_reach.disconnect [OF assms(1) d] by blast
  show "\<exists>s'. udp_recv pcb f x s = Some s' \<and> udp_reach s'" using udp_recv_inv [OF I d] udp_reach.recv [OF assms(1) d] by blast
  show "\<exists>s'. udp_remove pcb s = Some s' \<and> udp_reach s'" using udp_remove_inv [OF I d] udp_reach.remove [OF assms(1) d] by blast
  show "if port \<noteq> 0 \<and> (\<exists>q d. q \<noteq> pcb \<and> udp_tab s q = Some d \<and> local_port d = port \<and> (local_ip d = IPADDR_ANY \<or> a = IPADDR_ANY \<or> local_ip d = a))
     then udp_bind pcb a port s = Some (s, ERR_USE)
     else \<exists>s' c'. udp_bind pcb a port s = Some (s', ERR_OK) \<and> udp_reach s' \<and> udp_tab s' pcb = Some c' \<and> local_ip c' = a \<and>
       (if port = 0 then local_port c' \<noteq> 0 \<and> (\<forall>q d. udp_tab s q = Some d \<longrightarrow> local_port d \<noteq> local_port c') else local_port c' = port) \<and>
       (\<forall>q. q \<noteq> pcb \<longrightarrow> udp_tab s' q = udp_tab s q)" (is "if ?r then _ else _")
  proof (cases ?r)
    case True
    then show ?thesis using udp_bind_result [OF I assms(2), of port a] unfolding competes_def by simp
  next
    case False
    then have "port \<noteq> 0 \<and> (\<exists>q d. q \<noteq> pcb \<and> udp_tab s q = Some d \<and> competes a port d) \<longleftrightarrow> False" unfolding competes_def by blast
    then show ?thesis unfolding if_not_P [OF False] using udp_bind_result [OF I assms(2), of port a] udp_reach.bind [OF assms(1) d, of a port]
      by (simp only: if_False) blast
  qed
qed

text \<open>A state with one control block.\<close>

lemma demo_udp:
  obtains s :: udp and pcb c where "udp_reach s" "udp_tab s = [pcb \<mapsto> c]" "local_port c = 0" "udp_flags c = 0"
proof -
  let ?n = "net_start 1000 100000 (\<lambda>_. 20)"
  define s :: udp where "s = \<lparr>nt = ?n, netifs = (\<lambda>_. demo_if), netif_list = 1, netif_default = 1, netif_num = 1, tx_frames = [], tx_done = (\<lambda>_. True),
     arp_table = replicate ARP_TABLE_SIZE empty_entry, etharp_cached_entry = 0,
     ip_id = 0, current_netif = NULL, current_header = NULL, current_iphdr_src = 0, current_iphdr_dest = 0,
     reassdata = Map.empty, reassdatagrams = NULL, ip_reass_pbufcount = 0, raw_tab = Map.empty, raw_pcbs = NULL,
     udp_tab = Map.empty, udp_pcbs = NULL, udp_port = UDP_LOCAL_PORT_RANGE_START\<rparr>"
  have "net_inv ?n {#}" by (rule net_start_inv) (simp_all add: MEM_SIZE_ALIGNED_def)
  then have "net_ok ?n {#}" by (simp add: net_ok_def)
  then have r: "udp_reach s" by (intro udp_reach.start) (auto simp: udp_start_def s_def)
  have p: "pools (nt s) = memp_init (memp_static 100000 (\<lambda>_. 20))" by (simp add: s_def net_start_def)
  have "memp_free_list (pools (nt s)) MEMP_UDP_PCB \<noteq> []" unfolding p using memp_static_init(3) [of 100000 "\<lambda>_. 20" MEMP_UDP_PCB] by auto
  then obtain pl pcb where m: "memp_malloc MEMP_UDP_PCB (pools (nt s)) = (pl, pcb)" "pcb \<noteq> NULL"
    using memp_malloc_live [of "pools (nt s)" MEMP_UDP_PCB] memp_static_init(1) [of 100000 "\<lambda>_. 20"] unfolding p by auto
  have "udp_tab s = Map.empty" by (simp add: s_def)
  then show thesis using m by (intro that [OF udp_reach.new [OF r prod.collapse [symmetric]]]) (auto simp: udp_new_def upd_pools_def)
qed

theorem udp_ports_exclusive_witness:
  "\<exists>(s :: udp) pcb s' c'. udp_reach s \<and> udp_bind pcb IPADDR_ANY 7 s = Some (s', ERR_OK) \<and> udp_tab s' pcb = Some c' \<and> local_port c' = 7"
proof -
  obtain s :: udp and pcb c where s: "udp_reach s" "udp_tab s = [pcb \<mapsto> c]" by (rule demo_udp)
  then have c: "udp_tab s pcb = Some c" by simp
  have n: "\<not> ((7 :: u16) \<noteq> 0 \<and> (\<exists>q d. q \<noteq> pcb \<and> udp_tab s q = Some d \<and> local_port d = 7 \<and> (local_ip d = IPADDR_ANY \<or> IPADDR_ANY = IPADDR_ANY \<or> local_ip d = IPADDR_ANY)))"
    using s(2) by auto
  have "(7 :: u16) \<noteq> 0" by simp
  then show ?thesis using udp_ports_exclusive [OF s(1) c, where port = 7 and a = IPADDR_ANY, THEN conjunct2, THEN conjunct1, unfolded if_not_P [OF n]] s(1)
    by (simp only: if_False) blast
qed

text \<open>C40: Delivery.  In every state the application reaches, the search for the receiver of a datagram to one host returns and changes only
  the order of the list.  It finds the control block bound to the port and to the address or to every address, whatever the order of
  the list, provided that the block is not connected or is connected to the sender; if there is none, it finds nothing.\<close>

theorem udp_demux_unicast:
  assumes "udp_reach s" "dest \<noteq> 0"
  shows "\<exists>s' r. udp_demux False nmask dest_ip dest src_ip src s = Some (s', r) \<and> udp_reach s' \<and>
    (\<forall>q. map_option (udp_next_update (\<lambda>_. NULL)) (udp_tab s' q) = map_option (udp_next_update (\<lambda>_. NULL)) (udp_tab s q)) \<and>
    (\<forall>q c. udp_tab s q = Some c \<and> local_port c = dest \<and> (local_ip c = IPADDR_ANY \<or> local_ip c = dest_ip) \<longrightarrow>
       r = (if udp_flags c AND UDP_FLAGS_CONNECTED = 0 \<or> remote_port c = src \<and> (remote_ip c = IPADDR_ANY \<or> remote_ip c = src_ip) then q else NULL)) \<and>
    ((\<forall>q c. udp_tab s q = Some c \<longrightarrow> \<not> (local_port c = dest \<and> (local_ip c = IPADDR_ANY \<or> local_ip c = dest_ip))) \<longrightarrow> r = NULL)"
proof -
  obtain qs where qs: "udp_list s qs" using udp_reach_inv [OF assms(1)] by (auto simp: udp_inv_def)
  let ?r = "chosen (udp_local_match False nmask dest_ip dest) (udp_remote_match src_ip src) (udp_tab s) qs"
  obtain s' where s': "udp_demux False nmask dest_ip dest src_ip src s = Some (s', ?r)"
    "\<forall>q. map_option (udp_next_update (\<lambda>_. NULL)) (udp_tab s' q) = map_option (udp_next_update (\<lambda>_. NULL)) (udp_tab s q)"
    using udp_demux_list [OF qs, of False nmask dest_ip dest src_ip src] by blast
  have "?r = (if udp_flags c AND UDP_FLAGS_CONNECTED = 0 \<or> remote_port c = src \<and> (remote_ip c = IPADDR_ANY \<or> remote_ip c = src_ip) then q else NULL)"
    if "udp_tab s q = Some c \<and> local_port c = dest \<and> (local_ip c = IPADDR_ANY \<or> local_ip c = dest_ip)" for q c
  proof -
    have l: "udp_local_match False nmask dest_ip dest c" "udp_tab s q = Some c" using that by (auto simp: udp_local_match_def)
    from chosen_unicast [OF qs udp_local_match_bound [OF qs assms(2) l(2,1)] l(2,1), of "udp_remote_match src_ip src"]
    show ?thesis by (simp only: udp_remote_match_def disj_commute)
  qed
  moreover have "?r = NULL" if n: "\<forall>q c. udp_tab s q = Some c \<longrightarrow> \<not> (local_port c = dest \<and> (local_ip c = IPADDR_ANY \<or> local_ip c = dest_ip))"
  proof (rule chosen_none)
    fix q assume "q \<in> set qs"
    then obtain c where "udp_tab s q = Some c" using pcb_chain_dom [OF udp_listD(1) [OF qs]] by blast
    then show "\<not> udp_local_match False nmask dest_ip dest (the (udp_tab s q))" using n by (auto simp: udp_local_match_def)
  qed
  ultimately show ?thesis using s' udp_reach.demux [OF assms(1) s'(1)] by blast
qed

theorem udp_demux_unicast_witness:
  "\<exists>(s :: udp) s' pcb. udp_reach s \<and> dom (udp_tab s) = {pcb} \<and> udp_demux False 0x00ffffff 0x0a00a8c0 7 0x0b00a8c0 1000 s = Some (s', pcb)"
proof -
  obtain s :: udp and pcb c where s: "udp_reach s" "udp_tab s = [pcb \<mapsto> c]" "udp_flags c = 0" "local_port c = 0" by (rule demo_udp)
  have c: "udp_tab s pcb = Some c" using s(2) by simp
  obtain qs where qs: "udp_list s qs" "udp_blocks s" using udp_reach_inv [OF s(1)] by (auto simp: udp_inv_def)
  have "\<not> (\<exists>q\<in>set qs. q \<noteq> pcb \<and> rivals (IPADDR_ANY, 7) (the (binding (udp_tab s) q)))" 
    using pcb_chain_dom [OF udp_listD(1) [OF qs(1)]] s(2) by (metis fun_upd_apply option.distinct(1))
  from udp_bind_ok [OF qs c, of IPADDR_ANY 7, unfolded if_not_P [OF this]]
  obtain k where "udp_bind pcb IPADDR_ANY 7 s = Some (bound_to pcb c qs (IPADDR_ANY, 7) k s, ERR_OK)" by auto
  then have "\<exists>s' c'. udp_bind pcb IPADDR_ANY 7 s = Some (s', ERR_OK) \<and> udp_tab s' = [pcb \<mapsto> c'] \<and> local_ip c' = IPADDR_ANY \<and> local_port c' = 7 \<and> udp_flags c' = 0"
    using s(2,3) by (intro exI [of _ "bound_to pcb c qs (IPADDR_ANY, 7) k s"] exI [of _ "the (udp_tab (bound_to pcb c qs (IPADDR_ANY, 7) k s) pcb)"]) (simp add: bound_to_def)
  then obtain s' c' where b: "udp_bind pcb IPADDR_ANY 7 s = Some (s', ERR_OK)" "udp_tab s' = [pcb \<mapsto> c']" "local_ip c' = IPADDR_ANY" "local_port c' = 7" "udp_flags c' = 0" by blast
  have r: "udp_reach s'" using udp_reach.bind [OF s(1) _ b(1)] s(2) by simp
  obtain t q where d: "udp_demux False 0x00ffffff 0x0a00a8c0 7 0x0b00a8c0 1000 s' = Some (t, q)"
    "\<forall>p c. udp_tab s' p = Some c \<and> local_port c = 7 \<and> (local_ip c = IPADDR_ANY \<or> local_ip c = 0x0a00a8c0) \<longrightarrow>
       q = (if udp_flags c AND UDP_FLAGS_CONNECTED = 0 \<or> remote_port c = 1000 \<and> (remote_ip c = IPADDR_ANY \<or> remote_ip c = 0x0b00a8c0) then p else NULL)"
    using udp_demux_unicast [OF r, of 7 "0x00ffffff" "0x0a00a8c0" "0x0b00a8c0" 1000] by auto
  have "q = pcb" using d(2) [rule_format, of pcb c'] b(2-5) by simp
  then show ?thesis using d(1) r b(2) by (intro exI [of _ s'] exI [of _ t] exI [of _ pcb]) simp
qed

end
