(* ===== verification/Spec2Isabelle.thy ===== *)
theory Spec2Isabelle
  imports Pqueue Icmp_Echo Ip_Input Udp_Ports
begin

text \<open>
  The firmware of the picorv32 Ethernet system: the lwIP 1.4.1 TCP/IP stack with its RISC-V port, as the Makefile builds it
  (\<^verbatim>\<open>src/firmware/lwip141\<close>, single-threaded, little-endian, configured by
  \<^verbatim>\<open>ports/riscv/include/arch/lwipopts.h\<close>), and the firmware's own library functions.

  \<^bold>\<open>Parts and how they interact.\<close>  The driver receives Ethernet frames by DMA into buffers of a pool and hands them to
  \<open>ethernet_input\<close>, which gives them to ARP or IP; IP gives datagrams to raw sockets, ICMP, UDP or TCP, after reassembly if
  they are fragments.  In the other direction the protocols hand packets to IP, which routes them, writes the header, cuts them if
  need be and passes them to ARP; ARP sends them to the link, or queues them until the address is resolved.  All packets are
  chains of packet buffers with reference counts, which come from the heap or from fixed-size pools.

  \<^bold>\<open>State.\<close>  Pointers are natural numbers with \<open>NULL = 0\<close>.  A call that faults or does not return is \<open>None\<close>; loops over
  pointers are \<open>partial_function (option)\<close>, so that returning is part of what is proved and no fuel is needed.  16-bit fields are
  naturals with the wrap-around written out (\<open>to_u16\<close>, \<open>to_u8\<close>, \<open>usub\<close>) or words.  The records extend each other:
  \<open>net\<close> (heap, pools, buffers, bytes of memory), \<open>lwip\<close> (interfaces and transmitted frames), \<open>arp\<close>, \<open>ip\<close>, \<open>raw\<close>, \<open>udp\<close>;
  an operation of a lower layer is written for every extension of its state.

  \<^bold>\<open>Theories.\<close>
  \<^item> \<open>Lwip_Prelude\<close>: types, error codes and facts on words shared by all.
  \<^item> \<open>Pqueue\<close> (\<^verbatim>\<open>ports/riscv/netif/pqueue.c\<close>): the ring buffer between interrupt and main loop; it refines a
    bounded first-in first-out list.
  \<^item> \<open>Allocator\<close>: the contract of a memory allocator as a locale and what its clients may rely on; interpreted by the heap and by
    the pools.
  \<^item> \<open>Mem_Heap\<close> (\<^verbatim>\<open>core/mem.c\<close>) and \<open>Memp\<close> (\<^verbatim>\<open>core/memp.c\<close>): live regions are disjoint, freeing merges,
    failure exactly when nothing fits.
  \<^item> \<open>Mylib\<close> (\<^verbatim>\<open>mylib.c\<close>): string and memory functions; the word-at-a-time versions agree with the byte-wise ones.
  \<^item> \<open>Pbuf\<close> (\<^verbatim>\<open>core/pbuf.c\<close>) with \<open>Pbuf_Refs\<close>, \<open>Pbuf_Ops\<close>, \<open>Pbuf_Safety\<close>, \<open>Pbuf_Data\<close>, \<open>Held\<close>: reference
    counts are exact in every reachable state, each operation does what its comment says, data is copied faithfully.
  \<^item> \<open>Inet_Chksum\<close> (\<^verbatim>\<open>core/ipv4/inet_chksum.c\<close>) and \<open>Ip_Addr\<close> (\<^verbatim>\<open>core/ipv4/ip_addr.c\<close>): the three checksum
    routines compute the one's complement sum; printing and parsing of addresses.
  \<^item> \<open>Link\<close> (\<^verbatim>\<open>lwip/netif.h\<close>, sending in \<^verbatim>\<open>netif/riscvnetif.c\<close>).
  \<^item> \<open>Etharp\<close> (\<^verbatim>\<open>netif/etharp.c\<close>) with \<open>Etharp_Inv\<close>, \<open>Etharp_Ops\<close>, \<open>Etharp_Spec\<close>: the table keeps its packets in
    every reachable state, refines a partial map, expires entries, and answers requests.
  \<^item> \<open>Ip\<close> (\<^verbatim>\<open>core/ipv4/ip.c\<close>, fragmentation in \<^verbatim>\<open>core/ipv4/ip_frag.c\<close>) with \<open>Ip_Hdr\<close>, \<open>Ip_Frag\<close>,
    \<open>Ip_Out\<close>: sending always returns with all references accounted for; the frame has the right header.
  \<^item> \<open>Icmp\<close> (\<^verbatim>\<open>core/ipv4/icmp.c\<close>) with \<open>Icmp_Spec\<close>, \<open>Icmp_Echo\<close>: every message is consumed; echo requests are answered.
  \<^item> \<open>Reass\<close> (reassembly in \<^verbatim>\<open>core/ipv4/ip_frag.c\<close>), \<open>Raw\<close> (\<^verbatim>\<open>core/raw.c\<close>), \<open>Udp\<close>
    (\<^verbatim>\<open>core/udp.c\<close>) and \<open>Ip_Input\<close> (\<open>ip_input\<close>, \<open>ethernet_input\<close>): the receiving side.
  \<^item> \<open>Udp_Ports\<close>: the control blocks of UDP in every state the application reaches: no two are bound to the same address and port,
    every call returns, and a datagram for one host has at most one receiver.

  \<^bold>\<open>Parameters and hypotheses.\<close>  The transmitter is modelled by \<open>tx_done\<close>, which says whether it finishes the \<open>n\<close>-th block;
  theorems about sending assume that it finishes all.  Callbacks of applications and \<open>tcp_input\<close> are arguments of the input
  functions.  Where packets are sent the interfaces have an MTU between 28 and 65442 and a hardware address of 6 bytes (the port
  sets 536), and no buffer is held more than 40000 times, far below the 16-bit limit of the reference count.

  \<^bold>\<open>Not modelled.\<close>  TCP and the echo application above it: state machine, queues and timers of TCP are as large as all
  the rest, and a part of them without the others would not be faithful.  Interface set-up, the receiving half of the driver and the
  interrupt handler, which exchange buffers with the DMA engine through registers whose behaviour is fixed by the Verilog sources.
  Formatted output, start-up code, hardware, and the parts of lwIP that are not built.
\<close>

end
